(* ===== verification/Go_Prelude.thy ===== *)
theory Go_Prelude
  imports Complex_Main "HOL-Library.List_Lexorder" "HOL-Library.Char_ord"
begin

text \<open>
  Shared vocabulary of the development: Go's dynamic values as a datatype, Go maps as
  association lists with the list order standing for one (arbitrary) iteration order of
  \<^verbatim>\<open>range\<close>, the parts of the packages \<^verbatim>\<open>strings\<close> and \<^verbatim>\<open>fmt\<close> that the sources call, and
  the generic lemmas on lists, options and association lists that the components use.
\<close>

named_theorems go_map "lookup laws of the association lists that stand for Go maps"
named_theorems go_str "laws of the string operations"

section \<open>Floating-point values\<close>

text \<open>
  A \<^verbatim>\<open>float64\<close> is a finite rational value, an infinity or NaN. Only comparisons are used by
  the modelled code, never arithmetic that rounds; the two zeros are one value.
\<close>

datatype f64 = Fin rat | PosInf | NegInf | NaN

fun f_eq :: "f64 \<Rightarrow> f64 \<Rightarrow> bool" where
  "f_eq (Fin a) (Fin b) = (a = b)"
| "f_eq PosInf PosInf = True"
| "f_eq NegInf NegInf = True"
| "f_eq _ _ = False"

fun f_less :: "f64 \<Rightarrow> f64 \<Rightarrow> bool" where
  "f_less (Fin a) (Fin b) = (a < b)"
| "f_less NegInf (Fin _) = True"
| "f_less NegInf PosInf = True"
| "f_less (Fin _) PosInf = True"
| "f_less _ _ = False"

definition f_le :: "f64 \<Rightarrow> f64 \<Rightarrow> bool" where
  "f_le a b = (f_less a b \<or> f_eq a b)"

text \<open>Conversion of a finite \<^verbatim>\<open>float64\<close> to an integer type truncates towards zero.\<close>

definition trunc_rat :: "rat \<Rightarrow> int" where
  "trunc_rat r = (if r < 0 then - \<lfloor>- r\<rfloor> else \<lfloor>r\<rfloor>)"

fun f_trunc :: "f64 \<Rightarrow> int" where
  "f_trunc (Fin r) = trunc_rat r"
| "f_trunc _ = 0"

section \<open>Machine integers\<close>

text \<open>The value of a 64-bit signed integer expression: two's complement wrap-around.\<close>

definition i64 :: "int \<Rightarrow> int" where
  "i64 x = (x + 2 ^ 63) mod 2 ^ 64 - 2 ^ 63"

lemma i64_range: "- (2 ^ 63) \<le> i64 x" "i64 x < 2 ^ 63"
  using pos_mod_sign[of "2 ^ 64" "x + 2 ^ 63"] pos_mod_bound[of "2 ^ 64" "x + 2 ^ 63"]
  by (simp_all add: i64_def)

lemma i64_id: "- (2 ^ 63) \<le> x \<Longrightarrow> x < 2 ^ 63 \<Longrightarrow> i64 x = x"
  by (simp add: i64_def)

section \<open>Dynamic values\<close>

text \<open>
  \<^verbatim>\<open>interface{}\<close> as JSON and MessagePack decoders produce it. \<^verbatim>\<open>VMap\<close> is a
  \<^verbatim>\<open>map[string]any\<close>: at most one entry per key.
\<close>

datatype goval =
    VNil
  | VBool bool
  | VInt int
  | VInt64 int
  | VUint64 int
  | VFloat f64
  | VStr string
  | VList "goval list"
  | VMap "(string \<times> goval) list"

type_synonym gomap = "(string \<times> goval) list"

fun as_str :: "goval \<Rightarrow> string option" where
  "as_str (VStr s) = Some s"
| "as_str _ = None"

fun as_bool :: "goval \<Rightarrow> bool option" where
  "as_bool (VBool b) = Some b"
| "as_bool _ = None"

fun as_float :: "goval \<Rightarrow> f64 option" where
  "as_float (VFloat f) = Some f"
| "as_float _ = None"

fun as_list :: "goval \<Rightarrow> goval list option" where
  "as_list (VList l) = Some l"
| "as_list _ = None"

fun as_map :: "goval \<Rightarrow> gomap option" where
  "as_map (VMap m) = Some m"
| "as_map _ = None"

lemma as_str_Some [simp]: "as_str v = Some s \<longleftrightarrow> v = VStr s"
  by (cases v) auto

lemma as_map_Some [simp]: "as_map v = Some m \<longleftrightarrow> v = VMap m"
  by (cases v) auto

lemma as_list_Some [simp]: "as_list v = Some l \<longleftrightarrow> v = VList l"
  by (cases v) auto

text \<open>\<open>m[k]\<close> in Go: the zero value where the key is absent.\<close>

definition mget :: "gomap \<Rightarrow> string \<Rightarrow> goval" where
  "mget m k = (case map_of m k of None \<Rightarrow> VNil | Some v \<Rightarrow> v)"

text \<open>\<open>s, _ := m[k].(string)\<close>: the empty string where the entry is absent or no string.\<close>

definition mget_str :: "gomap \<Rightarrow> string \<Rightarrow> string" where
  "mget_str m k = (case as_str (mget m k) of None \<Rightarrow> [] | Some s \<Rightarrow> s)"

text \<open>The parts of a value are smaller, for functions that walk decoded JSON.\<close>

lemma size_mget: "size (mget m k) < size (VMap m)"
proof (cases "map_of m k")
  case (Some v)
  then have "(k, v) \<in> set m" by (rule map_of_SomeD)
  then have "size v \<le> size_list (size_prod (\<lambda>_. 0) size) m"
    by (rule size_list_estimation') simp
  with Some show ?thesis by (simp add: mget_def)
qed (simp add: mget_def)

lemma size_list_item: "v \<in> set xs \<Longrightarrow> size v < size (VList xs)"
  using size_list_estimation'[of v xs "size v" size] by simp

section \<open>Go maps\<close>

text \<open>Assignment \<open>m[k] = v\<close>, \<open>delete(m, k)\<close> and the copy loop that overlays one map on another.\<close>

fun mput :: "'k \<Rightarrow> 'v \<Rightarrow> ('k \<times> 'v) list \<Rightarrow> ('k \<times> 'v) list" where
  "mput k v [] = [(k, v)]"
| "mput k v ((k', v') # m) = (if k' = k then (k, v) # m else (k', v') # mput k v m)"

definition mdel :: "'k \<Rightarrow> ('k \<times> 'v) list \<Rightarrow> ('k \<times> 'v) list" where
  "mdel k m = filter (\<lambda>(k', _). k' \<noteq> k) m"

fun moverlay :: "('k \<times> 'v) list \<Rightarrow> ('k \<times> 'v) list \<Rightarrow> ('k \<times> 'v) list" where
  "moverlay m [] = m"
| "moverlay m ((k, v) # kvs) = moverlay (mput k v m) kvs"

abbreviation mkeys :: "('k \<times> 'v) list \<Rightarrow> 'k list" where
  "mkeys m \<equiv> map fst m"

abbreviation wf_map :: "('k \<times> 'v) list \<Rightarrow> bool" where
  "wf_map m \<equiv> distinct (map fst m)"

lemma map_of_mput [simp, go_map]: "map_of (mput k v m) = (map_of m)(k \<mapsto> v)"
  by (induction m) (auto simp: fun_eq_iff)

lemma set_mkeys_mput [simp, go_map]: "fst ` set (mput k v m) = insert k (fst ` set m)"
  by (induction k v m rule: mput.induct) (simp_all add: insert_commute)

lemma wf_map_mput [simp, go_map]: "wf_map m \<Longrightarrow> wf_map (mput k v m)"
  by (induction m) auto

lemma map_of_mdel [simp, go_map]: "map_of (mdel k m) = (map_of m)(k := None)"
  by (induction m) (auto simp: mdel_def fun_eq_iff)

lemma set_mkeys_mdel [simp, go_map]: "fst ` set (mdel k m) = fst ` set m - {k}"
  by (auto simp: mdel_def)

lemma wf_map_mdel [simp, go_map]: "wf_map m \<Longrightarrow> wf_map (mdel k m)"
  unfolding mdel_def by (induction m) auto

lemma length_mput:
  "length (mput k v m) = (if k \<in> fst ` set m then length m else Suc (length m))"
  by (induction k v m rule: mput.induct) simp_all

lemma length_mdel_le: "length (mdel k m) \<le> length m"
  by (simp add: mdel_def)

lemma wf_map_moverlay [simp, go_map]: "wf_map m \<Longrightarrow> wf_map (moverlay m kvs)"
  by (induction m kvs rule: moverlay.induct) auto

lemma map_of_moverlay [simp, go_map]:
  "wf_map kvs \<Longrightarrow> map_of (moverlay m kvs) = map_of m ++ map_of kvs"
proof (induction m kvs rule: moverlay.induct)
  case (1 m)
  show ?case by simp
next
  case (2 m k v kvs)
  then have "k \<notin> dom (map_of kvs)"
    by (auto simp: dom_map_of_conv_image_fst)
  with 2 show ?case
    by (auto simp: fun_eq_iff map_add_def domIff split: option.splits)
qed

lemma map_of_None_iff [go_map]: "map_of m k = None \<longleftrightarrow> k \<notin> fst ` set m"
  by (rule map_of_eq_None_iff)

section \<open>Strings\<close>

text \<open>\<^verbatim>\<open>strings.Split\<close> with a one-byte separator, and \<^verbatim>\<open>strings.Join\<close>.\<close>

fun split_on :: "char \<Rightarrow> string \<Rightarrow> string list" where
  "split_on c [] = [[]]"
| "split_on c (x # xs) =
     (if x = c then [] # split_on c xs
      else (case split_on c xs of [] \<Rightarrow> [[x]] | y # ys \<Rightarrow> (x # y) # ys))"

fun join_with :: "string \<Rightarrow> string list \<Rightarrow> string" where
  "join_with sep [] = []"
| "join_with sep [s] = s"
| "join_with sep (s # t # ss) = s @ sep @ join_with sep (t # ss)"

definition has_prefix :: "string \<Rightarrow> string \<Rightarrow> bool" where
  "has_prefix s p = (take (length p) s = p)"

text \<open>\<^verbatim>\<open>strings.CutPrefix\<close>: the rest after the prefix, or nothing.\<close>

definition cut_prefix :: "string \<Rightarrow> string \<Rightarrow> string option" where
  "cut_prefix s p = (if has_prefix s p then Some (drop (length p) s) else None)"

fun contains_str :: "string \<Rightarrow> string \<Rightarrow> bool" where
  "contains_str [] sub = (sub = [])"
| "contains_str (x # xs) sub = (has_prefix (x # xs) sub \<or> contains_str xs sub)"

text \<open>\<^verbatim>\<open>strings.ToLower\<close>, for ASCII letters.\<close>

definition lower :: "string \<Rightarrow> string" where
  "lower = map (\<lambda>c. let n = of_char c :: nat in if 65 \<le> n \<and> n \<le> 90 then char_of (n + 32) else c)"

lemma split_on_nonempty [simp, go_str]: "split_on c s \<noteq> []"
  by (induction s) (auto split: list.splits)

lemma split_on_fresh [simp, go_str]: "c \<notin> set s \<Longrightarrow> split_on c s = [s]"
  by (induction s) auto

lemma split_on_append [go_str]:
  "c \<notin> set a \<Longrightarrow> split_on c (a @ c # b) = a # split_on c b"
  by (induction a) auto

lemma join_split_on [simp, go_str]: "join_with [c] (split_on c s) = s"
proof (induction s)
  case Nil
  show ?case by simp
next
  case (Cons x xs)
  obtain y ys where "split_on c xs = y # ys"
    by (cases "split_on c xs") auto
  with Cons show ?case
    by (cases ys) auto
qed

lemma split_on_parts_fresh [go_str]: "p \<in> set (split_on c s) \<Longrightarrow> c \<notin> set p"
proof (induction s arbitrary: p)
  case Nil
  then show ?case by simp
next
  case (Cons x xs)
  obtain y ys where "split_on c xs = y # ys"
    by (cases "split_on c xs") auto
  with Cons.prems Cons.IH show ?case
    by (auto split: if_splits)
qed

lemma has_prefix_append [simp, go_str]: "has_prefix (p @ s) p"
  by (simp add: has_prefix_def)

lemma cut_prefix_Some [go_str]: "cut_prefix s p = Some r \<longleftrightarrow> s = p @ r"
  by (auto simp: cut_prefix_def has_prefix_def) (metis append_take_drop_id)

text \<open>Decimal rendering (\<^verbatim>\<open>%d\<close>).\<close>

definition digit_char :: "nat \<Rightarrow> char" where
  "digit_char d = char_of (48 + d)"

fun show_nat :: "nat \<Rightarrow> string" where
  "show_nat n = (if n < 10 then [digit_char n] else show_nat (n div 10) @ [digit_char (n mod 10)])"

declare show_nat.simps [simp del]

definition show_int :: "int \<Rightarrow> string" where
  "show_int i = (if i < 0 then CHR ''-'' # show_nat (nat (- i)) else show_nat (nat i))"

text \<open>
  \<^verbatim>\<open>fmt.Sprintf("%v", v)\<close>. Map keys are printed in increasing order, as \<^verbatim>\<open>fmt\<close> does; the
  shortest rendering of a \<^verbatim>\<open>float64\<close> is the argument \<open>ff\<close>.
\<close>

fun sprint_v :: "(f64 \<Rightarrow> string) \<Rightarrow> goval \<Rightarrow> string" where
  "sprint_v ff VNil = ''<nil>''"
| "sprint_v ff (VBool b) = (if b then ''true'' else ''false'')"
| "sprint_v ff (VInt i) = show_int i"
| "sprint_v ff (VInt64 i) = show_int i"
| "sprint_v ff (VUint64 i) = show_int i"
| "sprint_v ff (VFloat f) = ff f"
| "sprint_v ff (VStr s) = s"
| "sprint_v ff (VList l) = ''['' @ join_with '' '' (map (sprint_v ff) l) @ '']''"
| "sprint_v ff (VMap m) =
     ''map['' @
     join_with '' '' (map (\<lambda>(k, s). k @ '':'' @ s)
       (sort_key fst (map (\<lambda>(k, v). (k, sprint_v ff v)) m))) @ '']''"

section \<open>Decimal renderings\<close>

text \<open>The digits of a number can be read back, so different numbers have different renderings.\<close>

definition digits_value :: "string \<Rightarrow> nat" where
  "digits_value s = fold (\<lambda>c n. 10 * n + (of_char c - 48)) s 0"

lemma digit_char_value: "d < 10 \<Longrightarrow> (of_char (digit_char d) :: nat) = 48 + d"
  by (simp add: digit_char_def)

lemma digits_value_show: "digits_value (show_nat n) = n"
proof (induction n rule: show_nat.induct)
  case (1 n)
  show ?case
  proof (cases "n < 10")
    case True
    then show ?thesis by (subst show_nat.simps) (simp add: digits_value_def digit_char_value)
  next
    case False
    then have "digits_value (show_nat (n div 10)) = n div 10" by (rule 1)
    then show ?thesis using False by (subst show_nat.simps) (simp add: digits_value_def digit_char_value)
  qed
qed

lemma show_nat_inj [simp]: "show_nat m = show_nat n \<longleftrightarrow> m = n"
  using digits_value_show by metis

lemma show_nat_digits: "c \<in> set (show_nat n) \<Longrightarrow> 48 \<le> (of_char c :: nat) \<and> (of_char c :: nat) < 58"
proof (induction n rule: show_nat.induct)
  case (1 n)
  show ?case
  proof (cases "n < 10")
    case True
    then show ?thesis using 1(2) by (subst (asm) show_nat.simps) (auto simp: digit_char_value)
  next
    case False
    then have "c \<in> set (show_nat (n div 10)) \<or> c = digit_char (n mod 10)"
      using 1(2) by (subst (asm) show_nat.simps) auto
    then show ?thesis using 1(1)[OF False] by (auto simp: digit_char_value)
  qed
qed

lemma colon_not_digit: "CHR '':'' \<notin> set (show_nat n)" and minus_not_digit: "CHR ''-'' \<notin> set (show_nat n)"
  using show_nat_digits[of "CHR '':''" n] show_nat_digits[of "CHR ''-''" n] by auto

lemma show_int_inj [simp]: "show_int i = show_int j \<longleftrightarrow> i = j"
proof -
  have "CHR ''-'' # xs \<noteq> show_nat n" for xs n using minus_not_digit[of n] by (metis list.set_intros(1))
  then show ?thesis by (auto simp: show_int_def eq_nat_nat_iff split: if_splits) metis+
qed

section \<open>Lists\<close>

text \<open>The last \<open>n\<close> elements of a list.\<close>

definition take_last :: "nat \<Rightarrow> 'a list \<Rightarrow> 'a list" where
  "take_last n xs = drop (length xs - n) xs"

lemma length_take_last [simp]: "length (take_last n xs) = min n (length xs)"
  by (simp add: take_last_def)

lemma take_last_snoc: "take_last n (take_last n xs @ [x]) = take_last n (xs @ [x])"
  by (cases "length xs \<le> n") (simp_all add: take_last_def Suc_diff_le)

lemma take_last_short [simp]: "length xs \<le> n \<Longrightarrow> take_last n xs = xs"
  by (simp add: take_last_def)

lemma take_last_suffix: "\<exists>ys. xs = ys @ take_last n xs"
  by (metis append_take_drop_id take_last_def)

lemma find_Some_iff_first:
  "find P xs = Some x \<Longrightarrow> P x \<and> x \<in> set xs"
  by (induction xs) (auto split: if_splits)

text \<open>What a search finds is a member that satisfies the predicate.\<close>

lemma find_in: "find P xs = Some x \<Longrightarrow> x \<in> set xs \<and> P x"
  by (induction xs) (auto split: if_splits)

section \<open>Accumulated checks\<close>

text \<open>
  A family of results with a neutral one and a way to combine two, such that a combination is
  good exactly when both parts are: the interface of the checks that run one after another.
\<close>

locale conjunctive =
  fixes good :: "'r \<Rightarrow> bool" and comb :: "'r \<Rightarrow> 'r \<Rightarrow> 'r" and unit :: 'r
  assumes good_unit: "good unit"
    and good_comb: "good (comb a b) \<longleftrightarrow> good a \<and> good b"
begin

lemma good_fold:
  "good (fold (\<lambda>x r. if P x then comb r (res x) else r) xs r) \<longleftrightarrow>
   good r \<and> (\<forall>x \<in> set xs. P x \<longrightarrow> good (res x))"
  by (induction xs arbitrary: r) (auto simp: good_comb)

lemma good_foldr: "good (foldr (\<lambda>x. comb (res x)) xs unit) \<longleftrightarrow> (\<forall>x \<in> set xs. good (res x))"
  by (induction xs) (auto simp: good_unit good_comb)

end

end
