(* ===== verification/Sodp_Delta.thy ===== *)
theory Sodp_Delta
  imports Go_Prelude
begin

text \<open>
  The delta layer of the real-time state protocol (\<^verbatim>\<open>src/pkg/sodp/delta.go\<close>): the
  field-level difference of two dynamic values and the shallow equality it relies on.
  A reference client (\<open>apply_ops\<close>) says what a receiver of the operations computes; the
  main result is that replaying a difference on the old value rebuilds the new one.
\<close>

section \<open>Operations and entries\<close>

datatype DeltaOpType = OpAdd | OpUpdate | OpRemove

record DeltaOp =
  Op :: DeltaOpType
  Path :: string
  Value :: goval

record DeltaEntry =
  Key :: string
  Version :: nat
  Ops :: "DeltaOp list"

section \<open>Equality and difference\<close>

fun toStringMap :: "goval \<Rightarrow> gomap option" where
  "toStringMap (VMap m) = Some m"
| "toStringMap _ = None"

text \<open>
  The type switch of \<^verbatim>\<open>equal\<close>: the fast path for the scalar types, the printed form for
  everything else. Which type decides is the type of the first operand.
\<close>

fun equal_go :: "(f64 \<Rightarrow> string) \<Rightarrow> goval \<Rightarrow> goval \<Rightarrow> bool" where
  "equal_go ff (VStr a) b = (case b of VStr b' \<Rightarrow> a = b' | _ \<Rightarrow> False)"
| "equal_go ff (VFloat a) b = (case b of VFloat b' \<Rightarrow> f_eq a b' | _ \<Rightarrow> False)"
| "equal_go ff (VInt64 a) b = (case b of VInt64 b' \<Rightarrow> a = b' | _ \<Rightarrow> False)"
| "equal_go ff (VBool a) b = (case b of VBool b' \<Rightarrow> a = b' | _ \<Rightarrow> False)"
| "equal_go ff VNil b = (b = VNil)"
| "equal_go ff a b = (sprint_v ff a = sprint_v ff b)"

text \<open>
  \<^verbatim>\<open>Diff\<close>: the loop over the old map first (removed, recursed into, or updated), then the
  loop over the new map for the added keys. The lists are walked in their own order, which
  stands for the iteration order of the run.
\<close>

fun Diff :: "(f64 \<Rightarrow> string) \<Rightarrow> goval \<Rightarrow> goval \<Rightarrow> DeltaOp list" where
  "Diff ff (VMap om) (VMap nm) =
     concat (map (\<lambda>(k, oldVal).
       (case map_of nm k of
          None \<Rightarrow> [\<lparr>Op = OpRemove, Path = ''/'' @ k, Value = VNil\<rparr>]
        | Some newVal \<Rightarrow>
            if toStringMap oldVal \<noteq> None \<and> toStringMap newVal \<noteq> None
            then map (\<lambda>sub. sub\<lparr>Path := ''/'' @ k @ Path sub\<rparr>) (Diff ff oldVal newVal)
            else if \<not> equal_go ff oldVal newVal
            then [\<lparr>Op = OpUpdate, Path = ''/'' @ k, Value = newVal\<rparr>]
            else [])) om) @
     map (\<lambda>(k, newVal). \<lparr>Op = OpAdd, Path = ''/'' @ k, Value = newVal\<rparr>)
       (filter (\<lambda>(k, _). map_of om k = None) nm)"
| "Diff ff old new = [\<lparr>Op = OpUpdate, Path = ''/'', Value = new\<rparr>]"

section \<open>The reference client\<close>

text \<open>
  A pointer is the list of its segments; the pointer \<open>/\<close> is the whole value. On an array the
  segment \<open>-\<close> appends and \<open>0\<close> names the first element.
\<close>

definition pointer :: "string \<Rightarrow> string list" where
  "pointer p = (if p = ''/'' then [] else split_on (CHR ''/'') (tl p))"

fun put_at :: "string list \<Rightarrow> goval \<Rightarrow> goval \<Rightarrow> goval" where
  "put_at [] v cur = v"
| "put_at (k # ks) v cur =
     (case cur of
        VMap m \<Rightarrow> VMap (mput k (put_at ks v (mget m k)) m)
      | VList l \<Rightarrow> if k = ''-'' \<and> ks = [] then VList (l @ [v]) else VList l
      | _ \<Rightarrow> if k = ''-'' \<and> ks = [] then VList [v] else VMap [(k, put_at ks v VNil)])"

fun del_at :: "string list \<Rightarrow> goval \<Rightarrow> goval" where
  "del_at [] cur = VNil"
| "del_at (k # ks) cur =
     (case cur of
        VMap m \<Rightarrow> VMap (if ks = [] then mdel k m else mput k (del_at ks (mget m k)) m)
      | VList l \<Rightarrow> if k = ''0'' \<and> ks = [] then VList (tl l) else VList l
      | _ \<Rightarrow> cur)"

definition apply_op :: "DeltaOp \<Rightarrow> goval \<Rightarrow> goval" where
  "apply_op d cur =
     (case Op d of
        OpRemove \<Rightarrow> del_at (pointer (Path d)) cur
      | _ \<Rightarrow> put_at (pointer (Path d)) (Value d) cur)"

definition apply_ops :: "DeltaOp list \<Rightarrow> goval \<Rightarrow> goval" where
  "apply_ops ops cur = fold apply_op ops cur"

text \<open>
  A value can be addressed by pointers when no map key is empty or holds a slash: the code
  joins keys with slashes and does not escape them.
\<close>

fun pointer_safe :: "goval \<Rightarrow> bool" where
  "pointer_safe (VMap m) =
     (distinct (map fst m) \<and>
      (\<forall>(k, v) \<in> set m. k \<noteq> [] \<and> CHR ''/'' \<notin> set k \<and> pointer_safe v))"
| "pointer_safe _ = True"

text \<open>
  Two values agree up to a leaf relation: the same keys at every level, and at the leaves
  either the same value or values that the relation accepts.
\<close>

inductive vrel :: "(goval \<Rightarrow> goval \<Rightarrow> bool) \<Rightarrow> goval \<Rightarrow> goval \<Rightarrow> bool" for R where
  vrel_refl [intro]: "vrel R v v"
| vrel_leaf: "R a b \<Longrightarrow> vrel R a b"
| vrel_maps: "(\<And>k. rel_option (vrel R) (map_of m k) (map_of n k)) \<Longrightarrow> vrel R (VMap m) (VMap n)"
  monos option.rel_mono

text \<open>Equality of values as Go maps: the same lookups at every level.\<close>

abbreviation veq :: "goval \<Rightarrow> goval \<Rightarrow> bool" where
  "veq \<equiv> vrel (=)"

text \<open>
  The pairs that \<^verbatim>\<open>Diff\<close> compares with \<^verbatim>\<open>equal\<close> and takes for equal satisfy the relation. With
  \<open>(=)\<close> it says that the printed forms the fallback compares distinguish the values at hand.
\<close>

fun agrees :: "(goval \<Rightarrow> goval \<Rightarrow> bool) \<Rightarrow> (f64 \<Rightarrow> string) \<Rightarrow> goval \<Rightarrow> goval \<Rightarrow> bool" where
  "agrees R ff (VMap om) (VMap nm) =
     (\<forall>(k, ov) \<in> set om.
        (case map_of nm k of
           None \<Rightarrow> True
         | Some nv \<Rightarrow>
             if toStringMap ov \<noteq> None \<and> toStringMap nv \<noteq> None then agrees R ff ov nv
             else equal_go ff ov nv \<longrightarrow> R ov nv))"
| "agrees R ff old new = True"

abbreviation faithful :: "(f64 \<Rightarrow> string) \<Rightarrow> goval \<Rightarrow> goval \<Rightarrow> bool" where
  "faithful \<equiv> agrees (=)"

section \<open>Pointers of nested operations\<close>

lemma pointer_key [simp]: "k \<noteq> [] \<Longrightarrow> CHR ''/'' \<notin> set k \<Longrightarrow> pointer (CHR ''/'' # k) = [k]"
  by (simp add: pointer_def)

definition local_op :: "DeltaOp \<Rightarrow> bool" where
  "local_op d \<longleftrightarrow> (\<exists>p. p \<noteq> [] \<and> Path d = CHR ''/'' # p)"

lemma pointer_prefix:
  assumes "CHR ''/'' \<notin> set k" and "p \<noteq> []"
  shows "pointer (CHR ''/'' # k @ CHR ''/'' # p) = k # pointer (CHR ''/'' # p)"
  using assms by (cases k) (auto simp: pointer_def split_on_append)

lemma pointer_local_nonempty: "local_op d \<Longrightarrow> pointer (Path d) \<noteq> []"
  by (auto simp: local_op_def pointer_def)

lemma Diff_local:
  "pointer_safe (VMap om) \<Longrightarrow> pointer_safe (VMap nm) \<Longrightarrow>
   d \<in> set (Diff ff (VMap om) (VMap nm)) \<Longrightarrow> local_op d"
  by (fastforce simp: local_op_def split: option.splits if_splits)

section \<open>Operations below one key\<close>

abbreviation under :: "string \<Rightarrow> DeltaOp \<Rightarrow> DeltaOp" where
  "under k d \<equiv> d\<lparr>Path := ''/'' @ k @ Path d\<rparr>"

lemma apply_op_under:
  assumes "CHR ''/'' \<notin> set k" "local_op d" "map_of m k = Some v"
  shows "apply_op (under k d) (VMap m) = VMap (mput k (apply_op d v) m)"
proof -
  obtain p where p: "p \<noteq> []" "Path d = CHR ''/'' # p"
    using assms(2) by (auto simp: local_op_def)
  then obtain x xs where x: "pointer (Path d) = x # xs"
    using pointer_local_nonempty[OF assms(2)] by (cases "pointer (Path d)") auto
  have "pointer (Path (under k d)) = k # x # xs"
    using pointer_prefix[OF assms(1) p(1)] x p(2) by simp
  with x assms(3) show ?thesis
    by (simp add: apply_op_def mget_def split: DeltaOpType.splits)
qed

lemma mput_idem: "map_of m k = Some v \<Longrightarrow> mput k v m = m"
  by (induction m) auto

lemma mput_mput [simp]: "mput k v (mput k v' m) = mput k v m"
  by (induction m) auto

lemma apply_ops_under:
  assumes "CHR ''/'' \<notin> set k" "\<forall>d \<in> set ops. local_op d" "map_of m k = Some v"
  shows "apply_ops (map (under k) ops) (VMap m) = VMap (mput k (apply_ops ops v) m)"
  using assms
proof (induction ops arbitrary: m v)
  case Nil
  then show ?case by (simp add: apply_ops_def mput_idem)
next
  case (Cons d ops)
  then have "apply_op (under k d) (VMap m) = VMap (mput k (apply_op d v) m)"
    by (intro apply_op_under) auto
  with Cons.IH[of "mput k (apply_op d v) m" "apply_op d v"] Cons.prems show ?case
    by (simp add: apply_ops_def)
qed

lemma apply_ops_append: "apply_ops (xs @ ys) v = apply_ops ys (apply_ops xs v)"
  by (simp add: apply_ops_def)

section \<open>One entry of the old map\<close>

definition entry_ops :: "(f64 \<Rightarrow> string) \<Rightarrow> gomap \<Rightarrow> string \<times> goval \<Rightarrow> DeltaOp list" where
  "entry_ops ff nm = (\<lambda>(k, oldVal).
     (case map_of nm k of
        None \<Rightarrow> [\<lparr>Op = OpRemove, Path = ''/'' @ k, Value = VNil\<rparr>]
      | Some newVal \<Rightarrow>
          if toStringMap oldVal \<noteq> None \<and> toStringMap newVal \<noteq> None
          then map (under k) (Diff ff oldVal newVal)
          else if \<not> equal_go ff oldVal newVal
          then [\<lparr>Op = OpUpdate, Path = ''/'' @ k, Value = newVal\<rparr>]
          else []))"

definition added_ops :: "gomap \<Rightarrow> gomap \<Rightarrow> DeltaOp list" where
  "added_ops om nm = map (\<lambda>(k, newVal). \<lparr>Op = OpAdd, Path = ''/'' @ k, Value = newVal\<rparr>)
       (filter (\<lambda>(k, _). map_of om k = None) nm)"

lemma Diff_maps: "Diff ff (VMap om) (VMap nm) = concat (map (entry_ops ff nm) om) @ added_ops om nm"
  by (simp add: entry_ops_def added_ops_def)

text \<open>What the operations of one entry do to a map that still holds the entry.\<close>

lemma apply_entry_ops:
  assumes "k \<noteq> []" "CHR ''/'' \<notin> set k" "pointer_safe ov"
    and nm: "pointer_safe (VMap nm)"
    and cur: "map_of m k = Some ov"
    and eqR: "\<And>nv. map_of nm k = Some nv \<Longrightarrow> toStringMap ov = None \<or> toStringMap nv = None \<Longrightarrow>
       equal_go ff ov nv \<Longrightarrow> R ov nv"
    and IH: "\<And>nv. map_of nm k = Some nv \<Longrightarrow> toStringMap ov \<noteq> None \<Longrightarrow> toStringMap nv \<noteq> None \<Longrightarrow>
       vrel R (apply_ops (Diff ff ov nv) ov) nv"
  shows "\<exists>m'. apply_ops (entry_ops ff nm (k, ov)) (VMap m) = VMap m' \<and>
     (\<forall>j. j \<noteq> k \<longrightarrow> map_of m' j = map_of m j) \<and>
     rel_option (vrel R) (map_of m' k) (map_of nm k)"
proof (cases "map_of nm k")
  case None
  with assms show ?thesis
    by (simp add: entry_ops_def apply_ops_def apply_op_def)
next
  case (Some nv)
  then have nv: "pointer_safe nv"
    using nm by (auto dest!: map_of_SomeD)
  show ?thesis
  proof (cases "toStringMap ov \<noteq> None \<and> toStringMap nv \<noteq> None")
    case True
    then obtain a b where ab: "ov = VMap a" "nv = VMap b"
      by (cases ov; cases nv) auto
    then have "\<forall>d \<in> set (Diff ff ov nv). local_op d"
      using Diff_local assms(3) nv by blast
    then have "apply_ops (map (under k) (Diff ff ov nv)) (VMap m)
        = VMap (mput k (apply_ops (Diff ff ov nv) ov) m)"
      by (rule apply_ops_under[OF assms(2) _ cur])
    with True Some IH[OF Some] show ?thesis
      by (simp add: entry_ops_def)
  next
    case False
    then have leafy: "toStringMap ov = None \<or> toStringMap nv = None" by auto
    show ?thesis
    proof (cases "equal_go ff ov nv")
      case True
      then have "vrel R ov nv"
        using eqR[OF Some leafy] by (blast intro: vrel_leaf)
      with True False Some cur show ?thesis
        by (auto simp: entry_ops_def apply_ops_def)
    next
      case neq: False
      with False Some assms(1,2) show ?thesis
        by (auto simp: entry_ops_def apply_ops_def apply_op_def)
    qed
  qed
qed

section \<open>The two loops\<close>

lemma apply_removed_updated:
  assumes "pointer_safe (VMap om)" "pointer_safe (VMap nm)"
    and "\<And>k ov. (k, ov) \<in> set om \<Longrightarrow> map_of m k = Some ov"
    and "\<And>k ov nv. (k, ov) \<in> set om \<Longrightarrow> map_of nm k = Some nv \<Longrightarrow>
       toStringMap ov = None \<or> toStringMap nv = None \<Longrightarrow> equal_go ff ov nv \<Longrightarrow> R ov nv"
    and "\<And>k ov nv. (k, ov) \<in> set om \<Longrightarrow> map_of nm k = Some nv \<Longrightarrow>
       toStringMap ov \<noteq> None \<Longrightarrow> toStringMap nv \<noteq> None \<Longrightarrow>
       vrel R (apply_ops (Diff ff ov nv) ov) nv"
  shows "\<exists>m'. apply_ops (concat (map (entry_ops ff nm) om)) (VMap m) = VMap m' \<and>
     (\<forall>j. j \<notin> fst ` set om \<longrightarrow> map_of m' j = map_of m j) \<and>
     (\<forall>j. j \<in> fst ` set om \<longrightarrow> rel_option (vrel R) (map_of m' j) (map_of nm j))"
  using assms
proof (induction om arbitrary: m)
  case Nil
  then show ?case by (simp add: apply_ops_def)
next
  case (Cons e om)
  obtain k ov where e: "e = (k, ov)" by (cases e)
  have k: "k \<noteq> []" "CHR ''/'' \<notin> set k" "pointer_safe ov" "k \<notin> fst ` set om"
    using Cons.prems(1) e by auto
  have "map_of m k = Some ov" using Cons.prems(3) e by simp
  then obtain m1 where m1: "apply_ops (entry_ops ff nm e) (VMap m) = VMap m1"
    "\<forall>j. j \<noteq> k \<longrightarrow> map_of m1 j = map_of m j"
    "rel_option (vrel R) (map_of m1 k) (map_of nm k)"
    using apply_entry_ops[OF k(1-3) Cons.prems(2), of m ff R] Cons.prems(4,5)[of k ov] e
    by (metis list.set_intros(1))
  have held: "map_of m1 k' = Some v" if "(k', v) \<in> set om" for k' v
  proof -
    have "k' \<noteq> k" using that k(4) by (metis fst_conv image_eqI)
    moreover have "map_of m k' = Some v" using that by (intro Cons.prems(3)) simp
    ultimately show ?thesis using m1(2) by simp
  qed
  have "\<exists>m'. apply_ops (concat (map (entry_ops ff nm) om)) (VMap m1) = VMap m' \<and>
     (\<forall>j. j \<notin> fst ` set om \<longrightarrow> map_of m' j = map_of m1 j) \<and>
     (\<forall>j. j \<in> fst ` set om \<longrightarrow> rel_option (vrel R) (map_of m' j) (map_of nm j))"
  proof (rule Cons.IH)
    show "pointer_safe (VMap om)" using Cons.prems(1) by auto
    show "pointer_safe (VMap nm)" by (rule Cons.prems(2))
  qed (rule held Cons.prems(4) Cons.prems(5); simp)+
  then obtain m2 where m2: "apply_ops (concat (map (entry_ops ff nm) om)) (VMap m1) = VMap m2"
    "\<And>j. j \<notin> fst ` set om \<Longrightarrow> map_of m2 j = map_of m1 j"
    "\<And>j. j \<in> fst ` set om \<Longrightarrow> rel_option (vrel R) (map_of m2 j) (map_of nm j)"
    by blast
  have "apply_ops (concat (map (entry_ops ff nm) (e # om))) (VMap m) = VMap m2"
    using m1(1) m2(1) by (simp add: apply_ops_append)
  moreover have "map_of m2 j = map_of m j" if "j \<notin> fst ` set (e # om)" for j
    using that m1(2) m2(2) e by simp
  moreover have "rel_option (vrel R) (map_of m2 j) (map_of nm j)" if "j \<in> fst ` set (e # om)" for j
  proof (cases "j = k")
    case True
    then show ?thesis using m1(3) m2(2) k(4) by simp
  next
    case False
    then show ?thesis using that m2(3) e by simp
  qed
  ultimately show ?case by blast
qed

lemma apply_added:
  assumes "\<forall>(k, v) \<in> set nm. k \<noteq> [] \<and> CHR ''/'' \<notin> set k" and "distinct (map fst nm)"
  shows "\<exists>m'. apply_ops (added_ops om nm) (VMap m) = VMap m' \<and>
     (\<forall>j. map_of m' j = (if map_of om j = None \<and> j \<in> fst ` set nm then map_of nm j else map_of m j))"
  using assms
proof (induction nm arbitrary: m)
  case Nil
  then show ?case by (simp add: added_ops_def apply_ops_def)
next
  case (Cons e nm)
  obtain k v where e: "e = (k, v)" by (cases e)
  show ?case
  proof (cases "map_of om k = None")
    case True
    obtain m' where "apply_ops (added_ops om nm) (VMap (mput k v m)) = VMap m'"
      "\<forall>j. map_of m' j = (if map_of om j = None \<and> j \<in> fst ` set nm then map_of nm j
         else map_of (mput k v m) j)"
      using Cons.IH[of "mput k v m"] Cons.prems by auto
    moreover have "apply_ops (added_ops om (e # nm)) (VMap m)
        = apply_ops (added_ops om nm) (VMap (mput k v m))"
      using True e Cons.prems by (simp add: added_ops_def apply_ops_def apply_op_def)
    ultimately show ?thesis
      using e True Cons.prems(2) by auto
  next
    case False
    then have "added_ops om (e # nm) = added_ops om nm"
      using e by (auto simp: added_ops_def)
    with Cons.IH[of m] Cons.prems e False show ?thesis by auto
  qed
qed

section \<open>Replaying a difference\<close>

lemma Diff_replay_vrel:
  "pointer_safe old \<Longrightarrow> pointer_safe new \<Longrightarrow> agrees R ff old new \<Longrightarrow>
   vrel R (apply_ops (Diff ff old new) old) new"
proof (induction ff old new rule: Diff.induct)
  case (1 ff om nm)
  have IH: "vrel R (apply_ops (Diff ff ov nv) ov) nv"
    if "(k, ov) \<in> set om" "map_of nm k = Some nv" "toStringMap ov \<noteq> None" "toStringMap nv \<noteq> None"
    for k ov nv
  proof (rule "1.IH"[OF that(1) _ that(2)])
    show "pointer_safe ov" using that(1) "1.prems"(1) by auto
    show "pointer_safe nv" using map_of_SomeD[OF that(2)] "1.prems"(2) by auto
    show "agrees R ff ov nv" using that "1.prems"(3) by fastforce
  qed (use that in auto)
  have eqR: "R ov nv"
    if "(k, ov) \<in> set om" "map_of nm k = Some nv" "toStringMap ov = None \<or> toStringMap nv = None"
      "equal_go ff ov nv" for k ov nv
    using that "1.prems"(3) by fastforce
  have held: "map_of om k = Some ov" if "(k, ov) \<in> set om" for k ov
    using that "1.prems"(1) by simp
  have "\<exists>m'. apply_ops (concat (map (entry_ops ff nm) om)) (VMap om) = VMap m' \<and>
     (\<forall>j. j \<notin> fst ` set om \<longrightarrow> map_of m' j = map_of om j) \<and>
     (\<forall>j. j \<in> fst ` set om \<longrightarrow> rel_option (vrel R) (map_of m' j) (map_of nm j))"
    by (rule apply_removed_updated[OF "1.prems"(1,2)]) (fact held eqR IH)+
  then obtain m1 where m1: "apply_ops (concat (map (entry_ops ff nm) om)) (VMap om) = VMap m1"
    "\<And>j. j \<notin> fst ` set om \<Longrightarrow> map_of m1 j = map_of om j"
    "\<And>j. j \<in> fst ` set om \<Longrightarrow> rel_option (vrel R) (map_of m1 j) (map_of nm j)"
    by blast
  obtain m2 where m2: "apply_ops (added_ops om nm) (VMap m1) = VMap m2"
    "\<And>j. map_of m2 j = (if map_of om j = None \<and> j \<in> fst ` set nm then map_of nm j else map_of m1 j)"
    using apply_added[of nm om m1] "1.prems"(2) by auto
  have "rel_option (vrel R) (map_of m2 j) (map_of nm j)" for j
  proof (cases "j \<in> fst ` set om")
    case True
    then obtain y where "map_of om j = Some y"
      by (metis map_of_eq_None_iff not_None_eq)
    then have "map_of m2 j = map_of m1 j" using m2(2)[of j] by simp
    with True m1(3)[of j] show ?thesis by (simp only:)
  next
    case False
    then have om: "map_of om j = None" by (simp add: map_of_eq_None_iff)
    show ?thesis
    proof (cases "j \<in> fst ` set nm")
      case True
      with om m2(2)[of j] have "map_of m2 j = map_of nm j" by simp
      then show ?thesis by (cases "map_of nm j") auto
    next
      case no: False
      with False om m1(2)[of j] m2(2)[of j] have "map_of m2 j = None" "map_of nm j = None"
        by (simp_all add: map_of_eq_None_iff)
      then show ?thesis by simp
    qed
  qed
  then have "vrel R (VMap m2) (VMap nm)" by (rule vrel_maps)
  moreover have "apply_ops (Diff ff (VMap om) (VMap nm)) (VMap om) = VMap m2"
    by (simp only: Diff_maps apply_ops_append m1(1) m2(1))
  ultimately show ?case by (simp only:)
qed (auto simp: apply_ops_def apply_op_def pointer_def)

lemma agrees_equal: "agrees (equal_go ff) ff old new"
  by (induction "equal_go ff" ff old new rule: agrees.induct) (auto split: option.splits)

text \<open>An empty difference: nothing the code can tell apart changed.\<close>

lemma Diff_Nil_vrel:
  "pointer_safe old \<Longrightarrow> pointer_safe new \<Longrightarrow> agrees R ff old new \<Longrightarrow> Diff ff old new = [] \<Longrightarrow>
   vrel R old new"
  using Diff_replay_vrel[of old new R ff] by (simp add: apply_ops_def)

lemma veq_maps_iff:
  assumes "veq a b"
  shows "a = b \<or> (\<exists>m n. a = VMap m \<and> b = VMap n \<and> (\<forall>k. rel_option veq (map_of m k) (map_of n k)))"
  using assms by (cases rule: vrel.cases) auto

section \<open>Properties\<close>

text \<open>
  C31. Replaying a difference rebuilds the new value. For values whose map keys are non-empty
  and free of slashes, and that \<^verbatim>\<open>equal\<close> tells apart wherever it is asked, a client that
  applies the operations of \<open>Diff old new\<close> to \<open>old\<close> holds \<open>new\<close>, whatever the iteration order.
\<close>

theorem Diff_roundtrip:
  assumes "pointer_safe old" and "pointer_safe new" and "faithful ff old new"
  shows "veq (apply_ops (Diff ff old new) old) new"
  using assms by (rule Diff_replay_vrel)

theorem Diff_roundtrip_witness:
  "veq (apply_ops (Diff (\<lambda>_. []) (VMap [(''a'', VInt64 1), (''b'', VMap [(''c'', VStr ''x'')])])
       (VMap [(''b'', VMap [(''c'', VStr ''y''), (''d'', VNil)])]))
     (VMap [(''a'', VInt64 1), (''b'', VMap [(''c'', VStr ''x'')])]))
     (VMap [(''b'', VMap [(''c'', VStr ''y''), (''d'', VNil)])])"
  by (rule Diff_roundtrip) simp_all

text \<open>
  The equality behind \<open>Diff\<close> compares printed forms of arrays, so a changed array can go
  unnoticed: the value \<open>["x y"]\<close> replaced by \<open>["x", "y"]\<close> gives no operation at all.
\<close>

lemma Diff_misses_array_change:
  "Diff ff (VMap [(k, VList [VStr ''x y''])]) (VMap [(k, VList [VStr ''x'', VStr ''y''])]) = [] \<and>
   \<not> veq (VMap [(k, VList [VStr ''x y''])]) (VMap [(k, VList [VStr ''x'', VStr ''y''])])"
proof
  show "Diff ff (VMap [(k, VList [VStr ''x y''])]) (VMap [(k, VList [VStr ''x'', VStr ''y''])]) = []"
    by simp
  show "\<not> veq (VMap [(k, VList [VStr ''x y''])]) (VMap [(k, VList [VStr ''x'', VStr ''y''])])"
  proof
    assume "veq (VMap [(k, VList [VStr ''x y''])]) (VMap [(k, VList [VStr ''x'', VStr ''y''])])"
    then have "rel_option veq (Some (VList [VStr ''x y''])) (Some (VList [VStr ''x'', VStr ''y'']))"
      by (auto dest!: veq_maps_iff dest: spec[of _ k])
    then have "veq (VList [VStr ''x y'']) (VList [VStr ''x'', VStr ''y''])" by simp
    then show False by (cases rule: vrel.cases) auto
  qed
qed

end
