(* ===== verification/Sodp_State.thy ===== *)
theory Sodp_State
  imports Sodp_Delta
begin

text \<open>
  The versioned state store of the real-time protocol (\<^verbatim>\<open>src/pkg/sodp/state.go\<close>): the
  per-key ring buffer of deltas, the store operations (each one critical section under the
  store's mutex, hence one atomic step here), and the runs of the store as a step relation
  that carries the history of every key. Versions are \<^verbatim>\<open>uint64\<close>: additions are taken modulo
  \<open>2 ^ 64\<close>.
\<close>

named_theorems sodp_state "unfolding set of the store operations"

definition u64 :: "nat \<Rightarrow> nat" where
  "u64 n = n mod 2 ^ 64"

lemma u64_id [simp]: "n < 2 ^ 64 \<Longrightarrow> u64 n = n"
  by (simp add: u64_def)

section \<open>The interface of a bounded log\<close>

locale bounded_log =
  fixes fresh :: "nat \<Rightarrow> 'r"
    and push :: "'r \<Rightarrow> 'e \<Rightarrow> 'r"
    and contents :: "'r \<Rightarrow> 'e list"
    and capacity :: "'r \<Rightarrow> nat"
    and invar :: "'r \<Rightarrow> bool"
  assumes invar_fresh: "0 < c \<Longrightarrow> invar (fresh c)"
    and contents_fresh: "0 < c \<Longrightarrow> contents (fresh c) = []"
    and capacity_fresh: "capacity (fresh c) = c"
    and invar_push: "invar r \<Longrightarrow> invar (push r e)"
    and capacity_push: "capacity (push r e) = capacity r"
    and contents_push: "invar r \<Longrightarrow> contents (push r e) = take_last (capacity r) (contents r @ [e])"
begin

definition represents :: "nat \<Rightarrow> 'r \<Rightarrow> 'e list \<Rightarrow> bool" where
  "represents c r es \<longleftrightarrow> invar r \<and> capacity r = c \<and> contents r = take_last c es"

lemma represents_fresh: "0 < c \<Longrightarrow> represents c (fresh c) []"
  by (simp add: represents_def invar_fresh contents_fresh capacity_fresh)

lemma represents_push: "represents c r es \<Longrightarrow> represents c (push r e) (es @ [e])"
  by (simp add: represents_def invar_push capacity_push contents_push take_last_snoc)

text \<open>
  The retained window answers a query "everything after \<open>v\<close>" exactly when its oldest entry
  is no later than the successor of \<open>v\<close>: what was dropped is older still.
\<close>

lemma window_complete:
  assumes rep: "represents c r es"
    and sorted: "sorted_wrt (<) (map stamp es)"
    and ne: "contents r \<noteq> []" and oldest: "stamp (hd (contents r)) \<le> v + 1"
  shows "filter (\<lambda>e. v < stamp e) (contents r) = filter (\<lambda>e. (v::nat) < stamp e) es"
proof -
  obtain old where es: "es = old @ contents r"
    using rep take_last_suffix[of es c] by (auto simp: represents_def)
  have "\<forall>e \<in> set old. stamp e < stamp (hd (contents r))"
    using sorted es ne by (auto simp: sorted_wrt_append)
  with oldest have "filter (\<lambda>e. v < stamp e) old = []"
    by (force simp: filter_empty_conv)
  then have "filter (\<lambda>e. v < stamp e) (old @ contents r) = filter (\<lambda>e. v < stamp e) (contents r)"
    by simp
  then show ?thesis
    unfolding es[symmetric] by simp
qed

end

section \<open>The ring buffer\<close>

record ringLog =
  buf :: "DeltaEntry list"
  head :: nat
  len :: nat
  cap :: nat

definition zeroEntry :: DeltaEntry where
  "zeroEntry = \<lparr>Key = [], Version = 0, Ops = []\<rparr>"

definition newRingLog :: "nat \<Rightarrow> ringLog" where
  "newRingLog c = \<lparr>buf = replicate c zeroEntry, head = 0, len = 0, cap = c\<rparr>"

definition ring_push :: "ringLog \<Rightarrow> DeltaEntry \<Rightarrow> ringLog" where
  "ring_push r e =
     (let r1 = r\<lparr>buf := (buf r)[head r := e]\<rparr>;
          r2 = r1\<lparr>head := (head r1 + 1) mod cap r1\<rparr>
      in if len r2 < cap r2 then r2\<lparr>len := len r2 + 1\<rparr> else r2)"

definition oldest :: "ringLog \<Rightarrow> nat" where
  "oldest r = (if len r < cap r then 0 else head r)"

text \<open>
  \<^verbatim>\<open>scan\<close> with the callback's captured state made explicit: the callback returns the new
  state and whether to go on.
\<close>

fun scan_from :: "ringLog \<Rightarrow> nat \<Rightarrow> nat \<Rightarrow> ('s \<Rightarrow> DeltaEntry \<Rightarrow> 's \<times> bool) \<Rightarrow> 's \<Rightarrow> 's" where
  "scan_from r i 0 fn st = st"
| "scan_from r i (Suc n) fn st =
     (let (st', go) = fn st (buf r ! ((oldest r + i) mod cap r))
      in if go then scan_from r (i + 1) n fn st' else st')"

definition scan :: "ringLog \<Rightarrow> ('s \<Rightarrow> DeltaEntry \<Rightarrow> 's \<times> bool) \<Rightarrow> 's \<Rightarrow> 's" where
  "scan r fn st = scan_from r 0 (len r) fn st"

definition oldestVersion :: "ringLog \<Rightarrow> nat" where
  "oldestVersion r = (if len r = 0 then 0 else Version (buf r ! oldest r))"

text \<open>The entries in chronological order, and the representation invariant.\<close>

definition ring_entries :: "ringLog \<Rightarrow> DeltaEntry list" where
  "ring_entries r = map (\<lambda>i. buf r ! ((oldest r + i) mod cap r)) [0..<len r]"

definition ring_ok :: "ringLog \<Rightarrow> bool" where
  "ring_ok r \<longleftrightarrow> 0 < cap r \<and> length (buf r) = cap r \<and> len r \<le> cap r \<and>
     (if len r < cap r then head r = len r else head r < cap r)"

lemma ring_head_lt: "ring_ok r \<Longrightarrow> head r < cap r"
  by (auto simp: ring_ok_def split: if_splits)

lemma ring_ok_fresh: "0 < c \<Longrightarrow> ring_ok (newRingLog c)"
  by (simp add: ring_ok_def newRingLog_def)

lemma ring_ok_push:
  assumes "ring_ok r"
  shows "ring_ok (ring_push r e)"
proof (cases "len r < cap r")
  case True
  with assms have "head r = len r" by (simp add: ring_ok_def)
  with True assms show ?thesis
    by (cases "len r + 1 < cap r") (auto simp: ring_ok_def ring_push_def Let_def)
next
  case False
  with assms show ?thesis
    by (auto simp: ring_ok_def ring_push_def Let_def)
qed

lemma mod_add_shift:
  assumes "(h::nat) < c" "i < c"
  shows "(h + 1 + i) mod c = (if i = c - 1 then h else (h + Suc i) mod c)"
  using assms by (auto simp: add.commute)

lemma mod_ne_self:
  assumes "(h::nat) < c" "0 < j" "j < c"
  shows "(h + j) mod c \<noteq> h"
proof (cases "h + j < c")
  case True
  with assms show ?thesis by simp
next
  case False
  then have "(h + j) mod c = h + j - c"
    using assms by (simp add: mod_if)
  with assms False show ?thesis by simp
qed

lemma ring_entries_push:
  assumes ok: "ring_ok r"
  shows "ring_entries (ring_push r e) = take_last (cap r) (ring_entries r @ [e])"
proof (cases "len r < cap r")
  case True
  with ok have hd: "head r = len r" and lb: "length (buf r) = cap r" by (auto simp: ring_ok_def)
  have old: "ring_entries r = map ((!) (buf r)) [0..<len r]"
    using True ok by (auto simp: ring_entries_def oldest_def)
  have "oldest (ring_push r e) = 0"
  proof (cases "Suc (len r) < cap r")
    case False
    with True have "Suc (len r) = cap r" by simp
    then show ?thesis using True hd by (simp add: ring_push_def oldest_def Let_def)
  qed (use True hd in \<open>simp add: ring_push_def oldest_def Let_def\<close>)
  then have "ring_entries (ring_push r e) = map ((!) ((buf r)[len r := e])) [0..<Suc (len r)]"
    using True hd by (auto simp: ring_entries_def ring_push_def Let_def)
  also have "\<dots> = ring_entries r @ [e]"
    using True lb by (auto simp: old)
  finally show ?thesis
    using True by (simp add: ring_entries_def)
next
  case False
  with ok have full: "len r = cap r" and lb: "length (buf r) = cap r"
    and hl: "head r < cap r" and pos: "0 < cap r" by (auto simp: ring_ok_def)
  define h where "h = head r"
  define c where "c = cap r"
  have entries: "ring_entries r = map (\<lambda>i. buf r ! ((h + i) mod c)) [0..<c]"
    using full by (simp add: ring_entries_def oldest_def h_def c_def)
  have "ring_entries (ring_push r e)
      = map (\<lambda>i. (buf r)[h := e] ! (((h + 1) mod c + i) mod c)) [0..<c]"
    using full by (simp add: ring_entries_def ring_push_def Let_def oldest_def h_def c_def)
  also have "\<dots> = map (\<lambda>i. if i = c - 1 then e else buf r ! ((h + Suc i) mod c)) [0..<c]"
  proof (rule map_cong[OF refl])
    fix i assume "i \<in> set [0..<c]"
    then have i: "i < c" by simp
    have hc: "h < c" using hl by (simp add: h_def c_def)
    have "((h + 1) mod c + i) mod c = (h + 1 + i) mod c" by (simp add: mod_simps)
    then have ix: "((h + 1) mod c + i) mod c = (if i = c - 1 then h else (h + Suc i) mod c)"
      using mod_add_shift[OF hc i] by (simp only:)
    show "(buf r)[h := e] ! (((h + 1) mod c + i) mod c)
        = (if i = c - 1 then e else buf r ! ((h + Suc i) mod c))"
    proof (cases "i = c - 1")
      case True
      have "(buf r)[h := e] ! h = e"
        using hc lb by (intro nth_list_update_eq) (simp add: c_def)
      then show ?thesis unfolding ix by (simp add: True)
    next
      case False
      with i have lt: "Suc i < c" by simp
      have "h \<noteq> (h + Suc i) mod c"
        by (rule mod_ne_self[OF hc zero_less_Suc lt, symmetric])
      with False show ?thesis by (simp only: ix if_False nth_list_update_neq simp_thms)
    qed
  qed
  also have "\<dots> = map (\<lambda>i. buf r ! ((h + Suc i) mod c)) [0..<c - 1] @ [e]"
  proof -
    have "[0..<c] = [0..<c - 1] @ [c - 1]"
      using pos upt_Suc_append[of 0 "c - 1"] by (simp add: c_def)
    then show ?thesis by (simp only: map_append) auto
  qed
  also have "map (\<lambda>i. buf r ! ((h + Suc i) mod c)) [0..<c - 1] = tl (ring_entries r)"
  proof -
    have "[0..<c] = 0 # map Suc [0..<c - 1]"
      using pos by (simp add: c_def upt_conv_Cons map_Suc_upt)
    then show ?thesis by (simp only: entries list.map list.sel map_map comp_def)
  qed
  finally have "ring_entries (ring_push r e) = tl (ring_entries r) @ [e]" .
  moreover have "length (ring_entries r) = cap r" using full by (simp add: ring_entries_def)
  ultimately show ?thesis
    using pos by (simp add: take_last_def drop_Suc)
qed

interpretation rlog: bounded_log newRingLog ring_push ring_entries cap ring_ok
proof unfold_locales
  show "ring_ok (newRingLog c)" if "0 < c" for c using that by (rule ring_ok_fresh)
  show "ring_entries (newRingLog c) = []" for c by (simp add: ring_entries_def newRingLog_def)
  show "cap (newRingLog c) = c" for c by (simp add: newRingLog_def)
  show "ring_ok (ring_push r e)" if "ring_ok r" for r e using that by (rule ring_ok_push)
  show "cap (ring_push r e) = cap r" for r e by (simp add: ring_push_def Let_def)
  show "ring_entries (ring_push r e) = take_last (cap r) (ring_entries r @ [e])" if "ring_ok r" for r e
    using that by (rule ring_entries_push)
qed

text \<open>\<^verbatim>\<open>scan\<close> visits exactly the retained entries, oldest first.\<close>

lemma scan_from_fold:
  assumes "\<And>st d. snd (fn st d)"
  shows "scan_from r i n fn st =
     fold (\<lambda>d st. fst (fn st d)) (map (\<lambda>j. buf r ! ((oldest r + j) mod cap r)) [i..<i + n]) st"
proof (induction n arbitrary: i st)
  case 0
  show ?case by simp
next
  case (Suc n)
  have ix: "[i..<Suc (i + n)] = i # [Suc i..<Suc (i + n)]"
    by (simp add: upt_conv_Cons del: upt_Suc)
  obtain st' where st': "fn st (buf r ! ((oldest r + i) mod cap r)) = (st', True)"
    using assms by (metis (full_types) prod.collapse)
  then have "scan_from r i (Suc n) fn st = scan_from r (Suc i) n fn st'"
    by simp
  with Suc[of "Suc i" st'] st' show ?case
    by (simp add: ix del: upt_Suc)
qed

lemma scan_all: "(\<And>st d. snd (fn st d)) \<Longrightarrow> scan r fn st = fold (\<lambda>d st. fst (fn st d)) (ring_entries r) st"
  by (simp add: scan_def scan_from_fold ring_entries_def)

lemma oldestVersion_hd:
  "ring_ok r \<Longrightarrow> len r \<noteq> 0 \<Longrightarrow> oldestVersion r = Version (hd (ring_entries r))"
  by (auto simp: oldestVersion_def ring_entries_def ring_ok_def oldest_def hd_map split: if_splits)

section \<open>The store\<close>

record stateEntry =
  eValue :: goval
  eVersion :: nat

record StateStore =
  entries :: "(string \<times> stateEntry) list"
  deltas :: "(string \<times> ringLog) list"
  global :: nat
  logCap :: nat
  maxKeys :: nat

definition defaultDeltaLogCap :: nat where "defaultDeltaLogCap = 1000"
definition defaultMaxKeys :: nat where "defaultMaxKeys = 100000"

definition NewStateStore :: StateStore where
  "NewStateStore = \<lparr>entries = [], deltas = [], global = 0,
     logCap = defaultDeltaLogCap, maxKeys = defaultMaxKeys\<rparr>"

definition appendDelta :: "string \<Rightarrow> DeltaEntry \<Rightarrow> StateStore \<Rightarrow> StateStore" where
  "appendDelta key entry s =
     (let ring = (case map_of (deltas s) key of None \<Rightarrow> newRingLog (logCap s) | Some r \<Rightarrow> r)
      in s\<lparr>deltas := mput key (ring_push ring entry) (deltas s)\<rparr>)"

text \<open>\<open>s.entries[key].Value\<close>: nil where the key is absent.\<close>

definition cur_value :: "StateStore \<Rightarrow> string \<Rightarrow> goval" where
  "cur_value s key = (case map_of (entries s) key of None \<Rightarrow> VNil | Some e \<Rightarrow> eValue e)"

text \<open>The common tail of the three mutations: bump the version, store, log.\<close>

definition commit :: "string \<Rightarrow> goval option \<Rightarrow> DeltaOp list \<Rightarrow> StateStore \<Rightarrow> DeltaEntry \<times> StateStore" where
  "commit key v ops s =
     (let ver = u64 (global s + 1);
          s1 = s\<lparr>global := ver,
                 entries := (case v of None \<Rightarrow> mdel key (entries s)
                   | Some x \<Rightarrow> mput key \<lparr>eValue = x, eVersion = ver\<rparr> (entries s))\<rparr>;
          entry = \<lparr>Key = key, Version = ver, Ops = ops\<rparr>
      in (entry, appendDelta key entry s1))"

definition Apply :: "(f64 \<Rightarrow> string) \<Rightarrow> string \<Rightarrow> goval \<Rightarrow> StateStore \<Rightarrow> DeltaEntry option \<times> StateStore" where
  "Apply ff key newValue s =
     (if map_of (entries s) key = None \<and> length (entries s) \<ge> maxKeys s then (None, s)
      else
        let ops = Diff ff (cur_value s key) newValue
        in if ops = [] then (None, s)
           else let (entry, s') = commit key (Some newValue) ops s in (Some entry, s'))"

definition Append :: "string \<Rightarrow> goval \<Rightarrow> int \<Rightarrow> StateStore \<Rightarrow> DeltaEntry option \<times> StateStore" where
  "Append key element maxLen s =
     (let slice = (case as_list (cur_value s key) of None \<Rightarrow> [] | Some l \<Rightarrow> l);
          newSlice = slice @ [element];
          ops = [\<lparr>Op = OpAdd, Path = ''/-'', Value = element\<rparr>];
          over = (maxLen > 0 \<and> int (length newSlice) > maxLen);
          newSlice' = (if over then drop (length newSlice - nat maxLen) newSlice else newSlice);
          ops' = (if over then ops @ [\<lparr>Op = OpRemove, Path = ''/0'', Value = VNil\<rparr>] else ops);
          (entry, s') = commit key (Some (VList newSlice')) ops' s
      in (Some entry, s'))"

definition Delete :: "string \<Rightarrow> StateStore \<Rightarrow> DeltaEntry option \<times> StateStore" where
  "Delete key s =
     (if map_of (entries s) key = None then (None, s)
      else let (entry, s') = commit key None [\<lparr>Op = OpRemove, Path = ''/'', Value = VNil\<rparr>] s
           in (Some entry, s'))"

definition Get :: "StateStore \<Rightarrow> string \<Rightarrow> goval \<times> nat" where
  "Get s key = (case map_of (entries s) key of None \<Rightarrow> (VNil, 0) | Some e \<Rightarrow> (eValue e, eVersion e))"

definition hasPrefix :: "string \<Rightarrow> string \<Rightarrow> bool" where
  "hasPrefix key prefix =
     (if length key \<le> length prefix then False
      else take (length prefix) key = prefix \<and> key ! length prefix = CHR ''.'')"

definition Snapshot :: "StateStore \<Rightarrow> string \<Rightarrow> (string \<times> stateEntry) list" where
  "Snapshot s prefix = filter (\<lambda>(k, _). prefix = [] \<or> k = prefix \<or> hasPrefix k prefix) (entries s)"

text \<open>The empty list stands for the nil result, which makes the caller send the full state.\<close>

definition DeltasSince :: "StateStore \<Rightarrow> string \<Rightarrow> nat \<Rightarrow> DeltaEntry list" where
  "DeltasSince s key sinceVersion =
     (case map_of (deltas s) key of
        None \<Rightarrow> []
      | Some ring \<Rightarrow>
          if len ring = 0 then []
          else if oldestVersion ring > u64 (sinceVersion + 1) then []
          else scan ring (\<lambda>result d.
                 (if Version d > sinceVersion then result @ [d] else result, True)) [])"

definition GlobalVersion :: "StateStore \<Rightarrow> nat" where "GlobalVersion s = global s"
definition KeyCount :: "StateStore \<Rightarrow> nat" where "KeyCount s = length (entries s)"
definition Keys :: "StateStore \<Rightarrow> string list" where "Keys s = map fst (entries s)"

text \<open>
  \<^verbatim>\<open>EvictCompleted\<close>, with the clock already applied (\<open>cutoff\<close>) and \<^verbatim>\<open>time.Parse(time.RFC3339, _)\<close>
  as the argument \<open>parse\<close>.
\<close>

definition dead_run :: "(string \<Rightarrow> int option) \<Rightarrow> int \<Rightarrow> string \<times> stateEntry \<Rightarrow> bool" where
  "dead_run parse cutoff = (\<lambda>(k, entry).
     has_prefix k ''runs.'' \<and>
     count_list k (CHR ''.'') = 1 \<and>
     (case as_map (eValue entry) of
        None \<Rightarrow> False
      | Some m \<Rightarrow>
          let status = mget_str m ''status''; finishedStr = mget_str m ''finished_at''
          in (status = ''success'' \<or> status = ''failed'' \<or> status = ''cancelled'') \<and>
             finishedStr \<noteq> [] \<and>
             (case parse finishedStr of None \<Rightarrow> False | Some finished \<Rightarrow> finished < cutoff)))"

definition covered :: "string \<Rightarrow> string \<Rightarrow> bool" where
  "covered prefix k \<longleftrightarrow> k = prefix \<or> hasPrefix k prefix"

definition evict_prefix :: "string \<Rightarrow> nat \<times> StateStore \<Rightarrow> nat \<times> StateStore" where
  "evict_prefix prefix = (\<lambda>(evicted, s).
     let hit = filter (\<lambda>(k, _). covered prefix k) (entries s)
     in (evicted + length hit,
         s\<lparr>entries := filter (\<lambda>(k, _). \<not> covered prefix k) (entries s),
           deltas := filter (\<lambda>(k, _). k \<notin> fst ` set hit) (deltas s)\<rparr>))"

definition EvictCompleted :: "(string \<Rightarrow> int option) \<Rightarrow> int \<Rightarrow> StateStore \<Rightarrow> nat \<times> StateStore" where
  "EvictCompleted parse cutoff s =
     (let deadPrefixes = map fst (filter (dead_run parse cutoff) (entries s))
      in fold evict_prefix deadPrefixes (0, s))"

section \<open>Properties of the ring buffer\<close>

text \<open>
  The ring buffer refines a bounded list: after any sequence of pushes it holds, oldest
  first, exactly the last \<open>cap\<close> entries pushed.
\<close>

lemma ring_refines_last:
  assumes "0 < c"
  shows "ring_entries (fold (\<lambda>e r. ring_push r e) es (newRingLog c)) = take_last c es"
proof -
  have "rlog.represents c r pre \<Longrightarrow> rlog.represents c (fold (\<lambda>e r. ring_push r e) es r) (pre @ es)" for pre r
  proof (induction es arbitrary: pre r)
    case (Cons e es)
    from Cons.IH[OF rlog.represents_push[OF Cons.prems]] show ?case by simp
  qed simp
  from this[OF rlog.represents_fresh[OF assms]] show ?thesis
    by (simp add: rlog.represents_def)
qed

lemma ring_refines_last_witness:
  "ring_entries (fold (\<lambda>e r. ring_push r e)
     [\<lparr>Key = ''k'', Version = 1, Ops = []\<rparr>, \<lparr>Key = ''k'', Version = 2, Ops = []\<rparr>,
      \<lparr>Key = ''k'', Version = 3, Ops = []\<rparr>] (newRingLog 2)) =
   [\<lparr>Key = ''k'', Version = 2, Ops = []\<rparr>, \<lparr>Key = ''k'', Version = 3, Ops = []\<rparr>]"
  using ring_refines_last[of 2 "[\<lparr>Key = ''k'', Version = 1, Ops = []\<rparr>,
     \<lparr>Key = ''k'', Version = 2, Ops = []\<rparr>, \<lparr>Key = ''k'', Version = 3, Ops = []\<rparr>]"]
  by (simp add: take_last_def)

end
