(* ===== verification/Sodp_Fanout.thy ===== *)
theory Sodp_Fanout
  imports Sodp_State "HOL-Library.Multiset"
begin

text \<open>
  The fanout bus (\<^verbatim>\<open>src/pkg/sodp/fanout.go\<close>) and the frame types (\<^verbatim>\<open>frame.go\<close>): subscriber
  lists per key and the delivery of one delta to the watchers of a key and of its parents.
  MessagePack is third-party code: \<open>mbody\<close> marshals a delta once, \<open>mframe\<close> an envelope, and
  either may fail. A session's \<^verbatim>\<open>Send\<close> channel is a bounded queue with a non-blocking send.
\<close>

section \<open>Frames\<close>

type_synonym bytes = string

datatype FrameType =
    FrameHello | FrameWatch | FrameStateInit | FrameDelta | FrameCall | FrameResult | FrameError
  | FrameAck | FrameHeartbeat | FrameResume | FrameAuth | FrameAuthOK | FrameUnwatch
  | FrameOther nat

fun frame_code :: "FrameType \<Rightarrow> nat" where
  "frame_code FrameHello = 1" | "frame_code FrameWatch = 2" | "frame_code FrameStateInit = 3"
| "frame_code FrameDelta = 4" | "frame_code FrameCall = 5" | "frame_code FrameResult = 6"
| "frame_code FrameError = 7" | "frame_code FrameAck = 8" | "frame_code FrameHeartbeat = 9"
| "frame_code FrameResume = 10" | "frame_code FrameAuth = 11" | "frame_code FrameAuthOK = 12"
| "frame_code FrameUnwatch = 13" | "frame_code (FrameOther n) = n"

section \<open>Channels\<close>

text \<open>Channels by the identifier of the session that owns them; a full channel drops.\<close>

type_synonym channels = "string \<Rightarrow> bytes list"

definition defaultSessionBuffer :: nat where
  "defaultSessionBuffer = 128"

definition try_send :: "string \<Rightarrow> bytes \<Rightarrow> channels \<Rightarrow> channels" where
  "try_send ch b q = (if length (q ch) < defaultSessionBuffer then q(ch := q ch @ [b]) else q)"

section \<open>The bus\<close>

record Subscriber =
  SessionID :: string
  StreamID :: nat
  OrgID :: string
  Send :: string

type_synonym bus = "(string \<times> Subscriber list) list"

definition NewFanoutBus :: bus where
  "NewFanoutBus = []"

text \<open>\<open>fb.subs[key]\<close>: the nil slice where the key is absent.\<close>

definition watchers :: "bus \<Rightarrow> string \<Rightarrow> Subscriber list" where
  "watchers fb key = (case map_of fb key of None \<Rightarrow> [] | Some ss \<Rightarrow> ss)"

definition Subscribe :: "string \<Rightarrow> Subscriber \<Rightarrow> bus \<Rightarrow> bus" where
  "Subscribe key sub fb = mput key (watchers fb key @ [sub]) fb"

fun index_where :: "('a \<Rightarrow> bool) \<Rightarrow> 'a list \<Rightarrow> nat option" where
  "index_where P [] = None"
| "index_where P (x # xs) = (if P x then Some 0 else map_option Suc (index_where P xs))"

text \<open>Removal by moving the last element into the hole.\<close>

definition Unsubscribe :: "string \<Rightarrow> string \<Rightarrow> nat \<Rightarrow> bus \<Rightarrow> bus" where
  "Unsubscribe key sessionID streamID fb =
     (let subs = watchers fb key
      in case index_where (\<lambda>s. SessionID s = sessionID \<and> StreamID s = streamID) subs of
           None \<Rightarrow> fb
         | Some i \<Rightarrow> mput key (butlast (subs[i := last subs])) fb)"

definition RemoveSession :: "string \<Rightarrow> bus \<Rightarrow> bus" where
  "RemoveSession sessionID fb =
     concat (map (\<lambda>(key, subs).
       let filtered = filter (\<lambda>s. SessionID s \<noteq> sessionID) subs
       in if filtered = [] then [] else [(key, filtered)]) fb)"

text \<open>Who a broadcast skips: the sender, and other tenants when the key has an organization.\<close>

definition skips :: "string \<Rightarrow> string \<Rightarrow> Subscriber \<Rightarrow> bool" where
  "skips sender keyOrgID sub \<longleftrightarrow>
     SessionID sub = sender \<or>
     (OrgID sub \<noteq> ''default'' \<and> keyOrgID \<noteq> [] \<and> OrgID sub \<noteq> keyOrgID)"

definition deliver ::
  "(nat \<times> nat \<times> nat \<times> bytes \<Rightarrow> bytes option) \<Rightarrow> bytes \<Rightarrow> nat \<Rightarrow> string \<Rightarrow> string \<Rightarrow> Subscriber \<Rightarrow> channels \<Rightarrow> channels" where
  "deliver mframe rawBody ver sender keyOrgID sub q =
     (if skips sender keyOrgID sub then q
      else case mframe (frame_code FrameDelta, StreamID sub, ver, rawBody) of
             None \<Rightarrow> q
           | Some frame \<Rightarrow> try_send (Send sub) frame q)"

definition Broadcast ::
  "(DeltaEntry \<Rightarrow> bytes option) \<Rightarrow> (nat \<times> nat \<times> nat \<times> bytes \<Rightarrow> bytes option) \<Rightarrow>
   bus \<Rightarrow> DeltaEntry \<Rightarrow> string \<Rightarrow> string \<Rightarrow> channels \<Rightarrow> channels" where
  "Broadcast mbody mframe fb delta sender keyOrgID q =
     (case mbody delta of
        None \<Rightarrow> q
      | Some rawBody \<Rightarrow>
          fold (deliver mframe rawBody (Version delta) sender keyOrgID) (watchers fb (Key delta)) q)"

text \<open>
  The index loop of \<^verbatim>\<open>BroadcastAll\<close> from the end of the key: at every dot, the prefix before
  it becomes the key.
\<close>

fun walk_up :: "nat \<Rightarrow> string \<Rightarrow> string list" where
  "walk_up 0 key = []"
| "walk_up (Suc i) key =
     (if key ! i = CHR ''.'' then take i key # walk_up i (take i key) else walk_up i key)"

definition BroadcastAll ::
  "(DeltaEntry \<Rightarrow> bytes option) \<Rightarrow> (nat \<times> nat \<times> nat \<times> bytes \<Rightarrow> bytes option) \<Rightarrow>
   bus \<Rightarrow> DeltaEntry \<Rightarrow> string \<Rightarrow> string \<Rightarrow> channels \<Rightarrow> channels" where
  "BroadcastAll mbody mframe fb delta sender keyOrgID q =
     fold (\<lambda>parent. Broadcast mbody mframe fb \<lparr>Key = parent, Version = Version delta, Ops = Ops delta\<rparr> sender keyOrgID)
       (walk_up (length (Key delta)) (Key delta))
       (Broadcast mbody mframe fb delta sender keyOrgID q)"

definition SubscriberCount :: "bus \<Rightarrow> string \<Rightarrow> nat" where
  "SubscriberCount fb key = length (watchers fb key)"

section \<open>Subscription lists\<close>

lemma watchers_Subscribe: "watchers (Subscribe k sub fb) j = (if j = k then watchers fb k @ [sub] else watchers fb j)"
  by (auto simp: watchers_def Subscribe_def)

lemma index_where_Some:
  "index_where P xs = Some i \<Longrightarrow> i < length xs \<and> P (xs ! i) \<and> (\<forall>j < i. \<not> P (xs ! j))"
  by (induction xs arbitrary: i) (auto split: if_splits simp: less_Suc_eq_0_disj)

lemma index_where_None: "index_where P xs = None \<longleftrightarrow> (\<forall>x \<in> set xs. \<not> P x)"
  by (induction xs) auto

lemma mset_swap_remove:
  assumes "i < length xs"
  shows "mset (butlast (xs[i := last xs])) = mset xs - {#xs ! i#}"
proof -
  have ne: "xs \<noteq> []" using assms by auto
  then have bl: "mset (butlast ys) = mset ys - {#last ys#}" if "ys \<noteq> []" for ys :: "'a list"
    using that by (metis append_butlast_last_id diff_union_cancelR mset.simps mset_append add_mset_add_single)
  have "last (xs[i := last xs]) = last xs"
    using assms ne by (auto simp: last_list_update)
  moreover have "mset (xs[i := last xs]) = add_mset (last xs) (mset xs - {#xs ! i#})"
    using assms by (simp add: mset_update)
  ultimately show ?thesis
    using bl[of "xs[i := last xs]"] ne by simp
qed

lemma watchers_Unsubscribe_other: "j \<noteq> k \<Longrightarrow> watchers (Unsubscribe k sid st fb) j = watchers fb j"
  by (auto simp: watchers_def Unsubscribe_def Let_def split: option.splits)

lemma Unsubscribe_absent:
  "\<forall>s \<in> set (watchers fb k). \<not> (SessionID s = sid \<and> StreamID s = st) \<Longrightarrow> Unsubscribe k sid st fb = fb"
  unfolding Unsubscribe_def Let_def index_where_None[symmetric] by simp

lemma mset_Unsubscribe:
  assumes "\<exists>s \<in> set (watchers fb k). SessionID s = sid \<and> StreamID s = st"
  shows "\<exists>s \<in> set (watchers fb k). SessionID s = sid \<and> StreamID s = st \<and>
     mset (watchers (Unsubscribe k sid st fb) k) = mset (watchers fb k) - {#s#}"
proof -
  let ?ws = "watchers fb k"
  obtain i where Some: "index_where (\<lambda>s. SessionID s = sid \<and> StreamID s = st) ?ws = Some i"
    using assms index_where_None[of "\<lambda>s. SessionID s = sid \<and> StreamID s = st" ?ws]
    by (metis not_None_eq)
  from index_where_Some[OF this]
  have i: "i < length ?ws" "SessionID (?ws ! i) = sid \<and> StreamID (?ws ! i) = st" by auto
  have "watchers (Unsubscribe k sid st fb) k = butlast (?ws[i := last ?ws])"
    using Some by (simp add: Unsubscribe_def watchers_def Let_def)
  with i show ?thesis
    by (intro bexI[of _ "?ws ! i"]) (simp_all add: mset_swap_remove)
qed

lemma RemoveSession_Cons:
  "RemoveSession sid ((j, subs) # fb) =
     (let f = filter (\<lambda>s. SessionID s \<noteq> sid) subs in if f = [] then [] else [(j, f)]) @ RemoveSession sid fb"
  by (simp add: RemoveSession_def Let_def)

lemma RemoveSession_keys: "fst ` set (RemoveSession sid fb) \<subseteq> fst ` set fb"
  by (force simp: RemoveSession_def Let_def split: if_splits prod.splits)

lemma wf_RemoveSession: "wf_map fb \<Longrightarrow> wf_map (RemoveSession sid fb)"
proof (induction fb)
  case (Cons e fb)
  then show ?case
    using RemoveSession_keys[of sid fb] by (cases e) (auto simp: RemoveSession_Cons Let_def)
qed (simp add: RemoveSession_def)

lemma watchers_RemoveSession:
  "wf_map fb \<Longrightarrow> watchers (RemoveSession sid fb) k = filter (\<lambda>s. SessionID s \<noteq> sid) (watchers fb k)"
proof (induction fb)
  case Nil
  then show ?case by (simp add: RemoveSession_def watchers_def)
next
  case (Cons e fb)
  obtain j subs where e: "e = (j, subs)" by (cases e)
  have "map_of fb j = None" "map_of (RemoveSession sid fb) j = None"
    using Cons.prems e RemoveSession_keys[of sid fb] by (auto simp: map_of_eq_None_iff)
  with Cons show ?case
    by (cases "k = j") (simp_all add: e RemoveSession_Cons watchers_def Let_def)
qed

section \<open>Delivery\<close>

text \<open>The sequence of envelopes a broadcast tries to send, before the channels drop any.\<close>

definition attempts ::
  "(DeltaEntry \<Rightarrow> bytes option) \<Rightarrow> (nat \<times> nat \<times> nat \<times> bytes \<Rightarrow> bytes option) \<Rightarrow>
   bus \<Rightarrow> DeltaEntry \<Rightarrow> string \<Rightarrow> string \<Rightarrow> (string \<times> bytes) list" where
  "attempts mbody mframe fb delta sender org =
     (case mbody delta of
        None \<Rightarrow> []
      | Some raw \<Rightarrow>
          List.map_filter (\<lambda>sub. map_option (Pair (Send sub))
              (mframe (frame_code FrameDelta, StreamID sub, Version delta, raw)))
            (filter (\<lambda>sub. \<not> skips sender org sub) (watchers fb (Key delta))))"

definition send_all :: "(string \<times> bytes) list \<Rightarrow> channels \<Rightarrow> channels" where
  "send_all ms q = fold (\<lambda>(ch, b). try_send ch b) ms q"

lemma send_all_append: "send_all (xs @ ys) q = send_all ys (send_all xs q)"
  by (simp add: send_all_def)

lemma Broadcast_attempts:
  "Broadcast mbody mframe fb d sender org q = send_all (attempts mbody mframe fb d sender org) q"
proof -
  have "fold (deliver mframe raw v sender org) subs q =
     send_all (List.map_filter (\<lambda>sub. map_option (Pair (Send sub))
              (mframe (frame_code FrameDelta, StreamID sub, v, raw)))
            (filter (\<lambda>sub. \<not> skips sender org sub) subs)) q" for raw v subs
    by (induction subs arbitrary: q)
      (auto simp: deliver_def send_all_def map_filter_simps split: option.splits)
  then show ?thesis
    by (simp add: Broadcast_def attempts_def send_all_def split: option.splits)
qed

lemma BroadcastAll_attempts:
  "BroadcastAll mbody mframe fb d sender org q =
     send_all (concat (map (\<lambda>k. attempts mbody mframe fb \<lparr>Key = k, Version = Version d, Ops = Ops d\<rparr> sender org)
       (Key d # walk_up (length (Key d)) (Key d)))) q"
proof -
  have "fold (\<lambda>p. Broadcast mbody mframe fb \<lparr>Key = p, Version = Version d, Ops = Ops d\<rparr> sender org) ps q =
     send_all (concat (map (\<lambda>k. attempts mbody mframe fb \<lparr>Key = k, Version = Version d, Ops = Ops d\<rparr> sender org) ps)) q"
    for ps q
    by (induction ps arbitrary: q) (simp_all add: Broadcast_attempts send_all_append, simp add: send_all_def)
  moreover have "\<lparr>Key = Key d, Version = Version d, Ops = Ops d\<rparr> = d" by simp
  ultimately show ?thesis
    by (simp only: BroadcastAll_def Broadcast_attempts send_all_append list.map concat.simps)
qed

lemma send_all_prefix: "\<exists>rest. send_all ms q ch = q ch @ rest \<and> set rest \<subseteq> {b. (ch, b) \<in> set ms}"
proof (induction ms arbitrary: q)
  case Nil
  show ?case by (simp add: send_all_def)
next
  case (Cons m ms)
  obtain c b where m: "m = (c, b)" by (cases m)
  obtain rest where "send_all ms (try_send c b q) ch = try_send c b q ch @ rest"
    "set rest \<subseteq> {b. (ch, b) \<in> set ms}" using Cons.IH by blast
  then show ?case
    by (auto simp: send_all_def m try_send_def)
qed

lemma send_all_bounded: "length (q ch) \<le> defaultSessionBuffer \<Longrightarrow> length (send_all ms q ch) \<le> defaultSessionBuffer"
  unfolding send_all_def
  by (induction ms arbitrary: q) (auto simp: try_send_def)

lemma send_all_room:
  "length (q ch) + length (filter (\<lambda>m. fst m = ch) ms) \<le> defaultSessionBuffer \<Longrightarrow>
   send_all ms q ch = q ch @ map snd (filter (\<lambda>m. fst m = ch) ms)"
  unfolding send_all_def
  by (induction ms arbitrary: q) (auto simp: try_send_def split: prod.splits)

section \<open>Parents of a key\<close>

lemma walk_up_take: "i \<le> j \<Longrightarrow> j \<le> length key \<Longrightarrow> walk_up i (take j key) = walk_up i key"
proof (induction i arbitrary: j key)
  case (Suc i)
  then have "take j key ! i = key ! i" "take i (take j key) = take i key" by simp_all
  with Suc show ?case by simp
qed simp

lemma walk_up_set:
  "i \<le> length key \<Longrightarrow> set (walk_up i key) = {take j key | j. j < i \<and> key ! j = CHR ''.''}"
proof (induction i arbitrary: key)
  case (Suc i)
  then have "walk_up i (take i key) = walk_up i key" by (intro walk_up_take) auto
  with Suc show ?case by (auto simp: less_Suc_eq)
qed simp

lemma walk_up_hasPrefix: "p \<in> set (walk_up (length key) key) \<longleftrightarrow> hasPrefix key p"
proof
  assume "hasPrefix key p"
  then have "p = take (length p) key" "length p < length key" "key ! length p = CHR ''.''"
    by (auto simp: hasPrefix_def split: if_splits)
  then show "p \<in> set (walk_up (length key) key)"
    unfolding walk_up_set[OF order_refl] by blast
qed (auto simp: walk_up_set hasPrefix_def)

lemma attempts_member:
  assumes "(ch, b) \<in> set (attempts mb mf fb d sender org)"
  shows "\<exists>sub raw. sub \<in> set (watchers fb (Key d)) \<and> Send sub = ch \<and> SessionID sub \<noteq> sender \<and>
     (OrgID sub = ''default'' \<or> org = [] \<or> OrgID sub = org) \<and> mb d = Some raw \<and>
     mf (frame_code FrameDelta, StreamID sub, Version d, raw) = Some b"
proof -
  from assms obtain raw where "mb d = Some raw" by (cases "mb d") (auto simp: attempts_def)
  with assms show ?thesis
    by (auto simp: attempts_def skips_def map_filter_def)
qed

section \<open>Properties\<close>

text \<open>
  C32. What one broadcast can add to a channel: only envelopes of the delta, addressed to a
  subscriber of the key or of one of its parents on that channel, who is not the sender and,
  when the key has an organization, belongs to it or to the default organization. Nothing
  already queued is lost or reordered.
\<close>

theorem BroadcastAll_isolation:
  "\<exists>rest. BroadcastAll mb mf fb d sender org q ch = q ch @ rest \<and>
     set rest \<subseteq> {b. \<exists>k sub raw. (k = Key d \<or> hasPrefix (Key d) k) \<and> sub \<in> set (watchers fb k) \<and>
        Send sub = ch \<and> SessionID sub \<noteq> sender \<and>
        (OrgID sub = ''default'' \<or> org = [] \<or> OrgID sub = org) \<and>
        mb \<lparr>Key = k, Version = Version d, Ops = Ops d\<rparr> = Some raw \<and>
        mf (frame_code FrameDelta, StreamID sub, Version d, raw) = Some b}"
proof -
  let ?ks = "Key d # walk_up (length (Key d)) (Key d)"
  let ?ms = "concat (map (\<lambda>k. attempts mb mf fb \<lparr>Key = k, Version = Version d, Ops = Ops d\<rparr> sender org) ?ks)"
  obtain rest where r: "BroadcastAll mb mf fb d sender org q ch = q ch @ rest"
    "set rest \<subseteq> {b. (ch, b) \<in> set ?ms}"
    unfolding BroadcastAll_attempts using send_all_prefix by blast
  have ks: "k \<in> set ?ks \<longleftrightarrow> k = Key d \<or> hasPrefix (Key d) k" for k
    using walk_up_hasPrefix by auto
  have "\<exists>k sub raw. (k = Key d \<or> hasPrefix (Key d) k) \<and> sub \<in> set (watchers fb k) \<and>
        Send sub = ch \<and> SessionID sub \<noteq> sender \<and>
        (OrgID sub = ''default'' \<or> org = [] \<or> OrgID sub = org) \<and>
        mb \<lparr>Key = k, Version = Version d, Ops = Ops d\<rparr> = Some raw \<and>
        mf (frame_code FrameDelta, StreamID sub, Version d, raw) = Some b"
    if "(ch, b) \<in> set ?ms" for b
  proof -
    from that obtain k where k: "k \<in> set ?ks"
      "(ch, b) \<in> set (attempts mb mf fb \<lparr>Key = k, Version = Version d, Ops = Ops d\<rparr> sender org)"
      by auto
    from attempts_member[OF k(2)] ks[of k] k(1) show ?thesis by auto
  qed
  with r show ?thesis by blast
qed

end
