(* ===== verification/Tenancy.thy ===== *)
theory Tenancy
  imports Go_Prelude
begin

text \<open>
  The tenancy scope of a request (\<^verbatim>\<open>src/pkg/tenancy/scope.go\<close>): the one place that decides
  which organization and workspace rows a request lists, fetches and changes.
\<close>

definition DefaultWorkspace :: string where
  "DefaultWorkspace = ''default''"

datatype Actor = ActorPerson | ActorAgent | ActorOperator

record Scope =
  scOrgID :: string
  Workspace :: string
  Member :: "string list"
  scActor :: "Actor option"
  valid :: bool
  tenanted :: bool
  byWS :: bool

text \<open>The zero value of the struct.\<close>

definition zeroScope :: Scope where
  "zeroScope = \<lparr>scOrgID = [], Workspace = [], Member = [], scActor = None,
     valid = False, tenanted = False, byWS = False\<rparr>"

definition NewScope :: "string \<Rightarrow> string \<Rightarrow> string list \<Rightarrow> Actor \<Rightarrow> Scope" where
  "NewScope orgID workspace member actor =
     \<lparr>scOrgID = orgID, Workspace = workspace, Member = member, scActor = Some actor,
      valid = True, tenanted = (orgID \<noteq> []), byWS = (orgID \<noteq> [])\<rparr>"

definition OrgOnly :: "string \<Rightarrow> string \<Rightarrow> Actor \<Rightarrow> Scope" where
  "OrgOnly orgID workspace actor =
     (let workspace' = (if workspace = [] then DefaultWorkspace else workspace)
      in zeroScope\<lparr>scOrgID := orgID, Workspace := workspace', scActor := Some actor,
           valid := True, tenanted := (orgID \<noteq> [])\<rparr>)"

definition Unrestricted :: "string \<Rightarrow> Scope" where
  "Unrestricted workspace =
     (let workspace' = (if workspace = [] then DefaultWorkspace else workspace)
      in zeroScope\<lparr>Workspace := workspace', valid := True\<rparr>)"

definition Valid :: "Scope \<Rightarrow> bool" where "Valid s = valid s"

definition Tenanted :: "Scope \<Rightarrow> bool" where "Tenanted s = (valid s \<and> tenanted s)"

definition ByWorkspace :: "Scope \<Rightarrow> bool" where
  "ByWorkspace s = (valid s \<and> tenanted s \<and> byWS s)"

definition Lists :: "Scope \<Rightarrow> string \<Rightarrow> string \<Rightarrow> bool" where
  "Lists s orgID ws =
     (if \<not> valid s then False
      else if \<not> tenanted s then True
      else if \<not> byWS s then orgID = [] \<or> orgID = scOrgID s
      else orgID = scOrgID s \<and> ws = Workspace s)"

definition Sees :: "Scope \<Rightarrow> string \<Rightarrow> string \<Rightarrow> bool" where
  "Sees s orgID ws =
     (if \<not> valid s then False
      else if \<not> tenanted s then True
      else if orgID \<noteq> [] \<and> orgID \<noteq> scOrgID s then False
      else if \<not> byWS s \<or> ws = [] \<or> ws = DefaultWorkspace then True
      else List.member (Member s) ws)"

definition Acts :: "Scope \<Rightarrow> string \<Rightarrow> string \<Rightarrow> bool" where
  "Acts s orgID ws =
     (if \<not> Sees s orgID ws then False
      else if \<not> byWS s \<or> ws = [] \<or> ws = DefaultWorkspace then True
      else ws = Workspace s)"

lemmas scope_defs = Lists_def Sees_def Acts_def Valid_def Tenanted_def ByWorkspace_def
  NewScope_def OrgOnly_def Unrestricted_def zeroScope_def

text \<open>Every right over a row is a right to see it; no rule crosses organizations.\<close>

lemma Acts_Sees: "Acts s o' ws \<Longrightarrow> Sees s o' ws"
  by (simp add: Acts_def split: if_splits)

lemma Sees_same_org: "Tenanted s \<Longrightarrow> Sees s o' ws \<Longrightarrow> o' = [] \<or> o' = scOrgID s"
  by (auto simp: scope_defs split: if_splits)

lemma Lists_same_org: "Tenanted s \<Longrightarrow> Lists s o' ws \<Longrightarrow> o' = [] \<or> o' = scOrgID s"
  by (auto simp: scope_defs split: if_splits)

lemma Sees_member:
  "ByWorkspace s \<Longrightarrow> Sees s o' ws \<Longrightarrow> ws \<noteq> [] \<Longrightarrow> ws \<noteq> DefaultWorkspace \<Longrightarrow> ws \<in> set (Member s)"
  by (auto simp: scope_defs split: if_splits)

lemma Acts_current:
  "ByWorkspace s \<Longrightarrow> Acts s o' ws \<Longrightarrow> ws \<noteq> [] \<Longrightarrow> ws \<noteq> DefaultWorkspace \<Longrightarrow> ws = Workspace s"
  by (auto simp: scope_defs split: if_splits)

text \<open>
  What a list shows may be acted on, for every scope the constructors build: the current
  workspace of \<^verbatim>\<open>New\<close> is one of the caller's.
\<close>

lemma Lists_Acts_New: "ws \<in> set ms \<Longrightarrow> Lists (NewScope o' ws ms a) p w \<Longrightarrow> Acts (NewScope o' ws ms a) p w"
  by (auto simp: scope_defs split: if_splits)

lemma Lists_Acts_OrgOnly: "Lists (OrgOnly o' ws a) p w \<Longrightarrow> Acts (OrgOnly o' ws a) p w"
  by (auto simp: scope_defs Let_def split: if_splits)

lemma zeroScope_rights: "\<not> Lists zeroScope org ws" "\<not> Sees zeroScope org ws" "\<not> Acts zeroScope org ws"
  by (simp_all add: Lists_def Sees_def Acts_def zeroScope_def)

text \<open>
  C33. Tenant isolation of the scope rules. A tenanted scope lists, sees or changes no row of
  another organization; where workspaces are kept apart it sees a named workspace only as a
  member and changes it only from within; and the zero scope has no right at all.
\<close>

theorem scope_isolation:
  "(Tenanted s \<longrightarrow> Lists s org ws \<or> Sees s org ws \<or> Acts s org ws \<longrightarrow> org = [] \<or> org = scOrgID s) \<and>
   (ByWorkspace s \<longrightarrow> ws \<noteq> [] \<longrightarrow> ws \<noteq> DefaultWorkspace \<longrightarrow>
      (Sees s org ws \<longrightarrow> ws \<in> set (Member s)) \<and> (Acts s org ws \<longrightarrow> ws = Workspace s)) \<and>
   \<not> Lists zeroScope org ws \<and> \<not> Sees zeroScope org ws \<and> \<not> Acts zeroScope org ws"
proof (intro conjI impI)
  show "Tenanted s \<Longrightarrow> Lists s org ws \<or> Sees s org ws \<or> Acts s org ws \<Longrightarrow> org = [] \<or> org = scOrgID s"
    using Lists_same_org Sees_same_org Acts_Sees by blast
qed (use Sees_member Acts_current zeroScope_rights in blast)+

theorem scope_isolation_witness:
  "\<not> Sees (NewScope ''a'' ''w'' [''w'', ''v''] ActorPerson) ''b'' ''w'' \<and>
   \<not> Acts (NewScope ''a'' ''w'' [''w'', ''v''] ActorPerson) ''a'' ''v'' \<and>
   Sees (NewScope ''a'' ''w'' [''w'', ''v''] ActorPerson) ''a'' ''v''"
  using scope_isolation[of "NewScope ''a'' ''w'' [''w'', ''v''] ActorPerson" "''b''" "''w''"]
    scope_isolation[of "NewScope ''a'' ''w'' [''w'', ''v''] ActorPerson" "''a''" "''v''"]
  by (simp add: NewScope_def Tenanted_def ByWorkspace_def DefaultWorkspace_def Sees_def)

end
