(* ===== verification/Sodp_Session.thy ===== *)
theory Sodp_Session
  imports Sodp_Fanout Tenancy
begin

text \<open>
  One WebSocket session (\<^verbatim>\<open>src/pkg/sodp/session.go\<close>): its watches, its presence
  registrations, its authentication state and its rate limit. Stream identifiers are
  \<^verbatim>\<open>uint32\<close>; the clock is an argument.
\<close>

definition defaultRateLimit :: int where "defaultRateLimit = 100"
definition defaultMaxWatches :: nat where "defaultMaxWatches = 64"
definition firstStreamID :: nat where "firstStreamID = 10"

record Session =
  ID :: string
  sOrgID :: string
  Sub :: string
  Claims :: gomap
  SScope :: Scope
  HasScope :: bool
  watches :: "(nat \<times> string) list"
  nextStream :: nat
  authed :: bool
  maxWatches :: nat
  presence :: "(string \<times> string) list"
  rateCount :: int
  rateReset :: int
  rateLimit :: int
  closed :: bool

definition NewSession :: "string \<Rightarrow> string \<Rightarrow> Session" where
  "NewSession sid orgID =
     \<lparr>ID = sid, sOrgID = orgID, Sub = [], Claims = [], SScope = zeroScope, HasScope = False,
      watches = [], nextStream = firstStreamID, authed = False, maxWatches = defaultMaxWatches,
      presence = [], rateCount = 0, rateReset = 0, rateLimit = defaultRateLimit, closed = False\<rparr>"

definition AllocStream :: "Session \<Rightarrow> nat \<times> Session" where
  "AllocStream s =
     (let n = (nextStream s + 1) mod 2 ^ 32
      in ((n + 2 ^ 32 - 1) mod 2 ^ 32, s\<lparr>nextStream := n\<rparr>))"

definition AddWatch :: "nat \<Rightarrow> string \<Rightarrow> Session \<Rightarrow> bool \<times> Session" where
  "AddWatch streamID key s =
     (if length (watches s) \<ge> maxWatches s then (False, s)
      else (True, s\<lparr>watches := mput streamID key (watches s)\<rparr>))"

definition RemoveWatch :: "nat \<Rightarrow> Session \<Rightarrow> string option \<times> Session" where
  "RemoveWatch streamID s =
     (case map_of (watches s) streamID of
        None \<Rightarrow> (None, s)
      | Some key \<Rightarrow> (Some key, s\<lparr>watches := mdel streamID (watches s)\<rparr>))"

definition WatchCount :: "Session \<Rightarrow> nat" where "WatchCount s = length (watches s)"

definition AddPresence :: "string \<Rightarrow> string \<Rightarrow> Session \<Rightarrow> Session" where
  "AddPresence state path s = s\<lparr>presence := List.insert (state, path) (presence s)\<rparr>"

definition PresenceEntries :: "Session \<Rightarrow> (string \<times> string) list" where
  "PresenceEntries s = presence s"

definition CheckRate :: "int \<Rightarrow> Session \<Rightarrow> bool \<times> Session" where
  "CheckRate now s =
     (if now > rateReset s then (True, s\<lparr>rateCount := 1, rateReset := now + 1\<rparr>)
      else let c = rateCount s + 1 in (c \<le> rateLimit s, s\<lparr>rateCount := c\<rparr>))"

definition MarkAuthenticated :: "Session \<Rightarrow> Session" where
  "MarkAuthenticated s = s\<lparr>authed := True\<rparr>"

definition Close :: "Session \<Rightarrow> Session" where "Close s = s\<lparr>closed := True\<rparr>"

definition SetAuth :: "string \<Rightarrow> gomap \<Rightarrow> Session \<Rightarrow> Session" where
  "SetAuth sub claims s =
     (let s1 = s\<lparr>Sub := sub, Claims := claims\<rparr>;
          s2 = (if \<not> authed s1 \<and> mget_str claims ''org_id'' \<noteq> []
                then s1\<lparr>sOrgID := mget_str claims ''org_id''\<rparr> else s1)
      in s2\<lparr>authed := True\<rparr>)"

section \<open>Invariants\<close>

definition session_inv :: "Session \<Rightarrow> bool" where
  "session_inv s \<longleftrightarrow> distinct (map fst (watches s)) \<and> length (watches s) \<le> maxWatches s \<and>
     distinct (presence s) \<and> nextStream s < 2 ^ 32"

lemma session_inv_New: "session_inv (NewSession sid org)"
  by (simp add: session_inv_def NewSession_def firstStreamID_def)

lemma session_inv_AddWatch: "session_inv s \<Longrightarrow> session_inv (snd (AddWatch st k s))"
  by (auto simp: session_inv_def AddWatch_def length_mput)

lemma session_inv_RemoveWatch: "session_inv s \<Longrightarrow> session_inv (snd (RemoveWatch st s))"
  using length_mdel_le[of st "watches s"]
  by (auto simp: session_inv_def RemoveWatch_def split: option.splits)

lemma session_inv_AllocStream: "session_inv s \<Longrightarrow> session_inv (snd (AllocStream s))"
  by (simp add: session_inv_def AllocStream_def Let_def)

lemma session_inv_AddPresence: "session_inv s \<Longrightarrow> session_inv (AddPresence st p s)"
  by (simp add: session_inv_def AddPresence_def)

lemma session_inv_CheckRate: "session_inv s \<Longrightarrow> session_inv (snd (CheckRate now s))"
  by (simp add: session_inv_def CheckRate_def Let_def)

lemma session_inv_SetAuth: "session_inv s \<Longrightarrow> session_inv (SetAuth sub cl s)"
  by (simp add: session_inv_def SetAuth_def Let_def)

lemma AllocStream_old: "nextStream s < 2 ^ 32 \<Longrightarrow> fst (AllocStream s) = nextStream s"
proof -
  assume "nextStream s < 2 ^ 32"
  then consider "nextStream s + 1 < 2 ^ 32" | "nextStream s + 1 = 2 ^ 32" by linarith
  then show ?thesis
    by cases (simp_all add: AllocStream_def Let_def)
qed

text \<open>The organization is fixed by the first authentication.\<close>

lemma SetAuth_org_fixed: "authed s \<Longrightarrow> sOrgID (SetAuth sub cl s) = sOrgID s"
  by (simp add: SetAuth_def Let_def)

section \<open>The rate window\<close>

text \<open>A burst of mutations, each at its own clock reading, and the number let through.\<close>

fun rate_run :: "int list \<Rightarrow> Session \<Rightarrow> nat \<times> Session" where
  "rate_run [] s = (0, s)"
| "rate_run (now # ts) s =
     (let (ok, s') = CheckRate now s; (n, s'') = rate_run ts s'
      in ((if ok then Suc n else n), s''))"

text \<open>
  While the clock does not pass the end of the window, at most the rest of the limit is let
  through.
\<close>

lemma rate_run_window:
  "\<forall>t \<in> set ts. t \<le> rateReset s \<Longrightarrow>
   int (fst (rate_run ts s)) \<le> max 0 (rateLimit s - rateCount s)"
proof (induction ts s rule: rate_run.induct)
  case (2 now ts s)
  let ?s' = "snd (CheckRate now s)"
  have eff: "rateReset ?s' = rateReset s" "rateLimit ?s' = rateLimit s" "rateCount ?s' = rateCount s + 1"
    "fst (CheckRate now s) \<longleftrightarrow> rateCount s + 1 \<le> rateLimit s"
    using "2.prems" by (simp_all add: CheckRate_def Let_def)
  have "int (fst (rate_run ts ?s')) \<le> max 0 (rateLimit ?s' - rateCount ?s')"
    using 2 by (cases "CheckRate now s") (simp add: CheckRate_def Let_def)
  with eff show ?case
    by (auto simp: split_def Let_def)
qed simp

end
