(* ===== verification/Sodp_History.thy ===== *)
theory Sodp_History
  imports Sodp_State
begin

text \<open>
  Runs of the state store. A run is a sequence of the store's mutations in any order and on
  any keys (the mutex makes each of them atomic); beside the store it carries, for every key,
  the deltas it has emitted since the key's log was last evicted, with the value each left
  behind. The invariant ties the bounded logs, the versions and the stored values to that
  history, and the replay of a resumed client follows from it.
\<close>

section \<open>Steps\<close>

datatype store_op =
    MApply string goval
  | MAppend string goval int
  | MDelete string
  | MEvict int

type_synonym hist = "string \<Rightarrow> (DeltaEntry \<times> goval) list"

definition evicted_key :: "StateStore \<Rightarrow> StateStore \<Rightarrow> string \<Rightarrow> bool" where
  "evicted_key s s' k \<longleftrightarrow> map_of (entries s) k \<noteq> None \<and> map_of (entries s') k = None"

fun record_delta :: "string \<Rightarrow> DeltaEntry option \<Rightarrow> StateStore \<Rightarrow> hist \<Rightarrow> hist" where
  "record_delta k None s h = h"
| "record_delta k (Some d) s h = h(k := h k @ [(d, cur_value s k)])"

fun exec_op :: "(f64 \<Rightarrow> string) \<Rightarrow> (string \<Rightarrow> int option) \<Rightarrow> store_op \<Rightarrow> StateStore \<times> hist \<Rightarrow> StateStore \<times> hist" where
  "exec_op ff parse (MApply k v) (s, h) =
     (let (d, s') = Apply ff k v s in (s', record_delta k d s' h))"
| "exec_op ff parse (MAppend k e n) (s, h) =
     (let (d, s') = Append k e n s in (s', record_delta k d s' h))"
| "exec_op ff parse (MDelete k) (s, h) =
     (let (d, s') = Delete k s in (s', record_delta k d s' h))"
| "exec_op ff parse (MEvict cutoff) (s, h) =
     (let (n, s') = EvictCompleted parse cutoff s
      in (s', \<lambda>k. if evicted_key s s' k then [] else h k))"

text \<open>
  Reachable stores: started with any positive log capacity, every step allowed by the guard
  \<open>G\<close>, and the \<^verbatim>\<open>uint64\<close> version counter not yet exhausted.
\<close>

inductive reach ::
  "(f64 \<Rightarrow> string) \<Rightarrow> (string \<Rightarrow> int option) \<Rightarrow> (store_op \<Rightarrow> StateStore \<Rightarrow> bool) \<Rightarrow> StateStore \<times> hist \<Rightarrow> bool"
  for ff parse G where
  reach_start: "0 < c \<Longrightarrow> reach ff parse G (NewStateStore\<lparr>logCap := c, maxKeys := n\<rparr>, \<lambda>_. [])"
| reach_step: "reach ff parse G (s, h) \<Longrightarrow> G op s \<Longrightarrow> global s + 1 < 2 ^ 64 \<Longrightarrow>
     reach ff parse G (exec_op ff parse op (s, h))"

text \<open>
  The guard under which a client can follow: values addressable by pointers and told apart by
  the code's equality, and appends to lists that are at most one element over the bound.
\<close>

fun op_ok :: "(f64 \<Rightarrow> string) \<Rightarrow> store_op \<Rightarrow> StateStore \<Rightarrow> bool" where
  "op_ok ff (MApply k v) s =
     (pointer_safe (cur_value s k) \<and> pointer_safe v \<and> faithful ff (cur_value s k) v)"
| "op_ok ff (MAppend k e n) s =
     (case cur_value s k of
        VNil \<Rightarrow> True
      | VList l \<Rightarrow> n \<le> 0 \<or> int (length l) \<le> n
      | _ \<Rightarrow> False)"
| "op_ok ff _ s = True"

fun chain :: "goval \<Rightarrow> (DeltaEntry \<times> goval) list \<Rightarrow> bool" where
  "chain x [] = True"
| "chain x ((d, y) # es) = (veq (apply_ops (Ops d) x) y \<and> chain y es)"

section \<open>The effect of one commit\<close>

lemma commit_effect:
  assumes "commit k v ops s = (d, s')" and "global s + 1 < 2 ^ 64"
  shows "d = \<lparr>Key = k, Version = global s + 1, Ops = ops\<rparr>"
    and "global s' = global s + 1" and "logCap s' = logCap s" and "maxKeys s' = maxKeys s"
    and "entries s' = (case v of None \<Rightarrow> mdel k (entries s)
      | Some x \<Rightarrow> mput k \<lparr>eValue = x, eVersion = global s + 1\<rparr> (entries s))"
    and "deltas s' = mput k (ring_push (case map_of (deltas s) k of
        None \<Rightarrow> newRingLog (logCap s) | Some r \<Rightarrow> r) d) (deltas s)"
  using assms by (auto simp: commit_def appendDelta_def Let_def u64_def cong: option.case_cong)

lemma commit_cur_value:
  assumes "commit k v ops s = (d, s')" and "global s + 1 < 2 ^ 64"
  shows "cur_value s' j = (if j = k then (case v of None \<Rightarrow> VNil | Some x \<Rightarrow> x) else cur_value s j)"
  using commit_effect(5)[OF assms] by (auto simp: cur_value_def split: option.splits)

section \<open>The effect of an eviction\<close>

lemma evict_fold:
  "fold evict_prefix ps (n, s) =
     (n + (length (entries s) - length (filter (\<lambda>(k, _). \<forall>p \<in> set ps. \<not> covered p k) (entries s))),
      s\<lparr>entries := filter (\<lambda>(k, _). \<forall>p \<in> set ps. \<not> covered p k) (entries s),
        deltas := filter (\<lambda>(k, _). \<not> (k \<in> fst ` set (entries s) \<and> (\<exists>p \<in> set ps. covered p k)))
          (deltas s)\<rparr>)"
proof (induction ps arbitrary: n s)
  case Nil
  show ?case by simp
next
  case (Cons p ps)
  let ?keep = "filter (\<lambda>(k, _). \<not> covered p k) (entries s)"
  have len: "length (filter (\<lambda>(k, _). covered p k) (entries s)) + length ?keep = length (entries s)"
    using sum_length_filter_compl[of "\<lambda>(k, _). covered p k" "entries s"]
    by (simp add: case_prod_unfold)
  have le: "length (filter Q ?keep) \<le> length ?keep" for Q by (rule length_filter_le)
  have e: "filter (\<lambda>(k, _). \<forall>p \<in> set ps. \<not> covered p k) ?keep
      = filter (\<lambda>(k, _). \<forall>q \<in> set (p # ps). \<not> covered q k) (entries s)"
    by (auto simp: case_prod_unfold intro!: filter_cong)
  have d: "filter (\<lambda>(k, _). \<not> (k \<in> fst ` set ?keep \<and> (\<exists>p \<in> set ps. covered p k)))
        (filter (\<lambda>(k, _). k \<notin> fst ` set (filter (\<lambda>(k, _). covered p k) (entries s))) (deltas s))
      = filter (\<lambda>(k, _). \<not> (k \<in> fst ` set (entries s) \<and> (\<exists>q \<in> set (p # ps). covered q k))) (deltas s)"
    by (auto simp: case_prod_unfold image_iff intro!: filter_cong)
  show ?case
    using Cons.IH[of "n + length (filter (\<lambda>(k, _). covered p k) (entries s))"] e d len le
    by (simp add: evict_prefix_def Let_def)
qed

definition dead_prefixes :: "(string \<Rightarrow> int option) \<Rightarrow> int \<Rightarrow> StateStore \<Rightarrow> string list" where
  "dead_prefixes parse cutoff s = map fst (filter (dead_run parse cutoff) (entries s))"

lemma EvictCompleted_effect:
  "EvictCompleted parse cutoff s =
     (length (entries s) - length (filter (\<lambda>(k, _). \<forall>p \<in> set (dead_prefixes parse cutoff s). \<not> covered p k) (entries s)),
      s\<lparr>entries := filter (\<lambda>(k, _). \<forall>p \<in> set (dead_prefixes parse cutoff s). \<not> covered p k) (entries s),
        deltas := filter (\<lambda>(k, _). \<not> (k \<in> fst ` set (entries s) \<and>
          (\<exists>p \<in> set (dead_prefixes parse cutoff s). covered p k))) (deltas s)\<rparr>)"
  unfolding EvictCompleted_def Let_def dead_prefixes_def[symmetric] evict_fold by simp

lemma map_of_filter_key:
  "map_of (filter (\<lambda>(k, _). P k) m) k = (if P k then map_of m k else None)"
  by (induction m) auto

section \<open>The invariant\<close>

definition key_inv :: "StateStore \<Rightarrow> hist \<Rightarrow> string \<Rightarrow> bool" where
  "key_inv s h k \<longleftrightarrow>
     (case map_of (deltas s) k of
        None \<Rightarrow> h k = []
      | Some r \<Rightarrow> h k \<noteq> [] \<and> rlog.represents (logCap s) r (map fst (h k))) \<and>
     sorted_wrt (<) (map (Version \<circ> fst) (h k)) \<and>
     (\<forall>x \<in> set (h k). Version (fst x) \<le> global s \<and> Key (fst x) = k) \<and>
     cur_value s k = (if h k = [] then VNil else snd (last (h k))) \<and>
     (\<forall>e. map_of (entries s) k = Some e \<longrightarrow> h k \<noteq> [] \<and> eVersion e = Version (fst (last (h k))))"

definition store_inv :: "StateStore \<times> hist \<Rightarrow> bool" where
  "store_inv = (\<lambda>(s, h). 0 < logCap s \<and> wf_map (entries s) \<and> (\<forall>k. key_inv s h k))"

lemma key_inv_commit_same:
  assumes inv: "key_inv s h k" and pos: "0 < logCap s"
    and c: "commit k v ops s = (d, s')" "global s + 1 < 2 ^ 64"
  shows "key_inv s' (h(k := h k @ [(d, cur_value s' k)])) k"
proof -
  note eff = commit_effect[OF c]
  let ?old = "case map_of (deltas s) k of None \<Rightarrow> newRingLog (logCap s) | Some r \<Rightarrow> r"
  have rep: "rlog.represents (logCap s) ?old (map fst (h k))"
    using inv pos by (auto simp: key_inv_def rlog.represents_fresh split: option.splits)
  then have "rlog.represents (logCap s) (ring_push ?old d) (map fst (h k @ [(d, cur_value s' k)]))"
    by (simp add: rlog.represents_push)
  moreover have "\<forall>x \<in> set (h k). Version (fst x) < Version d"
    using inv eff(1) by (fastforce simp: key_inv_def)
  ultimately show ?thesis
    using inv eff
    by (auto simp: key_inv_def sorted_wrt_append le_SucI split: option.splits)
qed

lemma key_inv_commit_other:
  assumes "key_inv s h j" "j \<noteq> k" "commit k v ops s = (d, s')" "global s + 1 < 2 ^ 64"
  shows "key_inv s' (h(k := x)) j"
  using assms(1,2) commit_effect[OF assms(3,4)] commit_cur_value[OF assms(3,4), of j]
  by (auto simp: key_inv_def le_SucI split: option.splits)

lemma store_inv_commit:
  assumes "store_inv (s, h)" "commit k v ops s = (d, s')" "global s + 1 < 2 ^ 64"
  shows "store_inv (s', h(k := h k @ [(d, cur_value s' k)]))"
proof -
  have "\<forall>j. key_inv s' (h(k := h k @ [(d, cur_value s' k)])) j"
  proof
    fix j
    show "key_inv s' (h(k := h k @ [(d, cur_value s' k)])) j"
    using assms key_inv_commit_same[of s h k] key_inv_commit_other[of s h j k]
    by (cases "j = k") (auto simp: store_inv_def)
  qed
  moreover have "wf_map (entries s')"
    using assms(1) commit_effect(5)[OF assms(2,3)] by (auto simp: store_inv_def split: option.splits)
  ultimately show ?thesis
    using assms(1) commit_effect(3)[OF assms(2,3)] unfolding store_inv_def by simp
qed

lemma store_inv_evict:
  assumes "store_inv (s, h)" "EvictCompleted parse cutoff s = (n, s')"
  shows "store_inv (s', \<lambda>k. if evicted_key s s' k then [] else h k)"
proof -
  let ?dead = "\<lambda>k. \<exists>p \<in> set (dead_prefixes parse cutoff s). covered p k"
  have s': "entries s' = filter (\<lambda>(k, _). \<not> ?dead k) (entries s)"
    "deltas s' = filter (\<lambda>(k, _). \<not> (k \<in> fst ` set (entries s) \<and> ?dead k)) (deltas s)"
    "global s' = global s" "logCap s' = logCap s"
    using assms(2) by (auto simp: EvictCompleted_effect)
  have look: "map_of (entries s') k = (if ?dead k then None else map_of (entries s) k)" for k
    unfolding s'(1) by (subst map_of_filter_key) auto
  have lookd: "map_of (deltas s') k = (if evicted_key s s' k then None else map_of (deltas s) k)" for k
    unfolding s'(2) evicted_key_def look by (subst map_of_filter_key) (auto simp: map_of_eq_None_iff)
  have "key_inv s' (\<lambda>k. if evicted_key s s' k then [] else h k) k" for k
  proof (cases "evicted_key s s' k")
    case True
    then show ?thesis
      using lookd[of k] by (auto simp: key_inv_def cur_value_def evicted_key_def)
  next
    case False
    then have same: "map_of (entries s') k = map_of (entries s) k"
      using look[of k] by (auto simp: evicted_key_def split: if_splits)
    then have "cur_value s' k = cur_value s k" by (simp add: cur_value_def)
    moreover have "key_inv s h k" using assms(1) by (simp add: store_inv_def)
    ultimately show ?thesis
      using False lookd[of k] same unfolding key_inv_def s'(3,4) by simp
  qed
  moreover have "wf_map (entries s')"
    using assms(1) by (simp add: store_inv_def s'(1) distinct_map_filter)
  ultimately show ?thesis
    using assms(1) by (auto simp: store_inv_def s'(4))
qed

lemma store_inv_exec:
  assumes "store_inv (s, h)" "global s + 1 < 2 ^ 64"
  shows "store_inv (exec_op ff parse op (s, h))"
proof (cases op)
  case (MApply k v)
  then show ?thesis
    using assms store_inv_commit[OF assms(1) _ assms(2)]
    by (auto simp: Apply_def Let_def split: prod.splits)
next
  case (MAppend k e n)
  then show ?thesis
    using store_inv_commit[OF assms(1) _ assms(2)]
    by (auto simp: Append_def Let_def split: prod.splits)
next
  case (MDelete k)
  then show ?thesis
    using assms store_inv_commit[OF assms(1) _ assms(2)]
    by (auto simp: Delete_def Let_def split: prod.splits)
next
  case (MEvict c)
  then show ?thesis
    using store_inv_evict[OF assms(1)] by (auto split: prod.splits)
qed

lemma store_inv_start: "0 < c \<Longrightarrow> store_inv (NewStateStore\<lparr>logCap := c, maxKeys := n\<rparr>, \<lambda>_. [])"
  by (simp add: store_inv_def key_inv_def NewStateStore_def cur_value_def)

lemma reach_inv: "reach ff parse G sh \<Longrightarrow> store_inv sh"
  by (induction rule: reach.induct) (simp_all add: store_inv_start store_inv_exec)

section \<open>What a resumed client is sent\<close>

lemma DeltasSince_window:
  assumes "ring_ok r" "map_of (deltas s) k = Some r" "len r \<noteq> 0"
    and "\<not> oldestVersion r > u64 (v + 1)"
  shows "DeltasSince s k v = filter (\<lambda>d. v < Version d) (ring_entries r)"
proof -
  have "fold (\<lambda>d st. if v < Version d then st @ [d] else st) ds acc
      = acc @ filter (\<lambda>d. v < Version d) ds" for ds :: "DeltaEntry list" and acc
    by (induction ds arbitrary: acc) auto
  then show ?thesis
    using assms by (simp add: DeltasSince_def scan_all)
qed

lemma DeltasSince_complete:
  assumes inv: "store_inv (s, h)" and ne: "DeltasSince s k v \<noteq> []" and v: "v + 1 < 2 ^ 64"
  shows "DeltasSince s k v = filter (\<lambda>d. v < Version d) (map fst (h k))"
proof -
  obtain r where r: "map_of (deltas s) k = Some r" "len r \<noteq> 0" "\<not> oldestVersion r > u64 (v + 1)"
    using ne by (auto simp: DeltasSince_def split: option.splits if_splits)
  have rep: "rlog.represents (logCap s) r (map fst (h k))"
    and srt: "sorted_wrt (<) (map Version (map fst (h k)))"
    using inv r(1) by (auto simp: store_inv_def key_inv_def split: option.splits
        dest: spec[of _ k])
  then have ok: "ring_ok r" by (simp add: rlog.represents_def)
  have "ring_entries r \<noteq> []" using r(2) by (simp add: ring_entries_def)
  moreover have "Version (hd (ring_entries r)) \<le> v + 1"
    using oldestVersion_hd[OF ok r(2)] r(3) v by simp
  ultimately show ?thesis
    using rlog.window_complete[OF rep srt] DeltasSince_window[OF ok r] by simp
qed


section \<open>A client that replays what it is sent\<close>

lemma veq_mget: "\<forall>k. rel_option veq (map_of m k) (map_of n k) \<Longrightarrow> veq (mget m k) (mget n k)"
  by (erule allE[of _ k]) (auto simp: mget_def split: option.splits elim: option.rel_cases)

lemma veq_mputI:
  assumes "\<forall>k. rel_option veq (map_of m k) (map_of n k)" "veq v w"
  shows "veq (VMap (mput k v m)) (VMap (mput k w n))"
  by (rule vrel_maps) (use assms in \<open>simp\<close>)

lemma veq_mdelI:
  assumes "\<forall>k. rel_option veq (map_of m k) (map_of n k)"
  shows "veq (VMap (mdel k m)) (VMap (mdel k n))"
  by (rule vrel_maps) (use assms in \<open>simp\<close>)

lemma put_at_veq: "veq a b \<Longrightarrow> veq (put_at p v a) (put_at p v b)"
proof (induction p arbitrary: a b)
  case Nil
  show ?case by auto
next
  case (Cons k ks)
  show ?case
    using veq_maps_iff[OF Cons.prems]
  proof
    assume "a = b"
    then show ?thesis by auto
  next
    assume "\<exists>m n. a = VMap m \<and> b = VMap n \<and> (\<forall>k. rel_option veq (map_of m k) (map_of n k))"
    then obtain m n where "a = VMap m" "b = VMap n"
      and mn: "\<forall>k. rel_option veq (map_of m k) (map_of n k)" by blast
    then show ?thesis
      using veq_mputI[OF mn Cons.IH[OF veq_mget[OF mn]]] by simp
  qed
qed

lemma del_at_veq: "veq a b \<Longrightarrow> veq (del_at p a) (del_at p b)"
proof (induction p arbitrary: a b)
  case Nil
  show ?case by auto
next
  case (Cons k ks)
  show ?case
    using veq_maps_iff[OF Cons.prems]
  proof
    assume "a = b"
    then show ?thesis by auto
  next
    assume "\<exists>m n. a = VMap m \<and> b = VMap n \<and> (\<forall>k. rel_option veq (map_of m k) (map_of n k))"
    then obtain m n where "a = VMap m" "b = VMap n"
      and mn: "\<forall>k. rel_option veq (map_of m k) (map_of n k)" by blast
    then show ?thesis
      using veq_mputI[OF mn Cons.IH[OF veq_mget[OF mn]]] veq_mdelI[OF mn] by simp
  qed
qed

lemma apply_ops_veq: "veq a b \<Longrightarrow> veq (apply_ops ops a) (apply_ops ops b)"
  unfolding apply_ops_def
  by (induction ops arbitrary: a b)
    (auto simp: apply_op_def put_at_veq del_at_veq split: DeltaOpType.splits)

lemma veq_trans: "veq a b \<Longrightarrow> veq b c \<Longrightarrow> veq a c"
proof (induction arbitrary: c rule: vrel.induct)
  case (vrel_maps m n)
  show ?case
    using veq_maps_iff[OF vrel_maps.prems]
  proof
    assume "VMap n = c"
    moreover have "veq (VMap m) (VMap n)"
      by (rule vrel.vrel_maps) (rule option.rel_mono_strong[OF vrel_maps.IH], blast)
    ultimately show ?thesis by simp
  next
    assume "\<exists>m' n'. VMap n = VMap m' \<and> c = VMap n' \<and> (\<forall>k. rel_option veq (map_of m' k) (map_of n' k))"
    then obtain n' where c: "c = VMap n'" "\<And>k. rel_option veq (map_of n k) (map_of n' k)" by auto
    have "rel_option veq (map_of m k) (map_of n' k)" for k
      using vrel_maps.IH[of k] c(2)[of k]
      by (cases "map_of m k"; cases "map_of n k"; cases "map_of n' k") auto
    then show ?thesis unfolding c(1) by (rule vrel.vrel_maps)
  qed
qed auto

text \<open>Replaying the suffix of a chain rebuilds its last value.\<close>

fun chain_end :: "goval \<Rightarrow> (DeltaEntry \<times> goval) list \<Rightarrow> goval" where
  "chain_end x [] = x"
| "chain_end x ((d, y) # es) = chain_end y es"

lemma chain_end_last: "chain_end x es = (if es = [] then x else snd (last es))"
  by (induction x es rule: chain_end.induct) auto

lemma chain_append: "chain x (as @ bs) \<longleftrightarrow> chain x as \<and> chain (chain_end x as) bs"
  by (induction x as rule: chain.induct) auto

definition replay :: "DeltaEntry list \<Rightarrow> goval \<Rightarrow> goval" where
  "replay ds v = fold (\<lambda>d. apply_ops (Ops d)) ds v"

lemma replay_chain:
  "chain x es \<Longrightarrow> veq w x \<Longrightarrow> veq (replay (map fst es) w) (chain_end x es)"
proof (induction x es arbitrary: w rule: chain.induct)
  case (1 x)
  then show ?case by (simp add: replay_def)
next
  case (2 x d y es)
  then have "veq (apply_ops (Ops d) w) y"
    using apply_ops_veq[of w x "Ops d"] veq_trans by auto
  with 2 show ?case by (simp add: replay_def)
qed

section \<open>Well-used stores keep a replayable chain\<close>

lemma Apply_chain:
  assumes "Apply ff k v s = (Some d, s')" "op_ok ff (MApply k v) s" "global s + 1 < 2 ^ 64"
  shows "veq (apply_ops (Ops d) (cur_value s k)) (cur_value s' k)"
proof -
  obtain c: "commit k (Some v) (Diff ff (cur_value s k) v) s = (d, s')"
    using assms(1) by (auto simp: Apply_def Let_def split: if_splits prod.splits)
  then show ?thesis
    using commit_effect(1)[OF c assms(3)] commit_cur_value[OF c assms(3), of k] assms(2)
      Diff_replay_vrel[of "cur_value s k" v "(=)" ff] by simp
qed

lemma Append_emits: "\<exists>d s'. Append k e n s = (Some d, s')"
  by (simp add: Append_def Let_def split_def)

lemma pointer_dash: "pointer ''/-'' = [''-'']" and pointer_zero: "pointer ''/0'' = [''0'']"
  by (simp_all add: pointer_def)

lemma Append_chain:
  assumes ap: "Append k e n s = (Some d, s')" and ok: "op_ok ff (MAppend k e n) s"
    and g: "global s + 1 < 2 ^ 64"
  shows "apply_ops (Ops d) (cur_value s k) = cur_value s' k"
proof -
  obtain l where l: "cur_value s k = VList l \<and> (n \<le> 0 \<or> int (length l) \<le> n) \<or> cur_value s k = VNil \<and> l = []"
    using ok by (auto split: goval.splits)
  let ?over = "n > 0 \<and> int (length l + 1) > n"
  let ?ops = "\<lparr>Op = OpAdd, Path = ''/-'', Value = e\<rparr> #
    (if ?over then [\<lparr>Op = OpRemove, Path = ''/0'', Value = VNil\<rparr>] else [])"
  let ?new = "if ?over then drop (length l + 1 - nat n) (l @ [e]) else l @ [e]"
  have "as_list (cur_value s k) = Some l \<or> as_list (cur_value s k) = None \<and> l = []"
    using l by auto
  then have c: "commit k (Some (VList ?new)) ?ops s = (d, s')"
    using ap by (auto simp: Append_def Let_def split: prod.splits if_splits)
  have "drop (length l + 1 - nat n) (l @ [e]) = tl (l @ [e])" if ?over
  proof -
    have "length l + 1 - nat n = 1"
      using that l by auto
    then show ?thesis by (simp add: drop_Suc del: drop_append)
  qed
  then show ?thesis
    using commit_effect(1)[OF c g] commit_cur_value[OF c g, of k] l
    by (auto simp: apply_ops_def apply_op_def pointer_dash pointer_zero)
qed

lemma Delete_chain:
  assumes "Delete k s = (Some d, s')" "global s + 1 < 2 ^ 64"
  shows "apply_ops (Ops d) (cur_value s k) = cur_value s' k"
proof -
  obtain c: "commit k None [\<lparr>Op = OpRemove, Path = ''/'', Value = VNil\<rparr>] s = (d, s')"
    using assms(1) by (auto simp: Delete_def Let_def split: if_splits prod.splits)
  then show ?thesis
    using commit_effect(1)[OF c assms(2)] commit_cur_value[OF c assms(2), of k]
    by (simp add: apply_ops_def apply_op_def pointer_def)
qed

lemma chain_snoc:
  assumes "chain VNil (h k)" "key_inv s h k" "veq (apply_ops (Ops d) (cur_value s k)) v"
  shows "chain VNil (h k @ [(d, v)])"
  using assms by (simp add: chain_append chain_end_last key_inv_def)

lemma chain_exec:
  assumes inv: "store_inv (s, h)" and ch: "\<forall>k. chain VNil (h k)" and ok: "op_ok ff op s"
    and g: "global s + 1 < 2 ^ 64"
  shows "\<forall>k. chain VNil (snd (exec_op ff parse op (s, h)) k)"
proof -
  have snoc: "chain VNil (h k @ [(d, v)])"
    if "veq (apply_ops (Ops d) (cur_value s k)) v" for k d v
    using that inv ch by (intro chain_snoc) (auto simp: store_inv_def)
  show ?thesis
  proof (cases op)
    case (MApply k v)
    obtain d s' where ap: "Apply ff k v s = (d, s')" by fastforce
    show ?thesis
    proof (cases d)
      case None
      then show ?thesis using ap ch MApply by simp
    next
      case (Some d')
      then have "chain VNil (h k @ [(d', cur_value s' k)])"
        using snoc Apply_chain[of ff k v s d' s'] ap ok g MApply by simp
      then show ?thesis using Some ap ch MApply by simp
    qed
  next
    case (MAppend k e n)
    obtain d s' where ap: "Append k e n s = (Some d, s')"
      using Append_emits by blast
    then have "apply_ops (Ops d) (cur_value s k) = cur_value s' k"
      using Append_chain ok g MAppend by blast
    then have "chain VNil (h k @ [(d, cur_value s' k)])"
      using snoc[of d k "cur_value s' k"] by auto
    then show ?thesis using ap ch MAppend by simp
  next
    case (MDelete k)
    obtain d s' where ap: "Delete k s = (d, s')" by fastforce
    show ?thesis
    proof (cases d)
      case None
      then show ?thesis using ap ch MDelete by simp
    next
      case (Some d')
      then have "apply_ops (Ops d') (cur_value s k) = cur_value s' k"
        using Delete_chain ap g by blast
      then have "chain VNil (h k @ [(d', cur_value s' k)])"
        using snoc[of d' k "cur_value s' k"] by auto
      then show ?thesis using Some ap ch MDelete by simp
    qed
  next
    case (MEvict c)
    then show ?thesis using ch by (auto split: prod.splits)
  qed
qed

lemma reach_chain: "reach ff parse (op_ok ff) (s, h) \<Longrightarrow> \<forall>k. chain VNil (h k)"
proof (induction "(s, h)" arbitrary: s h rule: reach.induct)
  case (reach_step s h op s' h')
  then show ?case
    using chain_exec[of s h ff op parse] reach_inv by (metis snd_conv)
qed simp

text \<open>
  The deltas sent on a resume, replayed on a client value that matches the value at the
  version it names, rebuild the value now stored.
\<close>

lemma resume_replay:
  assumes r: "reach ff parse (op_ok ff) (s, h)" and hk: "h k = pre @ post"
    and pre: "\<forall>x \<in> set pre. Version (fst x) \<le> v" and post: "\<forall>x \<in> set post. v < Version (fst x)"
    and w: "veq w (chain_end VNil pre)"
    and ne: "DeltasSince s k v \<noteq> []" and v: "v + 1 < 2 ^ 64"
  shows "veq (replay (DeltasSince s k v) w) (cur_value s k)"
proof -
  have inv: "store_inv (s, h)" using r by (rule reach_inv)
  have "DeltasSince s k v = filter (\<lambda>d. v < Version d) (map fst (h k))"
    by (rule DeltasSince_complete[OF inv ne v])
  also have "\<dots> = map fst post"
    using pre post by (auto simp: hk filter_map filter_empty_conv filter_id_conv)
  finally have ds: "DeltasSince s k v = map fst post" .
  have "chain (chain_end VNil pre) post"
    using reach_chain[OF r] hk chain_append by metis
  then have "veq (replay (map fst post) w) (chain_end (chain_end VNil pre) post)"
    using w by (rule replay_chain)
  moreover have "chain_end (chain_end VNil pre) post = cur_value s k"
    using inv ds ne hk by (auto simp: store_inv_def key_inv_def chain_end_last dest: spec[of _ k])
  ultimately show ?thesis by (simp add: ds)
qed

section \<open>Properties\<close>

text \<open>A small run for the witnesses: two writes of one key on a log of two entries.\<close>

definition demo :: "StateStore \<times> hist" where
  "demo = exec_op (\<lambda>_. []) (\<lambda>_. None) (MApply ''k'' (VInt64 2))
     (exec_op (\<lambda>_. []) (\<lambda>_. None) (MApply ''k'' (VInt64 1))
       (NewStateStore\<lparr>logCap := Suc (Suc 0), maxKeys := 5\<rparr>, \<lambda>_. []))"

lemmas demo_eval = demo_def Apply_def commit_def appendDelta_def cur_value_def NewStateStore_def
  newRingLog_def ring_push_def u64_def DeltasSince_def scan_def oldestVersion_def oldest_def Let_def

lemma demo_reach:
  assumes "\<And>op s. op_ok (\<lambda>_. []) op s \<Longrightarrow> G op s"
  shows "reach (\<lambda>_. []) (\<lambda>_. None) G demo"
proof -
  let ?s0 = "NewStateStore\<lparr>logCap := Suc (Suc 0), maxKeys := 5\<rparr>"
  let ?sh1 = "exec_op (\<lambda>_. []) (\<lambda>_. None) (MApply ''k'' (VInt64 1)) (?s0, \<lambda>_. [])"
  have "reach (\<lambda>_. []) (\<lambda>_. None) G (?s0, \<lambda>_. [])"
    by (rule reach_start) simp
  then have "reach (\<lambda>_. []) (\<lambda>_. None) G ?sh1"
    by (rule reach_step) (auto intro!: assms simp: cur_value_def NewStateStore_def)
  then have "reach (\<lambda>_. []) (\<lambda>_. None) G (fst ?sh1, snd ?sh1)" by simp
  then have "reach (\<lambda>_. []) (\<lambda>_. None) G
      (exec_op (\<lambda>_. []) (\<lambda>_. None) (MApply ''k'' (VInt64 2)) (fst ?sh1, snd ?sh1))"
    by (rule reach_step) (auto intro!: assms simp: demo_eval)
  then show ?thesis by (simp add: demo_def)
qed



text \<open>
  C27. A resumed client ends with the current value, counted from the last eviction of the key: \<open>h k\<close> is the
  history of the key since \<^verbatim>\<open>EvictCompleted\<close> last removed it (its whole history if that never happened). In a
  store used within the bounds of \<open>op_ok\<close>, a client that holds the value which the deltas of \<open>h k\<close> up to
  version \<open>v\<close> gave the key (nothing, when they all are newer) and replays the deltas of a non-empty
  \<open>DeltasSince\<close> answer holds the value stored now. A client still holding a value from before the
  eviction is not covered, and does not end there: \<open>evicted_resume_desync\<close> below.
\<close>

theorem resume_synchronises:
  assumes "reach ff parse (op_ok ff) (s, h)" and "h k = pre @ post"
    and "\<forall>x \<in> set pre. Version (fst x) \<le> v" and "\<forall>x \<in> set post. v < Version (fst x)"
    and "veq w (chain_end VNil pre)"
    and "DeltasSince s k v \<noteq> []" and "v + 1 < 2 ^ 64"
  shows "veq (replay (DeltasSince s k v) w) (cur_value s k)"
  using assms by (rule resume_replay)

theorem resume_synchronises_witness:
  "veq (replay (DeltasSince (fst demo) ''k'' 1) (VInt64 1)) (cur_value (fst demo) ''k'')"
proof -
  have r: "reach (\<lambda>_. []) (\<lambda>_. None) (op_ok (\<lambda>_. [])) (fst demo, snd demo)"
    using demo_reach[of "op_ok (\<lambda>_. [])"] by simp
  let ?d = "\<lambda>n v. (\<lparr>Key = ''k'', Version = n, Ops = [\<lparr>Op = OpUpdate, Path = ''/'', Value = v\<rparr>]\<rparr>, v)"
  have h: "snd demo ''k'' = [?d 1 (VInt64 1)] @ [?d 2 (VInt64 2)]"
    by (simp add: demo_eval)
  have ne: "DeltasSince (fst demo) ''k'' 1 \<noteq> []" by (simp add: demo_eval)
  show ?thesis
    by (rule resume_synchronises[OF r h _ _ _ ne]) auto
qed

text \<open>
  Eviction forgets without telling: it emits no delta and drops the log, so after the next write the
  oldest delta kept is newer than what a client saw before, and if no other key was written in between
  the gap check of \<open>DeltasSince\<close> finds none. Such a client is sent the new delta alone, appends it to the
  list it still holds, and keeps elements that the store no longer has.
\<close>

definition evict_run :: goval where
  "evict_run = VMap [(''status'', VStr ''success''), (''finished_at'', VStr ''t'')]"

definition evict_before :: StateStore where
  "evict_before = snd (Append ''runs.X.logs'' (VStr ''a'') 0
     (snd (Apply (\<lambda>_. []) ''runs.X'' evict_run (NewStateStore\<lparr>logCap := Suc (Suc 0), maxKeys := 5\<rparr>))))"

definition evict_after :: StateStore where
  "evict_after = snd (Append ''runs.X.logs'' (VStr ''c'') 0 (snd (EvictCompleted (\<lambda>_. Some 0) 1 evict_before)))"

lemma evict_before_state:
  "\<exists>r q. evict_before = \<lparr>entries = [(''runs.X'', \<lparr>eValue = evict_run, eVersion = Suc 0\<rparr>),
       (''runs.X.logs'', \<lparr>eValue = VList [VStr ''a''], eVersion = Suc (Suc 0)\<rparr>)],
     deltas = [(''runs.X'', r), (''runs.X.logs'', q)], global = Suc (Suc 0), logCap = Suc (Suc 0), maxKeys = 5\<rparr>"
  by (simp add: evict_before_def evict_run_def demo_eval Append_def)

lemma evict_covers:
  "dead_run (\<lambda>_. Some 0) 1 (''runs.X'', \<lparr>eValue = evict_run, eVersion = n\<rparr>)"
  "\<not> dead_run (\<lambda>_. Some 0) 1 (''runs.X.logs'', e)"
  "covered ''runs.X'' ''runs.X''" "covered ''runs.X'' ''runs.X.logs''"
  by (simp_all add: dead_run_def evict_run_def has_prefix_def mget_str_def mget_def covered_def hasPrefix_def)

lemma evict_two:
  assumes "dead_run p c (x, e)" "\<not> dead_run p c (y, f)" "covered x x" "covered x y"
  shows "snd (EvictCompleted p c \<lparr>entries = [(x, e), (y, f)], deltas = [(x, r), (y, q)], global = g, logCap = n, maxKeys = m\<rparr>) =
    \<lparr>entries = [], deltas = [], global = g, logCap = n, maxKeys = m\<rparr>"
  using assms by (simp add: EvictCompleted_effect dead_prefixes_def)

lemma evicted_state:
  "snd (EvictCompleted (\<lambda>_. Some 0) 1 evict_before) =
    \<lparr>entries = [], deltas = [], global = Suc (Suc 0), logCap = Suc (Suc 0), maxKeys = 5\<rparr>"
proof -
  obtain r q where st: "evict_before = \<lparr>entries = [(''runs.X'', \<lparr>eValue = evict_run, eVersion = Suc 0\<rparr>),
       (''runs.X.logs'', \<lparr>eValue = VList [VStr ''a''], eVersion = Suc (Suc 0)\<rparr>)],
     deltas = [(''runs.X'', r), (''runs.X.logs'', q)], global = Suc (Suc 0), logCap = Suc (Suc 0), maxKeys = 5\<rparr>"
    using evict_before_state by blast
  show ?thesis unfolding st by (rule evict_two) (rule evict_covers)+
qed

lemma evicted_resume_desync:
  "cur_value evict_before ''runs.X.logs'' = VList [VStr ''a''] \<and> global evict_before = 2 \<and>
   replay (DeltasSince evict_after ''runs.X.logs'' 2) (VList [VStr ''a'']) = VList [VStr ''a'', VStr ''c''] \<and>
   cur_value evict_after ''runs.X.logs'' = VList [VStr ''c'']"
proof -
  have before: "cur_value evict_before ''runs.X.logs'' = VList [VStr ''a'']" "global evict_before = 2"
  proof -
    obtain r q where st: "evict_before = \<lparr>entries = [(''runs.X'', \<lparr>eValue = evict_run, eVersion = Suc 0\<rparr>),
         (''runs.X.logs'', \<lparr>eValue = VList [VStr ''a''], eVersion = Suc (Suc 0)\<rparr>)],
       deltas = [(''runs.X'', r), (''runs.X.logs'', q)], global = Suc (Suc 0), logCap = Suc (Suc 0), maxKeys = 5\<rparr>"
      using evict_before_state by blast
    show "cur_value evict_before ''runs.X.logs'' = VList [VStr ''a'']" "global evict_before = 2"
      unfolding st by (simp_all add: cur_value_def)
  qed
  have ops: "apply_ops [\<lparr>Op = OpAdd, Path = ''/-'', Value = VStr ''c''\<rparr>] (VList [VStr ''a'']) = VList [VStr ''a'', VStr ''c'']"
    by code_simp
  have log: "map Ops (DeltasSince evict_after ''runs.X.logs'' 2) = [[\<lparr>Op = OpAdd, Path = ''/-'', Value = VStr ''c''\<rparr>]]"
    and now: "cur_value evict_after ''runs.X.logs'' = VList [VStr ''c'']"
    by (simp_all add: evict_after_def evicted_state demo_eval Append_def)
  have "replay ds v = fold apply_ops (map Ops ds) v" for ds v by (simp add: replay_def fold_map comp_def)
  then show ?thesis using before ops log now by simp
qed

text \<open>
  Eviction removes exactly the finished runs past the cutoff and their children: an entry
  stays if and only if no evictable run covers its key, the returned count is the number of
  entries removed, and no version is changed.
\<close>

lemma EvictCompleted_exact:
  "set (entries (snd (EvictCompleted parse cutoff s))) =
     {(k, e). (k, e) \<in> set (entries s) \<and>
        \<not> (\<exists>p pe. (p, pe) \<in> set (entries s) \<and> dead_run parse cutoff (p, pe) \<and> covered p k)} \<and>
   fst (EvictCompleted parse cutoff s) + length (entries (snd (EvictCompleted parse cutoff s)))
     = length (entries s) \<and>
   global (snd (EvictCompleted parse cutoff s)) = global s"
proof (intro conjI)
  show "set (entries (snd (EvictCompleted parse cutoff s))) =
     {(k, e). (k, e) \<in> set (entries s) \<and>
        \<not> (\<exists>p pe. (p, pe) \<in> set (entries s) \<and> dead_run parse cutoff (p, pe) \<and> covered p k)}"
    by (auto simp: EvictCompleted_effect dead_prefixes_def)
qed (simp_all add: EvictCompleted_effect)

text \<open>
  The comment calls \<^verbatim>\<open>defaultMaxKeys\<close> a hard cap on the number of keys; \<open>Apply\<close> honours it
  and \<open>Append\<close> does not: on a store at its cap, appending to a key it does not hold adds the key.
\<close>

lemma Append_passes_key_cap:
  assumes "map_of (entries s) k = None"
  shows "KeyCount (snd (Append k e n s)) = KeyCount s + 1 \<and>
     (maxKeys s \<le> KeyCount s \<longrightarrow> KeyCount (snd (Apply ff k v s)) = KeyCount s)"
  using assms
  by (auto simp: KeyCount_def Append_def Apply_def commit_def appendDelta_def Let_def length_mput
      map_of_eq_None_iff image_iff)

lemma Append_passes_key_cap_witness:
  "KeyCount (snd (Append ''b'' VNil 0
     (NewStateStore\<lparr>entries := [(''a'', \<lparr>eValue = VNil, eVersion = 1\<rparr>)], maxKeys := 1\<rparr>))) = 2"
  using Append_passes_key_cap[of "NewStateStore\<lparr>entries := [(''a'', \<lparr>eValue = VNil, eVersion = 1\<rparr>)], maxKeys := 1\<rparr>"
      "''b''" VNil 0 "\<lambda>_. []" VNil]
  by (simp add: KeyCount_def)

end
