(* ===== verification/Sodp_Server.thy ===== *)
theory Sodp_Server
  imports Sodp_Session Sodp_History
begin

text \<open>
  The frame handlers of the real-time server (\<^verbatim>\<open>src/pkg/sodp/server.go\<close>): dispatch,
  authentication, watching, calling, resuming, the engine-side mutations and the cleanup of a
  closed session. What the handlers call outside the repository is the record \<open>ext\<close>: the
  MessagePack encoders, the JWT library and the visibility callback the embedding API installs.
\<close>

section \<open>State\<close>

datatype FrameBody =
    BNil
  | BVal goval
  | BDelta DeltaEntry
  | BError int string
  | BAuthOK string

record Frame =
  fType :: FrameType
  fStream :: nat
  fSeq :: nat
  fBody :: FrameBody

record ext =
  ffloat :: "f64 \<Rightarrow> string"
  mbody :: "DeltaEntry \<Rightarrow> bytes option"
  mframe :: "nat \<times> nat \<times> nat \<times> bytes \<Rightarrow> bytes option"
  EncodeFrame :: "Frame \<Rightarrow> bytes option"
  jwtParse :: "bytes \<Rightarrow> string \<Rightarrow> gomap option"
  RunVisible :: "(Scope \<Rightarrow> string \<Rightarrow> bool) option"

record Server =
  State :: StateStore
  Fanout :: bus
  chans :: channels
  jwtSecret :: bytes
  requireAuth :: bool

definition maxKeyLen :: nat where "maxKeyLen = 256"

section \<open>Value helpers\<close>

definition mergeValues :: "goval \<Rightarrow> goval \<Rightarrow> goval" where
  "mergeValues current patch =
     (case (toStringMap current, toStringMap patch) of
        (Some cm, Some pm) \<Rightarrow> VMap (moverlay (moverlay [] cm) pm)
      | _ \<Rightarrow> patch)"

fun remove_parts :: "gomap \<Rightarrow> string list \<Rightarrow> gomap" where
  "remove_parts target [] = target"
| "remove_parts target [p] = mdel p target"
| "remove_parts target (p # q # ps) =
     (case toStringMap (mget target p) of
        None \<Rightarrow> target
      | Some nx \<Rightarrow> mput p (VMap (remove_parts nx (q # ps))) target)"

definition removeIn :: "goval \<Rightarrow> string \<Rightarrow> goval" where
  "removeIn current path =
     (case toStringMap current of
        None \<Rightarrow> current
      | Some cm \<Rightarrow> VMap (remove_parts cm (split_on (CHR ''.'') path)))"

fun set_parts :: "gomap \<Rightarrow> string list \<Rightarrow> goval \<Rightarrow> gomap" where
  "set_parts target [] value = target"
| "set_parts target [p] value = mput p value target"
| "set_parts target (p # q # ps) value =
     (let nx = (case toStringMap (mget target p) of None \<Rightarrow> [] | Some m \<Rightarrow> m)
      in mput p (VMap (set_parts nx (q # ps) value)) target)"

definition setIn :: "goval \<Rightarrow> string \<Rightarrow> goval \<Rightarrow> goval" where
  "setIn current path value =
     (let cm = (case toStringMap current of None \<Rightarrow> [] | Some m \<Rightarrow> m)
      in VMap (set_parts cm (split_on (CHR ''.'') path) value))"

section \<open>Keys\<close>

definition byte_in :: "nat \<Rightarrow> nat \<Rightarrow> char \<Rightarrow> bool" where
  "byte_in lo hi c \<longleftrightarrow> lo \<le> of_char c \<and> of_char c \<le> hi"

abbreviation cont :: "char \<Rightarrow> bool" where "cont \<equiv> byte_in 128 191"

text \<open>\<^verbatim>\<open>utf8.ValidString\<close>: the well-formed byte sequences of the Unicode standard.\<close>

fun valid_utf8 :: "string \<Rightarrow> bool" where
  "valid_utf8 [] = True"
| "valid_utf8 (a # s) =
     (if byte_in 0 127 a then valid_utf8 s
      else case s of
        [] \<Rightarrow> False
      | b # s1 \<Rightarrow>
          if byte_in 194 223 a then cont b \<and> valid_utf8 s1
          else case s1 of
            [] \<Rightarrow> False
          | c # s2 \<Rightarrow>
              if byte_in 224 224 a then byte_in 160 191 b \<and> cont c \<and> valid_utf8 s2
              else if byte_in 225 236 a \<or> byte_in 238 239 a then cont b \<and> cont c \<and> valid_utf8 s2
              else if byte_in 237 237 a then byte_in 128 159 b \<and> cont c \<and> valid_utf8 s2
              else case s2 of
                [] \<Rightarrow> False
              | d # s3 \<Rightarrow>
                  if byte_in 240 240 a then byte_in 144 191 b \<and> cont c \<and> cont d \<and> valid_utf8 s3
                  else if byte_in 241 243 a then cont b \<and> cont c \<and> cont d \<and> valid_utf8 s3
                  else if byte_in 244 244 a then byte_in 128 143 b \<and> cont c \<and> cont d \<and> valid_utf8 s3
                  else False)"

text \<open>
  In valid UTF-8 the bytes below 128 are the ASCII runes, so the rune loop of the source is the
  byte test here.
\<close>

definition isValidKey :: "string \<Rightarrow> bool" where
  "isValidKey key =
     (if key = [] \<or> length key > maxKeyLen then False
      else if \<not> valid_utf8 key then False
      else if list_ex (\<lambda>r. of_char r < (32::nat) \<or> r = CHR 0x5C \<or> r = CHR ''/'') key then False
      else if hd key = CHR ''.'' \<or> last key = CHR ''.'' then False
      else \<not> contains_str key ''..'')"

text \<open>\<^verbatim>\<open>strings.SplitN(key, ".", 3)\<close>: at most two cuts.\<close>

fun splitN3 :: "string \<Rightarrow> string list" where
  "splitN3 key =
     (case split_on (CHR ''.'') key of
        a # b # c # cs \<Rightarrow> [a, b, join_with ''.'' (c # cs)]
      | parts \<Rightarrow> parts)"

definition checkRunOrgAccess :: "Server \<Rightarrow> string \<Rightarrow> string \<Rightarrow> bool" where
  "checkRunOrgAccess srv sessionOrg key =
     (let parts = splitN3 key;
          runKey = (case parts of a # b # _ \<Rightarrow> a @ ''.'' @ b | _ \<Rightarrow> key)
      in case toStringMap (fst (Get (State srv) runKey)) of
           None \<Rightarrow> False
         | Some m \<Rightarrow>
             let orgID = mget_str m ''org_id''
             in if sessionOrg = ''default'' then orgID = [] \<or> orgID = ''default'' else orgID = sessionOrg)"

definition keyAllowedForSession :: "ext \<Rightarrow> Server \<Rightarrow> Session \<Rightarrow> string \<Rightarrow> bool" where
  "keyAllowedForSession x srv sess key =
     (if \<not> authed sess \<and> \<not> requireAuth srv then True
      else
        let byWorkspace = (HasScope sess \<and> ByWorkspace (SScope sess));
            rest =
              (if key = ''_events.'' @ sOrgID sess \<or> (sOrgID sess = ''default'' \<and> key = ''_events'') then True
               else if has_prefix key ''runs.'' then
                 (if \<not> checkRunOrgAccess srv (sOrgID sess) key then False
                  else if \<not> byWorkspace then True
                  else (case RunVisible x of None \<Rightarrow> False
                        | Some vis \<Rightarrow> vis (SScope sess) (splitN3 key ! 1)))
               else False)
        in if key = ''dashboard.'' @ sOrgID sess then \<not> byWorkspace
           else (case cut_prefix key (''dashboard.'' @ sOrgID sess @ ''.'') of
             Some ws \<Rightarrow>
               if ws \<noteq> [] \<and> \<not> contains_str ws ''.''
               then \<not> byWorkspace \<or> Sees (SScope sess) (scOrgID (SScope sess)) ws
               else rest
           | None \<Rightarrow> rest))"

section \<open>Body decoders\<close>

definition decodeAuthBody :: "FrameBody \<Rightarrow> string option" where
  "decodeAuthBody body =
     (case body of
        BVal (VMap m) \<Rightarrow> (let token = mget_str m ''token'' in if token = [] then None else Some token)
      | _ \<Rightarrow> None)"

definition decodeWatchBody :: "FrameBody \<Rightarrow> (string \<times> nat) option" where
  "decodeWatchBody body =
     (case body of
        BVal (VMap m) \<Rightarrow>
          (let key = mget_str m ''state'';
               since = (case mget m ''since_version'' of
                 VUint64 v \<Rightarrow> nat (v mod 2 ^ 64)
               | VInt64 v \<Rightarrow> nat (v mod 2 ^ 64)
               | VFloat v \<Rightarrow> nat (f_trunc v mod 2 ^ 64)
               | _ \<Rightarrow> 0)
           in if key = [] then None else Some (key, since))
      | _ \<Rightarrow> None)"

record CallBody =
  CallID :: string
  Method :: string
  Args :: gomap

definition decodeCallBody :: "FrameBody \<Rightarrow> CallBody option" where
  "decodeCallBody body =
     (case body of
        BVal (VMap m) \<Rightarrow>
          (let callID = mget_str m ''call_id''; meth = mget_str m ''method'';
               args = (case toStringMap (mget m ''args'') of None \<Rightarrow> [] | Some a \<Rightarrow> a)
           in if meth = [] then None else Some \<lparr>CallID = callID, Method = meth, Args = args\<rparr>)
      | _ \<Rightarrow> None)"

section \<open>Sending\<close>

definition sendFrame :: "ext \<Rightarrow> Session \<Rightarrow> Frame \<Rightarrow> Server \<Rightarrow> Server" where
  "sendFrame x sess f srv =
     (case EncodeFrame x f of
        None \<Rightarrow> srv
      | Some data \<Rightarrow> srv\<lparr>chans := try_send (ID sess) data (chans srv)\<rparr>)"

definition sendError :: "ext \<Rightarrow> Session \<Rightarrow> nat \<Rightarrow> int \<Rightarrow> string \<Rightarrow> Server \<Rightarrow> Server" where
  "sendError x sess streamID code msg srv =
     sendFrame x sess \<lparr>fType = FrameError, fStream = streamID, fSeq = 0, fBody = BError code msg\<rparr> srv"

definition fanout_all :: "ext \<Rightarrow> DeltaEntry \<Rightarrow> string \<Rightarrow> string \<Rightarrow> Server \<Rightarrow> Server" where
  "fanout_all x delta sender org srv =
     srv\<lparr>chans := BroadcastAll (mbody x) (mframe x) (Fanout srv) delta sender org (chans srv)\<rparr>"

section \<open>Handlers\<close>

definition requireAuthenticated :: "ext \<Rightarrow> Session \<Rightarrow> Server \<Rightarrow> bool \<times> Server" where
  "requireAuthenticated x sess srv =
     (if \<not> requireAuth srv then (True, srv)
      else if authed sess then (True, srv)
      else (False, sendError x sess 0 401 ''authentication required'' srv))"

definition handleAuth :: "ext \<Rightarrow> Frame \<Rightarrow> Server \<times> Session \<Rightarrow> Server \<times> Session" where
  "handleAuth x f = (\<lambda>(srv, sess).
     if authed sess then (sendError x sess 0 400 ''already authenticated'' srv, sess)
     else if jwtSecret srv = [] then
       (sendFrame x (MarkAuthenticated sess)
          \<lparr>fType = FrameAuthOK, fStream = 0, fSeq = 0, fBody = BAuthOK ''anonymous''\<rparr> srv,
        MarkAuthenticated sess)
     else case decodeAuthBody (fBody f) of
       None \<Rightarrow> (sendError x sess 0 400 ''invalid auth body'' srv, sess)
     | Some token \<Rightarrow>
         (case jwtParse x (jwtSecret srv) token of
            None \<Rightarrow> (sendError x sess 0 401 ''invalid token'' srv, sess)
          | Some claims \<Rightarrow>
              let sub = mget_str claims ''sub''; sess' = SetAuth sub claims sess
              in (sendFrame x sess' \<lparr>fType = FrameAuthOK, fStream = 0, fSeq = 0, fBody = BAuthOK sub\<rparr> srv, sess')))"

text \<open>The subscription steps shared by WATCH and RESUME: allocate, record, subscribe.\<close>

definition openWatch :: "ext \<Rightarrow> nat \<Rightarrow> string \<Rightarrow> Server \<times> Session \<Rightarrow> nat option \<times> Server \<times> Session" where
  "openWatch x stream key = (\<lambda>(srv, sess).
     let (streamID, sess1) = (if stream = 0 then AllocStream sess else (stream, sess));
         (ok, sess2) = AddWatch streamID key sess1
     in if \<not> ok then (None, sendError x sess2 stream 429 ''watch limit reached'' srv, sess2)
        else (Some streamID,
          srv\<lparr>Fanout := Subscribe key \<lparr>SessionID = ID sess2, StreamID = streamID,
                OrgID = sOrgID sess2, Send = ID sess2\<rparr> (Fanout srv)\<rparr>, sess2))"

definition handleWatch :: "ext \<Rightarrow> Frame \<Rightarrow> Server \<times> Session \<Rightarrow> Server \<times> Session" where
  "handleWatch x f = (\<lambda>(srv, sess).
     case decodeWatchBody (fBody f) of
       None \<Rightarrow> (sendError x sess (fStream f) 400 ''invalid watch body'' srv, sess)
     | Some (key, _) \<Rightarrow>
         if \<not> isValidKey key then (sendError x sess (fStream f) 400 ''invalid key'' srv, sess)
         else if \<not> keyAllowedForSession x srv sess key then (sendError x sess (fStream f) 403 ''access denied'' srv, sess)
         else (case openWatch x (fStream f) key (srv, sess) of
             (None, r) \<Rightarrow> r
           | (Some streamID, srv', sess') \<Rightarrow>
               let (val, ver) = Get (State srv') key
               in (sendFrame x sess' \<lparr>fType = FrameStateInit, fStream = streamID, fSeq = 0,
                     fBody = BVal (VMap [(''state'', VStr key), (''version'', VUint64 (int ver)),
                       (''value'', val), (''initialized'', VBool (val \<noteq> VNil))])\<rparr> srv', sess')))"

definition handleUnwatch :: "Frame \<Rightarrow> Server \<times> Session \<Rightarrow> Server \<times> Session" where
  "handleUnwatch f = (\<lambda>(srv, sess).
     case RemoveWatch (fStream f) sess of
       (None, sess') \<Rightarrow> (srv, sess')
     | (Some key, sess') \<Rightarrow>
         (srv\<lparr>Fanout := Unsubscribe key (ID sess') (fStream f) (Fanout srv)\<rparr>, sess'))"

text \<open>
  The method switch of \<^verbatim>\<open>handleCall\<close>: the delta, the store and the session after it, or the
  message of the error frame.
\<close>

definition callMethod ::
  "ext \<Rightarrow> CallBody \<Rightarrow> string \<Rightarrow> StateStore \<Rightarrow> Session \<Rightarrow> string + (DeltaEntry option \<times> StateStore \<times> Session)" where
  "callMethod x body key st sess =
     (let arg = mget (Args body); path = mget_str (Args body) ''path''; current = fst (Get st key)
      in if Method body = ''state.set'' then
           (let (d, st') = Apply (ffloat x) key (arg ''value'') st in Inr (d, st', sess))
         else if Method body = ''state.patch'' then
           (let (d, st') = Apply (ffloat x) key (mergeValues current (arg ''patch'')) st in Inr (d, st', sess))
         else if Method body = ''state.set_in'' then
           (if path = [] then Inl ''path required for set_in''
            else let (d, st') = Apply (ffloat x) key (setIn current path (arg ''value'')) st in Inr (d, st', sess))
         else if Method body = ''state.delete'' then
           (let (d, st') = Delete key st in Inr (d, st', sess))
         else if Method body = ''state.presence'' then
           (if path = [] then Inl ''path required for presence''
            else let (d, st') = Apply (ffloat x) key (setIn current path (arg ''value'')) st
                 in Inr (d, st', AddPresence key path sess))
         else Inl (''unknown method: '' @ Method body))"

definition handleCall :: "ext \<Rightarrow> int \<Rightarrow> Frame \<Rightarrow> Server \<times> Session \<Rightarrow> Server \<times> Session" where
  "handleCall x now f = (\<lambda>(srv, sess0).
     let (ok, sess) = CheckRate now sess0; err = sendError x sess (fStream f)
     in if \<not> ok then (err 429 ''rate limit exceeded'' srv, sess)
        else case decodeCallBody (fBody f) of
          None \<Rightarrow> (err 400 ''invalid call body'' srv, sess)
        | Some body \<Rightarrow>
            let key = mget_str (Args body) ''state''
            in if key = [] then (err 400 ''missing state key in args'' srv, sess)
               else if \<not> isValidKey key then (err 400 ''invalid key'' srv, sess)
               else if \<not> keyAllowedForSession x srv sess key then (err 403 ''access denied'' srv, sess)
               else if authed sess then (err 403 ''client state mutations are not allowed'' srv, sess)
               else case callMethod x body key (State srv) sess of
                 Inl msg \<Rightarrow> (err 400 msg srv, sess)
               | Inr (delta, st', sess') \<Rightarrow>
                   let srv1 = srv\<lparr>State := st'\<rparr>;
                       srv2 = (case delta of None \<Rightarrow> srv1 | Some d \<Rightarrow> fanout_all x d (ID sess') (sOrgID sess') srv1);
                       resultData = (case delta of None \<Rightarrow> [] | Some d \<Rightarrow> [(''version'', VUint64 (int (Version d)))])
                   in (sendFrame x sess' \<lparr>fType = FrameResult, fStream = fStream f, fSeq = fSeq f,
                         fBody = BVal (VMap [(''call_id'', VStr (CallID body)), (''success'', VBool True),
                           (''data'', VMap resultData)])\<rparr> srv2, sess'))"

definition sendDeltas :: "ext \<Rightarrow> Session \<Rightarrow> nat \<Rightarrow> DeltaEntry list \<Rightarrow> Server \<Rightarrow> Server" where
  "sendDeltas x sess streamID ds srv =
     fold (\<lambda>d. sendFrame x sess \<lparr>fType = FrameDelta, fStream = streamID, fSeq = Version d, fBody = BDelta d\<rparr>) ds srv"

definition handleResume :: "ext \<Rightarrow> Frame \<Rightarrow> Server \<times> Session \<Rightarrow> Server \<times> Session" where
  "handleResume x f = (\<lambda>(srv, sess).
     case decodeWatchBody (fBody f) of
       None \<Rightarrow> (sendError x sess (fStream f) 400 ''invalid resume body'' srv, sess)
     | Some (key, since) \<Rightarrow>
         if \<not> isValidKey key then (sendError x sess (fStream f) 400 ''invalid key'' srv, sess)
         else if \<not> keyAllowedForSession x srv sess key then (sendError x sess (fStream f) 403 ''access denied'' srv, sess)
         else let deltas = DeltasSince (State srv) key since
              in if deltas = [] then handleWatch x f (srv, sess)
                 else (case openWatch x (fStream f) key (srv, sess) of
                     (None, r) \<Rightarrow> r
                   | (Some streamID, srv', sess') \<Rightarrow> (sendDeltas x sess' streamID deltas srv', sess')))"

definition dispatch :: "ext \<Rightarrow> int \<Rightarrow> Frame \<Rightarrow> Server \<times> Session \<Rightarrow> Server \<times> Session" where
  "dispatch x now f = (\<lambda>(srv, sess).
     (case fType f of
        FrameAuth \<Rightarrow> handleAuth x f (srv, sess)
      | FrameWatch \<Rightarrow>
          (let (ok, srv') = requireAuthenticated x sess srv
           in if ok then handleWatch x f (srv', sess) else (srv', sess))
      | FrameUnwatch \<Rightarrow> handleUnwatch f (srv, sess)
      | FrameCall \<Rightarrow>
          (let (ok, srv') = requireAuthenticated x sess srv
           in if ok then handleCall x now f (srv', sess) else (srv', sess))
      | FrameResume \<Rightarrow>
          (let (ok, srv') = requireAuthenticated x sess srv
           in if ok then handleResume x f (srv', sess) else (srv', sess))
      | FrameHeartbeat \<Rightarrow>
          (sendFrame x sess \<lparr>fType = FrameHeartbeat, fStream = 0, fSeq = fSeq f, fBody = BNil\<rparr> srv, sess)
      | FrameAck \<Rightarrow> (srv, sess)
      | _ \<Rightarrow> (sendError x sess (fStream f) 400 ''unknown frame type'' srv, sess)))"

section \<open>Engine-side mutations and cleanup\<close>

definition extractOrgFromKey :: "string \<Rightarrow> string" where
  "extractOrgFromKey key = []"

definition Mutate :: "ext \<Rightarrow> string \<Rightarrow> goval \<Rightarrow> Server \<Rightarrow> Server" where
  "Mutate x key value srv =
     (case Apply (ffloat x) key value (State srv) of
        (None, st') \<Rightarrow> srv\<lparr>State := st'\<rparr>
      | (Some d, st') \<Rightarrow> fanout_all x d [] (extractOrgFromKey key) (srv\<lparr>State := st'\<rparr>))"

definition MutateAppend :: "ext \<Rightarrow> string \<Rightarrow> goval \<Rightarrow> int \<Rightarrow> Server \<Rightarrow> Server" where
  "MutateAppend x key element maxLen srv =
     (case Append key element maxLen (State srv) of
        (None, st') \<Rightarrow> srv\<lparr>State := st'\<rparr>
      | (Some d, st') \<Rightarrow> fanout_all x d [] (extractOrgFromKey key) (srv\<lparr>State := st'\<rparr>))"

definition MutateDelete :: "ext \<Rightarrow> string \<Rightarrow> Server \<Rightarrow> Server" where
  "MutateDelete x key srv =
     (case Delete key (State srv) of
        (None, st') \<Rightarrow> srv\<lparr>State := st'\<rparr>
      | (Some d, st') \<Rightarrow> fanout_all x d [] (extractOrgFromKey key) (srv\<lparr>State := st'\<rparr>))"

definition cleanup_entry :: "ext \<Rightarrow> Session \<Rightarrow> string \<times> string \<Rightarrow> Server \<Rightarrow> Server" where
  "cleanup_entry x sess = (\<lambda>(state, path) srv.
     let updated = removeIn (fst (Get (State srv) state)) path
     in case Apply (ffloat x) state updated (State srv) of
          (None, st') \<Rightarrow> srv\<lparr>State := st'\<rparr>
        | (Some d, st') \<Rightarrow> fanout_all x d (ID sess) (sOrgID sess) (srv\<lparr>State := st'\<rparr>))"

definition cleanupPresence :: "ext \<Rightarrow> Session \<Rightarrow> Server \<Rightarrow> Server" where
  "cleanupPresence x sess srv = fold (cleanup_entry x sess) (PresenceEntries sess) srv"

text \<open>The end of a connection, after the read pump returns.\<close>

definition disconnect :: "ext \<Rightarrow> Server \<times> Session \<Rightarrow> Server \<times> Session" where
  "disconnect x = (\<lambda>(srv, sess).
     let srv' = cleanupPresence x sess srv
     in (srv'\<lparr>Fanout := RemoveSession (ID sess) (Fanout srv')\<rparr>, Close sess))"


section \<open>Frame lemmas\<close>

text \<open>Sending touches only the channels.\<close>

lemma sendFrame_frame [simp]:
  "State (sendFrame x se f srv) = State srv" "Fanout (sendFrame x se f srv) = Fanout srv"
  "requireAuth (sendFrame x se f srv) = requireAuth srv" "jwtSecret (sendFrame x se f srv) = jwtSecret srv"
  by (simp_all add: sendFrame_def split: option.splits)

lemma sendError_frame [simp]:
  "State (sendError x se st c m srv) = State srv" "Fanout (sendError x se st c m srv) = Fanout srv"
  "requireAuth (sendError x se st c m srv) = requireAuth srv" "jwtSecret (sendError x se st c m srv) = jwtSecret srv"
  by (simp_all add: sendError_def)

lemma fanout_all_frame [simp]:
  "State (fanout_all x d a b srv) = State srv" "Fanout (fanout_all x d a b srv) = Fanout srv"
  "requireAuth (fanout_all x d a b srv) = requireAuth srv"
  by (simp_all add: fanout_all_def)

lemma sendDeltas_frame [simp]:
  "State (sendDeltas x se st ds srv) = State srv" "Fanout (sendDeltas x se st ds srv) = Fanout srv"
  by (induction ds arbitrary: srv) (simp_all add: sendDeltas_def)

lemma keyAllowed_chans [simp]: "keyAllowedForSession x (srv\<lparr>chans := q\<rparr>) sess key = keyAllowedForSession x srv sess key"
  by (simp add: keyAllowedForSession_def checkRunOrgAccess_def)

lemma keyAllowed_sendError [simp]:
  "keyAllowedForSession x (sendError x se st c m srv) sess key = keyAllowedForSession x srv sess key"
  by (simp add: sendError_def sendFrame_def split: option.splits)

lemma requireAuthenticated_frame:
  assumes "requireAuthenticated x sess srv = (ok, srv')"
  shows "State srv' = State srv" "Fanout srv' = Fanout srv" "requireAuth srv' = requireAuth srv"
    "ok \<Longrightarrow> srv' = srv" "ok \<longleftrightarrow> \<not> requireAuth srv \<or> authed sess"
  using assms by (auto simp: requireAuthenticated_def split: if_splits)

section \<open>Sessions cannot write state when authentication is required\<close>

lemma CheckRate_authed [simp]: "authed (snd (CheckRate now s)) = authed s"
  by (simp add: CheckRate_def Let_def)

lemma openWatch_State:
  "openWatch x st key (srv, sess) = (r, srv', sess') \<Longrightarrow> State srv' = State srv"
  by (auto simp: openWatch_def Let_def split: prod.splits if_splits)

lemma handleWatch_State: "State (fst (handleWatch x f (srv, sess))) = State srv"
  by (auto simp: handleWatch_def Let_def split: option.splits prod.splits dest!: openWatch_State)

lemma handleResume_State: "State (fst (handleResume x f (srv, sess))) = State srv"
  by (auto simp: handleResume_def Let_def handleWatch_State split: option.splits prod.splits dest!: openWatch_State)

lemma handleAuth_State: "State (fst (handleAuth x f (srv, sess))) = State srv"
  by (auto simp: handleAuth_def Let_def split: option.splits)

lemma handleUnwatch_State: "State (fst (handleUnwatch f (srv, sess))) = State srv"
  by (auto simp: handleUnwatch_def split: option.splits prod.splits)

lemma handleCall_authed_State:
  assumes "authed sess"
  shows "State (fst (handleCall x now f (srv, sess))) = State srv"
proof -
  obtain ok s1 where c: "CheckRate now sess = (ok, s1)" by fastforce
  then have "authed s1" using assms CheckRate_authed[of now sess] by simp
  with c show ?thesis
    by (auto simp: handleCall_def Let_def split: option.splits)
qed

lemma dispatch_State:
  assumes "requireAuth srv"
  shows "State (fst (dispatch x now f (srv, sess))) = State srv"
proof -
  obtain ok srv' where r: "requireAuthenticated x sess srv = (ok, srv')" by fastforce
  note rf = requireAuthenticated_frame[OF r]
  have "ok \<Longrightarrow> authed sess" using rf(5) assms by simp
  then show ?thesis
    using r rf by (cases "fType f")
      (auto simp: dispatch_def Let_def handleAuth_State handleUnwatch_State handleWatch_State
        handleResume_State handleCall_authed_State)
qed

section \<open>Subscriptions are authorised\<close>

definition new_sub :: "Session \<Rightarrow> Subscriber \<Rightarrow> bool" where
  "new_sub sess sub \<longleftrightarrow> SessionID sub = ID sess \<and> OrgID sub = sOrgID sess \<and> Send sub = ID sess"

lemma openWatch_subs:
  assumes "openWatch x st key (srv, sess) = (r, srv', sess')" "sub \<in> set (watchers (Fanout srv') k)"
  shows "sub \<in> set (watchers (Fanout srv) k) \<or> k = key \<and> new_sub sess sub"
  using assms
  by (auto simp: openWatch_def Let_def watchers_Subscribe new_sub_def AddWatch_def AllocStream_def
      split: prod.splits if_splits)

lemma handleWatch_subs:
  assumes "sub \<in> set (watchers (Fanout (fst (handleWatch x f (srv, sess)))) k)"
  shows "sub \<in> set (watchers (Fanout srv) k) \<or>
     new_sub sess sub \<and> isValidKey k \<and> keyAllowedForSession x srv sess k"
  using assms
  by (auto simp: handleWatch_def Let_def split: option.splits prod.splits if_splits dest!: openWatch_subs)

lemma handleResume_subs:
  assumes "sub \<in> set (watchers (Fanout (fst (handleResume x f (srv, sess)))) k)"
  shows "sub \<in> set (watchers (Fanout srv) k) \<or>
     new_sub sess sub \<and> isValidKey k \<and> keyAllowedForSession x srv sess k"
  using assms
  by (auto simp: handleResume_def Let_def split: option.splits prod.splits if_splits
      dest!: openWatch_subs handleWatch_subs)

lemma handleUnwatch_subs:
  assumes "sub \<in> set (watchers (Fanout (fst (handleUnwatch f (srv, sess)))) k)"
  shows "sub \<in> set (watchers (Fanout srv) k)"
proof (cases "map_of (watches sess) (fStream f)")
  case None
  with assms show ?thesis by (simp add: handleUnwatch_def RemoveWatch_def)
next
  case (Some key)
  let ?sid = "ID sess" and ?st = "fStream f"
  have after: "Fanout (fst (handleUnwatch f (srv, sess))) = Unsubscribe key ?sid ?st (Fanout srv)"
    using Some by (simp add: handleUnwatch_def RemoveWatch_def)
  show ?thesis
  proof (cases "k = key \<and> (\<exists>s \<in> set (watchers (Fanout srv) k). SessionID s = ?sid \<and> StreamID s = ?st)")
    case True
    then obtain s where "mset (watchers (Unsubscribe key ?sid ?st (Fanout srv)) k)
        = mset (watchers (Fanout srv) k) - {#s#}"
      using mset_Unsubscribe[of "Fanout srv" k ?sid ?st] by blast
    then have "set (watchers (Unsubscribe key ?sid ?st (Fanout srv)) k) \<subseteq> set (watchers (Fanout srv) k)"
      by (metis diff_subset_eq_self set_mset_mono set_mset_mset)
    with assms after show ?thesis by auto
  next
    case False
    with assms after show ?thesis
      using Unsubscribe_absent watchers_Unsubscribe_other by (cases "k = key") metis+
  qed
qed

lemma handleCall_Fanout: "Fanout (fst (handleCall x now f (srv, sess))) = Fanout srv"
  by (auto simp: handleCall_def Let_def split: option.splits prod.splits sum.splits)

lemma handleAuth_Fanout: "Fanout (fst (handleAuth x f (srv, sess))) = Fanout srv"
  by (auto simp: handleAuth_def Let_def split: option.splits)

lemma dispatch_subs:
  assumes "sub \<in> set (watchers (Fanout (fst (dispatch x now f (srv, sess)))) k)"
  shows "sub \<in> set (watchers (Fanout srv) k) \<or>
     new_sub sess sub \<and> isValidKey k \<and> keyAllowedForSession x srv sess k \<and> (requireAuth srv \<longrightarrow> authed sess)"
proof -
  obtain ok srv' where r: "requireAuthenticated x sess srv = (ok, srv')" by fastforce
  note rf = requireAuthenticated_frame[OF r]
  show ?thesis
    using assms r rf
    by (cases "fType f")
      (auto simp: dispatch_def Let_def handleAuth_Fanout handleCall_Fanout split: if_splits
        dest!: handleWatch_subs handleResume_subs handleUnwatch_subs)
qed

section \<open>Nested paths\<close>

fun get_parts :: "goval \<Rightarrow> string list \<Rightarrow> goval option" where
  "get_parts v [] = Some v"
| "get_parts (VMap m) (p # ps) = (case map_of m p of None \<Rightarrow> None | Some w \<Rightarrow> get_parts w ps)"
| "get_parts _ (p # ps) = None"

lemma toStringMap_Some [simp]: "toStringMap v = Some m \<longleftrightarrow> v = VMap m"
  by (cases v) auto

lemma get_parts_non_map: "toStringMap v = None \<Longrightarrow> q \<noteq> [] \<Longrightarrow> get_parts v q = None"
  by (cases v; cases q) auto

lemma get_set_parts: "ps \<noteq> [] \<Longrightarrow> get_parts (VMap (set_parts m ps v)) ps = Some v"
  by (induction m ps v rule: set_parts.induct) (auto simp: Let_def)

lemma get_remove_parts: "ps \<noteq> [] \<Longrightarrow> get_parts (VMap (remove_parts m ps)) ps = None"
  by (induction m ps rule: remove_parts.induct)
    (auto simp: mget_def get_parts_non_map split: option.splits)

text \<open>Neither operation disturbs a path that is neither above nor below the one it names.\<close>

fun apart :: "string list \<Rightarrow> string list \<Rightarrow> bool" where
  "apart (a # as) (b # bs) = (a \<noteq> b \<or> apart as bs)"
| "apart _ _ = False"

lemma get_set_parts_apart: "apart ps qs \<Longrightarrow> get_parts (VMap (set_parts m ps v)) qs = get_parts (VMap m) qs"
proof (induction m ps v arbitrary: qs rule: set_parts.induct)
  case (3 m p q ps v)
  obtain b bs where qs: "qs = b # bs" using "3.prems" by (cases qs) auto
  show ?case
  proof (cases "p = b")
    case False
    then show ?thesis by (simp add: qs Let_def)
  next
    case True
    with "3.prems" qs have ap: "apart (q # ps) bs" by simp
    then have ne: "bs \<noteq> []" by auto
    have "get_parts (VMap (set_parts nx (q # ps) v)) bs = get_parts (VMap nx) bs"
      if "nx = (case toStringMap (mget m p) of None \<Rightarrow> [] | Some m' \<Rightarrow> m')" for nx
      by (rule "3.IH"[OF that ap])
    then show ?thesis
      using True ne by (cases "toStringMap (mget m p)"; cases bs)
        (auto simp: qs Let_def mget_def get_parts_non_map split: option.splits)
  qed
next
  case (2 m p v)
  then show ?case by (cases qs) auto
qed auto

lemma get_remove_parts_apart:
  "apart ps qs \<Longrightarrow> get_parts (VMap (remove_parts m ps)) qs = get_parts (VMap m) qs"
proof (induction m ps arbitrary: qs rule: remove_parts.induct)
  case (3 m p q ps)
  obtain b bs where qs: "qs = b # bs" using "3.prems" by (cases qs) auto
  show ?case
  proof (cases "toStringMap (mget m p)")
    case (Some nx)
    then have "map_of m p = Some (VMap nx)" by (auto simp: mget_def split: option.splits)
    then show ?thesis
      using "3.IH"[OF Some] "3.prems" Some qs by (cases "p = b") auto
  qed simp
next
  case (2 m p)
  then show ?case by (cases qs) auto
qed auto

text \<open>After the connection ends, no subscription of the session is left.\<close>

lemma cleanup_entry_Fanout: "Fanout (cleanup_entry x sess e srv) = Fanout srv"
  by (cases e) (auto simp: cleanup_entry_def Let_def split: prod.splits option.splits)

lemma cleanupPresence_Fanout: "Fanout (cleanupPresence x sess srv) = Fanout srv"
proof -
  have "Fanout (fold (cleanup_entry x sess) es srv) = Fanout srv" for es
    by (induction es arbitrary: srv) (simp_all add: cleanup_entry_Fanout)
  then show ?thesis by (simp add: cleanupPresence_def)
qed

lemma watchers_disconnect:
  "wf_map (Fanout srv) \<Longrightarrow>
   watchers (Fanout (fst (disconnect x (srv, sess)))) k = filter (\<lambda>s. SessionID s \<noteq> ID sess) (watchers (Fanout srv) k)"
  by (simp add: disconnect_def Let_def watchers_RemoveSession cleanupPresence_Fanout)

section \<open>Runs of many sessions\<close>

text \<open>Any interleaving of frames of any sessions, and of sessions that connect.\<close>

inductive client_run :: "ext \<Rightarrow> Server \<times> (string \<Rightarrow> Session option) \<Rightarrow> Server \<times> (string \<Rightarrow> Session option) \<Rightarrow> bool" for x where
  run_refl: "client_run x c c"
| run_connect: "client_run x c (srv, ss) \<Longrightarrow> ss sid = None \<Longrightarrow> session_inv sess \<Longrightarrow> ID sess = sid \<Longrightarrow>
     client_run x c (srv, ss(sid \<mapsto> sess))"
| run_frame: "client_run x c (srv, ss) \<Longrightarrow> ss sid = Some sess \<Longrightarrow> dispatch x now f (srv, sess) = (srv', sess') \<Longrightarrow>
     client_run x c (srv', ss(sid \<mapsto> sess'))"

lemma openWatch_requireAuth:
  "openWatch x st key (srv, sess) = (r, srv', sess') \<Longrightarrow> requireAuth srv' = requireAuth srv"
  by (auto simp: openWatch_def Let_def split: prod.splits if_splits)

lemma sendDeltas_requireAuth [simp]: "requireAuth (sendDeltas x se st ds srv) = requireAuth srv"
  by (induction ds arbitrary: srv) (simp_all add: sendDeltas_def)

lemma handleWatch_requireAuth: "requireAuth (fst (handleWatch x f (srv, sess))) = requireAuth srv"
  by (auto simp: handleWatch_def Let_def split: option.splits prod.splits dest!: openWatch_requireAuth)

lemma handleResume_requireAuth: "requireAuth (fst (handleResume x f (srv, sess))) = requireAuth srv"
  by (auto simp: handleResume_def Let_def handleWatch_requireAuth split: option.splits prod.splits
      dest!: openWatch_requireAuth)

lemma handleCall_requireAuth: "requireAuth (fst (handleCall x now f (srv, sess))) = requireAuth srv"
  by (auto simp: handleCall_def Let_def split: option.splits prod.splits sum.splits)

lemma dispatch_requireAuth: "requireAuth (fst (dispatch x now f (srv, sess))) = requireAuth srv"
proof -
  obtain ok srv' where r: "requireAuthenticated x sess srv = (ok, srv')" by fastforce
  show ?thesis
    using requireAuthenticated_frame[OF r] r
    by (cases "fType f")
      (auto simp: dispatch_def Let_def handleWatch_requireAuth handleResume_requireAuth
        handleCall_requireAuth handleAuth_def handleUnwatch_def split: option.splits prod.splits)
qed

lemma client_run_State:
  "client_run x (srv, ss) c' \<Longrightarrow> requireAuth srv \<Longrightarrow> State (fst c') = State srv \<and> requireAuth (fst c')"
proof (induction "(srv, ss)" c' rule: client_run.induct)
  case (run_frame srv1 ss1 sid sess now f srv' sess')
  then show ?case
    using dispatch_State[of srv1 x now f sess] dispatch_requireAuth[of x now f srv1 sess] by simp
qed auto

section \<open>Session invariant over frames\<close>

lemma openWatch_session:
  assumes "openWatch x st key (srv, sess) = (r, srv', sess')" "session_inv sess"
  shows "session_inv sess'"
proof -
  obtain i s1 where s1: "(if st = 0 then AllocStream sess else (st, sess)) = (i, s1)" by fastforce
  then have "session_inv s1"
    using assms(2) session_inv_AllocStream[OF assms(2)] by (auto split: if_splits)
  then show ?thesis
    using assms(1) s1 session_inv_AddWatch[of s1 i key]
    by (auto simp: openWatch_def Let_def split: prod.splits if_splits)
qed

lemma handleWatch_session: "session_inv sess \<Longrightarrow> session_inv (snd (handleWatch x f (srv, sess)))"
  by (auto simp: handleWatch_def Let_def split: option.splits prod.splits dest: openWatch_session)

lemma handleResume_session: "session_inv sess \<Longrightarrow> session_inv (snd (handleResume x f (srv, sess)))"
  by (auto simp: handleResume_def Let_def handleWatch_session split: option.splits prod.splits
      dest: openWatch_session)

lemma callMethod_session:
  "callMethod x b k st sess = Inr (d, st', sess') \<Longrightarrow> session_inv sess \<Longrightarrow> session_inv sess'"
  by (auto simp: callMethod_def Let_def session_inv_AddPresence split: if_splits prod.splits)

lemma handleCall_session: "session_inv sess \<Longrightarrow> session_inv (snd (handleCall x now f (srv, sess)))"
proof -
  assume inv: "session_inv sess"
  obtain ok s1 where c: "CheckRate now sess = (ok, s1)" by fastforce
  then have "session_inv s1" using session_inv_CheckRate[OF inv, of now] by simp
  with c show ?thesis
    by (auto simp: handleCall_def Let_def split: option.splits prod.splits sum.splits
        dest: callMethod_session)
qed

lemma dispatch_session:
  assumes "session_inv sess"
  shows "session_inv (snd (dispatch x now f (srv, sess)))"
proof -
  obtain ok srv' where r: "requireAuthenticated x sess srv = (ok, srv')" by fastforce
  have "session_inv (snd (handleAuth x f (srv, sess)))"
    using assms session_inv_SetAuth[OF assms]
    by (auto simp: handleAuth_def Let_def MarkAuthenticated_def session_inv_def split: option.splits)
  moreover have "session_inv (snd (handleUnwatch f (srv, sess)))"
    using session_inv_RemoveWatch[OF assms, of "fStream f"]
    by (auto simp: handleUnwatch_def split: option.splits prod.splits)
  ultimately show ?thesis
    using assms r
    by (cases "fType f")
      (auto simp: dispatch_def Let_def handleWatch_session handleResume_session handleCall_session)
qed

section \<open>Properties\<close>

text \<open>Externals for the witnesses: every encoding succeeds and every token is refused.\<close>

definition demo_ext :: ext where
  "demo_ext = \<lparr>ffloat = (\<lambda>_. []), mbody = (\<lambda>d. Some (Key d)), mframe = (\<lambda>_. Some []),
     EncodeFrame = (\<lambda>_. Some []), jwtParse = (\<lambda>_ _. None), RunVisible = None\<rparr>"

definition demo_srv :: "bool \<Rightarrow> Server" where
  "demo_srv auth = \<lparr>State = NewStateStore, Fanout = NewFanoutBus, chans = (\<lambda>_. []),
     jwtSecret = (if auth then ''s'' else []), requireAuth = auth\<rparr>"

definition watch_frame :: "nat \<Rightarrow> string \<Rightarrow> Frame" where
  "watch_frame st key = \<lparr>fType = FrameWatch, fStream = st, fSeq = 0,
     fBody = BVal (VMap [(''state'', VStr key)])\<rparr>"

text \<open>
  C30. Where authentication is required, no client writes state: whatever frames any number of
  sessions send, in whatever order, authenticated or not, the state store is the one the run
  started with. Only the engine-side mutations change it.
\<close>

theorem clients_never_write:
  assumes "client_run x (srv, ss) (srv', ss')" and "requireAuth srv"
  shows "State srv' = State srv"
  using client_run_State[OF assms] by simp

theorem clients_never_write_witness:
  "State (fst (dispatch demo_ext 0 \<lparr>fType = FrameCall, fStream = 1, fSeq = 0, fBody = BNil\<rparr>
     (demo_srv True, NewSession ''u'' ''o''))) = NewStateStore"
proof -
  let ?f = "\<lparr>fType = FrameCall, fStream = 1, fSeq = 0, fBody = BNil\<rparr>"
  let ?r = "dispatch demo_ext 0 ?f (demo_srv True, NewSession ''u'' ''o'')"
  have "client_run demo_ext (demo_srv True, [''u'' \<mapsto> NewSession ''u'' ''o''])
      (fst ?r, [''u'' \<mapsto> NewSession ''u'' ''o'', ''u'' \<mapsto> snd ?r])"
    by (rule run_frame[OF run_refl, where sid = "''u''" and sess = "NewSession ''u'' ''o''"]) simp_all
  moreover have "requireAuth (demo_srv True)" by (simp add: demo_srv_def)
  ultimately have "State (fst ?r) = State (demo_srv True)"
    by (rule clients_never_write)
  then show ?thesis by (simp add: demo_srv_def)
qed

text \<open>
  C29. Every subscription is authorised when it is made: a subscriber that a frame adds to the
  bus is the session that sent it, under the session's own organization, on a valid key that
  the session may read at that moment, and, where authentication is required, authenticated.
\<close>

theorem subscriptions_authorised:
  "set (watchers (Fanout (fst (dispatch x now f (srv, sess)))) k) \<subseteq>
     set (watchers (Fanout srv) k) \<union>
     {sub. SessionID sub = ID sess \<and> OrgID sub = sOrgID sess \<and> Send sub = ID sess \<and> isValidKey k \<and>
        keyAllowedForSession x srv sess k \<and> (\<not> requireAuth srv \<or> authed sess)}"
proof
  fix sub assume "sub \<in> set (watchers (Fanout (fst (dispatch x now f (srv, sess)))) k)"
  from dispatch_subs[OF this]
  show "sub \<in> set (watchers (Fanout srv) k) \<union>
     {sub. SessionID sub = ID sess \<and> OrgID sub = sOrgID sess \<and> Send sub = ID sess \<and> isValidKey k \<and>
        keyAllowedForSession x srv sess k \<and> (\<not> requireAuth srv \<or> authed sess)}"
    by (auto simp: new_sub_def)
qed

theorem subscriptions_authorised_witness:
  "watchers (Fanout (fst (dispatch demo_ext 0 (watch_frame 7 ''a'') (demo_srv True, NewSession ''u'' ''o'')))) ''a'' = []"
proof -
  have "watchers (Fanout (demo_srv True)) ''a'' = []" and "requireAuth (demo_srv True)"
    and "\<not> authed (NewSession ''u'' ''o'')"
    by (simp_all add: demo_srv_def NewFanoutBus_def watchers_def NewSession_def)
  then show ?thesis
    using subscriptions_authorised[of demo_ext 0 "watch_frame 7 ''a''" "demo_srv True" "NewSession ''u'' ''o''" "''a''"]
    by simp
qed

text \<open>
  Every frame keeps the session invariant: at most \<open>maxWatches\<close> recorded watches, one per
  stream, no duplicated presence registration, and a stream counter within 32 bits.
\<close>

lemma dispatch_keeps_session_inv:
  assumes "session_inv sess"
  shows "session_inv (snd (dispatch x now f (srv, sess)))"
  using assms by (rule dispatch_session)

lemma dispatch_keeps_session_inv_witness:
  "session_inv (snd (dispatch demo_ext 0 (watch_frame 0 ''k'') (demo_srv False, NewSession ''u'' ''o'')))"
  by (rule dispatch_keeps_session_inv[OF session_inv_New])

text \<open>
  The watch limit counts stream identifiers, not subscriptions. A session that sends WATCH
  again on a stream it already uses gets one more subscription on the bus while its recorded
  count stays the same, so the limit does not bound the subscriptions, and UNWATCH of the
  stream leaves the subscriptions of the first key in place.
\<close>

lemma watch_stream_reuse_leaks:
  assumes "map_of (watches sess) st = Some a" and "a \<noteq> b" and "st \<noteq> 0"
    and "WatchCount sess < maxWatches sess"
    and "openWatch x st b (srv, sess) = (r, srv', sess')" and "fStream f = st"
  shows "r = Some st \<and> WatchCount sess' = WatchCount sess \<and>
    SubscriberCount (Fanout srv') b = Suc (SubscriberCount (Fanout srv) b) \<and>
    watchers (Fanout (fst (handleUnwatch f (srv', sess')))) a = watchers (Fanout srv) a"
proof -
  have add: "AddWatch st b sess = (True, sess\<lparr>watches := mput st b (watches sess)\<rparr>)"
    using assms(4) by (simp add: AddWatch_def WatchCount_def)
  have "r = Some st" and s': "sess' = sess\<lparr>watches := mput st b (watches sess)\<rparr>"
    and f': "Fanout srv' = Subscribe b \<lparr>SessionID = ID sess, StreamID = st, OrgID = sOrgID sess, Send = ID sess\<rparr> (Fanout srv)"
    using assms(3,5) add by (auto simp: openWatch_def)
  moreover have "st \<in> fst ` set (watches sess)"
    using assms(1) by (metis domI dom_map_of_conv_image_fst)
  ultimately show ?thesis
    using assms(2,6)
    by (simp add: WatchCount_def length_mput SubscriberCount_def watchers_Subscribe handleUnwatch_def
        RemoveWatch_def watchers_Unsubscribe_other)
qed

lemma watch_stream_reuse_leaks_witness:
  "SubscriberCount (Fanout (fst (snd (openWatch demo_ext 7 ''b''
      (demo_srv False, (NewSession ''u'' ''o'')\<lparr>watches := [(7, ''a'')]\<rparr>))))) ''b'' = 1"
proof -
  let ?s = "(NewSession ''u'' ''o'')\<lparr>watches := [(7, ''a'')]\<rparr>"
  obtain r srv' sess' where o: "openWatch demo_ext 7 ''b'' (demo_srv False, ?s) = (r, srv', sess')"
    by (metis prod.exhaust)
  have "SubscriberCount (Fanout srv') ''b'' = Suc (SubscriberCount (Fanout (demo_srv False)) ''b'')"
    using watch_stream_reuse_leaks[of ?s 7 "''a''" "''b''" demo_ext "demo_srv False" r srv' sess' "watch_frame 7 []"] o
    by (simp add: WatchCount_def NewSession_def defaultMaxWatches_def watch_frame_def)
  moreover have "SubscriberCount (Fanout (demo_srv False)) ''b'' = 0"
    by (simp add: demo_srv_def NewFanoutBus_def SubscriberCount_def watchers_def)
  ultimately show ?thesis by (simp add: o)
qed

text \<open>
  Setting and removing a nested path: after \<open>setIn\<close> the path holds the value, after
  \<open>removeIn\<close> of a map it holds nothing, and neither touches a path that is neither above nor
  below it.
\<close>

lemma nested_path_roundtrip:
  "get_parts (setIn cur path v) (split_on (CHR ''.'') path) = Some v \<and>
   get_parts (removeIn (VMap m) path) (split_on (CHR ''.'') path) = None \<and>
   (apart (split_on (CHR ''.'') path) q \<longrightarrow>
      get_parts (setIn (VMap m) path v) q = get_parts (VMap m) q \<and>
      get_parts (removeIn (VMap m) path) q = get_parts (VMap m) q)"
  by (simp add: setIn_def removeIn_def Let_def get_set_parts get_remove_parts get_set_parts_apart
      get_remove_parts_apart)

lemma nested_path_roundtrip_witness:
  "get_parts (setIn (VMap [(''b'', VInt64 3)]) ''a.x'' (VInt64 1)) [''b''] = Some (VInt64 3)"
proof -
  have "apart (split_on (CHR ''.'') ''a.x'') [''b'']" by simp
  then show ?thesis
    using nested_path_roundtrip[of VNil "''a.x''" "VInt64 1" "[(''b'', VInt64 3)]" "[''b'']"] by simp
qed

end
