(* ===== verification/Task_Type.thy ===== *)
theory Task_Type
  imports Go_Prelude
begin

text \<open>
  Portable type descriptors of task ports (\<^verbatim>\<open>src/pkg/taskinterface/type.go\<close>): the type and the
  port value structs, and their parsers from decoded JSON. The flat constraint fields of the
  Go struct are grouped in the record \<open>constraints\<close>; a pointer is an option.
\<close>

section \<open>Descriptors\<close>

datatype Kind =
    KindBoolean | KindInt64 | KindFloat64 | KindDecimal | KindString | KindBytes | KindDate
  | KindTimestamp | KindDuration | KindJSON | KindUnknown | KindArray | KindMap | KindRecord
  | KindEnum | KindUnion | KindOther string

definition kind_names :: "(string \<times> Kind) list" where
  "kind_names =
     [(''boolean'', KindBoolean), (''int64'', KindInt64), (''float64'', KindFloat64),
      (''decimal'', KindDecimal), (''string'', KindString), (''bytes'', KindBytes),
      (''date'', KindDate), (''timestamp'', KindTimestamp), (''duration'', KindDuration),
      (''json'', KindJSON), (''unknown'', KindUnknown), (''array'', KindArray),
      (''map'', KindMap), (''record'', KindRecord), (''enum'', KindEnum), (''union'', KindUnion)]"

definition kind_of :: "string \<Rightarrow> Kind" where
  "kind_of s = (case map_of kind_names s of Some k \<Rightarrow> k | None \<Rightarrow> KindOther s)"

record constraints =
  Minimum :: "string option"
  Maximum :: "string option"
  ExclusiveMinimum :: "string option"
  ExclusiveMaximum :: "string option"
  MinimumF :: "f64 option"
  MaximumF :: "f64 option"
  ExclusiveMinimumF :: "f64 option"
  ExclusiveMaximumF :: "f64 option"
  MinLength :: "int option"
  MaxLength :: "int option"
  Pattern :: "string option"
  MinItems :: "int option"
  MaxItems :: "int option"
  UniqueItems :: bool

definition no_constraints :: constraints where
  "no_constraints = \<lparr>Minimum = None, Maximum = None, ExclusiveMinimum = None, ExclusiveMaximum = None,
     MinimumF = None, MaximumF = None, ExclusiveMinimumF = None, ExclusiveMaximumF = None,
     MinLength = None, MaxLength = None, Pattern = None, MinItems = None, MaxItems = None,
     UniqueItems = False\<rparr>"

datatype Type =
  Ty (TKind: Kind) (Nullable: bool) (Items: "Type option") (Fields: "Field list")
     (AdditionalFields: bool) (Values: "string list") (TagField: string) (ValueField: string)
     (Variants: "Variant list") (Constr: constraints)
and Field = MkField (FName: string) (FType: Type) (Required: bool)
and Variant = MkVariant (Tag: string) (VType: Type)

text \<open>A descriptor of a kind that has no parts.\<close>

definition leafType :: "Kind \<Rightarrow> bool \<Rightarrow> constraints \<Rightarrow> Type" where
  "leafType k n cs = Ty k n None [] False [] [] [] [] cs"

datatype ValueKind = ValueDataset | ValueScalar | ValueArtifact | ValueCollection | ValueControl

datatype PortValue =
  Port (PKind: ValueKind) (Row: "Type option") (ScalarType: "Type option") (MediaTypes: "string list")
       (LogicalType: string) (PItems: "PortValue option") (Ordered: bool) (ItemKey: "Type option")

section \<open>Sizes of parts\<close>

lemma size_field: "f \<in> set (Fields t) \<Longrightarrow> size (FType f) < size t"
proof -
  assume f: "f \<in> set (Fields t)"
  have "size (FType f) \<le> size_list size (Fields t)"
    by (rule size_list_estimation'[OF f]) (cases f; simp)
  then show ?thesis by (cases t) simp
qed

lemma size_variant: "v \<in> set (Variants t) \<Longrightarrow> size (VType v) < size t"
proof -
  assume v: "v \<in> set (Variants t)"
  have "size (VType v) \<le> size_list size (Variants t)"
    by (rule size_list_estimation'[OF v]) (cases v; simp)
  then show ?thesis by (cases t) simp
qed

lemma size_items: "Items t = Some i \<Longrightarrow> size i < size t"
  by (cases t) auto

lemma size_pitems: "PItems p = Some i \<Longrightarrow> size i < size p"
  by (cases p) auto

section \<open>Parsing\<close>

datatype ParseError =
    NotAnObject
  | MissingKind
  | MissingPart string
  | FieldNotObject
  | InField string ParseError
  | VariantNotObject
  | InVariant string ParseError
  | InPort string ParseError
  | UnknownValueKind string

definition parseIntPtr :: "goval \<Rightarrow> int option" where
  "parseIntPtr v = map_option f_trunc (as_float v)"

definition parseStringPtr :: "goval \<Rightarrow> string option" where
  "parseStringPtr v = as_str v"

definition parseFloatPtr :: "goval \<Rightarrow> f64 option" where
  "parseFloatPtr v = as_float v"

definition bool_or :: "bool \<Rightarrow> goval \<Rightarrow> bool" where
  "bool_or d v = (case as_bool v of Some b \<Rightarrow> b | None \<Rightarrow> d)"

definition list_or_nil :: "goval \<Rightarrow> goval list" where
  "list_or_nil v = (case as_list v of Some xs \<Rightarrow> xs | None \<Rightarrow> [])"

text \<open>The loops over \<^verbatim>\<open>fields\<close> and \<^verbatim>\<open>variants\<close>; \<open>parse\<close> is the recursive call.\<close>

fun parse_fields :: "(goval \<Rightarrow> ParseError + Type) \<Rightarrow> goval list \<Rightarrow> ParseError + Field list" where
  "parse_fields parse [] = Inr []"
| "parse_fields parse (fr # rest) =
     (case as_map fr of
        None \<Rightarrow> Inl FieldNotObject
      | Some fm \<Rightarrow>
          (case parse (mget fm ''type'') of
             Inl e \<Rightarrow> Inl (InField (mget_str fm ''name'') e)
           | Inr ft \<Rightarrow>
               (case parse_fields parse rest of
                  Inl e \<Rightarrow> Inl e
                | Inr fs \<Rightarrow> Inr (MkField (mget_str fm ''name'') ft (bool_or False (mget fm ''required'')) # fs))))"

fun parse_variants :: "(goval \<Rightarrow> ParseError + Type) \<Rightarrow> goval list \<Rightarrow> ParseError + Variant list" where
  "parse_variants parse [] = Inr []"
| "parse_variants parse (vr # rest) =
     (case as_map vr of
        None \<Rightarrow> Inl VariantNotObject
      | Some vm \<Rightarrow>
          (case parse (mget vm ''type'') of
             Inl e \<Rightarrow> Inl (InVariant (mget_str vm ''tag'') e)
           | Inr vt \<Rightarrow>
               (case parse_variants parse rest of
                  Inl e \<Rightarrow> Inl e
                | Inr vs \<Rightarrow> Inr (MkVariant (mget_str vm ''tag'') vt # vs))))"

lemma parse_fields_cong [fundef_cong]:
  "\<lbrakk>xs = ys; \<And>m. VMap m \<in> set ys \<Longrightarrow> f (mget m ''type'') = g (mget m ''type'')\<rbrakk> \<Longrightarrow>
   parse_fields f xs = parse_fields g ys"
proof (induction ys arbitrary: xs)
  case (Cons y ys)
  then show ?case by (cases y) (auto split: sum.splits)
qed simp

lemma parse_variants_cong [fundef_cong]:
  "\<lbrakk>xs = ys; \<And>m. VMap m \<in> set ys \<Longrightarrow> f (mget m ''type'') = g (mget m ''type'')\<rbrakk> \<Longrightarrow>
   parse_variants f xs = parse_variants g ys"
proof (induction ys arbitrary: xs)
  case (Cons y ys)
  then show ?case by (cases y) (auto split: sum.splits)
qed simp

lemma size_list_or_nil: "VMap m' \<in> set (list_or_nil (mget m k)) \<Longrightarrow> size (mget m' k') < size (VMap m)"
proof -
  assume a: "VMap m' \<in> set (list_or_nil (mget m k))"
  then obtain xs where xs: "mget m k = VList xs" "VMap m' \<in> set xs"
    by (cases "mget m k") (auto simp: list_or_nil_def)
  then have "size (VMap m') < size (VList xs)" by (intro size_list_item)
  then show ?thesis using size_mget[of m' k'] size_mget[of m k] xs(1) by simp
qed

function ParseType :: "goval \<Rightarrow> ParseError + Type" where
  "ParseType raw =
     (case as_map raw of
        None \<Rightarrow> Inl NotAnObject
      | Some m \<Rightarrow>
          if mget_str m ''kind'' = [] then Inl MissingKind
          else
            let kind = kind_of (mget_str m ''kind''); nullable = bool_or False (mget m ''nullable'')
            in if kind = KindArray \<or> kind = KindMap then
                 (let itemsKey = (if kind = KindMap then ''values'' else ''items'')
                  in if itemsKey \<notin> set (mkeys m) then Inl (MissingPart itemsKey)
                     else (case ParseType (mget m itemsKey) of
                         Inl e \<Rightarrow> Inl e
                       | Inr items \<Rightarrow>
                           Inr (Ty kind nullable (Some items) [] False [] [] [] []
                             (if kind = KindArray
                              then no_constraints\<lparr>MinItems := parseIntPtr (mget m ''min_items''),
                                     MaxItems := parseIntPtr (mget m ''max_items''),
                                     UniqueItems := bool_or False (mget m ''unique_items'')\<rparr>
                              else no_constraints))))
               else if kind = KindRecord then
                 (case parse_fields ParseType (list_or_nil (mget m ''fields'')) of
                    Inl e \<Rightarrow> Inl e
                  | Inr fs \<Rightarrow> Inr (Ty kind nullable None fs (bool_or False (mget m ''additional_fields'')) [] [] [] []
                                no_constraints))
               else if kind = KindEnum then
                 Inr (Ty kind nullable None [] False (List.map_filter as_str (list_or_nil (mget m ''values''))) [] [] []
                   no_constraints)
               else if kind = KindUnion then
                 (case parse_variants ParseType (list_or_nil (mget m ''variants'')) of
                    Inl e \<Rightarrow> Inl e
                  | Inr vs \<Rightarrow> Inr (Ty kind nullable None [] False [] (mget_str m ''tag_field'')
                                (mget_str m ''value_field'') vs no_constraints))
               else Inr (leafType kind nullable
                 (if kind = KindString then
                    no_constraints\<lparr>MinLength := parseIntPtr (mget m ''min_length''),
                      MaxLength := parseIntPtr (mget m ''max_length''),
                      Pattern := parseStringPtr (mget m ''pattern'')\<rparr>
                  else if kind = KindInt64 \<or> kind = KindDecimal then
                    no_constraints\<lparr>Minimum := parseStringPtr (mget m ''minimum''),
                      Maximum := parseStringPtr (mget m ''maximum''),
                      ExclusiveMinimum := parseStringPtr (mget m ''exclusive_minimum''),
                      ExclusiveMaximum := parseStringPtr (mget m ''exclusive_maximum'')\<rparr>
                  else if kind = KindFloat64 then
                    no_constraints\<lparr>MinimumF := parseFloatPtr (mget m ''minimum''),
                      MaximumF := parseFloatPtr (mget m ''maximum''),
                      ExclusiveMinimumF := parseFloatPtr (mget m ''exclusive_minimum''),
                      ExclusiveMaximumF := parseFloatPtr (mget m ''exclusive_maximum'')\<rparr>
                  else no_constraints)))"
  by pat_completeness auto
termination by (relation "measure size") (auto simp: size_mget size_list_or_nil simp del: goval.size)

declare ParseType.simps [simp del]

function ParsePortValue :: "goval \<Rightarrow> ParseError + PortValue" where
  "ParsePortValue raw =
     (case as_map raw of
        None \<Rightarrow> Inl NotAnObject
      | Some m \<Rightarrow>
          let kind = mget_str m ''kind'' in
          if kind = [] then Inl MissingKind
          else if kind = ''dataset'' then
            (if ''row'' \<notin> set (mkeys m) then Inr (Port ValueDataset None None [] [] None False None)
             else (case ParseType (mget m ''row'') of
                 Inl e \<Rightarrow> Inl (InPort ''dataset row'' e)
               | Inr row \<Rightarrow> Inr (Port ValueDataset (Some row) None [] [] None False None)))
          else if kind = ''scalar'' then
            (case ParseType (mget m ''type'') of
               Inl e \<Rightarrow> Inl (InPort ''scalar type'' e)
             | Inr t \<Rightarrow> Inr (Port ValueScalar None (Some t) [] [] None False None))
          else if kind = ''artifact'' then
            Inr (Port ValueArtifact None None (List.map_filter as_str (list_or_nil (mget m ''media_types'')))
              (mget_str m ''logical_type'') None False None)
          else if kind = ''collection'' then
            (if ''items'' \<notin> set (mkeys m) then Inl (MissingPart ''items'')
             else (case ParsePortValue (mget m ''items'') of
                 Inl e \<Rightarrow> Inl (InPort ''collection items'' e)
               | Inr items \<Rightarrow>
                   let ordered = bool_or False (mget m ''ordered'') in
                   if ''item_key'' \<notin> set (mkeys m)
                   then Inr (Port ValueCollection None None [] [] (Some items) ordered None)
                   else (case ParseType (mget m ''item_key'') of
                       Inl e \<Rightarrow> Inl (InPort ''collection item_key'' e)
                     | Inr key \<Rightarrow> Inr (Port ValueCollection None None [] [] (Some items) ordered (Some key)))))
          else if kind = ''control'' then Inr (Port ValueControl None None [] [] None False None)
          else Inl (UnknownValueKind kind))"
  by pat_completeness auto
termination by (relation "measure size") (auto simp: size_mget simp del: goval.size)

declare ParsePortValue.simps [simp del]

section \<open>Well-formed descriptors\<close>

text \<open>Induction over the parts of a descriptor.\<close>

lemma Type_parts_induct:
  assumes "\<And>t. \<lbrakk>\<And>i. Items t = Some i \<Longrightarrow> P i; \<And>f. f \<in> set (Fields t) \<Longrightarrow> P (FType f);
    \<And>v. v \<in> set (Variants t) \<Longrightarrow> P (VType v)\<rbrakk> \<Longrightarrow> P t"
  shows "P t"
  by (induction t rule: measure_induct_rule[where f = size])
    (rule assms; simp add: size_items size_field size_variant)

text \<open>The pointers that the checks follow are set.\<close>

function wf_type :: "Type \<Rightarrow> bool" where
  "wf_type t =
     ((if TKind t = KindArray \<or> TKind t = KindMap then Items t \<noteq> None else True) \<and>
      (case Items t of None \<Rightarrow> True | Some i \<Rightarrow> wf_type i) \<and>
      (\<forall>f \<in> set (Fields t). wf_type (FType f)) \<and> (\<forall>v \<in> set (Variants t). wf_type (VType v)))"
  by pat_completeness auto
termination by (relation "measure size") (auto simp: size_items size_field size_variant)

declare wf_type.simps [simp del]

function wf_port :: "PortValue \<Rightarrow> bool" where
  "wf_port p =
     ((PKind p = ValueScalar \<longrightarrow> ScalarType p \<noteq> None) \<and>
      (PKind p = ValueCollection \<longrightarrow> PItems p \<noteq> None) \<and>
      (case Row p of None \<Rightarrow> True | Some t \<Rightarrow> wf_type t) \<and>
      (case ScalarType p of None \<Rightarrow> True | Some t \<Rightarrow> wf_type t) \<and>
      (case PItems p of None \<Rightarrow> True | Some i \<Rightarrow> wf_port i))"
  by pat_completeness auto
termination by (relation "measure size") (auto simp: size_pitems)

declare wf_port.simps [simp del]

lemma parse_fields_wf:
  "parse_fields f xs = Inr fs \<Longrightarrow> (\<And>m t. VMap m \<in> set xs \<Longrightarrow> f (mget m ''type'') = Inr t \<Longrightarrow> wf_type t) \<Longrightarrow>
   \<forall>fl \<in> set fs. wf_type (FType fl)"
proof (induction xs arbitrary: fs)
  case (Cons y ys)
  from Cons.prems(1) obtain fm ft fs' where y: "y = VMap fm" "f (mget fm ''type'') = Inr ft"
    "parse_fields f ys = Inr fs'" "fs = MkField (mget_str fm ''name'') ft (bool_or False (mget fm ''required'')) # fs'"
    by (auto split: option.splits sum.splits)
  then show ?case using Cons.IH[OF y(3)] Cons.prems(2) by fastforce
qed simp

lemma parse_variants_wf:
  "parse_variants f xs = Inr vs \<Longrightarrow> (\<And>m t. VMap m \<in> set xs \<Longrightarrow> f (mget m ''type'') = Inr t \<Longrightarrow> wf_type t) \<Longrightarrow>
   \<forall>v \<in> set vs. wf_type (VType v)"
proof (induction xs arbitrary: vs)
  case (Cons y ys)
  from Cons.prems(1) obtain vm vt vs' where y: "y = VMap vm" "f (mget vm ''type'') = Inr vt"
    "parse_variants f ys = Inr vs'" "vs = MkVariant (mget_str vm ''tag'') vt # vs'"
    by (auto split: option.splits sum.splits)
  then show ?case using Cons.IH[OF y(3)] Cons.prems(2) by fastforce
qed simp

lemma ParseType_wf: "ParseType raw = Inr t \<Longrightarrow> wf_type t"
proof (induction raw arbitrary: t rule: measure_induct_rule[where f = size])
  case (less raw)
  from less.prems obtain m where m: "raw = VMap m"
    by (subst (asm) ParseType.simps) (auto split: option.splits)
  have fields: "wf_type t'" if "VMap m' \<in> set (list_or_nil (mget m k))" "ParseType (mget m' ''type'') = Inr t'" for m' t' k
    using less.IH[OF _ that(2)] size_list_or_nil[OF that(1)] m by simp
  have part: "wf_type t'" if "ParseType (mget m k) = Inr t'" for k t'
    using less.IH[OF _ that] size_mget m by blast
  show ?case
    using less.prems unfolding m
    apply (subst (asm) ParseType.simps)
    apply (subst wf_type.simps)
    apply (auto simp: Let_def leafType_def split: if_splits sum.splits
        dest: part parse_fields_wf[OF _ fields] parse_variants_wf[OF _ fields])
    done
qed

lemma ParsePortValue_wf: "ParsePortValue raw = Inr p \<Longrightarrow> wf_port p"
proof (induction raw arbitrary: p rule: measure_induct_rule[where f = size])
  case (less raw)
  from less.prems obtain m where m: "raw = VMap m"
    by (subst (asm) ParsePortValue.simps) (auto split: option.splits)
  have part: "wf_port t'" if "ParsePortValue (mget m k) = Inr t'" for k t'
    using less.IH[OF _ that] size_mget m by blast
  show ?case
    using less.prems unfolding m
    apply (subst (asm) ParsePortValue.simps)
    apply (subst wf_port.simps)
    apply (auto simp: Let_def split: if_splits sum.splits dest: part ParseType_wf)
    done
qed

end
