(* ===== verification/Task_Assign.thy ===== *)
theory Task_Assign
  imports Task_Type "HOL-Library.Monad_Syntax"
begin

text \<open>
  Directional assignability of port types (\<^verbatim>\<open>src/pkg/taskinterface/assignability.go\<close>). A result
  carries its verdict, path and a reason, one constructor per message of the code. \<open>None\<close> is
  the panic of a nil pointer that is followed; parsed descriptors never reach it. The parser
  of canonical numbers is an argument, so that the results hold for any rounding.
\<close>

datatype Verdict = Assignable | Incompatible | Unverified

datatype Reason =
    NoReason
  | ValueKindMismatch ValueKind ValueKind
  | RowUnknown
  | MediaUndeclared "string list"
  | MediaNotAccepted string "string list"
  | OneSideUnknown
  | KindMismatch Kind Kind
  | NullableToNonNullable
  | FieldMissing string
  | FieldOptional string
  | FieldNotDeclared string
  | EnumNotAccepted string "string list"
  | NoVariant string
  | LengthNotImplied string "int option" int
  | PatternsDiffer
  | NotUnique
  | BoundUnparseable string string
  | BoundUndeclared string
  | BoundNotImplied string

record Result =
  RVerdict :: Verdict
  RPath :: string
  RReason :: Reason

definition ok :: Result where
  "ok = \<lparr>RVerdict = Assignable, RPath = [], RReason = NoReason\<rparr>"

definition incompatible :: "string \<Rightarrow> Reason \<Rightarrow> Result" where
  "incompatible path reason = \<lparr>RVerdict = Incompatible, RPath = path, RReason = reason\<rparr>"

definition unverified :: "string \<Rightarrow> Reason \<Rightarrow> Result" where
  "unverified path reason = \<lparr>RVerdict = Unverified, RPath = path, RReason = reason\<rparr>"

fun rank :: "Verdict \<Rightarrow> nat" where
  "rank Assignable = 0"
| "rank Unverified = 1"
| "rank Incompatible = 2"

definition worst :: "Result \<Rightarrow> Result \<Rightarrow> Result" where
  "worst a b = (if rank (RVerdict b) > rank (RVerdict a) then b else a)"

definition assignMediaTypes :: "string list \<Rightarrow> string list \<Rightarrow> Result" where
  "assignMediaTypes producer consumer =
     (if consumer = [] then ok
      else if producer = [] then unverified ''$'' (MediaUndeclared consumer)
      else (case find (\<lambda>mt. mt \<notin> set consumer) producer of
              Some mt \<Rightarrow> incompatible ''$'' (MediaNotAccepted mt consumer)
            | None \<Rightarrow> ok))"

text \<open>A map that is filled from a list in order keeps the last entry of a key.\<close>

definition last_field :: "Field list \<Rightarrow> string \<Rightarrow> Field option" where
  "last_field fs = map_of (rev (map (\<lambda>f. (FName f, f)) fs))"

definition last_variant :: "Variant list \<Rightarrow> string \<Rightarrow> Type option" where
  "last_variant vs = map_of (rev (map (\<lambda>v. (Tag v, VType v)) vs))"

text \<open>The recursive call of the type check is the argument \<open>assign\<close> of its parts.\<close>

type_synonym assigner = "Type \<Rightarrow> Type \<Rightarrow> string \<Rightarrow> Result option"

fun check_fields :: "assigner \<Rightarrow> Field list \<Rightarrow> string \<Rightarrow> Field list \<Rightarrow> Result \<Rightarrow> Result option" where
  "check_fields assign pfs path [] result = Some result"
| "check_fields assign pfs path (cf # cfs) result =
     (let fieldPath = path @ ''.'' @ FName cf in
      case last_field pfs (FName cf) of
        None \<Rightarrow>
          check_fields assign pfs path cfs
            (if Required cf then worst result (incompatible fieldPath (FieldMissing fieldPath)) else result)
      | Some pf \<Rightarrow>
          if Required cf \<and> \<not> Required pf then
            check_fields assign pfs path cfs (worst result (incompatible fieldPath (FieldOptional fieldPath)))
          else do {
            r \<leftarrow> assign (FType pf) (FType cf) fieldPath;
            check_fields assign pfs path cfs (worst result r)
          })"

definition check_extras :: "string list \<Rightarrow> string \<Rightarrow> Field list \<Rightarrow> Result \<Rightarrow> Result" where
  "check_extras consumerNames path pfs result =
     fold (\<lambda>pf res. if FName pf \<notin> set consumerNames
        then worst res (incompatible (path @ ''.'' @ FName pf) (FieldNotDeclared (FName pf))) else res) pfs result"

definition assignRecord :: "assigner \<Rightarrow> Type \<Rightarrow> Type \<Rightarrow> string \<Rightarrow> Result option" where
  "assignRecord assign producer consumer path = do {
     result \<leftarrow> check_fields assign (Fields producer) path (Fields consumer) ok;
     Some (if AdditionalFields consumer then result
           else check_extras (map FName (Fields consumer)) path (Fields producer) result)
   }"

definition assignEnum :: "Type \<Rightarrow> Type \<Rightarrow> string \<Rightarrow> Result" where
  "assignEnum producer consumer path =
     (case find (\<lambda>v. v \<notin> set (Values consumer)) (Values producer) of
        Some v \<Rightarrow> incompatible path (EnumNotAccepted v (Values consumer))
      | None \<Rightarrow> ok)"

fun check_variants :: "assigner \<Rightarrow> Type \<Rightarrow> string \<Rightarrow> Variant list \<Rightarrow> Result \<Rightarrow> Result option" where
  "check_variants assign consumer path [] result = Some result"
| "check_variants assign consumer path (pv # pvs) result =
     (let variantPath = path @ ''['' @ TagField consumer @ ''='' @ Tag pv @ '']'' in
      case last_variant (Variants consumer) (Tag pv) of
        None \<Rightarrow> check_variants assign consumer path pvs (worst result (incompatible variantPath (NoVariant (Tag pv))))
      | Some cv \<Rightarrow> do {
          r \<leftarrow> assign (VType pv) cv variantPath;
          check_variants assign consumer path pvs (worst result r)
        })"

definition assignUnion :: "assigner \<Rightarrow> Type \<Rightarrow> Type \<Rightarrow> string \<Rightarrow> Result option" where
  "assignUnion assign producer consumer path = check_variants assign consumer path (Variants producer) ok"

text \<open>One length or item-count bound: the producer's must be set and imply the consumer's.\<close>

definition check_count :: "string \<Rightarrow> string \<Rightarrow> (int \<Rightarrow> int \<Rightarrow> bool) \<Rightarrow> int option \<Rightarrow> int option \<Rightarrow> Result \<Rightarrow> Result" where
  "check_count label path bad p c result =
     (case c of
        None \<Rightarrow> result
      | Some cb \<Rightarrow>
          if (case p of None \<Rightarrow> True | Some pb \<Rightarrow> bad pb cb)
          then worst result (incompatible path (LengthNotImplied label p cb)) else result)"

definition assignStringConstraints :: "Type \<Rightarrow> Type \<Rightarrow> string \<Rightarrow> Result" where
  "assignStringConstraints producer consumer path =
     (let p = Constr producer; c = Constr consumer;
          r1 = check_count ''min_length'' path (<) (MinLength p) (MinLength c) ok;
          r2 = check_count ''max_length'' path (>) (MaxLength p) (MaxLength c) r1
      in case Pattern c of
           None \<Rightarrow> r2
         | Some cp \<Rightarrow> if Pattern p \<noteq> Some cp then worst r2 (unverified path PatternsDiffer) else r2)"

definition assignArrayConstraints :: "Type \<Rightarrow> Type \<Rightarrow> string \<Rightarrow> Result" where
  "assignArrayConstraints producer consumer path =
     (let p = Constr producer; c = Constr consumer;
          r1 = check_count ''min_items'' path (<) (MinItems p) (MinItems c) ok;
          r2 = check_count ''max_items'' path (>) (MaxItems p) (MaxItems c) r1
      in if UniqueItems c \<and> \<not> UniqueItems p then worst r2 (unverified path NotUnique) else r2)"

type_synonym number_parser = "string \<Rightarrow> f64 option"

definition check_canonical ::
  "number_parser \<Rightarrow> string \<Rightarrow> string \<Rightarrow> (f64 \<Rightarrow> f64 \<Rightarrow> bool) \<Rightarrow> string option \<Rightarrow> string option \<Rightarrow> Result \<Rightarrow> Result" where
  "check_canonical parse label path cmp producerBound consumerBound result =
     (case consumerBound of
        None \<Rightarrow> result
      | Some cb \<Rightarrow>
          (case parse cb of
             None \<Rightarrow> worst result (unverified path (BoundUnparseable label cb))
           | Some cf \<Rightarrow>
               (case producerBound of
                  None \<Rightarrow> worst result (unverified path (BoundUndeclared label))
                | Some pb \<Rightarrow>
                    (case parse pb of
                       None \<Rightarrow> worst result (unverified path (BoundUnparseable label pb))
                     | Some pf \<Rightarrow>
                         if \<not> cmp pf cf then worst result (incompatible path (BoundNotImplied label)) else result))))"

definition f_ge :: "f64 \<Rightarrow> f64 \<Rightarrow> bool" where
  "f_ge a b = f_le b a"

definition assignCanonicalNumericConstraints :: "number_parser \<Rightarrow> Type \<Rightarrow> Type \<Rightarrow> string \<Rightarrow> Result" where
  "assignCanonicalNumericConstraints parse producer consumer path =
     (let p = Constr producer; c = Constr consumer;
          r1 = check_canonical parse ''minimum'' path f_ge (Minimum p) (Minimum c) ok;
          r2 = check_canonical parse ''maximum'' path f_le (Maximum p) (Maximum c) r1;
          r3 = check_canonical parse ''exclusive_minimum'' path f_ge (ExclusiveMinimum p) (ExclusiveMinimum c) r2
      in check_canonical parse ''exclusive_maximum'' path f_le (ExclusiveMaximum p) (ExclusiveMaximum c) r3)"

definition check_float ::
  "string \<Rightarrow> string \<Rightarrow> (f64 \<Rightarrow> f64 \<Rightarrow> bool) \<Rightarrow> f64 option \<Rightarrow> f64 option \<Rightarrow> Result \<Rightarrow> Result" where
  "check_float label path cmp producerBound consumerBound result =
     (case consumerBound of
        None \<Rightarrow> result
      | Some cb \<Rightarrow>
          (case producerBound of
             None \<Rightarrow> worst result (unverified path (BoundUndeclared label))
           | Some pb \<Rightarrow> if \<not> cmp pb cb then worst result (incompatible path (BoundNotImplied label)) else result))"

definition assignFloatConstraints :: "Type \<Rightarrow> Type \<Rightarrow> string \<Rightarrow> Result" where
  "assignFloatConstraints producer consumer path =
     (let p = Constr producer; c = Constr consumer;
          r1 = check_float ''minimum'' path f_ge (MinimumF p) (MinimumF c) ok;
          r2 = check_float ''maximum'' path f_le (MaximumF p) (MaximumF c) r1;
          r3 = check_float ''exclusive_minimum'' path f_ge (ExclusiveMinimumF p) (ExclusiveMinimumF c) r2
      in check_float ''exclusive_maximum'' path f_le (ExclusiveMaximumF p) (ExclusiveMaximumF c) r3)"

lemma last_field_in: "last_field fs n = Some f \<Longrightarrow> f \<in> set fs \<and> FName f = n"
  by (auto simp: last_field_def dest: map_of_SomeD)

lemma last_variant_in: "last_variant vs n = Some t \<Longrightarrow> \<exists>v \<in> set vs. Tag v = n \<and> VType v = t"
  by (auto simp: last_variant_def dest!: map_of_SomeD)

lemma check_fields_cong:
  "(\<And>pf c pth. pf \<in> set pfs \<Longrightarrow> f (FType pf) c pth = g (FType pf) c pth) \<Longrightarrow>
   check_fields f pfs path cfs r = check_fields g pfs path cfs r"
  by (induction cfs arbitrary: r)
    (auto simp: Let_def dest!: last_field_in intro!: Option.bind_cong split: option.splits)

lemma assignRecord_cong [fundef_cong]:
  "\<lbrakk>p = p'; c = c'; path = path'; \<And>pf c pth. pf \<in> set (Fields p') \<Longrightarrow> f (FType pf) c pth = g (FType pf) c pth\<rbrakk> \<Longrightarrow>
   assignRecord f p c path = assignRecord g p' c' path'"
  by (simp add: assignRecord_def check_fields_cong[of "Fields p'" f g])

lemma check_variants_cong:
  "(\<And>pv c pth. pv \<in> set pvs \<Longrightarrow> f (VType pv) c pth = g (VType pv) c pth) \<Longrightarrow>
   check_variants f c path pvs r = check_variants g c path pvs r"
  by (induction pvs arbitrary: r) (auto simp: Let_def intro!: Option.bind_cong split: option.splits)

lemma assignUnion_cong [fundef_cong]:
  "\<lbrakk>p = p'; c = c'; path = path'; \<And>pv c pth. pv \<in> set (Variants p') \<Longrightarrow> f (VType pv) c pth = g (VType pv) c pth\<rbrakk> \<Longrightarrow>
   assignUnion f p c path = assignUnion g p' c' path'"
  by (simp add: assignUnion_def check_variants_cong[of "Variants p'" f g])

function AssignType :: "number_parser \<Rightarrow> assigner" where
  "AssignType parse producer consumer path =
     (if TKind producer = KindUnknown \<and> TKind consumer = KindUnknown then Some ok
      else if TKind producer = KindUnknown \<or> TKind consumer = KindUnknown then Some (unverified path OneSideUnknown)
      else if TKind producer \<noteq> TKind consumer then
        Some (incompatible path (KindMismatch (TKind producer) (TKind consumer)))
      else if Nullable producer \<and> \<not> Nullable consumer then Some (incompatible path NullableToNonNullable)
      else case TKind producer of
        KindArray \<Rightarrow>
          (case (Items producer, Items consumer) of
             (Some pit, Some cit) \<Rightarrow>
               map_option (\<lambda>res. worst res (assignArrayConstraints producer consumer path))
                 (AssignType parse pit cit (path @ ''[]''))
           | _ \<Rightarrow> None)
      | KindMap \<Rightarrow>
          (case (Items producer, Items consumer) of
             (Some pit, Some cit) \<Rightarrow> AssignType parse pit cit (path @ ''{}'')
           | _ \<Rightarrow> None)
      | KindRecord \<Rightarrow> assignRecord (\<lambda>p c pth. AssignType parse p c pth) producer consumer path
      | KindEnum \<Rightarrow> Some (assignEnum producer consumer path)
      | KindUnion \<Rightarrow> assignUnion (\<lambda>p c pth. AssignType parse p c pth) producer consumer path
      | KindString \<Rightarrow> Some (assignStringConstraints producer consumer path)
      | KindInt64 \<Rightarrow> Some (assignCanonicalNumericConstraints parse producer consumer path)
      | KindDecimal \<Rightarrow> Some (assignCanonicalNumericConstraints parse producer consumer path)
      | KindFloat64 \<Rightarrow> Some (assignFloatConstraints producer consumer path)
      | _ \<Rightarrow> Some ok)"
  by pat_completeness auto
termination
  by (relation "measure (\<lambda>(_, p, _, _). size p)") (auto simp: size_items size_field size_variant)

declare AssignType.simps [simp del]

definition assignRow :: "number_parser \<Rightarrow> Type option \<Rightarrow> Type option \<Rightarrow> Result option" where
  "assignRow parse producer consumer =
     (case consumer of
        None \<Rightarrow> Some ok
      | Some c \<Rightarrow>
          (case producer of
             None \<Rightarrow> Some (if TKind c = KindUnknown then ok else unverified ''$'' RowUnknown)
           | Some p \<Rightarrow> AssignType parse p c ''$''))"

function AssignPort :: "number_parser \<Rightarrow> PortValue \<Rightarrow> PortValue \<Rightarrow> Result option" where
  "AssignPort parse producer consumer =
     (if PKind producer \<noteq> PKind consumer
      then Some (incompatible ''$'' (ValueKindMismatch (PKind producer) (PKind consumer)))
      else case PKind producer of
        ValueDataset \<Rightarrow> assignRow parse (Row producer) (Row consumer)
      | ValueScalar \<Rightarrow>
          (case (ScalarType producer, ScalarType consumer) of
             (Some p, Some c) \<Rightarrow> AssignType parse p c ''$''
           | _ \<Rightarrow> None)
      | ValueArtifact \<Rightarrow> Some (assignMediaTypes (MediaTypes producer) (MediaTypes consumer))
      | ValueCollection \<Rightarrow>
          (case (PItems producer, PItems consumer) of
             (Some p, Some c) \<Rightarrow> AssignPort parse p c
           | _ \<Rightarrow> None)
      | ValueControl \<Rightarrow> Some ok)"
  by pat_completeness auto
termination by (relation "measure (\<lambda>(_, p, _). size p)") (auto simp: size_pitems)

declare AssignPort.simps [simp del]

section \<open>Verdicts\<close>

abbreviation assignable :: "Result \<Rightarrow> bool" where
  "assignable r \<equiv> RVerdict r = Assignable"

lemma assignable_rank: "assignable r \<longleftrightarrow> rank (RVerdict r) = 0"
  by (cases "RVerdict r") auto

lemma rank_worst: "rank (RVerdict (worst a b)) = max (rank (RVerdict a)) (rank (RVerdict b))"
  by (simp add: worst_def)

lemma assignable_simps [simp]:
  "assignable ok" "\<not> assignable (incompatible p x)" "\<not> assignable (unverified p x)"
  by (simp_all add: ok_def incompatible_def unverified_def)

interpretation verdicts: conjunctive assignable worst ok
  by unfold_locales (auto simp: assignable_rank rank_worst)

lemma check_fields_assignable:
  "check_fields assign pfs path cfs r = Some r' \<Longrightarrow> assignable r' \<Longrightarrow>
   assignable r \<and> (\<forall>cf \<in> set cfs. case last_field pfs (FName cf) of
       None \<Rightarrow> \<not> Required cf
     | Some pf \<Rightarrow> (Required cf \<longrightarrow> Required pf) \<and> (\<exists>pth s. assign (FType pf) (FType cf) pth = Some s \<and> assignable s))"
proof (induction cfs arbitrary: r)
  case (Cons cf cfs)
  show ?case
  proof (cases "last_field pfs (FName cf)")
    case None
    then show ?thesis using Cons.prems by (auto simp: Let_def verdicts.good_comb split: if_splits dest!: Cons.IH)
  next
    case (Some pf)
    then show ?thesis
      using Cons.prems by (fastforce simp: Let_def verdicts.good_comb split: if_splits Option.bind_splits dest!: Cons.IH)
  qed
qed simp

lemma check_extras_assignable:
  "assignable (check_extras names path pfs r) \<longleftrightarrow> assignable r \<and> FName ` set pfs \<subseteq> set names"
  unfolding check_extras_def by (auto simp: verdicts.good_fold)

lemma check_variants_assignable:
  "check_variants assign c path pvs r = Some r' \<Longrightarrow> assignable r' \<Longrightarrow>
   assignable r \<and> (\<forall>pv \<in> set pvs. \<exists>cv pth s. last_variant (Variants c) (Tag pv) = Some cv \<and>
      assign (VType pv) cv pth = Some s \<and> assignable s)"
proof (induction pvs arbitrary: r)
  case (Cons pv pvs)
  show ?case
  proof (cases "last_variant (Variants c) (Tag pv)")
    case None
    then show ?thesis using Cons.prems by (auto simp: Let_def verdicts.good_comb dest!: Cons.IH)
  next
    case (Some cv)
    then show ?thesis
      using Cons.prems by (fastforce simp: Let_def verdicts.good_comb split: Option.bind_splits dest!: Cons.IH)
  qed
qed simp

lemma check_count_assignable:
  "assignable (check_count label path bad p c r) \<longleftrightarrow>
   assignable r \<and> (case c of None \<Rightarrow> True | Some cb \<Rightarrow> (\<exists>pb. p = Some pb \<and> \<not> bad pb cb))"
  by (auto simp: check_count_def verdicts.good_comb split: option.splits)

lemma check_canonical_assignable:
  "assignable (check_canonical parse label path cmp p c r) \<longleftrightarrow>
   assignable r \<and> (case c of None \<Rightarrow> True | Some cb \<Rightarrow>
     (\<exists>cf pb pf. parse cb = Some cf \<and> p = Some pb \<and> parse pb = Some pf \<and> cmp pf cf))"
  by (auto simp: check_canonical_def verdicts.good_comb split: option.splits)

lemma check_float_assignable:
  "assignable (check_float label path cmp p c r) \<longleftrightarrow>
   assignable r \<and> (case c of None \<Rightarrow> True | Some cb \<Rightarrow> (\<exists>pb. p = Some pb \<and> cmp pb cb))"
  by (auto simp: check_float_def verdicts.good_comb split: option.splits)

section \<open>Parsed descriptors never panic\<close>

lemma check_fields_total:
  "(\<And>pf c pth. pf \<in> set pfs \<Longrightarrow> c \<in> FType ` set cfs \<Longrightarrow> assign (FType pf) c pth \<noteq> None) \<Longrightarrow>
   check_fields assign pfs path cfs r \<noteq> None"
proof (induction cfs arbitrary: r)
  case (Cons cf cfs)
  have step: "check_fields assign pfs path cfs r' \<noteq> None" for r'
    by (rule Cons.IH) (use Cons.prems in auto)
  show ?case
  proof (cases "last_field pfs (FName cf)")
    case (Some pf)
    then have "pf \<in> set pfs" by (simp add: last_field_in)
    then obtain y where "assign (FType pf) (FType cf) (path @ ''.'' @ FName cf) = Some y"
      using Cons.prems by fastforce
    then show ?thesis using Some step by (simp add: Let_def del: not_None_eq)
  qed (simp add: Let_def step del: not_None_eq)
qed simp

lemma check_variants_total:
  "(\<And>pv c pth. pv \<in> set pvs \<Longrightarrow> c \<in> VType ` set (Variants cons) \<Longrightarrow> assign (VType pv) c pth \<noteq> None) \<Longrightarrow>
   check_variants assign cons path pvs r \<noteq> None"
proof (induction pvs arbitrary: r)
  case (Cons pv pvs)
  have step: "check_variants assign cons path pvs r' \<noteq> None" for r'
    by (rule Cons.IH) (use Cons.prems in auto)
  show ?case
  proof (cases "last_variant (Variants cons) (Tag pv)")
    case (Some cv)
    then have "cv \<in> VType ` set (Variants cons)" using last_variant_in by fastforce
    then obtain y where "assign (VType pv) cv (path @ ''['' @ TagField cons @ ''='' @ Tag pv @ '']'') = Some y"
      using Cons.prems by fastforce
    then show ?thesis using Some step by (simp add: Let_def del: not_None_eq)
  qed (simp add: Let_def step del: not_None_eq)
qed simp

lemma wf_type_parts:
  assumes "wf_type t"
  shows "TKind t = KindArray \<or> TKind t = KindMap \<Longrightarrow> \<exists>i. Items t = Some i"
    "Items t = Some i \<Longrightarrow> wf_type i" "f \<in> set (Fields t) \<Longrightarrow> wf_type (FType f)"
    "v \<in> set (Variants t) \<Longrightarrow> wf_type (VType v)"
  using assms by (subst (asm) wf_type.simps, force)+

lemma AssignType_total: "wf_type p \<Longrightarrow> wf_type c \<Longrightarrow> AssignType parse p c path \<noteq> None"
proof (induction p arbitrary: c path rule: Type_parts_induct)
  case (1 p)
  note wp = wf_type_parts[OF "1.prems"(1)] and wc = wf_type_parts[OF "1.prems"(2)]
  have rec: "assignRecord (AssignType parse) p c path \<noteq> None"
  proof -
    have "check_fields (AssignType parse) (Fields p) path (Fields c) ok \<noteq> None"
      by (rule check_fields_total) (use "1.IH"(2) wp(3) wc(3) in blast)
    then show ?thesis by (auto simp: assignRecord_def)
  qed
  have un: "assignUnion (AssignType parse) p c path \<noteq> None"
    unfolding assignUnion_def
    by (rule check_variants_total) (use "1.IH"(3) wp(4) wc(4) in auto)
  have it: "\<exists>i j. Items p = Some i \<and> Items c = Some j \<and> (\<forall>pth. AssignType parse i j pth \<noteq> None)"
    if "TKind p = KindArray \<or> TKind p = KindMap" "TKind p = TKind c"
    using wp(1)[OF that(1)] wc(1) that wp(2) wc(2) "1.IH"(1) by fastforce
  show ?case
    using rec un it by (subst AssignType.simps) (auto split: Kind.splits)
qed

lemma AssignPort_total: "wf_port p \<Longrightarrow> wf_port c \<Longrightarrow> AssignPort parse p c \<noteq> None"
proof (induction parse p c rule: AssignPort.induct)
  case (1 parse p c)
  note wp = "1.prems"(1)[unfolded wf_port.simps[of p]] and wc = "1.prems"(2)[unfolded wf_port.simps[of c]]
  show ?case
  proof (cases "PKind p = PKind c \<and> PKind p = ValueCollection")
    case True
    then obtain i j where "PItems p = Some i" "PItems c = Some j" using wp wc by auto
    then show ?thesis using True wp wc "1.IH" by (subst AssignPort.simps) auto
  next
    case False
    have ty: "\<exists>r. AssignType parse a b pth = Some r" if "wf_type a" "wf_type b" for a b pth
      using AssignType_total[OF that] by blast
    have row: "\<exists>r. assignRow parse (Row p) (Row c) = Some r"
      using wp wc ty by (cases "Row p"; cases "Row c") (simp_all add: assignRow_def)
    have sc: "\<exists>a b r. ScalarType p = Some a \<and> ScalarType c = Some b \<and> AssignType parse a b ''$'' = Some r"
      if "PKind p = ValueScalar" "PKind c = ValueScalar"
      using wp wc that ty by (cases "ScalarType p"; cases "ScalarType c") simp_all
    show ?thesis
      using False row sc by (subst AssignPort.simps) (cases "PKind p"; cases "PKind c"; auto)
  qed
qed

end
