(* ===== verification/Task_Value.thy ===== *)
theory Task_Value
  imports Task_Assign
begin

text \<open>
  Validation of decoded JSON values against descriptors (\<^verbatim>\<open>src/pkg/taskinterface/value.go\<close>),
  resolution of run parameters (\<^verbatim>\<open>parameters.go\<close>) and the redaction of validation failures
  (\<^verbatim>\<open>validation_failure.go\<close>). The library functions that the checks call on strings are
  the record \<open>lib\<close>; every theorem holds for all of them.
\<close>

record lib =
  regexp :: "string \<Rightarrow> (string \<Rightarrow> bool) option"
  base64_ok :: "string \<Rightarrow> bool"
  date_ok :: "string \<Rightarrow> bool"
  rfc3339_ok :: "string \<Rightarrow> bool"
  parseNumber :: number_parser
  fmtFloat :: "f64 \<Rightarrow> string"

datatype VReason =
    NullNotAllowed | WrongShape Kind | TagMismatch string | NoStringValue | NotWhole
  | NotCanonical string | NotANumber string | BadBound string | BoundViolated string
  | TooShort | TooLong | PatternInvalid | PatternMismatch | BadBase64 | BadDate | NotUTC
  | BadTimestamp | NoSeconds | NoNanos | NanosRange | TooFewItems | TooManyItems | DuplicateItem
  | FieldIsMissing | FieldUndeclared | NotInEnum | NoTagField | NoValueField | NoSuchVariant
  | UnrecognizedKind

text \<open>No error, an error at a path, or the panic of a nil pointer.\<close>

datatype Checked = Good | Bad string VReason | NilPanic

section \<open>Scalars\<close>

definition taggedValue :: "goval \<Rightarrow> (string \<times> gomap) option" where
  "taggedValue raw =
     (case as_map raw of
        None \<Rightarrow> None
      | Some m \<Rightarrow> (case as_str (mget m ''$bptd'') of None \<Rightarrow> None | Some k \<Rightarrow> Some (k, m)))"

definition validateStringValue :: "lib \<Rightarrow> goval \<Rightarrow> Type \<Rightarrow> string \<Rightarrow> Checked" where
  "validateStringValue l raw t path =
     (case as_str raw of
        None \<Rightarrow> Bad path (WrongShape KindString)
      | Some s \<Rightarrow>
          if (case MinLength (Constr t) of None \<Rightarrow> False | Some n \<Rightarrow> int (length s) < n) then Bad path TooShort
          else if (case MaxLength (Constr t) of None \<Rightarrow> False | Some n \<Rightarrow> int (length s) > n) then Bad path TooLong
          else (case Pattern (Constr t) of
              None \<Rightarrow> Good
            | Some pat \<Rightarrow>
                (case regexp l pat of
                   None \<Rightarrow> Bad path PatternInvalid
                 | Some matches \<Rightarrow> if matches s then Good else Bad path PatternMismatch)))"

definition is_digit :: "char \<Rightarrow> bool" where
  "is_digit c \<longleftrightarrow> CHR ''0'' \<le> c \<and> c \<le> CHR ''9''"

definition strip_minus :: "string \<Rightarrow> string" where
  "strip_minus s = (if s \<noteq> [] \<and> hd s = CHR ''-'' then tl s else s)"

text \<open>\<^verbatim>\<open>canonicalInt64Pattern\<close> and \<^verbatim>\<open>canonicalDecimalPattern\<close>.\<close>

definition canonicalInt64 :: "string \<Rightarrow> bool" where
  "canonicalInt64 s \<longleftrightarrow> s = ''0'' \<or>
     (let d = strip_minus s in d \<noteq> [] \<and> list_all is_digit d \<and> hd d \<noteq> CHR ''0'')"

definition canonicalDecimal :: "string \<Rightarrow> bool" where
  "canonicalDecimal s \<longleftrightarrow>
     (let d = strip_minus s; whole = takeWhile is_digit d; rest = dropWhile is_digit d
      in (whole = ''0'' \<or> (whole \<noteq> [] \<and> hd whole \<noteq> CHR ''0'')) \<and>
         (rest = [] \<or> (hd rest = CHR ''.'' \<and> tl rest \<noteq> [] \<and> list_all is_digit (tl rest))))"

text \<open>
  \<^verbatim>\<open>int64(f)\<close> of a whole number in range. Outside the range Go leaves the result to the implementation;
  on amd64, which is assumed here, the conversion gives the smallest integer, which differs from the
  number, so that the code reports it as not whole.
\<close>

definition whole_int64 :: "f64 \<Rightarrow> int option" where
  "whole_int64 f =
     (case f of
        Fin q \<Rightarrow> if q = of_int (trunc_rat q) \<and> - (2 ^ 63) \<le> trunc_rat q \<and> trunc_rat q < 2 ^ 63
                 then Some (trunc_rat q) else None
      | _ \<Rightarrow> None)"

definition check_bound :: "lib \<Rightarrow> string \<Rightarrow> string \<Rightarrow> (f64 \<Rightarrow> f64 \<Rightarrow> bool) \<Rightarrow> f64 \<Rightarrow> string option \<Rightarrow> Checked" where
  "check_bound l path label cmp n bound =
     (case bound of
        None \<Rightarrow> Good
      | Some bs \<Rightarrow>
          (case parseNumber l bs of
             None \<Rightarrow> Bad path (BadBound label)
           | Some b \<Rightarrow> if cmp n b then Good else Bad path (BoundViolated label)))"

text \<open>The next check runs when the one before it found nothing.\<close>

definition and_then :: "Checked \<Rightarrow> Checked \<Rightarrow> Checked" where
  "and_then a b = (case a of Good \<Rightarrow> b | _ \<Rightarrow> a)"

definition f_gt :: "f64 \<Rightarrow> f64 \<Rightarrow> bool" where
  "f_gt a b = f_less b a"

definition checkNumericBounds :: "lib \<Rightarrow> string \<Rightarrow> f64 \<Rightarrow> constraints \<Rightarrow> Checked" where
  "checkNumericBounds l path n cs =
     and_then (check_bound l path ''minimum'' f_ge n (Minimum cs))
    (and_then (check_bound l path ''maximum'' f_le n (Maximum cs))
    (and_then (check_bound l path ''exclusive_minimum'' f_gt n (ExclusiveMinimum cs))
              (check_bound l path ''exclusive_maximum'' f_less n (ExclusiveMaximum cs))))"

text \<open>The text of an int64 value, from one of its three encodings.\<close>

definition int64_text :: "goval \<Rightarrow> VReason + string" where
  "int64_text raw =
     (case taggedValue raw of
        Some (kind, tv) \<Rightarrow>
          if kind \<noteq> ''int64'' then Inl (TagMismatch kind)
          else (case as_str (mget tv ''value'') of None \<Rightarrow> Inl NoStringValue | Some s \<Rightarrow> Inr s)
      | None \<Rightarrow>
          (case raw of
             VInt64 i \<Rightarrow> Inr (show_int i)
           | VFloat f \<Rightarrow> (case whole_int64 f of None \<Rightarrow> Inl NotWhole | Some i \<Rightarrow> Inr (show_int i))
           | _ \<Rightarrow> Inl (WrongShape KindInt64)))"

definition validateInt64Value :: "lib \<Rightarrow> goval \<Rightarrow> Type \<Rightarrow> string \<Rightarrow> Checked" where
  "validateInt64Value l raw t path =
     (case int64_text raw of
        Inl e \<Rightarrow> Bad path e
      | Inr s \<Rightarrow>
          if \<not> canonicalInt64 s then Bad path (NotCanonical s)
          else (case parseNumber l s of
              None \<Rightarrow> Bad path (NotANumber s)
            | Some n \<Rightarrow> checkNumericBounds l path n (Constr t)))"

definition validateDecimalValue :: "lib \<Rightarrow> goval \<Rightarrow> Type \<Rightarrow> string \<Rightarrow> Checked" where
  "validateDecimalValue l raw t path =
     (case taggedValue raw of
        None \<Rightarrow> Bad path (WrongShape KindDecimal)
      | Some (kind, tv) \<Rightarrow>
          if kind \<noteq> ''decimal'' then Bad path (TagMismatch kind)
          else (case as_str (mget tv ''value'') of
              None \<Rightarrow> Bad path NoStringValue
            | Some s \<Rightarrow>
                if \<not> canonicalDecimal s then Bad path (NotCanonical s)
                else (case parseNumber l s of
                    None \<Rightarrow> Bad path (NotANumber s)
                  | Some n \<Rightarrow> checkNumericBounds l path n (Constr t))))"

definition check_fbound :: "string \<Rightarrow> string \<Rightarrow> (f64 \<Rightarrow> f64 \<Rightarrow> bool) \<Rightarrow> f64 \<Rightarrow> f64 option \<Rightarrow> Checked" where
  "check_fbound path label cmp f bound =
     (case bound of None \<Rightarrow> Good | Some b \<Rightarrow> if cmp f b then Good else Bad path (BoundViolated label))"

definition validateFloat64Value :: "goval \<Rightarrow> Type \<Rightarrow> string \<Rightarrow> Checked" where
  "validateFloat64Value raw t path =
     (case as_float raw of
        None \<Rightarrow> Bad path (WrongShape KindFloat64)
      | Some f \<Rightarrow>
          and_then (check_fbound path ''minimum'' f_ge f (MinimumF (Constr t)))
         (and_then (check_fbound path ''maximum'' f_le f (MaximumF (Constr t)))
         (and_then (check_fbound path ''exclusive_minimum'' f_gt f (ExclusiveMinimumF (Constr t)))
                   (check_fbound path ''exclusive_maximum'' f_less f (ExclusiveMaximumF (Constr t))))))"

text \<open>A tagged value of the given kind with its string payload.\<close>

definition tagged_string :: "string \<Rightarrow> Kind \<Rightarrow> goval \<Rightarrow> VReason + string" where
  "tagged_string want k raw =
     (case taggedValue raw of
        None \<Rightarrow> Inl (WrongShape k)
      | Some (kind, tv) \<Rightarrow>
          if kind \<noteq> want then Inl (WrongShape k)
          else (case as_str (mget tv ''value'') of None \<Rightarrow> Inl NoStringValue | Some s \<Rightarrow> Inr s))"

definition validateBytesValue :: "lib \<Rightarrow> goval \<Rightarrow> string \<Rightarrow> Checked" where
  "validateBytesValue l raw path =
     (case tagged_string ''bytes'' KindBytes raw of
        Inl e \<Rightarrow> Bad path e
      | Inr s \<Rightarrow> if base64_ok l s then Good else Bad path BadBase64)"

definition validateDateValue :: "lib \<Rightarrow> goval \<Rightarrow> string \<Rightarrow> Checked" where
  "validateDateValue l raw path =
     (case as_str raw of
        None \<Rightarrow> Bad path (WrongShape KindDate)
      | Some s \<Rightarrow> if date_ok l s then Good else Bad path BadDate)"

definition validateTimestampValue :: "lib \<Rightarrow> goval \<Rightarrow> string \<Rightarrow> Checked" where
  "validateTimestampValue l raw path =
     (case tagged_string ''timestamp'' KindTimestamp raw of
        Inl e \<Rightarrow> Bad path e
      | Inr s \<Rightarrow>
          if s = [] \<or> last s \<noteq> CHR ''Z'' then Bad path NotUTC
          else if rfc3339_ok l s then Good else Bad path BadTimestamp)"

definition validateDurationValue :: "goval \<Rightarrow> string \<Rightarrow> Checked" where
  "validateDurationValue raw path =
     (case taggedValue raw of
        None \<Rightarrow> Bad path (WrongShape KindDuration)
      | Some (kind, tv) \<Rightarrow>
          if kind \<noteq> ''duration'' then Bad path (WrongShape KindDuration)
          else if as_str (mget tv ''seconds'') = None then Bad path NoSeconds
          else (case as_float (mget tv ''nanos'') of
              None \<Rightarrow> Bad path NoNanos
            | Some n \<Rightarrow> if f_less n (Fin (- 999999999)) \<or> f_less (Fin 999999999) n then Bad path NanosRange else Good))"

definition validateEnumValue :: "goval \<Rightarrow> Type \<Rightarrow> string \<Rightarrow> Checked" where
  "validateEnumValue raw t path =
     (case as_str raw of
        None \<Rightarrow> Bad path (WrongShape KindEnum)
      | Some s \<Rightarrow> if s \<in> set (Values t) then Good else Bad path NotInEnum)"

section \<open>Compound values\<close>

text \<open>The recursive call of \<^verbatim>\<open>ValidateValue\<close> is the argument \<open>vv\<close> of the loops.\<close>

fun has_duplicate :: "string list \<Rightarrow> string list \<Rightarrow> nat \<Rightarrow> nat option" where
  "has_duplicate seen [] i = None"
| "has_duplicate seen (k # ks) i = (if k \<in> set seen then Some i else has_duplicate (k # seen) ks (Suc i))"

fun validate_items :: "(goval \<Rightarrow> string \<Rightarrow> Checked) \<Rightarrow> string \<Rightarrow> goval list \<Rightarrow> nat \<Rightarrow> Checked" where
  "validate_items vv path [] i = Good"
| "validate_items vv path (x # xs) i =
     and_then (vv x (path @ ''['' @ show_nat i @ '']'')) (validate_items vv path xs (Suc i))"

definition validateArrayValue :: "lib \<Rightarrow> (goval \<Rightarrow> string \<Rightarrow> Checked) option \<Rightarrow> goval \<Rightarrow> Type \<Rightarrow> string \<Rightarrow> Checked" where
  "validateArrayValue l item raw t path =
     (case as_list raw of
        None \<Rightarrow> Bad path (WrongShape KindArray)
      | Some arr \<Rightarrow>
          if (case MinItems (Constr t) of None \<Rightarrow> False | Some n \<Rightarrow> int (length arr) < n) then Bad path TooFewItems
          else if (case MaxItems (Constr t) of None \<Rightarrow> False | Some n \<Rightarrow> int (length arr) > n) then Bad path TooManyItems
          else
            and_then
              (if UniqueItems (Constr t) then
                 (case has_duplicate [] (map (sprint_v (fmtFloat l)) arr) 0 of
                    Some i \<Rightarrow> Bad (path @ ''['' @ show_nat i @ '']'') DuplicateItem
                  | None \<Rightarrow> Good)
               else Good)
              (case item of
                 Some vv \<Rightarrow> validate_items vv path arr 0
               | None \<Rightarrow> if arr = [] then Good else NilPanic))"

fun validate_entries :: "(goval \<Rightarrow> string \<Rightarrow> Checked) \<Rightarrow> string \<Rightarrow> gomap \<Rightarrow> Checked" where
  "validate_entries vv path [] = Good"
| "validate_entries vv path ((k, v) # m) = and_then (vv v (path @ ''.'' @ k)) (validate_entries vv path m)"

definition validateMapValue :: "(goval \<Rightarrow> string \<Rightarrow> Checked) option \<Rightarrow> goval \<Rightarrow> string \<Rightarrow> Checked" where
  "validateMapValue item raw path =
     (case as_map raw of
        None \<Rightarrow> Bad path (WrongShape KindMap)
      | Some m \<Rightarrow>
          (case item of
             Some vv \<Rightarrow> validate_entries vv path m
           | None \<Rightarrow> if m = [] then Good else NilPanic))"

fun validate_fields :: "(goval \<Rightarrow> Type \<Rightarrow> string \<Rightarrow> Checked) \<Rightarrow> string \<Rightarrow> gomap \<Rightarrow> Field list \<Rightarrow> Checked" where
  "validate_fields vv path m [] = Good"
| "validate_fields vv path m (f # fs) =
     (let fieldPath = path @ ''.'' @ FName f in
      case map_of m (FName f) of
        None \<Rightarrow> if Required f then Bad fieldPath FieldIsMissing else validate_fields vv path m fs
      | Some v \<Rightarrow> and_then (vv v (FType f) fieldPath) (validate_fields vv path m fs))"

definition validateRecordValue :: "(goval \<Rightarrow> Type \<Rightarrow> string \<Rightarrow> Checked) \<Rightarrow> goval \<Rightarrow> Type \<Rightarrow> string \<Rightarrow> Checked" where
  "validateRecordValue vv raw t path =
     (case as_map raw of
        None \<Rightarrow> Bad path (WrongShape KindRecord)
      | Some m \<Rightarrow>
          and_then (validate_fields vv path m (Fields t))
            (if AdditionalFields t then Good
             else (case find (\<lambda>k. k \<notin> FName ` set (Fields t)) (mkeys m) of
                 Some k \<Rightarrow> Bad (path @ ''.'' @ k) FieldUndeclared
               | None \<Rightarrow> Good)))"

definition validateUnionValue :: "(goval \<Rightarrow> Type \<Rightarrow> string \<Rightarrow> Checked) \<Rightarrow> goval \<Rightarrow> Type \<Rightarrow> string \<Rightarrow> Checked" where
  "validateUnionValue vv raw t path =
     (case as_map raw of
        None \<Rightarrow> Bad path (WrongShape KindUnion)
      | Some m \<Rightarrow>
          (case as_str (mget m (TagField t)) of
             None \<Rightarrow> Bad path NoTagField
           | Some tag \<Rightarrow>
               (case find (\<lambda>v. Tag v = tag) (Variants t) of
                  None \<Rightarrow> Bad path NoSuchVariant
                | Some variant \<Rightarrow>
                    (case map_of m (ValueField t) of
                       None \<Rightarrow> Bad path NoValueField
                     | Some payload \<Rightarrow>
                         vv payload (VType variant) (path @ ''['' @ TagField t @ ''='' @ tag @ '']'')))))"

lemma validate_fields_cong:
  "(\<And>f v pth. f \<in> set fs \<Longrightarrow> vv v (FType f) pth = ww v (FType f) pth) \<Longrightarrow>
   validate_fields vv path m fs = validate_fields ww path m fs"
  by (induction fs) (auto simp: Let_def split: option.splits)

lemma validateRecordValue_cong [fundef_cong]:
  "\<lbrakk>raw = raw'; t = t'; path = path'; \<And>f v pth. f \<in> set (Fields t') \<Longrightarrow> vv v (FType f) pth = ww v (FType f) pth\<rbrakk> \<Longrightarrow>
   validateRecordValue vv raw t path = validateRecordValue ww raw' t' path'"
  by (simp add: validateRecordValue_def validate_fields_cong[of "Fields t'" vv ww] split: option.splits)

lemma validateUnionValue_cong [fundef_cong]:
  "\<lbrakk>raw = raw'; t = t'; path = path'; \<And>v p pth. v \<in> set (Variants t') \<Longrightarrow> vv p (VType v) pth = ww p (VType v) pth\<rbrakk> \<Longrightarrow>
   validateUnionValue vv raw t path = validateUnionValue ww raw' t' path'"
  by (auto simp: validateUnionValue_def dest!: find_in split: option.splits)

function ValidateValue :: "lib \<Rightarrow> goval \<Rightarrow> Type \<Rightarrow> string \<Rightarrow> Checked" where
  "ValidateValue l raw t path =
     (if raw = VNil then (if Nullable t then Good else Bad path NullNotAllowed)
      else case TKind t of
        KindUnknown \<Rightarrow> Good
      | KindJSON \<Rightarrow> Good
      | KindBoolean \<Rightarrow> (if as_bool raw = None then Bad path (WrongShape KindBoolean) else Good)
      | KindString \<Rightarrow> validateStringValue l raw t path
      | KindInt64 \<Rightarrow> validateInt64Value l raw t path
      | KindDecimal \<Rightarrow> validateDecimalValue l raw t path
      | KindFloat64 \<Rightarrow> validateFloat64Value raw t path
      | KindBytes \<Rightarrow> validateBytesValue l raw path
      | KindDate \<Rightarrow> validateDateValue l raw path
      | KindTimestamp \<Rightarrow> validateTimestampValue l raw path
      | KindDuration \<Rightarrow> validateDurationValue raw path
      | KindArray \<Rightarrow>
          validateArrayValue l
            (case Items t of None \<Rightarrow> None | Some i \<Rightarrow> Some (\<lambda>v pth. ValidateValue l v i pth)) raw t path
      | KindMap \<Rightarrow>
          validateMapValue (case Items t of None \<Rightarrow> None | Some i \<Rightarrow> Some (\<lambda>v pth. ValidateValue l v i pth)) raw path
      | KindRecord \<Rightarrow> validateRecordValue (\<lambda>v t' pth. ValidateValue l v t' pth) raw t path
      | KindEnum \<Rightarrow> validateEnumValue raw t path
      | KindUnion \<Rightarrow> validateUnionValue (\<lambda>v t' pth. ValidateValue l v t' pth) raw t path
      | KindOther _ \<Rightarrow> Bad path UnrecognizedKind)"
  by pat_completeness auto
termination
  by (relation "measure (\<lambda>(_, _, t, _). size t)") (auto simp: size_items size_field size_variant)

declare ValidateValue.simps [simp del]

section \<open>Run parameters\<close>

record ParameterDeclaration =
  pType :: Type
  pRequired :: bool
  pDefault :: goval
  HasDefault :: bool
  Description :: string
  Sensitive :: bool

datatype ParamError =
    DeclNotObject | DeclMissingType | DeclType ParseError
  | InvalidName string | InDecl string ParamError | RequiredWithDefault string
  | UnknownParameter string | MissingParameter string | InvalidValue string Checked

definition ParseParameterDeclaration :: "goval \<Rightarrow> ParamError + ParameterDeclaration" where
  "ParseParameterDeclaration raw =
     (case as_map raw of
        None \<Rightarrow> Inl DeclNotObject
      | Some m \<Rightarrow>
          if ''type'' \<notin> set (mkeys m) then Inl DeclMissingType
          else (case ParseType (mget m ''type'') of
              Inl e \<Rightarrow> Inl (DeclType e)
            | Inr t \<Rightarrow> Inr \<lparr>pType = t, pRequired = bool_or False (mget m ''required''),
                 pDefault = mget m ''default'', HasDefault = (''default'' \<in> set (mkeys m)),
                 Description = mget_str m ''description'', Sensitive = bool_or False (mget m ''sensitive'')\<rparr>))"

definition is_word_start :: "char \<Rightarrow> bool" where
  "is_word_start c \<longleftrightarrow> (CHR ''A'' \<le> c \<and> c \<le> CHR ''Z'') \<or> (CHR ''a'' \<le> c \<and> c \<le> CHR ''z'') \<or> c = CHR ''_''"

definition parameterName :: "string \<Rightarrow> bool" where
  "parameterName s \<longleftrightarrow> s \<noteq> [] \<and> is_word_start (hd s) \<and> list_all (\<lambda>c. is_word_start c \<or> is_digit c) (tl s) \<and> length s \<le> 128"

fun parse_declarations :: "gomap \<Rightarrow> ParamError + (string \<times> ParameterDeclaration) list" where
  "parse_declarations [] = Inr []"
| "parse_declarations ((name, raw) # ds) =
     (if \<not> parameterName name then Inl (InvalidName name)
      else case ParseParameterDeclaration raw of
        Inl e \<Rightarrow> Inl (InDecl name e)
      | Inr pd \<Rightarrow>
          if pRequired pd \<and> HasDefault pd then Inl (RequiredWithDefault name)
          else (case parse_declarations ds of Inl e \<Rightarrow> Inl e | Inr ps \<Rightarrow> Inr ((name, pd) # ps)))"

fun resolve_each :: "lib \<Rightarrow> gomap \<Rightarrow> (string \<times> ParameterDeclaration) list \<Rightarrow> ParamError + gomap" where
  "resolve_each l submitted [] = Inr []"
| "resolve_each l submitted ((name, pd) # ps) =
     (case map_of submitted name of
        None \<Rightarrow>
          if pRequired pd then Inl (MissingParameter name)
          else (case resolve_each l submitted ps of
              Inl e \<Rightarrow> Inl e
            | Inr r \<Rightarrow> Inr (if HasDefault pd then (name, pDefault pd) # r else r))
      | Some value \<Rightarrow>
          if ValidateValue l value (pType pd) (''$.'' @ name) \<noteq> Good
          then Inl (InvalidValue name (ValidateValue l value (pType pd) (''$.'' @ name)))
          else (case resolve_each l submitted ps of Inl e \<Rightarrow> Inl e | Inr r \<Rightarrow> Inr ((name, value) # r)))"

definition ResolveParameters :: "lib \<Rightarrow> gomap \<Rightarrow> gomap \<Rightarrow> ParamError + gomap" where
  "ResolveParameters l declarations submitted =
     (case parse_declarations declarations of
        Inl e \<Rightarrow> Inl e
      | Inr parsed \<Rightarrow>
          (case find (\<lambda>name. name \<notin> set (mkeys parsed)) (mkeys submitted) of
             Some name \<Rightarrow> Inl (UnknownParameter name)
           | None \<Rightarrow> resolve_each l submitted parsed))"

section \<open>Validation failures\<close>

datatype Direction = DirectionInput | DirectionOutput | DirectionParameter

datatype ValidationMode = ModeFull | ModeSample

record 'e ValidationFailure =
  vfDirection :: Direction
  vfName :: string
  ContractPath :: string
  Expected :: string
  Observed :: string
  Redacted :: bool
  CheckedRows :: int
  Mode :: ValidationMode
  vfCause :: "'e option"

fun direction_text :: "Direction \<Rightarrow> string" where
  "direction_text DirectionInput = ''input''"
| "direction_text DirectionOutput = ''output''"
| "direction_text DirectionParameter = ''parameter''"

fun kind_text :: "Kind \<Rightarrow> string" where
  "kind_text (KindOther s) = s"
| "kind_text k = (case find (\<lambda>(s, k'). k' = k) kind_names of Some (s, _) \<Rightarrow> s | None \<Rightarrow> [])"

function describeType :: "Type \<Rightarrow> string" where
  "describeType t =
     (case TKind t of
        KindRecord \<Rightarrow> ''record{'' @ show_nat (length (Fields t)) @ '' field(s)}''
      | KindArray \<Rightarrow> (case Items t of Some i \<Rightarrow> ''array<'' @ describeType i @ ''>'' | None \<Rightarrow> ''array'')
      | KindMap \<Rightarrow> (case Items t of Some i \<Rightarrow> ''map<string,'' @ describeType i @ ''>'' | None \<Rightarrow> ''map'')
      | KindEnum \<Rightarrow> ''enum{'' @ show_nat (length (Values t)) @ '' value(s)}''
      | KindUnion \<Rightarrow> ''union{'' @ show_nat (length (Variants t)) @ '' variant(s)}''
      | k \<Rightarrow> kind_text k) @
     (if Nullable t then '' (nullable)'' else [])"
  by pat_completeness auto
termination by (relation "measure size") (auto simp: size_items)

declare describeType.simps [simp del]

fun describeValueKind :: "goval \<Rightarrow> string" where
  "describeValueKind VNil = ''null''"
| "describeValueKind (VBool _) = ''boolean''"
| "describeValueKind (VStr s) = ''string(len='' @ show_nat (length s) @ '')''"
| "describeValueKind (VFloat _) = ''number''"
| "describeValueKind (VList xs) = ''array(len='' @ show_nat (length xs) @ '')''"
| "describeValueKind (VMap m) = ''object('' @ show_nat (length m) @ '' field(s))''"
| "describeValueKind (VInt _) = ''int''"
| "describeValueKind (VInt64 _) = ''int64''"
| "describeValueKind (VUint64 _) = ''uint64''"

definition NewValidationFailure ::
  "Direction \<Rightarrow> string \<Rightarrow> Type \<Rightarrow> goval \<Rightarrow> 'e option \<Rightarrow> string \<Rightarrow> bool \<Rightarrow> 'e ValidationFailure option" where
  "NewValidationFailure direction name t raw cause path sensitive =
     (case cause of
        None \<Rightarrow> None
      | Some e \<Rightarrow>
          let f = \<lparr>vfDirection = direction, vfName = name, ContractPath = path, Expected = describeType t,
                Observed = [], Redacted = False, CheckedRows = 1, Mode = ModeFull, vfCause = None\<rparr>
          in if sensitive then Some (f\<lparr>Redacted := True\<rparr>)
             else Some (f\<lparr>Observed := describeValueKind raw, vfCause := Some e\<rparr>))"

text \<open>The text of a failure; \<open>quote\<close> is \<^verbatim>\<open>%q\<close> and \<open>text\<close> the message of the wrapped error.\<close>

definition failure_Error :: "(string \<Rightarrow> string) \<Rightarrow> ('e \<Rightarrow> string) \<Rightarrow> 'e ValidationFailure \<Rightarrow> string" where
  "failure_Error quote text f =
     (let base = direction_text (vfDirection f) @ '' '' @ quote (vfName f) @ '': expected '' @ Expected f @
            '', got '' @ Observed f
      in if Redacted f then base @ '' (detail redacted: declaration is sensitive)''
         else case vfCause f of Some e \<Rightarrow> base @ '': '' @ text e | None \<Rightarrow> base)"

end
