(* ===== verification/Task_Sound.thy ===== *)
theory Task_Sound
  imports Task_Value
begin

text \<open>
  What an assignability verdict promises about values: the soundness of \<^verbatim>\<open>AssignType\<close> for
  \<^verbatim>\<open>ValidateValue\<close>, its reflexivity, the descriptors on which it is not sound, and the
  contract of \<^verbatim>\<open>ResolveParameters\<close>.
\<close>

interpretation checks: conjunctive "\<lambda>c. c = Good" and_then Good
proof unfold_locales
  show "(and_then a b = Good) = (a = Good \<and> b = Good)" for a b
    by (cases a) (auto simp: and_then_def)
qed simp

section \<open>Validation without paths\<close>

lemma validate_items_Good:
  "validate_items vv path xs i = Good \<longleftrightarrow>
   (\<forall>j < length xs. vv (xs ! j) (path @ ''['' @ show_nat (i + j) @ '']'') = Good)"
proof (induction xs arbitrary: i)
  case (Cons x xs)
  then show ?case by (simp add: checks.good_comb All_less_Suc2)
qed simp

lemma validate_entries_Good:
  "validate_entries vv path m = Good \<longleftrightarrow> (\<forall>(k, v) \<in> set m. vv v (path @ ''.'' @ k) = Good)"
  by (induction m) (auto simp: checks.good_comb)

lemma validate_fields_Good:
  "validate_fields vv path m fs = Good \<longleftrightarrow>
   (\<forall>f \<in> set fs. case map_of m (FName f) of
      None \<Rightarrow> \<not> Required f | Some v \<Rightarrow> vv v (FType f) (path @ ''.'' @ FName f) = Good)"
  by (induction fs) (auto simp: Let_def checks.good_comb split: option.splits)

lemma find_None_subset: "find (\<lambda>k. k \<notin> A) xs = None \<longleftrightarrow> set xs \<subseteq> A"
  by (auto simp: find_None_iff)

lemma validateRecordValue_Good:
  "validateRecordValue vv (VMap m) t path = Good \<longleftrightarrow>
   (\<forall>f \<in> set (Fields t). case map_of m (FName f) of
      None \<Rightarrow> \<not> Required f | Some v \<Rightarrow> vv v (FType f) (path @ ''.'' @ FName f) = Good) \<and>
   (AdditionalFields t \<or> set (mkeys m) \<subseteq> FName ` set (Fields t))"
  using find_None_subset[of "FName ` set (Fields t)" "mkeys m"]
  by (auto simp: validateRecordValue_def checks.good_comb validate_fields_Good split: option.splits)

section \<open>Bounds\<close>

lemma f_le_trans: "f_le a b \<Longrightarrow> f_le b c \<Longrightarrow> f_le a c"
  by (cases a; cases b; cases c) (auto simp: f_le_def)

lemma f_less_le_trans: "f_less a b \<Longrightarrow> f_le b c \<Longrightarrow> f_less a c"
  by (cases a; cases b; cases c) (auto simp: f_le_def)

lemma f_le_less_trans: "f_le a b \<Longrightarrow> f_less b c \<Longrightarrow> f_less a c"
  by (cases a; cases b; cases c) (auto simp: f_le_def)

lemma bound_transfer:
  assumes "check_bound l p1 x cmp n pb = Good"
    and "case cb of None \<Rightarrow> True | Some b \<Rightarrow>
      \<exists>cf pb' pf. parseNumber l b = Some cf \<and> pb = Some pb' \<and> parseNumber l pb' = Some pf \<and> imp pf cf"
    and "\<And>u v. cmp n u \<Longrightarrow> imp u v \<Longrightarrow> cmp n v"
  shows "check_bound l p2 x cmp n cb = Good"
  using assms by (auto simp: check_bound_def split: option.splits if_splits)

lemma f_ge_mono: "f_ge n u \<Longrightarrow> f_ge u v \<Longrightarrow> f_ge n v"
  unfolding f_ge_def by (rule f_le_trans)

lemma f_gt_mono: "f_gt n u \<Longrightarrow> f_ge u v \<Longrightarrow> f_gt n v"
  unfolding f_ge_def f_gt_def by (rule f_le_less_trans)

lemma canonical_bounds_sound:
  assumes "assignable (assignCanonicalNumericConstraints (parseNumber l) p c path)"
    and "checkNumericBounds l path1 n (Constr p) = Good"
  shows "checkNumericBounds l path2 n (Constr c) = Good"
  using assms
  unfolding checkNumericBounds_def checks.good_comb assignCanonicalNumericConstraints_def Let_def
    check_canonical_assignable
  by (elim conjE, intro conjI)
    (erule (1) bound_transfer, erule (1) f_ge_mono f_le_trans f_gt_mono f_less_le_trans)+

lemma fbound_transfer:
  assumes "check_fbound p1 x cmp n pb = Good"
    and "case cb of None \<Rightarrow> True | Some b \<Rightarrow> \<exists>pb'. pb = Some pb' \<and> imp pb' b"
    and "\<And>u v. cmp n u \<Longrightarrow> imp u v \<Longrightarrow> cmp n v"
  shows "check_fbound p2 x cmp n cb = Good"
  using assms by (auto simp: check_fbound_def split: option.splits if_splits)

lemma float_bounds_sound:
  assumes "assignable (assignFloatConstraints p c path)" and "validateFloat64Value v p path1 = Good"
  shows "validateFloat64Value v c path2 = Good"
proof -
  from assms(2) obtain f where f: "as_float v = Some f"
    by (auto simp: validateFloat64Value_def split: option.splits)
  show ?thesis
    using assms
    unfolding validateFloat64Value_def f option.case checks.good_comb assignFloatConstraints_def Let_def
      check_float_assignable
    by (elim conjE, intro conjI)
      (erule (1) fbound_transfer, erule (1) f_ge_mono f_le_trans f_gt_mono f_less_le_trans)+
qed

lemma string_constraints_sound:
  assumes "assignable (assignStringConstraints p c path)" and "validateStringValue l v p path1 = Good"
  shows "validateStringValue l v c path2 = Good"
  using assms
  by (auto simp: assignStringConstraints_def Let_def validateStringValue_def check_count_assignable
      verdicts.good_comb split: option.splits if_splits)

text \<open>Every value that \<open>vv\<close> accepts, \<open>ww\<close> accepts, whatever the path.\<close>

definition carries :: "(goval \<Rightarrow> string \<Rightarrow> Checked) \<Rightarrow> (goval \<Rightarrow> string \<Rightarrow> Checked) \<Rightarrow> bool" where
  "carries vv ww \<longleftrightarrow> (\<forall>x p1 p2. vv x p1 = Good \<longrightarrow> ww x p2 = Good)"

lemma array_constraints_sound:
  assumes "assignable (assignArrayConstraints p c path)"
    and "validateArrayValue l (Some vv) v p path1 = Good"
    and "carries vv ww"
  shows "validateArrayValue l (Some ww) v c path2 = Good"
  using assms
  by (auto simp: carries_def assignArrayConstraints_def Let_def validateArrayValue_def check_count_assignable
      verdicts.good_comb checks.good_comb validate_items_Good split: option.splits if_splits)

lemma enum_sound:
  assumes "assignable (assignEnum p c path)" and "validateEnumValue v p path1 = Good"
  shows "validateEnumValue v c path2 = Good"
  using assms find_None_subset[of "set (Values c)" "Values p"]
  by (auto simp: assignEnum_def validateEnumValue_def split: option.splits if_splits)

section \<open>Soundness of assignability\<close>

text \<open>
  The descriptors on which the verdict is a promise about values: producer records are closed,
  unions on both sides use the same tag and value fields, the tags of a consumer union are
  distinct, and an unknown consumer accepts null.
\<close>

function producer_ok :: "string \<Rightarrow> string \<Rightarrow> Type \<Rightarrow> bool" where
  "producer_ok tf vf t =
     ((if TKind t = KindRecord then \<not> AdditionalFields t else True) \<and>
      (if TKind t = KindUnion then TagField t = tf \<and> ValueField t = vf else True) \<and>
      (case Items t of None \<Rightarrow> True | Some i \<Rightarrow> producer_ok tf vf i) \<and>
      (\<forall>f \<in> set (Fields t). producer_ok tf vf (FType f)) \<and>
      (\<forall>v \<in> set (Variants t). producer_ok tf vf (VType v)))"
  by pat_completeness auto
termination by (relation "measure (\<lambda>(_, _, t). size t)") (auto simp: size_items size_field size_variant)

function consumer_ok :: "string \<Rightarrow> string \<Rightarrow> Type \<Rightarrow> bool" where
  "consumer_ok tf vf t =
     ((if TKind t = KindUnknown then Nullable t else True) \<and>
      (if TKind t = KindUnion then TagField t = tf \<and> ValueField t = vf \<and> distinct (map Tag (Variants t)) else True) \<and>
      (case Items t of None \<Rightarrow> True | Some i \<Rightarrow> consumer_ok tf vf i) \<and>
      (\<forall>f \<in> set (Fields t). consumer_ok tf vf (FType f)) \<and>
      (\<forall>v \<in> set (Variants t). consumer_ok tf vf (VType v)))"
  by pat_completeness auto
termination by (relation "measure (\<lambda>(_, _, t). size t)") (auto simp: size_items size_field size_variant)

declare producer_ok.simps [simp del] consumer_ok.simps [simp del]

lemma producer_ok_parts:
  assumes "producer_ok tf vf t"
  shows "TKind t = KindRecord \<Longrightarrow> \<not> AdditionalFields t"
    "TKind t = KindUnion \<Longrightarrow> TagField t = tf \<and> ValueField t = vf"
    "Items t = Some i \<Longrightarrow> producer_ok tf vf i" "f \<in> set (Fields t) \<Longrightarrow> producer_ok tf vf (FType f)"
    "v \<in> set (Variants t) \<Longrightarrow> producer_ok tf vf (VType v)"
  using assms by (subst (asm) producer_ok.simps, force)+

lemma consumer_ok_parts:
  assumes "consumer_ok tf vf t"
  shows "TKind t = KindUnknown \<Longrightarrow> Nullable t"
    "TKind t = KindUnion \<Longrightarrow> TagField t = tf \<and> ValueField t = vf \<and> distinct (map Tag (Variants t))"
    "Items t = Some i \<Longrightarrow> consumer_ok tf vf i" "f \<in> set (Fields t) \<Longrightarrow> consumer_ok tf vf (FType f)"
    "v \<in> set (Variants t) \<Longrightarrow> consumer_ok tf vf (VType v)"
  using assms by (subst (asm) consumer_ok.simps, force)+

lemma last_field_None: "last_field fs n = None \<longleftrightarrow> n \<notin> FName ` set fs"
  by (simp add: last_field_def map_of_eq_None_iff image_image)

lemma record_sound:
  assumes as: "assignRecord assign p c path = Some r" "assignable r"
    and IH: "\<And>pf cf pth s. \<lbrakk>pf \<in> set (Fields p); cf \<in> set (Fields c);
      assign (FType pf) (FType cf) pth = Some s; assignable s\<rbrakk> \<Longrightarrow> carries (\<lambda>x. vv x (FType pf)) (\<lambda>x. vv x (FType cf))"
    and cl: "\<not> AdditionalFields p"
    and v: "validateRecordValue vv v p path1 = Good"
  shows "validateRecordValue vv v c path2 = Good"
proof -
  from v obtain m where m: "v = VMap m" by (cases v) (auto simp: validateRecordValue_def)
  note pv = v[unfolded m validateRecordValue_Good]
  from as obtain r0 where r0: "check_fields assign (Fields p) path (Fields c) ok = Some r0" "assignable r0"
    and ex: "AdditionalFields c \<or> FName ` set (Fields p) \<subseteq> FName ` set (Fields c)"
    by (auto simp: assignRecord_def check_extras_assignable split: Option.bind_splits if_splits)
  note cf = check_fields_assignable[OF r0, THEN conjunct2]
  have "case map_of m (FName f) of None \<Rightarrow> \<not> Required f
      | Some x \<Rightarrow> vv x (FType f) (path2 @ ''.'' @ FName f) = Good" if f: "f \<in> set (Fields c)" for f
  proof (cases "last_field (Fields p) (FName f)")
    case None
    then have "FName f \<notin> set (mkeys m)" using pv cl by (auto simp: last_field_None)
    then have "map_of m (FName f) = None" by (simp add: map_of_eq_None_iff)
    then show ?thesis using bspec[OF cf f] None by simp
  next
    case (Some pf)
    then have pf: "pf \<in> set (Fields p)" "FName pf = FName f" by (simp_all add: last_field_in)
    from bspec[OF cf f] Some obtain pth s where s: "Required f \<longrightarrow> Required pf"
      "assign (FType pf) (FType f) pth = Some s" "assignable s" by auto
    have "case map_of m (FName f) of None \<Rightarrow> \<not> Required pf
      | Some x \<Rightarrow> vv x (FType pf) (path1 @ ''.'' @ FName f) = Good"
      using bspec[OF conjunct1[OF pv] pf(1)] unfolding pf(2) .
    then show ?thesis
      using s(1) IH[OF pf(1) f s(2,3)] by (auto simp: carries_def split: option.splits)
  qed
  moreover have "AdditionalFields c \<or> set (mkeys m) \<subseteq> FName ` set (Fields c)" using pv cl ex by blast
  ultimately show ?thesis by (simp add: m validateRecordValue_Good)
qed

lemma find_distinct: "distinct (map f xs) \<Longrightarrow> x \<in> set xs \<Longrightarrow> f x = y \<Longrightarrow> find (\<lambda>x. f x = y) xs = Some x"
  by (induction xs) auto

lemma union_sound:
  assumes as: "assignUnion assign p c path = Some r" "assignable r"
    and IH: "\<And>pv cv pth s. \<lbrakk>pv \<in> set (Variants p); cv \<in> set (Variants c);
      assign (VType pv) (VType cv) pth = Some s; assignable s\<rbrakk> \<Longrightarrow> carries (\<lambda>x. vv x (VType pv)) (\<lambda>x. vv x (VType cv))"
    and same: "TagField c = TagField p" "ValueField c = ValueField p"
    and d: "distinct (map Tag (Variants c))"
    and v: "validateUnionValue vv v p path1 = Good"
  shows "validateUnionValue vv v c path2 = Good"
proof -
  from v obtain m tag pv x where m: "v = VMap m" "as_str (mget m (TagField p)) = Some tag"
    "find (\<lambda>v. Tag v = tag) (Variants p) = Some pv" "map_of m (ValueField p) = Some x"
    and gx: "vv x (VType pv) (path1 @ ''['' @ TagField p @ ''='' @ tag @ '']'') = Good"
    by (auto simp: validateUnionValue_def split: option.splits)
  from m(3) have pv: "pv \<in> set (Variants p)" "Tag pv = tag" by (auto dest: find_in)
  from check_variants_assignable[OF as[unfolded assignUnion_def], THEN conjunct2] pv(1)
  obtain ct pth s where "last_variant (Variants c) (Tag pv) = Some ct"
    and s: "assign (VType pv) ct pth = Some s" "assignable s" by blast
  then obtain cv where cv: "cv \<in> set (Variants c)" "Tag cv = tag" "VType cv = ct"
    using last_variant_in pv(2) by blast
  have "find (\<lambda>v. Tag v = tag) (Variants c) = Some cv" by (rule find_distinct[OF d cv(1,2)])
  moreover have "carries (\<lambda>x. vv x (VType pv)) (\<lambda>x. vv x (VType cv))"
    using IH[OF pv(1) cv(1)] s cv(3) by blast
  ultimately show ?thesis
    using m gx same by (auto simp: validateUnionValue_def carries_def)
qed

lemma map_sound:
  "carries vv ww \<Longrightarrow> validateMapValue (Some vv) v path1 = Good \<Longrightarrow> validateMapValue (Some ww) v path2 = Good"
  unfolding carries_def by (cases v) (fastforce simp: validateMapValue_def validate_entries_Good)+

lemma scalar_sound:
  assumes as: "AssignType (parseNumber l) p c path = Some r" "assignable r"
    and k: "TKind p \<notin> {KindUnknown, KindArray, KindMap, KindRecord, KindUnion}"
    and v: "ValidateValue l v p p1 = Good"
  shows "ValidateValue l v c p2 = Good"
proof -
  note step = as(1)[unfolded AssignType.simps[of _ p c]]
  from step as(2) k have kc: "TKind c = TKind p" and n: "Nullable p \<Longrightarrow> Nullable c"
    by (auto split: if_splits)
  note vp = v[unfolded ValidateValue.simps[of l v p]] and vc = ValidateValue.simps[of l v c p2]
  show ?thesis
  proof (cases "v = VNil")
    case True
    then show ?thesis using vp vc n by (simp split: if_splits)
  next
    case False
    then show ?thesis
      using step kc as(2) k vp vc string_constraints_sound float_bounds_sound enum_sound
      by (cases "TKind p")
        (auto simp: validateInt64Value_def validateDecimalValue_def validateBytesValue_def validateDateValue_def
          validateTimestampValue_def validateDurationValue_def canonical_bounds_sound
          split: if_splits option.splits sum.splits)
  qed
qed

lemma assign_sound:
  "\<lbrakk>AssignType (parseNumber l) p c path = Some r; assignable r; producer_ok tf vf p; consumer_ok tf vf c\<rbrakk> \<Longrightarrow>
   carries (\<lambda>v. ValidateValue l v p) (\<lambda>v. ValidateValue l v c)"
proof (induction p arbitrary: c path r rule: Type_parts_induct)
  case (1 p)
  note po = producer_ok_parts[OF "1.prems"(3)] and co = consumer_ok_parts[OF "1.prems"(4)]
  note step = "1.prems"(1)[unfolded AssignType.simps[of _ p c]]
  show ?case
    unfolding carries_def
  proof (intro allI impI)
    fix v p1 p2 assume v: "ValidateValue l v p p1 = Good"
    note vp = v[unfolded ValidateValue.simps[of l v p]] and vc = ValidateValue.simps[of l v c p2]
    consider (unk) "TKind p = KindUnknown" | (null) "TKind p \<noteq> KindUnknown" "v = VNil"
      | (arr) "v \<noteq> VNil" "TKind p = KindArray" | (map) "v \<noteq> VNil" "TKind p = KindMap"
      | (rec) "v \<noteq> VNil" "TKind p = KindRecord" | (un) "v \<noteq> VNil" "TKind p = KindUnion"
      | (scalar) "TKind p \<notin> {KindUnknown, KindArray, KindMap, KindRecord, KindUnion}"
      by blast
    then show "ValidateValue l v c p2 = Good"
    proof cases
      case unk
      then have "TKind c = KindUnknown" using step "1.prems"(2) by (auto split: if_splits)
      then show ?thesis using co(1) vc by simp
    next
      case null
      then show ?thesis using step "1.prems"(2) vp vc by (auto split: if_splits)
    next
      case arr
      then obtain i j r0 where ij: "Items p = Some i" "Items c = Some j"
        "AssignType (parseNumber l) i j (path @ ''[]'') = Some r0" "assignable r0"
        "assignable (assignArrayConstraints p c path)" "TKind c = KindArray"
        using step "1.prems"(2) by (auto simp: verdicts.good_comb split: if_splits option.splits)
      have "carries (\<lambda>v. ValidateValue l v i) (\<lambda>v. ValidateValue l v j)"
        by (rule "1.IH"(1)[OF ij(1,3,4) po(3)[OF ij(1)] co(3)[OF ij(2)]])
      from array_constraints_sound[OF ij(5) _ this] show ?thesis using vp vc arr ij by simp
    next
      case map
      then obtain i j where ij: "Items p = Some i" "Items c = Some j"
        "AssignType (parseNumber l) i j (path @ ''{}'') = Some r" "TKind c = KindMap"
        using step "1.prems"(2) by (auto split: if_splits option.splits)
      have "carries (\<lambda>v. ValidateValue l v i) (\<lambda>v. ValidateValue l v j)"
        by (rule "1.IH"(1)[OF ij(1,3) "1.prems"(2) po(3)[OF ij(1)] co(3)[OF ij(2)]])
      from map_sound[OF this] show ?thesis using vp vc map ij by simp
    next
      case rec
      then have a: "assignRecord (AssignType (parseNumber l)) p c path = Some r" "TKind c = KindRecord"
        using step "1.prems"(2) by (auto split: if_splits)
      from record_sound[OF a(1) "1.prems"(2), of "ValidateValue l" v p1 p2]
      show ?thesis using vp vc rec a(2) po(1,4) co(4) "1.IH"(2) by auto
    next
      case un
      then have a: "assignUnion (AssignType (parseNumber l)) p c path = Some r" "TKind c = KindUnion"
        using step "1.prems"(2) by (auto split: if_splits)
      from union_sound[OF a(1) "1.prems"(2), of "ValidateValue l" v p1 p2]
      show ?thesis using vp vc un a(2) po(2,5) co(2,5) "1.IH"(3) by auto
    next
      case scalar
      then show ?thesis using scalar_sound[OF "1.prems"(1,2) _ v] by blast
    qed
  qed
qed

section \<open>Reflexivity\<close>

text \<open>A descriptor whose bounds are numbers and whose fields and tags are not declared twice.\<close>

definition self_bound :: "number_parser \<Rightarrow> string option \<Rightarrow> bool" where
  "self_bound parse b = (case b of None \<Rightarrow> True | Some s \<Rightarrow> (case parse s of None \<Rightarrow> False | Some n \<Rightarrow> f_le n n))"

definition self_fbound :: "f64 option \<Rightarrow> bool" where
  "self_fbound b = (case b of None \<Rightarrow> True | Some n \<Rightarrow> f_le n n)"

definition numeric_ok :: "number_parser \<Rightarrow> constraints \<Rightarrow> bool" where
  "numeric_ok parse cs \<longleftrightarrow>
     self_bound parse (Minimum cs) \<and> self_bound parse (Maximum cs) \<and>
     self_bound parse (ExclusiveMinimum cs) \<and> self_bound parse (ExclusiveMaximum cs) \<and>
     self_fbound (MinimumF cs) \<and> self_fbound (MaximumF cs) \<and>
     self_fbound (ExclusiveMinimumF cs) \<and> self_fbound (ExclusiveMaximumF cs)"

function clean :: "number_parser \<Rightarrow> Type \<Rightarrow> bool" where
  "clean parse t =
     (numeric_ok parse (Constr t) \<and> distinct (map FName (Fields t)) \<and> distinct (map Tag (Variants t)) \<and>
      (case Items t of None \<Rightarrow> True | Some i \<Rightarrow> clean parse i) \<and>
      (\<forall>f \<in> set (Fields t). clean parse (FType f)) \<and> (\<forall>v \<in> set (Variants t). clean parse (VType v)))"
  by pat_completeness auto
termination by (relation "measure (\<lambda>(_, t). size t)") (auto simp: size_items size_field size_variant)

declare clean.simps [simp del]

lemma clean_parts:
  assumes "clean parse t"
  shows "numeric_ok parse (Constr t)" "distinct (map FName (Fields t))" "distinct (map Tag (Variants t))"
    "Items t = Some i \<Longrightarrow> clean parse i" "f \<in> set (Fields t) \<Longrightarrow> clean parse (FType f)"
    "v \<in> set (Variants t) \<Longrightarrow> clean parse (VType v)"
  using assms by (subst (asm) clean.simps, force)+

lemma worst_ok [simp]: "worst ok ok = ok"
  by (simp add: worst_def)

lemma check_canonical_refl:
  "self_bound parse b \<Longrightarrow> check_canonical parse x path f_le b b r = r"
  "self_bound parse b \<Longrightarrow> check_canonical parse x path f_ge b b r = r"
  by (auto simp: self_bound_def check_canonical_def f_ge_def split: option.splits)

lemma check_float_refl:
  "self_fbound b \<Longrightarrow> check_float x path f_le b b r = r"
  "self_fbound b \<Longrightarrow> check_float x path f_ge b b r = r"
  by (auto simp: self_fbound_def check_float_def f_ge_def split: option.splits)

lemma check_count_refl: "\<not> bad n n \<Longrightarrow> check_count x path bad (Some n) (Some n) r = r"
  by (simp add: check_count_def)

lemma constraints_refl:
  "numeric_ok parse (Constr t) \<Longrightarrow> assignCanonicalNumericConstraints parse t t path = ok"
  "numeric_ok parse (Constr t) \<Longrightarrow> assignFloatConstraints t t path = ok"
  "assignStringConstraints t t path = ok" "assignArrayConstraints t t path = ok" "assignEnum t t path = ok"
proof -
  have c: "check_count x path (<) n n r = r" "check_count x path (>) n n r = r" for x and n :: "int option" and r
    by (simp_all add: check_count_def split: option.splits)
  show "assignStringConstraints t t path = ok" "assignArrayConstraints t t path = ok"
    by (auto simp: assignStringConstraints_def assignArrayConstraints_def Let_def c split: option.splits)
  show "assignEnum t t path = ok"
    using find_None_subset[of "set (Values t)" "Values t"] by (simp add: assignEnum_def)
qed (simp_all add: numeric_ok_def assignCanonicalNumericConstraints_def assignFloatConstraints_def Let_def
    check_canonical_refl check_float_refl)

lemma last_field_distinct: "distinct (map FName fs) \<Longrightarrow> f \<in> set fs \<Longrightarrow> last_field fs (FName f) = Some f"
  unfolding last_field_def by (intro map_of_is_SomeI) (auto simp: rev_map[symmetric] comp_def)

lemma last_variant_distinct: "distinct (map Tag vs) \<Longrightarrow> v \<in> set vs \<Longrightarrow> last_variant vs (Tag v) = Some (VType v)"
  unfolding last_variant_def by (intro map_of_is_SomeI) (auto simp: rev_map[symmetric] comp_def)

lemma check_fields_refl:
  "\<lbrakk>distinct (map FName pfs); set cfs \<subseteq> set pfs; \<And>f pth. f \<in> set pfs \<Longrightarrow> assign (FType f) (FType f) pth = Some ok\<rbrakk> \<Longrightarrow>
   check_fields assign pfs path cfs ok = Some ok"
  by (induction cfs) (auto simp: Let_def last_field_distinct)

lemma check_variants_refl:
  "\<lbrakk>distinct (map Tag (Variants c)); set pvs \<subseteq> set (Variants c);
    \<And>v pth. v \<in> set (Variants c) \<Longrightarrow> assign (VType v) (VType v) pth = Some ok\<rbrakk> \<Longrightarrow>
   check_variants assign c path pvs ok = Some ok"
  by (induction pvs) (auto simp: Let_def last_variant_distinct)

lemma check_extras_none: "FName ` set pfs \<subseteq> set names \<Longrightarrow> check_extras names path pfs r = r"
  unfolding check_extras_def by (induction pfs) auto

lemma AssignType_refl_ok: "wf_type t \<Longrightarrow> clean parse t \<Longrightarrow> AssignType parse t t path = Some ok"
proof (induction t arbitrary: path rule: Type_parts_induct)
  case (1 t)
  note w = wf_type_parts[OF "1.prems"(1)] and cl = clean_parts[OF "1.prems"(2)]
  have it: "\<exists>i. Items t = Some i \<and> (\<forall>pth. AssignType parse i i pth = Some ok)"
    if "TKind t = KindArray \<or> TKind t = KindMap"
    using w(1)[OF that] w(2) cl(4) "1.IH"(1) by blast
  have "check_fields (AssignType parse) (Fields t) path (Fields t) ok = Some ok"
    by (rule check_fields_refl) (use cl(2,5) w(3) "1.IH"(2) in auto)
  then have rec: "assignRecord (AssignType parse) t t path = Some ok"
    by (auto simp: assignRecord_def check_extras_none)
  have un: "assignUnion (AssignType parse) t t path = Some ok"
    unfolding assignUnion_def by (rule check_variants_refl) (use cl(3,6) w(4) "1.IH"(3) in auto)
  show ?case
    using it rec un constraints_refl(1,2)[OF cl(1)] constraints_refl(3-5)
    by (subst AssignType.simps) (auto split: Kind.splits)
qed

section \<open>Resolved parameters\<close>

lemma parse_declarations_Inr:
  "parse_declarations ds = Inr ps \<Longrightarrow>
   mkeys ps = mkeys ds \<and> list_all2 (\<lambda>(n, raw) (n', pd). n = n' \<and> ParseParameterDeclaration raw = Inr pd) ds ps"
proof (induction ds arbitrary: ps)
  case (Cons d ds)
  obtain name raw where d: "d = (name, raw)" by fastforce
  from Cons.prems obtain pd ps' where "ParseParameterDeclaration raw = Inr pd"
    "parse_declarations ds = Inr ps'" "ps = (name, pd) # ps'"
    unfolding d by (auto split: if_splits sum.splits)
  then show ?case using Cons.IH by (simp add: d)
qed simp

definition resolved_as :: "lib \<Rightarrow> gomap \<Rightarrow> gomap \<Rightarrow> string \<Rightarrow> ParameterDeclaration \<Rightarrow> bool" where
  "resolved_as l sub r name pd \<longleftrightarrow>
     (case map_of sub name of
        Some v \<Rightarrow> map_of r name = Some v \<and> ValidateValue l v (pType pd) (''$.'' @ name) = Good
      | None \<Rightarrow> \<not> pRequired pd \<and> map_of r name = (if HasDefault pd then Some (pDefault pd) else None))"

lemma resolve_each_Inr:
  "resolve_each l sub ps = Inr r \<Longrightarrow> distinct (mkeys ps) \<Longrightarrow>
   set (mkeys r) \<subseteq> set (mkeys ps) \<and> (\<forall>(name, pd) \<in> set ps. resolved_as l sub r name pd)"
proof (induction ps arbitrary: r)
  case (Cons p ps)
  obtain name pd where p: "p = (name, pd)" by fastforce
  from Cons.prems obtain r' where r': "resolve_each l sub ps = Inr r'"
    and r: "case map_of sub name of
        Some v \<Rightarrow> r = (name, v) # r' \<and> ValidateValue l v (pType pd) (''$.'' @ name) = Good
      | None \<Rightarrow> \<not> pRequired pd \<and> r = (if HasDefault pd then (name, pDefault pd) # r' else r')"
    unfolding p by (auto split: option.splits if_splits sum.splits)
  from Cons.IH[OF r'] Cons.prems(2) have sub': "set (mkeys r') \<subseteq> set (mkeys ps)"
    and IH: "\<And>n d. (n, d) \<in> set ps \<Longrightarrow> resolved_as l sub r' n d"
    by (auto simp: p)
  have nin: "name \<notin> set (mkeys ps)" using Cons.prems(2) by (simp add: p)
  then have "map_of r' name = None" using sub' by (auto simp: map_of_eq_None_iff)
  then have mine: "resolved_as l sub r name pd"
    using r by (auto simp: resolved_as_def split: option.splits)
  have same: "map_of r n = map_of r' n" if "n \<noteq> name" for n
    using r that by (auto split: option.splits if_splits)
  have other: "resolved_as l sub r n d" if nd: "(n, d) \<in> set ps" for n d
  proof -
    from nd nin have n: "n \<noteq> name" by (metis fst_conv image_eqI list.set_map)
    show ?thesis using IH[OF nd] unfolding resolved_as_def same[OF n] .
  qed
  have "set (mkeys r) \<subseteq> set (mkeys (p # ps))"
    using r sub' by (auto simp: p split: option.splits if_splits)
  with mine other show ?case by (auto simp: p)
qed simp

text \<open>The recursive predicates on a descriptor in constructor form, for evaluation.\<close>

lemmas eval_type =
  wf_type.simps[of "Ty k n it fs a vs tf vf vars cs" for k n it fs a vs tf vf vars cs, simplified]
  producer_ok.simps[of _ _ "Ty k n it fs a vs tf vf vars cs" for k n it fs a vs tf vf vars cs, simplified]
  consumer_ok.simps[of _ _ "Ty k n it fs a vs tf vf vars cs" for k n it fs a vs tf vf vars cs, simplified]
  clean.simps[of _ "Ty k n it fs a vs tf vf vars cs" for k n it fs a vs tf vf vars cs, simplified]
  AssignType.simps[of _ "Ty k n it fs a vs tf vf vars cs" "Ty k' n' it' fs' a' vs' tf' vf' vars' cs'"
    for k n it fs a vs tf vf vars cs k' n' it' fs' a' vs' tf' vf' vars' cs']
  ValidateValue.simps[of _ _ "Ty k n it fs a vs tf vf vars cs" for k n it fs a vs tf vf vars cs]

section \<open>Properties\<close>

text \<open>Externals for the witnesses: the parser knows one digit.\<close>

definition demo_number :: number_parser where
  "demo_number s = (if s = ''0'' then Some (Fin 0) else if s = ''5'' then Some (Fin 5) else None)"

definition demo_lib :: lib where
  "demo_lib = \<lparr>regexp = (\<lambda>_. None), base64_ok = (\<lambda>_. False), date_ok = (\<lambda>_. False),
     rfc3339_ok = (\<lambda>_. False), parseNumber = demo_number, fmtFloat = (\<lambda>_. [])\<rparr>"

definition recordOf :: "bool \<Rightarrow> Field list \<Rightarrow> Type" where
  "recordOf opn fs = Ty KindRecord False None fs opn [] [] [] [] no_constraints"

definition boolType :: Type where
  "boolType = leafType KindBoolean False no_constraints"

text \<open>
  C16. An \<open>Assignable\<close> verdict is a promise about values: every value that validates against the
  producer's descriptor validates against the consumer's, provided the producer's records are
  closed, both sides name the fields of their unions alike, the tags of a consumer union are
  distinct and an unknown consumer is nullable.
\<close>

theorem AssignType_sound:
  assumes "AssignType (parseNumber l) p c path = Some r" and "RVerdict r = Assignable"
    and "producer_ok tf vf p" and "consumer_ok tf vf c"
    and "ValidateValue l v p path1 = Good"
  shows "ValidateValue l v c path2 = Good"
  using assign_sound[OF assms(1-4)] assms(5) by (auto simp: carries_def)

theorem AssignType_sound_witness:
  "ValidateValue demo_lib (VMap [(''x'', VBool True)]) (recordOf True [MkField ''x'' boolType False]) ''$'' = Good"
proof -
  let ?p = "recordOf False [MkField ''x'' boolType True]" and ?c = "recordOf True [MkField ''x'' boolType False]"
  have "AssignType (parseNumber demo_lib) ?p ?c ''$'' = Some ok"
    by (simp add: recordOf_def boolType_def leafType_def eval_type assignRecord_def last_field_def)
  moreover have "producer_ok [] [] ?p" "consumer_ok [] [] ?c"
    by (simp_all add: eval_type recordOf_def boolType_def leafType_def)
  moreover have "ValidateValue demo_lib (VMap [(''x'', VBool True)]) ?p ''$'' = Good"
    by (simp add: recordOf_def boolType_def leafType_def eval_type validateRecordValue_def and_then_def)
  ultimately show ?thesis using AssignType_sound assignable_simps(1) by blast
qed

text \<open>
  Every clean descriptor is assignable to itself: its pointers are set, its bounds are
  numbers, and no field or tag is declared twice.
\<close>

lemma AssignType_reflexive:
  assumes "wf_type t" and "clean parse t"
  shows "AssignType parse t t path = Some ok"
  using assms by (rule AssignType_refl_ok)

lemma AssignType_reflexive_witness:
  "AssignType demo_number (recordOf False [MkField ''x'' boolType True]) (recordOf False [MkField ''x'' boolType True]) ''$''
     = Some ok"
  by (rule AssignType_reflexive)
    (simp_all add: eval_type recordOf_def boolType_def leafType_def numeric_ok_def no_constraints_def
      self_bound_def self_fbound_def)

text \<open>
  The check of two parsed ports always returns a verdict: no nil pointer is followed.
\<close>

lemma AssignPort_never_panics:
  assumes "ParsePortValue rawp = Inr p" and "ParsePortValue rawc = Inr c"
  shows "\<exists>r. AssignPort parse p c = Some r"
  using AssignPort_total[OF ParsePortValue_wf[OF assms(1)] ParsePortValue_wf[OF assms(2)]] by blast

lemma AssignPort_never_panics_witness:
  "\<exists>r. AssignPort demo_number (Port ValueControl None None [] [] None False None)
     (Port ValueControl None None [] [] None False None) = Some r"
proof -
  have "ParsePortValue (VMap [(''kind'', VStr ''control'')]) = Inr (Port ValueControl None None [] [] None False None)"
    by (simp add: ParsePortValue.simps mget_str_def mget_def)
  then show ?thesis using AssignPort_never_panics by blast
qed

text \<open>
  An open producer record is reported as assignable to a closed consumer record, although a
  value it may emit is rejected there.
\<close>

lemma open_producer_assignable:
  "AssignType parse (recordOf True []) (recordOf False []) path = Some ok \<and>
   ValidateValue l (VMap [(''x'', VBool True)]) (recordOf True []) path = Good \<and>
   ValidateValue l (VMap [(''x'', VBool True)]) (recordOf False []) path \<noteq> Good"
  by (simp add: recordOf_def eval_type assignRecord_def check_extras_def
      validateRecordValue_def and_then_def)

text \<open>
  Two unions that name their tag field differently are reported as assignable, although no
  tagged value of the producer is one of the consumer.
\<close>

lemma union_tag_field_ignored:
  "let u = (\<lambda>tf. Ty KindUnion False None [] False [] tf ''v'' [MkVariant ''a'' boolType] no_constraints);
       x = VMap [(''kind'', VStr ''a''), (''v'', VBool True)]
   in AssignType parse (u ''kind'') (u ''type'') path = Some ok \<and>
      ValidateValue l x (u ''kind'') path = Good \<and> ValidateValue l x (u ''type'') path \<noteq> Good"
  by (simp add: Let_def boolType_def leafType_def eval_type assignUnion_def
      last_variant_def validateUnionValue_def mget_def)

text \<open>
  Resolution of run parameters: a result exists only when every submitted name is declared;
  it holds no other names; a submitted value is taken as it is and validates against its
  declared type; an omitted parameter is not required and takes its default, if it has one.
\<close>

lemma ResolveParameters_contract:
  assumes "ResolveParameters l ds sub = Inr r" and "distinct (mkeys ds)" and "(name, raw) \<in> set ds"
  shows "set (mkeys sub) \<subseteq> set (mkeys ds) \<and> set (mkeys r) \<subseteq> set (mkeys ds) \<and>
    (\<exists>pd. ParseParameterDeclaration raw = Inr pd \<and>
       (case map_of sub name of
          Some v \<Rightarrow> map_of r name = Some v \<and> ValidateValue l v (pType pd) (''$.'' @ name) = Good
        | None \<Rightarrow> \<not> pRequired pd \<and> map_of r name = (if HasDefault pd then Some (pDefault pd) else None)))"
proof -
  from assms(1) obtain ps where ps: "parse_declarations ds = Inr ps" "resolve_each l sub ps = Inr r"
    and f: "find (\<lambda>n. n \<notin> set (mkeys ps)) (mkeys sub) = None"
    by (auto simp: ResolveParameters_def split: sum.splits option.splits)
  note keys = conjunct1[OF parse_declarations_Inr[OF ps(1)]] and rel = conjunct2[OF parse_declarations_Inr[OF ps(1)]]
  from rel assms(3) obtain pd where pd: "(name, pd) \<in> set ps" "ParseParameterDeclaration raw = Inr pd"
    unfolding list_all2_conv_all_nth in_set_conv_nth by fastforce
  have d: "distinct (mkeys ps)" using keys assms(2) by simp
  note r = resolve_each_Inr[OF ps(2) d]
  from conjunct2[OF r] pd(1) have "resolved_as l sub r name pd" by blast
  with pd(2) conjunct1[OF r] f[unfolded find_None_subset] keys
  show ?thesis unfolding resolved_as_def by auto
qed

lemma ResolveParameters_contract_witness:
  "ValidateValue demo_lib (VBool True) boolType (''$.'' @ ''p'') = Good"
proof -
  let ?ds = "[(''p'', VMap [(''type'', VMap [(''kind'', VStr ''boolean'')])])]"
  note evals = ParseParameterDeclaration_def ParseType.simps mget_def mget_str_def kind_of_def kind_names_def bool_or_def
  have pd: "ParseParameterDeclaration (snd (hd ?ds)) = Inr \<lparr>pType = boolType, pRequired = False, pDefault = VNil,
      HasDefault = False, Description = [], Sensitive = False\<rparr>"
    by (simp add: evals boolType_def)
  have "ResolveParameters demo_lib ?ds [(''p'', VBool True)] = Inr [(''p'', VBool True)]"
    using pd by (simp add: ResolveParameters_def parameterName_def is_word_start_def eval_type boolType_def leafType_def)
  from ResolveParameters_contract[OF this, of "''p''" "snd (hd ?ds)"] pd show ?thesis by auto
qed

text \<open>
  A declared default is not validated: a boolean parameter may resolve to a string.
\<close>

lemma default_not_validated:
  "ResolveParameters l
     [(''p'', VMap [(''type'', VMap [(''kind'', VStr ''boolean'')]), (''default'', VStr ''x'')])] [] =
   Inr [(''p'', VStr ''x'')]"
  by (simp add: ResolveParameters_def ParseParameterDeclaration_def ParseType.simps parameterName_def
      is_word_start_def mget_def mget_str_def kind_of_def kind_names_def bool_or_def)

text \<open>
  A failure of a sensitive declaration reveals nothing of the value: its text is the same
  for every value and every wrapped error. A failure of another declaration shows of the value
  only its shape.
\<close>

lemma sensitive_failure_redacted:
  "map_option (failure_Error quote text) (NewValidationFailure d name t raw (Some e) path True) =
     map_option (failure_Error quote text) (NewValidationFailure d name t raw' (Some e') path' True) \<and>
   (describeValueKind raw = describeValueKind raw' \<longrightarrow>
     NewValidationFailure d name t raw (Some e) path False = NewValidationFailure d name t raw' (Some e) path False)"
  by (simp add: NewValidationFailure_def failure_Error_def Let_def)

lemma sensitive_failure_redacted_witness:
  "NewValidationFailure DirectionInput [] boolType (VStr ''a'') (Some ()) [] False =
   NewValidationFailure DirectionInput [] boolType (VStr ''b'') (Some ()) [] False"
proof -
  have "describeValueKind (VStr ''a'') = describeValueKind (VStr ''b'')" by simp
  then show ?thesis by (rule sensitive_failure_redacted[THEN conjunct2, THEN mp])
qed

end
