(* ===== verification/Dag_Order.thy ===== *)
theory Dag_Order
  imports Go_Prelude "HOL-Library.Multiset"
begin

text \<open>
  Topological ordering of a pipeline graph: \<^verbatim>\<open>topoSort\<close> of \<^verbatim>\<open>src/engine/runner.go\<close>, which the
  validator uses to refuse cycles, and \<^verbatim>\<open>topoWaves\<close> and \<^verbatim>\<open>TopoOrderedNodes\<close> of
  \<^verbatim>\<open>src/engine/planner.go\<close>, which the physical plan and the grid view use. Of a node and an
  edge (\<^verbatim>\<open>src/models/pipeline.go\<close>) the records keep the fields that the engine's scheduling reads.
\<close>

record Node =
  nID :: string
  nType :: string
  nName :: string

record Edge =
  From :: string
  To :: string
  Condition :: "bool option"

definition zeroNode :: Node where
  "zeroNode = \<lparr>nID = [], nType = [], nName = []\<rparr>"

text \<open>A map from identifiers that is filled from the node list: the last node of an identifier wins.\<close>

definition nodeMap :: "Node list \<Rightarrow> string \<Rightarrow> Node" where
  "nodeMap nodes i = (case map_of (rev (map (\<lambda>n. (nID n, n)) nodes)) i of None \<Rightarrow> zeroNode | Some n \<Rightarrow> n)"

type_synonym degs = "(string \<times> int) list"

definition deg :: "degs \<Rightarrow> string \<Rightarrow> int" where
  "deg d k = (case map_of d k of None \<Rightarrow> 0 | Some n \<Rightarrow> n)"

definition adj :: "Edge list \<Rightarrow> string \<Rightarrow> string list" where
  "adj edges i = map To (filter (\<lambda>e. From e = i) edges)"

definition count_in :: "Edge \<Rightarrow> degs \<Rightarrow> degs" where
  "count_in e d = mput (To e) (deg d (To e) + 1) d"

definition initDegrees :: "Node list \<Rightarrow> Edge list \<Rightarrow> degs" where
  "initDegrees nodes edges = fold count_in edges (fold (\<lambda>n. mput (nID n) 0) nodes [])"

text \<open>One iteration of the inner loop: a successor that has no predecessor left is queued.\<close>

definition relax :: "string \<Rightarrow> degs \<times> string list \<Rightarrow> degs \<times> string list" where
  "relax nxt = (\<lambda>(d, q). let n = deg d nxt - 1 in (mput nxt n d, if n = 0 then q @ [nxt] else q))"

definition positive :: "degs \<Rightarrow> nat" where
  "positive d = length (filter (\<lambda>(k, n). n > 0) d)"

lemma deg_mput [simp]: "deg (mput k n d) j = (if j = k then n else deg d j)"
  by (simp add: deg_def)

lemma positive_mput:
  "int (positive (mput k n d)) = int (positive d) - (if deg d k > 0 then 1 else 0) + (if n > 0 then 1 else 0)"
  by (induction k n d rule: mput.induct) (auto simp: positive_def deg_def)

lemma relax_positive: "relax x (d, q) = (d', q') \<Longrightarrow> length q' + positive d' \<le> length q + positive d"
  using positive_mput[of x "deg d x - 1" d] by (auto simp: relax_def Let_def split: if_splits)

lemma fold_relax_positive: "fold relax xs (d, q) = (d', q') \<Longrightarrow> length q' + positive d' \<le> length q + positive d"
proof (induction xs arbitrary: d q)
  case (Cons x xs)
  obtain d1 q1 where r: "relax x (d, q) = (d1, q1)" by fastforce
  with Cons.prems have "fold relax xs (d1, q1) = (d', q')" by simp
  from Cons.IH[OF this] relax_positive[OF r] show ?case by simp
qed simp

function kahn :: "Edge list \<Rightarrow> degs \<Rightarrow> string list \<Rightarrow> string list \<Rightarrow> string list" where
  "kahn edges d [] done_ids = done_ids"
| "kahn edges d (i # q) done_ids =
     (case fold relax (adj edges i) (d, q) of (d', q') \<Rightarrow> kahn edges d' q' (done_ids @ [i]))"
  by pat_completeness auto
termination
proof (relation "measure (\<lambda>(_, d, q, _). length q + positive d)")
  fix edges d i q done_ids d' q'
  assume "(d', q') = fold relax (adj edges i) (d, q)"
  then have "fold relax (adj edges i) (d, q) = (d', q')" by simp
  from fold_relax_positive[OF this]
  show "((edges, d', q', done_ids @ [i]), edges, d, i # q, done_ids) \<in> measure (\<lambda>(_, d, q, _). length q + positive d)"
    by simp
qed simp

definition roots :: "Node list \<Rightarrow> degs \<Rightarrow> string list" where
  "roots nodes d = filter (\<lambda>i. deg d i = 0) (map nID nodes)"

datatype order_error = CycleDetected

definition topoSort :: "Node list \<Rightarrow> Edge list \<Rightarrow> order_error + Node list" where
  "topoSort nodes edges =
     (let d = initDegrees nodes edges;
          done_ids = map (nodeMap nodes) (kahn edges d (roots nodes d) [])
      in if length done_ids \<noteq> length nodes then Inl CycleDetected else Inr done_ids)"

function waves_from :: "Edge list \<Rightarrow> degs \<Rightarrow> string list \<Rightarrow> string list list" where
  "waves_from edges d [] = []"
| "waves_from edges d (c # cs) =
     (case fold relax (concat (map (adj edges) (c # cs))) (d, []) of
        (d', next) \<Rightarrow> (c # cs) # waves_from edges d' next)"
  by pat_completeness auto
termination
proof (relation "measure (\<lambda>(_, d, q). length q + positive d)")
  fix edges d c cs d' q'
  assume "(d', q') = fold relax (concat (map (adj edges) (c # cs))) (d, [])"
  then have "fold relax (concat (map (adj edges) (c # cs))) (d, []) = (d', q')" by simp
  from fold_relax_positive[OF this]
  show "((edges, d', q'), edges, d, c # cs) \<in> measure (\<lambda>(_, d, q). length q + positive d)"
    by simp
qed simp

definition known_edges :: "Node list \<Rightarrow> Edge list \<Rightarrow> Edge list" where
  "known_edges nodes edges = filter (\<lambda>e. From e \<in> nID ` set nodes \<and> To e \<in> nID ` set nodes) edges"

definition topoWaves :: "Node list \<Rightarrow> Edge list \<Rightarrow> order_error + Node list list" where
  "topoWaves nodes edges =
     (let es = known_edges nodes edges;
          d = initDegrees nodes es;
          waves = map (map (nodeMap nodes)) (waves_from es d (roots nodes d))
      in if length (concat waves) < length nodes then Inl CycleDetected else Inr waves)"

definition TopoOrderedNodes :: "Node list \<Rightarrow> Edge list \<Rightarrow> Node list" where
  "TopoOrderedNodes nodes edges =
     (case topoWaves nodes edges of Inl _ \<Rightarrow> nodes | Inr waves \<Rightarrow> concat waves)"

section \<open>The loop invariant\<close>

definition edge_rel :: "Edge list \<Rightarrow> (string \<times> string) set" where
  "edge_rel edges = (\<lambda>e. (From e, To e)) ` set edges"

definition before :: "'a list \<Rightarrow> 'a \<Rightarrow> 'a \<Rightarrow> bool" where
  "before xs u v \<longleftrightarrow> (\<exists>ys zs. xs = ys @ v # zs \<and> u \<in> set ys)"

text \<open>Edges into \<open>v\<close> from nodes outside \<open>A\<close>.\<close>

definition waiting :: "Edge list \<Rightarrow> string set \<Rightarrow> string \<Rightarrow> nat" where
  "waiting edges A v = length (filter (\<lambda>e. To e = v \<and> From e \<notin> A) edges)"

definition kahn_inv :: "string set \<Rightarrow> Edge list \<Rightarrow> degs \<Rightarrow> string list \<Rightarrow> string list \<Rightarrow> bool" where
  "kahn_inv V edges d q done_ids \<longleftrightarrow>
     (\<forall>v. deg d v = int (waiting edges (set done_ids) v)) \<and>
     distinct (done_ids @ q) \<and> set (done_ids @ q) = {v \<in> V. deg d v = 0} \<and>
     (\<forall>e \<in> set edges. To e \<in> set done_ids \<longrightarrow> before done_ids (From e) (To e))"

lemma fold_relax_spec:
  assumes "\<And>v. int (count_list xs v) \<le> deg d v" and "fold relax xs (d, q) = (d', q')"
  shows "(\<forall>v. deg d' v = deg d v - int (count_list xs v)) \<and>
    (\<exists>new. q' = q @ new \<and> distinct new \<and> set new = {v. 0 < deg d v \<and> deg d v = int (count_list xs v)})"
  using assms
proof (induction xs arbitrary: d q)
  case (Cons x xs)
  define n where "n = deg d x - 1"
  let ?d = "mput x n d" and ?q = "if n = 0 then q @ [x] else q"
  have c: "int (count_list xs v) \<le> deg ?d v" for v
    using Cons.prems(1)[of v] Cons.prems(1)[of x] by (auto simp: n_def)
  have "relax x (d, q) = (?d, ?q)" by (simp add: relax_def Let_def n_def)
  with Cons.prems(2) have "fold relax xs (?d, ?q) = (d', q')" by simp
  from Cons.IH[OF c this] obtain new where IH: "\<And>v. deg d' v = deg ?d v - int (count_list xs v)"
    "q' = ?q @ new" "distinct new" "set new = {v. 0 < deg ?d v \<and> deg ?d v = int (count_list xs v)}" by blast
  have "deg d' v = deg d v - int (count_list (x # xs) v)" for v using IH(1)[of v] by (simp add: n_def)
  moreover have "q' = q @ (if n = 0 then x # new else new)" using IH(2) by simp
  moreover have "distinct (if n = 0 then x # new else new)" using IH(3,4) by simp
  moreover have "set (if n = 0 then x # new else new) = {v. 0 < deg d v \<and> deg d v = int (count_list (x # xs) v)}"
    using IH(4) c[of x] by (auto simp: n_def)
  ultimately show ?case by blast
qed auto

lemma count_adj: "count_list (adj edges i) v = length (filter (\<lambda>e. To e = v \<and> From e = i) edges)"
  by (induction edges) (auto simp: adj_def)

lemma waiting_insert:
  "i \<notin> A \<Longrightarrow> waiting edges A v = waiting edges (insert i A) v + count_list (adj edges i) v"
  unfolding waiting_def count_adj by (induction edges) auto

lemma waiting_zero: "waiting edges A v = 0 \<longleftrightarrow> (\<forall>e \<in> set edges. To e = v \<longrightarrow> From e \<in> A)"
  by (auto simp: waiting_def filter_empty_conv)

lemma before_append: "before xs u v \<Longrightarrow> before (xs @ ys) u v"
  unfolding before_def by force

lemma before_last: "u \<in> set xs \<Longrightarrow> before (xs @ [v]) u v"
  unfolding before_def by force

lemma kahn_inv_step:
  assumes inv: "kahn_inv V edges d (i # q) done_ids" and V: "\<forall>e \<in> set edges. To e \<in> V"
    and r: "fold relax (adj edges i) (d, q) = (d', q')"
  shows "kahn_inv V edges d' q' (done_ids @ [i])"
proof -
  from inv have degd: "\<And>v. deg d v = int (waiting edges (set done_ids) v)"
    and dist: "distinct (done_ids @ i # q)" and st: "set (done_ids @ i # q) = {v \<in> V. deg d v = 0}"
    and ord: "\<forall>e \<in> set edges. To e \<in> set done_ids \<longrightarrow> before done_ids (From e) (To e)"
    by (auto simp: kahn_inv_def)
  have split: "waiting edges (set done_ids) v = waiting edges (set (done_ids @ [i])) v + count_list (adj edges i) v" for v
    using waiting_insert[of i "set done_ids" edges v] dist by simp
  have "int (count_list (adj edges i) v) \<le> deg d v" for v using degd[of v] split[of v] by simp
  from fold_relax_spec[OF this r] obtain new where
    deg': "\<And>v. deg d' v = deg d v - int (count_list (adj edges i) v)" and q': "q' = q @ new"
    and new: "distinct new" "set new = {v. 0 < deg d v \<and> deg d v = int (count_list (adj edges i) v)}"
    by blast
  have new': "set new = {v \<in> V. 0 < deg d v \<and> deg d' v = 0}"
  proof -
    have "v \<in> V" if "0 < deg d v" for v
      using that V degd[of v] waiting_zero[of edges "set done_ids" v] by fastforce
    then show ?thesis using new(2) deg' by auto
  qed
  have "deg d' v = int (waiting edges (set (done_ids @ [i])) v)" for v
    using deg' degd split[of v] by simp
  moreover have "distinct ((done_ids @ [i]) @ q')"
    using dist new(1) new' st q' by auto
  moreover have "set ((done_ids @ [i]) @ q') = {v \<in> V. deg d' v = 0}"
  proof -
    have "deg d' v = 0" if "deg d v = 0" for v using that deg'[of v] degd[of v] split[of v] by simp
    moreover have "0 \<le> deg d v" for v using degd[of v] by simp
    ultimately show ?thesis using st q' new' by (auto simp: order_less_le)
  qed
  moreover have "\<forall>e \<in> set edges. To e \<in> set (done_ids @ [i]) \<longrightarrow> before (done_ids @ [i]) (From e) (To e)"
  proof (intro ballI impI)
    fix e assume e: "e \<in> set edges" "To e \<in> set (done_ids @ [i])"
    show "before (done_ids @ [i]) (From e) (To e)"
    proof (cases "To e = i")
      case True
      have "deg d i = 0" using st by auto
      then have "waiting edges (set done_ids) i = 0" using degd[of i] by simp
      with e(1) True have "From e \<in> set done_ids" by (auto simp: waiting_zero)
      then show ?thesis unfolding True by (rule before_last)
    next
      case False
      then show ?thesis using e ord by (auto intro: before_append)
    qed
  qed
  ultimately show ?thesis by (simp add: kahn_inv_def)
qed

lemma kahn_final:
  "kahn_inv V edges d q done_ids \<Longrightarrow> \<forall>e \<in> set edges. To e \<in> V \<Longrightarrow>
   \<exists>d'. kahn_inv V edges d' [] (kahn edges d q done_ids)"
proof (induction edges d q done_ids rule: kahn.induct)
  case (2 edges d i q done_ids)
  obtain d' q' where r: "fold relax (adj edges i) (d, q) = (d', q')" by fastforce
  from kahn_inv_step[OF "2.prems" r] "2.IH"[OF r[symmetric]] "2.prems"(2) r
  show ?case by simp
qed auto

section \<open>Correctness of the order\<close>

definition well_graph :: "Node list \<Rightarrow> Edge list \<Rightarrow> bool" where
  "well_graph nodes edges \<longleftrightarrow>
     distinct (map nID nodes) \<and> (\<forall>e \<in> set edges. From e \<in> nID ` set nodes \<and> To e \<in> nID ` set nodes)"

lemma deg_fold_count_in: "deg (fold count_in edges d) v = deg d v + int (waiting edges {} v)"
  by (induction edges arbitrary: d) (auto simp: count_in_def waiting_def)

lemma deg_initDegrees: "deg (initDegrees nodes edges) v = int (waiting edges {} v)"
proof -
  have "deg d v = 0 \<Longrightarrow> deg (fold (\<lambda>n. mput (nID n) 0) nodes d) v = 0" for d
    by (induction nodes arbitrary: d) auto
  moreover have "deg [] v = 0" by (simp add: deg_def)
  ultimately show ?thesis by (simp add: initDegrees_def deg_fold_count_in)
qed

lemma kahn_inv_init:
  "well_graph nodes edges \<Longrightarrow>
   kahn_inv (nID ` set nodes) edges (initDegrees nodes edges) (roots nodes (initDegrees nodes edges)) []"
  by (auto simp: kahn_inv_def deg_initDegrees roots_def well_graph_def)

lemma kahn_order:
  assumes "well_graph nodes edges"
  defines "ids \<equiv> kahn edges (initDegrees nodes edges) (roots nodes (initDegrees nodes edges)) []"
  shows "distinct ids" "set ids = {v \<in> nID ` set nodes. \<forall>e \<in> set edges. To e = v \<longrightarrow> From e \<in> set ids}"
    "\<forall>e \<in> set edges. To e \<in> set ids \<longrightarrow> before ids (From e) (To e)"
proof -
  have "\<forall>e \<in> set edges. To e \<in> nID ` set nodes" using assms(1) by (auto simp: well_graph_def)
  from kahn_final[OF kahn_inv_init[OF assms(1)] this] obtain d' where
    inv: "kahn_inv (nID ` set nodes) edges d' [] ids" unfolding ids_def by blast
  then show "distinct ids" "\<forall>e \<in> set edges. To e \<in> set ids \<longrightarrow> before ids (From e) (To e)"
    unfolding kahn_inv_def append_Nil2 by blast+
  from inv have deg': "deg d' v = int (waiting edges (set ids) v)" for v unfolding kahn_inv_def by blast
  have "deg d' v = 0 \<longleftrightarrow> (\<forall>e \<in> set edges. To e = v \<longrightarrow> From e \<in> set ids)" for v
    unfolding deg' waiting_zero[symmetric] by (rule of_nat_eq_0_iff)
  moreover have "set ids = {v \<in> nID ` set nodes. deg d' v = 0}"
    using inv unfolding kahn_inv_def append_Nil2 by blast
  ultimately show "set ids = {v \<in> nID ` set nodes. \<forall>e \<in> set edges. To e = v \<longrightarrow> From e \<in> set ids}"
    by presburger
qed

lemma kahn_complete:
  assumes wg: "well_graph nodes edges" and ac: "acyclic (edge_rel edges)"
  shows "set (kahn edges (initDegrees nodes edges) (roots nodes (initDegrees nodes edges)) []) = nID ` set nodes"
    (is "set ?ids = ?V")
proof (rule ccontr)
  assume "set ?ids \<noteq> ?V"
  then have ne: "?V - set ?ids \<noteq> {}" using kahn_order(2)[OF wg] by blast
  have "wf (edge_rel edges)" using ac by (intro finite_acyclic_wf) (simp_all add: edge_rel_def)
  then obtain v where v: "v \<in> ?V - set ?ids" "\<And>u. (u, v) \<in> edge_rel edges \<Longrightarrow> u \<notin> ?V - set ?ids"
    using ne unfolding wf_eq_minimal by (metis ex_in_conv)
  have "From e \<in> set ?ids" if "e \<in> set edges" "To e = v" for e
    using v(2)[of "From e"] that wg by (auto simp: edge_rel_def well_graph_def)
  then have "v \<in> set ?ids" using v(1) equalityD2[OF kahn_order(2)[OF wg]] by blast
  with v(1) show False by simp
qed

lemma before_nth: "before xs u v \<longleftrightarrow> (\<exists>i j. i < j \<and> j < length xs \<and> xs ! i = u \<and> xs ! j = v)"
proof
  assume "before xs u v"
  then obtain ys zs i where "xs = ys @ v # zs" "i < length ys" "ys ! i = u"
    by (auto simp: before_def in_set_conv_nth)
  then show "\<exists>i j. i < j \<and> j < length xs \<and> xs ! i = u \<and> xs ! j = v"
    by (intro exI[of _ i] exI[of _ "length ys"]) (auto simp: nth_append)
next
  assume "\<exists>i j. i < j \<and> j < length xs \<and> xs ! i = u \<and> xs ! j = v"
  then obtain i j where ij: "i < j" "j < length xs" "xs ! i = u" "xs ! j = v" by blast
  have "xs = take j xs @ v # drop (Suc j) xs" using ij(2,4) id_take_nth_drop by blast
  moreover have "u \<in> set (take j xs)" using ij by (auto simp: in_set_conv_nth intro!: exI[of _ i])
  ultimately show "before xs u v" unfolding before_def by blast
qed

lemma before_trans: "distinct xs \<Longrightarrow> before xs u v \<Longrightarrow> before xs v w \<Longrightarrow> before xs u w"
  unfolding before_nth by (metis less_trans nth_eq_iff_index_eq)

lemma before_irrefl: "distinct xs \<Longrightarrow> \<not> before xs v v"
  unfolding before_nth by (metis less_irrefl less_trans nth_eq_iff_index_eq)

text \<open>What an ordering of a graph promises to its clients.\<close>

locale topological =
  fixes order :: "Node list \<Rightarrow> Edge list \<Rightarrow> order_error + Node list"
  assumes order_perm: "well_graph ns es \<Longrightarrow> order ns es = Inr xs \<Longrightarrow> mset xs = mset ns"
    and order_edge: "well_graph ns es \<Longrightarrow> order ns es = Inr xs \<Longrightarrow> e \<in> set es \<Longrightarrow> before (map nID xs) (From e) (To e)"
    and order_total: "well_graph ns es \<Longrightarrow> acyclic (edge_rel es) \<Longrightarrow> \<exists>xs. order ns es = Inr xs"
begin

lemma order_distinct: "well_graph ns es \<Longrightarrow> order ns es = Inr xs \<Longrightarrow> distinct (map nID xs)"
  using order_perm by (metis mset_eq_imp_distinct_iff mset_map well_graph_def)

lemma ancestors_first:
  assumes "well_graph ns es" "order ns es = Inr xs" "(u, v) \<in> (edge_rel es)\<^sup>+"
  shows "before (map nID xs) u v"
  using assms(3)
proof (induction rule: trancl_induct)
  case (base v)
  then show ?case using order_edge[OF assms(1,2)] by (auto simp: edge_rel_def)
next
  case (step v w)
  have "before (map nID xs) v w" using step.hyps(2) order_edge[OF assms(1,2)] by (auto simp: edge_rel_def)
  from before_trans[OF order_distinct[OF assms(1,2)] step.IH this] show ?case .
qed

lemma order_iff_acyclic: "well_graph ns es \<Longrightarrow> (\<exists>xs. order ns es = Inr xs) \<longleftrightarrow> acyclic (edge_rel es)"
proof
  assume wg: "well_graph ns es" and "\<exists>xs. order ns es = Inr xs"
  then obtain xs where xs: "order ns es = Inr xs" by blast
  show "acyclic (edge_rel es)"
    unfolding acyclic_def using ancestors_first[OF wg xs] before_irrefl[OF order_distinct[OF wg xs]] by blast
qed (rule order_total)

end

lemma nodeMap_id: "v \<in> nID ` set nodes \<Longrightarrow> nID (nodeMap nodes v) = v \<and> nodeMap nodes v \<in> set nodes"
proof -
  assume "v \<in> nID ` set nodes"
  then obtain m where "(v, m) \<in> set (rev (map (\<lambda>n. (nID n, n)) nodes))" by force
  then obtain n where "map_of (rev (map (\<lambda>n. (nID n, n)) nodes)) v = Some n"
    using weak_map_of_SomeI by fast
  then show ?thesis by (auto simp: nodeMap_def dest: map_of_SomeD)
qed

lemma map_nodeMap_perm:
  assumes d: "distinct (map nID nodes)" "distinct ids" and s: "set ids = nID ` set nodes"
  shows "mset (map (nodeMap nodes) ids) = mset nodes" "map nID (map (nodeMap nodes) ids) = ids"
proof -
  show m: "map nID (map (nodeMap nodes) ids) = ids"
    by (simp only: map_map, rule map_idI) (simp add: s nodeMap_id)
  have "set (map (nodeMap nodes) ids) = set nodes"
  proof
    show "set (map (nodeMap nodes) ids) \<subseteq> set nodes" using nodeMap_id s by fastforce
    show "set nodes \<subseteq> set (map (nodeMap nodes) ids)"
    proof
      fix n assume n: "n \<in> set nodes"
      then have "nID (nodeMap nodes (nID n)) = nID n" "nodeMap nodes (nID n) \<in> set nodes"
        using nodeMap_id by blast+
      with n d(1) have "nodeMap nodes (nID n) = n" by (metis distinct_map inj_onD)
      then show "n \<in> set (map (nodeMap nodes) ids)" using n s by force
    qed
  qed
  moreover have "distinct (map (nodeMap nodes) ids)" using m d(2) by (metis distinct_map)
  moreover have "distinct nodes" using d(1) by (simp add: distinct_map)
  ultimately show "mset (map (nodeMap nodes) ids) = mset nodes" using set_eq_iff_mset_eq_distinct by blast
qed

interpretation topo: topological topoSort
proof
  fix ns es xs e
  assume wg: "well_graph ns es"
  let ?ids = "kahn es (initDegrees ns es) (roots ns (initDegrees ns es)) []"
  have d: "distinct (map nID ns)" using wg by (simp add: well_graph_def)
  have sub: "set ?ids \<subseteq> nID ` set ns" using kahn_order(2)[OF wg] by blast
  { assume o: "topoSort ns es = Inr xs"
    then have xs: "xs = map (nodeMap ns) ?ids" and l: "length ?ids = length ns"
      by (auto simp: topoSort_def Let_def split: if_splits)
    have "set ?ids = nID ` set ns"
      by (rule card_subset_eq[OF _ sub]) (use l d kahn_order(1)[OF wg] in \<open>simp_all add: distinct_card distinct_map card_image\<close>)
    note perm = map_nodeMap_perm[OF d kahn_order(1)[OF wg] this]
    show "mset xs = mset ns" using perm(1) xs by simp
    show "before (map nID xs) (From e) (To e)" if "e \<in> set es"
      using kahn_order(3)[OF wg] that wg \<open>set ?ids = nID ` set ns\<close> perm(2) xs by (auto simp: well_graph_def) }
  assume "acyclic (edge_rel es)"
  then have "set ?ids = nID ` set ns" by (rule kahn_complete[OF wg])
  then have "length ?ids = length ns"
    using d kahn_order(1)[OF wg] by (metis distinct_card length_map list.set_map)
  then show "\<exists>xs. topoSort ns es = Inr xs" by (simp add: topoSort_def Let_def)
qed

section \<open>Waves\<close>

text \<open>The order of the queue does not depend on what already waits in it.\<close>

lemma fold_relax_queue:
  "fold relax xs (d, p @ q) = (case fold relax xs (d, q) of (d', q') \<Rightarrow> (d', p @ q'))"
proof (induction xs arbitrary: d q)
  case (Cons x xs)
  have "relax x (d, p @ q) = (case relax x (d, q) of (d', q') \<Rightarrow> (d', p @ q'))"
    by (simp add: relax_def Let_def)
  then show ?case using Cons.IH by (cases "relax x (d, q)") simp
qed simp

lemma kahn_run:
  "kahn edges d (cur @ q) acc =
     (case fold relax (concat (map (adj edges) cur)) (d, q) of (d', q') \<Rightarrow> kahn edges d' q' (acc @ cur))"
proof (induction cur arbitrary: d q acc)
  case (Cons c cur)
  obtain d1 q1 where r: "fold relax (adj edges c) (d, q) = (d1, q1)" by fastforce
  then have "fold relax (adj edges c) (d, cur @ q) = (d1, cur @ q1)"
    using fold_relax_queue[of "adj edges c" d cur q] by simp
  then show ?case using Cons.IH[of d1 q1 "acc @ [c]"] r by simp
qed simp

lemma kahn_waves: "kahn edges d q acc = acc @ concat (waves_from edges d q)"
proof (induction edges d q arbitrary: acc rule: waves_from.induct)
  case (2 edges d c cs)
  obtain d' q' where r: "fold relax (concat (map (adj edges) (c # cs))) (d, []) = (d', q')" by fastforce
  have "kahn edges d (c # cs) acc = kahn edges d' q' (acc @ c # cs)"
    using kahn_run[of edges d "c # cs" "[]" acc] r by simp
  then show ?case using "2.IH"[OF r[symmetric]] r by simp
qed simp

lemma known_edges_id: "well_graph nodes edges \<Longrightarrow> known_edges nodes edges = edges"
  by (auto simp: known_edges_def well_graph_def filter_id_conv)

lemma topoWaves_topoSort:
  assumes "well_graph nodes edges"
  shows "map_sum (\<lambda>e. e) concat (topoWaves nodes edges) = topoSort nodes edges"
proof -
  let ?d = "initDegrees nodes edges"
  let ?ids = "kahn edges ?d (roots nodes ?d) []"
  have ids: "concat (waves_from edges ?d (roots nodes ?d)) = ?ids" by (simp add: kahn_waves)
  have le: "length ?ids \<le> length nodes"
    using kahn_order(1)[OF assms] card_mono[of "nID ` set nodes" "set ?ids"] kahn_order(2)[OF assms]
      card_image_le[of "set nodes" nID] card_length[of nodes]
    by (metis (no_types, lifting) List.finite_set distinct_card finite_imageI le_trans mem_Collect_eq subsetI)
  have "concat (map (map (nodeMap nodes)) (waves_from edges ?d (roots nodes ?d))) = map (nodeMap nodes) ?ids"
    using ids by (metis map_concat)
  then show ?thesis
    using le by (auto simp: topoWaves_def topoSort_def Let_def known_edges_id[OF assms])
qed

interpretation waves: topological "\<lambda>ns es. map_sum (\<lambda>e. e) concat (topoWaves ns es)"
proof
  fix ns es xs e assume wg: "well_graph ns es"
  { assume "map_sum (\<lambda>e. e) concat (topoWaves ns es) = Inr xs"
    then have "topoSort ns es = Inr xs" using topoWaves_topoSort[OF wg] by simp
    then show "mset xs = mset ns" "e \<in> set es \<Longrightarrow> before (map nID xs) (From e) (To e)"
      using topo.order_perm[OF wg] topo.order_edge[OF wg] by blast+ }
  show "acyclic (edge_rel es) \<Longrightarrow> \<exists>xs. map_sum (\<lambda>e. e) concat (topoWaves ns es) = Inr xs"
    using topo.order_total[OF wg] topoWaves_topoSort[OF wg] by simp
qed

section \<open>Properties\<close>

text \<open>
  C34. \<open>topoSort\<close> decides acyclicity and orders: on a graph with distinct node identifiers and no
  dangling edge it succeeds exactly when the graph has no cycle, and then returns every node
  once, each after all of its transitive predecessors.
\<close>

theorem topoSort_correct:
  assumes "well_graph nodes edges"
  shows "((\<exists>xs. topoSort nodes edges = Inr xs) \<longleftrightarrow> acyclic (edge_rel edges)) \<and>
    (topoSort nodes edges = Inr xs \<longrightarrow> mset xs = mset nodes \<and>
       ((u, v) \<in> (edge_rel edges)\<^sup>+ \<longrightarrow> before (map nID xs) u v))"
  using topo.order_iff_acyclic[OF assms] topo.order_perm[OF assms] topo.ancestors_first[OF assms] by blast

theorem topoSort_correct_witness:
  "before [''a'', ''b''] ''a'' ''b''"
proof -
  let ?a = "\<lparr>nID = ''a'', nType = [], nName = []\<rparr>" and ?b = "\<lparr>nID = ''b'', nType = [], nName = []\<rparr>"
  let ?e = "\<lparr>From = ''a'', To = ''b'', Condition = None\<rparr>"
  have "well_graph [?b, ?a] [?e]" by (simp add: well_graph_def)
  moreover have "topoSort [?b, ?a] [?e] = Inr [?a, ?b]"
    by (simp add: topoSort_def Let_def initDegrees_def count_in_def deg_def roots_def adj_def relax_def nodeMap_def)
  moreover have "(''a'', ''b'') \<in> (edge_rel [?e])\<^sup>+" by (simp add: edge_rel_def r_into_trancl')
  ultimately show ?thesis using topoSort_correct[of "[?b, ?a]" "[?e]" "[?a, ?b]" "''a''" "''b''"] by simp
qed

text \<open>
  The plan's waves, flattened, are the runner's order: on a graph with distinct identifiers
  and no dangling edge \<open>TopoOrderedNodes\<close> lists the nodes exactly as \<open>topoSort\<close> does, and falls
  back to the authored order exactly when \<open>topoSort\<close> reports a cycle.
\<close>

lemma TopoOrderedNodes_topoSort:
  assumes "well_graph nodes edges"
  shows "TopoOrderedNodes nodes edges = (case topoSort nodes edges of Inl _ \<Rightarrow> nodes | Inr xs \<Rightarrow> xs)"
  using topoWaves_topoSort[OF assms, symmetric]
  by (cases "topoWaves nodes edges") (auto simp: TopoOrderedNodes_def)

lemma TopoOrderedNodes_topoSort_witness:
  "TopoOrderedNodes [\<lparr>nID = ''a'', nType = [], nName = []\<rparr>] [] = [\<lparr>nID = ''a'', nType = [], nName = []\<rparr>]"
proof -
  let ?a = "\<lparr>nID = ''a'', nType = [], nName = []\<rparr>"
  have "well_graph [?a] []" by (simp add: well_graph_def)
  from TopoOrderedNodes_topoSort[OF this] show ?thesis
    by (simp add: topoSort_def Let_def initDegrees_def deg_def roots_def adj_def nodeMap_def)
qed

end
