(* ===== verification/Dag_Schedule.thy ===== *)
theory Dag_Schedule
  imports Dag_Order
begin

text \<open>
  The scheduler of a run: the wave loop of \<^verbatim>\<open>Execute\<close> in \<^verbatim>\<open>src/engine/runner.go\<close>. Edges resolve
  active or inactive; a node runs once every incoming edge is resolved and one is active, and
  is skipped when none is. What the loop calls is the record \<open>env\<close>: the execution of a node, the
  persistence of a skip, the order in which the goroutines of a wave complete, and whether the
  run's context is cancelled where the loop looks at it.
\<close>

datatype edgeResolution = edgeUnresolved | edgeInactive | edgeActive

datatype nodeScheduleState = nodePending | nodeQueued | nodeExecuted | nodeSkipped

datatype sched_error =
    JoinInactive string int nat
  | PersistFailed string
  | InvalidEdge nat
  | ResolvedTwice nat
  | Underflow string
  | Stalled "string list"
  | NodeFailed string
  | NodePark string
  | NotACondition string string
  | NoDecision string

record env =
  executeNode :: "Node \<Rightarrow> sched_error + bool option"
  persistSkippedNode :: "Node \<Rightarrow> string option"
  completionOrder :: "Node list \<Rightarrow> Node list"
  ctxErr :: "nat \<Rightarrow> bool"
  ctxErrScan :: "nat \<Rightarrow> bool"
  ctxErrEnd :: bool

record sched =
  nodeStates :: "string \<Rightarrow> nodeScheduleState"
  edgeStates :: "edgeResolution list"
  unresolvedInputs :: "string \<Rightarrow> int"
  activeInputs :: "string \<Rightarrow> int"
  terminalNodes :: nat

datatype outcome = Finished sched | FailedRun sched_error | ParkedRun string | CancelledRun

definition incoming :: "Edge list \<Rightarrow> string \<Rightarrow> nat list" where
  "incoming edges v = filter (\<lambda>i. To (edges ! i) = v) [0..<length edges]"

definition outgoing :: "Edge list \<Rightarrow> string \<Rightarrow> nat list" where
  "outgoing edges v = filter (\<lambda>i. From (edges ! i) = v) [0..<length edges]"

definition initSched :: "Edge list \<Rightarrow> sched" where
  "initSched edges = \<lparr>nodeStates = (\<lambda>_. nodePending), edgeStates = replicate (length edges) edgeUnresolved,
     unresolvedInputs = (\<lambda>v. int (length (incoming edges v))), activeInputs = (\<lambda>_. 0), terminalNodes = 0\<rparr>"

definition resolveEdge :: "Edge list \<Rightarrow> nat \<Rightarrow> bool \<Rightarrow> sched \<Rightarrow> sched_error + sched" where
  "resolveEdge edges i active st =
     (if i \<ge> length (edgeStates st) then Inl (InvalidEdge i)
      else if edgeStates st ! i \<noteq> edgeUnresolved then Inl (ResolvedTwice i)
      else
        let v = To (edges ! i);
            st1 = (if active
              then st\<lparr>edgeStates := (edgeStates st)[i := edgeActive],
                      activeInputs := (activeInputs st)(v := activeInputs st v + 1)\<rparr>
              else st\<lparr>edgeStates := (edgeStates st)[i := edgeInactive]\<rparr>);
            st2 = st1\<lparr>unresolvedInputs := (unresolvedInputs st1)(v := unresolvedInputs st1 v - 1)\<rparr>
        in if unresolvedInputs st2 v < 0 then Inl (Underflow v) else Inr st2)"

text \<open>The loops over outgoing edges; \<open>f\<close> decides whether an edge becomes active.\<close>

fun resolve_each :: "Edge list \<Rightarrow> (nat \<Rightarrow> sched_error + bool) \<Rightarrow> nat list \<Rightarrow> sched \<Rightarrow> sched_error + sched" where
  "resolve_each edges f [] st = Inr st"
| "resolve_each edges f (i # is) st =
     (case f i of
        Inl e \<Rightarrow> Inl e
      | Inr a \<Rightarrow> (case resolveEdge edges i a st of Inl e \<Rightarrow> Inl e | Inr st' \<Rightarrow> resolve_each edges f is st'))"

definition set_node :: "string \<Rightarrow> nodeScheduleState \<Rightarrow> sched \<Rightarrow> sched" where
  "set_node v s st = st\<lparr>nodeStates := (nodeStates st)(v := s)\<rparr>"

text \<open>One node of a pass: queued, skipped or left pending.\<close>

definition scan_node :: "env \<Rightarrow> Edge list \<Rightarrow> Node \<Rightarrow> sched \<times> Node list \<times> bool \<Rightarrow> sched_error + (sched \<times> Node list \<times> bool)" where
  "scan_node env edges node = (\<lambda>(st, ready, progress).
     if nodeStates st (nID node) \<noteq> nodePending then Inr (st, ready, progress)
     else
       let v = nID node; inputCount = length (incoming edges v)
       in if inputCount = 0 \<or> (unresolvedInputs st v = 0 \<and> activeInputs st v > 0) then
            (if nType node = ''join'' \<and> inputCount > 0 \<and> activeInputs st v \<noteq> int inputCount
             then Inl (JoinInactive v (activeInputs st v) inputCount)
             else Inr (set_node v nodeQueued st, ready @ [node], True))
          else if inputCount > 0 \<and> unresolvedInputs st v = 0 then
            (case persistSkippedNode env node of
               Some e \<Rightarrow> Inl (PersistFailed e)
             | None \<Rightarrow>
                 (case resolve_each edges (\<lambda>_. Inr False) (outgoing edges v)
                     ((set_node v nodeSkipped st)\<lparr>terminalNodes := terminalNodes st + 1\<rparr>) of
                    Inl e \<Rightarrow> Inl e
                  | Inr st' \<Rightarrow> Inr (st', ready, True)))
          else Inr (st, ready, progress))"

fun scan_pass :: "env \<Rightarrow> Edge list \<Rightarrow> Node list \<Rightarrow> sched \<times> Node list \<times> bool \<Rightarrow> sched_error + (sched \<times> Node list \<times> bool)" where
  "scan_pass env edges [] x = Inr x"
| "scan_pass env edges (n # ns) x =
     (case scan_node env edges n x of Inl e \<Rightarrow> Inl e | Inr y \<Rightarrow> scan_pass env edges ns y)"

definition pending :: "Node list \<Rightarrow> sched \<Rightarrow> nat" where
  "pending nodes st = length (filter (\<lambda>n. nodeStates st (nID n) = nodePending) nodes)"

lemma resolveEdge_nodeStates: "resolveEdge edges i a st = Inr st' \<Longrightarrow> nodeStates st' = nodeStates st"
  by (auto simp: resolveEdge_def Let_def split: if_splits)

lemma resolve_each_nodeStates: "resolve_each edges f is st = Inr st' \<Longrightarrow> nodeStates st' = nodeStates st"
proof (induction "is" arbitrary: st)
  case (Cons i "is")
  then obtain a st1 where "resolveEdge edges i a st = Inr st1" "resolve_each edges f is st1 = Inr st'"
    by (auto split: sum.splits)
  then show ?case using Cons.IH resolveEdge_nodeStates by metis
qed simp

lemma pending_upd:
  "s \<noteq> nodePending \<Longrightarrow> nodeStates st' = (nodeStates st)(v := s) \<Longrightarrow>
   pending nodes st' = length (filter (\<lambda>m. nodeStates st (nID m) = nodePending \<and> nID m \<noteq> v) nodes)"
  unfolding pending_def by (induction nodes) auto

lemma pending_set_node:
  "s \<noteq> nodePending \<Longrightarrow> nodeStates st' = (nodeStates st)(v := s) \<Longrightarrow> pending nodes st' \<le> pending nodes st"
  by (simp add: pending_upd) (simp add: pending_def, induction nodes, auto)

lemma pending_set_node_less:
  assumes "s \<noteq> nodePending" "nodeStates st' = (nodeStates st)(nID n := s)" "n \<in> set nodes"
    "nodeStates st (nID n) = nodePending"
  shows "pending nodes st' < pending nodes st"
proof -
  let ?F = "filter (\<lambda>m. nodeStates st (nID m) = nodePending) nodes"
  have "pending nodes st' = length (filter (\<lambda>m. nID m \<noteq> nID n) ?F)"
    using pending_upd[OF assms(1,2), of nodes] by (simp add: conj_commute)
  also have "\<dots> < length ?F"
    by (rule length_filter_less[of n]) (use assms(3,4) in auto)
  finally show ?thesis by (simp add: pending_def)
qed

text \<open>A node either is left alone or leaves the pending state, with progress recorded.\<close>

lemma scan_node_cases:
  assumes "scan_node env edges n (st, ready, p) = Inr (st', ready', p')"
  obtains "st' = st" "ready' = ready" "p' = p"
  | "nodeStates st (nID n) = nodePending" "nodeStates st' = (nodeStates st)(nID n := nodeQueued)"
    "ready' = ready @ [n]" "p'"
  | "nodeStates st (nID n) = nodePending" "nodeStates st' = (nodeStates st)(nID n := nodeSkipped)"
    "ready' = ready" "p'"
  using assms
  by (auto simp: scan_node_def Let_def set_node_def split: if_splits option.splits sum.splits
      dest!: resolve_each_nodeStates)

lemma scan_pass_pending:
  "scan_pass env edges xs (st, ready, p) = Inr (st', ready', p') \<Longrightarrow> set xs \<subseteq> set nodes \<Longrightarrow>
   pending nodes st' \<le> pending nodes st \<and> (p' \<and> \<not> p \<longrightarrow> pending nodes st' < pending nodes st) \<and>
   (length ready' > length ready \<longrightarrow> pending nodes st' < pending nodes st)"
proof (induction xs arbitrary: st ready p)
  case (Cons x xs)
  obtain st1 r1 p1 where s: "scan_node env edges x (st, ready, p) = Inr (st1, r1, p1)"
    and rest: "scan_pass env edges xs (st1, r1, p1) = Inr (st', ready', p')"
    using Cons.prems(1) by (auto split: sum.splits)
  note IH = Cons.IH[OF rest] and less = pending_set_node_less[of _ st1 st x nodes]
  from s show ?case
    by (rule scan_node_cases) (use IH less Cons.prems(2) in fastforce)+
qed simp

function scan :: "env \<Rightarrow> Node list \<Rightarrow> Edge list \<Rightarrow> sched \<Rightarrow> Node list \<Rightarrow> sched_error + (sched \<times> Node list)" where
  "scan env nodes edges st ready =
     (case scan_pass env edges nodes (st, ready, False) of
        Inl e \<Rightarrow> Inl e
      | Inr (st', ready', progress) \<Rightarrow> if progress then scan env nodes edges st' ready' else Inr (st', ready'))"
  by pat_completeness auto
termination
proof (relation "measure (\<lambda>(_, nodes, _, st, _). pending nodes st)")
  fix env :: env and nodes edges st and ready :: "Node list" and x st' y and ready' :: "Node list" and progress
  assume "scan_pass env edges nodes (st, ready, False) = Inr x" "(st', y) = x" "(ready', progress) = y" progress
  then have "pending nodes st' < pending nodes st"
    using scan_pass_pending[of env edges nodes st ready False st' ready' progress nodes] by auto
  then show "((env, nodes, edges, st', ready'), env, nodes, edges, st, ready) \<in> measure (\<lambda>(_, nodes, _, st, _). pending nodes st)"
    by simp
qed simp

declare scan.simps [simp del]

text \<open>A pass that adds to the ready list leaves fewer pending nodes.\<close>

lemma scan_pending:
  "scan env nodes edges st ready = Inr (st', ready') \<Longrightarrow>
   pending nodes st' \<le> pending nodes st \<and> (length ready' > length ready \<longrightarrow> pending nodes st' < pending nodes st)"
proof (induction env nodes edges st ready rule: scan.induct)
  case (1 env nodes edges st ready)
  obtain st1 r1 p where s: "scan_pass env edges nodes (st, ready, False) = Inr (st1, r1, p)"
    using "1.prems" by (subst (asm) scan.simps) (auto split: sum.splits)
  note P = scan_pass_pending[OF s subset_refl]
  show ?case
  proof (cases p)
    case True
    then have "scan env nodes edges st1 r1 = Inr (st', ready')"
      using "1.prems" s by (subst (asm) scan.simps) simp
    with "1.IH"[OF s refl refl True] P True show ?thesis by auto
  next
    case False
    then show ?thesis using "1.prems" s P by (subst (asm) scan.simps) auto
  qed
qed

section \<open>Waves\<close>

text \<open>The first error in completion order ends the run.\<close>

fun first_error :: "(Node \<times> (sched_error + bool option)) list \<Rightarrow> sched_error option" where
  "first_error [] = None"
| "first_error ((n, Inl e) # rs) = Some e"
| "first_error ((n, Inr _) # rs) = first_error rs"

text \<open>Whether an outgoing edge of a completed node becomes active.\<close>

definition edge_active :: "bool \<Rightarrow> Edge list \<Rightarrow> Node \<Rightarrow> bool option \<Rightarrow> nat \<Rightarrow> sched_error + bool" where
  "edge_active routing edges node decision i =
     (case Condition (edges ! i) of
        None \<Rightarrow> Inr True
      | Some c \<Rightarrow>
          if \<not> routing then Inr True
          else if nType node \<noteq> ''condition'' then Inl (NotACondition (From (edges ! i)) (To (edges ! i)))
          else (case decision of None \<Rightarrow> Inl (NoDecision (nID node)) | Some b \<Rightarrow> Inr (c = b)))"

fun release :: "bool \<Rightarrow> Edge list \<Rightarrow> (Node \<times> (sched_error + bool option)) list \<Rightarrow> sched \<Rightarrow> sched_error + sched" where
  "release routing edges [] st = Inr st"
| "release routing edges ((n, Inl e) # rs) st = Inl e"
| "release routing edges ((n, Inr decision) # rs) st =
     (case resolve_each edges (edge_active routing edges n decision) (outgoing edges (nID n))
         ((set_node (nID n) nodeExecuted st)\<lparr>terminalNodes := terminalNodes st + 1\<rparr>) of
        Inl e \<Rightarrow> Inl e
      | Inr st' \<Rightarrow> release routing edges rs st')"

lemma release_pending: "release routing edges rs st = Inr st' \<Longrightarrow> pending nodes st' \<le> pending nodes st"
proof (induction rs arbitrary: st)
  case (Cons r rs)
  obtain n d where r: "r = (n, Inr d)" using Cons.prems by (cases r; cases "snd r") auto
  with Cons.prems obtain st1 where s: "resolve_each edges (edge_active routing edges n d) (outgoing edges (nID n))
      ((set_node (nID n) nodeExecuted st)\<lparr>terminalNodes := terminalNodes st + 1\<rparr>) = Inr st1"
    and rest: "release routing edges rs st1 = Inr st'" by (auto split: sum.splits)
  have "pending nodes st1 \<le> pending nodes st"
    by (rule pending_set_node[of nodeExecuted])
      (use resolve_each_nodeStates[OF s] in \<open>simp_all add: set_node_def\<close>)
  with Cons.IH[OF rest] show ?case by simp
qed simp

definition unresolved_nodes :: "Node list \<Rightarrow> sched \<Rightarrow> string list" where
  "unresolved_nodes nodes st =
     map nID (filter (\<lambda>n. nodeStates st (nID n) = nodePending \<or> nodeStates st (nID n) = nodeQueued) nodes)"

function run_waves :: "env \<Rightarrow> bool \<Rightarrow> Node list \<Rightarrow> Edge list \<Rightarrow> nat \<Rightarrow> sched \<Rightarrow> outcome" where
  "run_waves env routing nodes edges w st =
     (if terminalNodes st \<ge> length nodes then (if ctxErrEnd env then CancelledRun else Finished st)
      else if ctxErr env w then CancelledRun
      else
        (case scan env nodes edges st [] of
           Inl e \<Rightarrow> if ctxErrScan env w then CancelledRun else FailedRun e
         | Inr (st1, ready) \<Rightarrow>
             if ready = [] then FailedRun (Stalled (unresolved_nodes nodes st1))
             else
               (let completed = map (\<lambda>n. (n, executeNode env n)) (completionOrder env ready) in
                case first_error completed of
                  Some (NodePark s) \<Rightarrow> ParkedRun s
                | Some e \<Rightarrow> FailedRun e
                | None \<Rightarrow>
                    (case release routing edges completed st1 of
                       Inl e \<Rightarrow> FailedRun e
                     | Inr st2 \<Rightarrow> run_waves env routing nodes edges (w + 1) st2))))"
  by pat_completeness auto
termination
proof (relation "measure (\<lambda>(_, _, nodes, _, _, st). pending nodes st)")
  fix env routing nodes edges w st x st1 ready completed st2
  assume "scan env nodes edges st [] = Inr x" "(st1, ready) = x" "ready \<noteq> []"
    "release routing edges completed st1 = Inr st2"
  then have "pending nodes st2 < pending nodes st"
    using scan_pending[of env nodes edges st "[]" st1 ready] release_pending[of routing edges completed st1 st2 nodes]
    by auto
  then show "((env, routing, nodes, edges, w + 1, st2), env, routing, nodes, edges, w, st)
      \<in> measure (\<lambda>(_, _, nodes, _, _, st). pending nodes st)"
    by simp
qed simp

declare run_waves.simps [simp del]

definition Execute :: "env \<Rightarrow> bool \<Rightarrow> Node list \<Rightarrow> Edge list \<Rightarrow> outcome" where
  "Execute env routing nodes edges = run_waves env routing nodes edges 0 (initSched edges)"

end
