(* ===== verification/Dag_Progress.thy ===== *)
theory Dag_Progress
  imports Dag_Schedule
begin

text \<open>
  Correctness of the wave scheduler: its counters agree with the edge states, every internal
  error of the loop is unreachable on a well-formed acyclic graph, the loop ends with every node
  executed or skipped, and which of the two does not depend on the order of completion.
\<close>

section \<open>Counters\<close>

definition edges_in :: "Edge list \<Rightarrow> sched \<Rightarrow> edgeResolution \<Rightarrow> string \<Rightarrow> nat set" where
  "edges_in edges st s v = {i. i < length edges \<and> To (edges ! i) = v \<and> edgeStates st ! i = s}"

definition counted :: "Edge list \<Rightarrow> sched \<Rightarrow> bool" where
  "counted edges st \<longleftrightarrow> length (edgeStates st) = length edges \<and>
     (\<forall>v. unresolvedInputs st v = int (card (edges_in edges st edgeUnresolved v)) \<and>
          activeInputs st v = int (card (edges_in edges st edgeActive v)))"

lemma finite_edges_in [simp]: "finite (edges_in edges st s v)"
  by (rule finite_subset[of _ "{..<length edges}"]) (auto simp: edges_in_def)

lemma counted_node [simp]:
  "counted edges (st\<lparr>nodeStates := f\<rparr>) = counted edges st" "counted edges (st\<lparr>terminalNodes := k\<rparr>) = counted edges st"
  "counted edges (set_node v s st) = counted edges st"
  by (simp_all add: counted_def edges_in_def set_node_def)

abbreviation resolved_to :: "bool \<Rightarrow> edgeResolution" where
  "resolved_to a \<equiv> (if a then edgeActive else edgeInactive)"

lemma resolveEdge_ok:
  assumes c: "counted edges st" and i: "i < length edges" "edgeStates st ! i = edgeUnresolved"
  shows "\<exists>st'. resolveEdge edges i a st = Inr st' \<and> counted edges st' \<and>
    edgeStates st' = (edgeStates st)[i := resolved_to a] \<and> nodeStates st' = nodeStates st \<and>
    terminalNodes st' = terminalNodes st"
proof -
  let ?v = "To (edges ! i)" and ?es = "(edgeStates st)[i := resolved_to a]"
  let ?st = "st\<lparr>edgeStates := ?es, activeInputs := (activeInputs st)(?v := activeInputs st ?v + (if a then 1 else 0)),
    unresolvedInputs := (unresolvedInputs st)(?v := unresolvedInputs st ?v - 1)\<rparr>"
  have len: "length (edgeStates st) = length edges" using c by (simp add: counted_def)
  have un: "edges_in edges ?st edgeUnresolved v = edges_in edges st edgeUnresolved v - (if v = ?v then {i} else {})"
    and ac: "edges_in edges ?st edgeActive v = (if v = ?v \<and> a then insert i (edges_in edges st edgeActive v)
      else edges_in edges st edgeActive v)" for v
    using i len by (auto simp: edges_in_def nth_list_update)
  have mem: "i \<in> edges_in edges st edgeUnresolved ?v" "i \<notin> edges_in edges st edgeActive ?v"
    using i by (auto simp: edges_in_def)
  then have pos: "card (edges_in edges st edgeUnresolved ?v) > 0" by (auto simp: card_gt_0_iff)
  have cu: "unresolvedInputs st v = int (card (edges_in edges st edgeUnresolved v))"
    "activeInputs st v = int (card (edges_in edges st edgeActive v))" for v using c by (simp_all add: counted_def)
  have "counted edges ?st"
    unfolding counted_def un ac using len cu mem pos by (auto simp: card_Diff_singleton of_nat_diff)
  moreover have "resolveEdge edges i a st = Inr ?st"
    using i len cu pos by (auto simp: resolveEdge_def Let_def fun_upd_idem)
  ultimately show ?thesis by (intro exI[of _ ?st]) simp
qed

lemma resolve_each_ok:
  assumes "counted edges st" and "distinct is" and "\<And>i. i \<in> set is \<Longrightarrow> f i = Inr (a i)"
    and "\<And>i. i \<in> set is \<Longrightarrow> i < length edges \<and> edgeStates st ! i = edgeUnresolved"
  shows "\<exists>st'. resolve_each edges f is st = Inr st' \<and> counted edges st' \<and>
    (\<forall>j. edgeStates st' ! j = (if j \<in> set is then resolved_to (a j) else edgeStates st ! j)) \<and>
    nodeStates st' = nodeStates st \<and> terminalNodes st' = terminalNodes st"
  using assms
proof (induction "is" arbitrary: st)
  case (Cons i "is")
  from resolveEdge_ok[OF Cons.prems(1), of i "a i"] Cons.prems(4) obtain st1 where
    st1: "resolveEdge edges i (a i) st = Inr st1" "counted edges st1"
    "edgeStates st1 = (edgeStates st)[i := resolved_to (a i)]" "nodeStates st1 = nodeStates st"
    "terminalNodes st1 = terminalNodes st" by auto
  have len: "i < length (edgeStates st)" using Cons.prems(1,4) by (simp add: counted_def)
  have e1: "edgeStates st1 ! j = (if j = i then resolved_to (a i) else edgeStates st ! j)" for j
    using st1(3) len by (auto simp: nth_list_update)
  have un: "j < length edges \<and> edgeStates st1 ! j = edgeUnresolved" if "j \<in> set is" for j
    using that Cons.prems(2,4) e1[of j] by (cases "j = i") auto
  have "\<exists>st'. resolve_each edges f is st1 = Inr st' \<and> counted edges st' \<and>
    (\<forall>j. edgeStates st' ! j = (if j \<in> set is then resolved_to (a j) else edgeStates st1 ! j)) \<and>
    nodeStates st' = nodeStates st1 \<and> terminalNodes st' = terminalNodes st1"
    by (rule Cons.IH[OF st1(2)]) (use Cons.prems(2,3) un in auto)
  then obtain st' where st': "resolve_each edges f is st1 = Inr st'" "counted edges st'"
    "\<forall>j. edgeStates st' ! j = (if j \<in> set is then resolved_to (a j) else edgeStates st1 ! j)"
    "nodeStates st' = nodeStates st1" "terminalNodes st' = terminalNodes st1" by blast
  then show ?case using e1 st1 Cons.prems(2,3) by (intro exI[of _ st']) auto
qed simp

section \<open>The invariant\<close>

text \<open>Whether an edge is active once its source has executed.\<close>

definition edge_live :: "env \<Rightarrow> bool \<Rightarrow> Node list \<Rightarrow> Edge list \<Rightarrow> nat \<Rightarrow> bool" where
  "edge_live env routing nodes edges i =
     (let n = nodeMap nodes (From (edges ! i))
      in case executeNode env n of Inl _ \<Rightarrow> False | Inr d \<Rightarrow> edge_active routing edges n d i = Inr True)"

definition waits :: "sched \<Rightarrow> string \<Rightarrow> bool" where
  "waits st v \<longleftrightarrow> nodeStates st v = nodePending \<or> nodeStates st v = nodeQueued"

definition sched_inv :: "(nat \<Rightarrow> bool) \<Rightarrow> Node list \<Rightarrow> Edge list \<Rightarrow> sched \<Rightarrow> bool" where
  "sched_inv live nodes edges st \<longleftrightarrow>
     counted edges st \<and>
     (\<forall>i < length edges. edgeStates st ! i = edgeUnresolved \<longleftrightarrow> waits st (From (edges ! i))) \<and>
     (\<forall>i < length edges. edgeStates st ! i = edgeActive \<longleftrightarrow>
        nodeStates st (From (edges ! i)) = nodeExecuted \<and> live i) \<and>
     terminalNodes st = length (filter (\<lambda>n. \<not> waits st (nID n)) nodes) \<and>
     (\<forall>v. nodeStates st v \<noteq> nodePending \<longrightarrow> edges_in edges st edgeUnresolved v = {}) \<and>
     (\<forall>v. nodeStates st v = nodeQueued \<or> nodeStates st v = nodeExecuted \<longrightarrow>
        incoming edges v = [] \<or> edges_in edges st edgeActive v \<noteq> {}) \<and>
     (\<forall>v. nodeStates st v = nodeSkipped \<longrightarrow> incoming edges v \<noteq> [] \<and> edges_in edges st edgeActive v = {})"

lemma sched_invD:
  assumes "sched_inv live nodes edges st"
  shows "counted edges st"
    "i < length edges \<Longrightarrow> edgeStates st ! i = edgeUnresolved \<longleftrightarrow> waits st (From (edges ! i))"
    "i < length edges \<Longrightarrow> edgeStates st ! i = edgeActive \<longleftrightarrow> nodeStates st (From (edges ! i)) = nodeExecuted \<and> live i"
    "terminalNodes st = length (filter (\<lambda>n. \<not> waits st (nID n)) nodes)"
    "nodeStates st v \<noteq> nodePending \<Longrightarrow> edges_in edges st edgeUnresolved v = {}"
    "nodeStates st v = nodeQueued \<or> nodeStates st v = nodeExecuted \<Longrightarrow>
       incoming edges v = [] \<or> edges_in edges st edgeActive v \<noteq> {}"
    "nodeStates st v = nodeSkipped \<Longrightarrow> incoming edges v \<noteq> [] \<and> edges_in edges st edgeActive v = {}"
  using assms unfolding sched_inv_def by blast+

lemma set_incoming: "set (incoming edges v) = {i. i < length edges \<and> To (edges ! i) = v}"
  by (auto simp: incoming_def)

lemma set_outgoing: "set (outgoing edges v) = {i. i < length edges \<and> From (edges ! i) = v}"
  by (auto simp: outgoing_def)

lemma incoming_Nil: "incoming edges v = [] \<Longrightarrow> edges_in edges st s v = {}"
  using set_incoming[of edges v] by (auto simp: edges_in_def)

lemma unresolved_zero:
  "sched_inv live nodes edges st \<Longrightarrow> unresolvedInputs st v = 0 \<longleftrightarrow> edges_in edges st edgeUnresolved v = {}"
  "sched_inv live nodes edges st \<Longrightarrow> activeInputs st v > 0 \<longleftrightarrow> edges_in edges st edgeActive v \<noteq> {}"
  using sched_invD(1)[of live nodes edges st] by (auto simp: counted_def card_gt_0_iff)

lemma sched_inv_init: "sched_inv live nodes edges (initSched edges)"
proof -
  have "edges_in edges (initSched edges) edgeUnresolved v = set (incoming edges v)"
    "edges_in edges (initSched edges) edgeActive v = {}" for v
    by (auto simp: edges_in_def initSched_def set_incoming)
  moreover have "card (set (incoming edges v)) = length (incoming edges v)" for v
    by (rule distinct_card) (simp add: incoming_def)
  ultimately show ?thesis
    by (auto simp: sched_inv_def counted_def initSched_def waits_def)
qed

lemma terminal_count:
  assumes "distinct (map nID nodes)" "n \<in> set nodes" "waits st (nID n)" "\<not> waits st' (nID n)"
    "\<And>v. v \<noteq> nID n \<Longrightarrow> waits st' v = waits st v"
  shows "length (filter (\<lambda>m. \<not> waits st' (nID m)) nodes) = Suc (length (filter (\<lambda>m. \<not> waits st (nID m)) nodes))"
  using assms(1,2)
proof (induction nodes)
  case (Cons m nodes)
  show ?case
  proof (cases "m = n")
    case True
    have "waits st' (nID k) = waits st (nID k)" if "k \<in> set nodes" for k
    proof (rule assms(5))
      show "nID k \<noteq> nID n" using that Cons.prems(1) True by (auto simp: image_iff)
    qed
    then have "filter (\<lambda>m. \<not> waits st' (nID m)) nodes = filter (\<lambda>m. \<not> waits st (nID m)) nodes"
      by (intro filter_cong) auto
    then show ?thesis using True assms(3,4) by simp
  next
    case False
    then have "n \<in> set nodes" "nID m \<noteq> nID n" using Cons.prems by auto
    then show ?thesis using Cons.IH Cons.prems(1) assms(5)[of "nID m"] by simp
  qed
qed simp

text \<open>A waiting node whose inputs are resolved becomes terminal and resolves its outgoing edges.\<close>

lemma finish_node:
  assumes inv: "sched_inv live nodes edges st" and d: "distinct (map nID nodes)" and n: "n \<in> set nodes"
    and w: "waits st (nID n)" and res: "edges_in edges st edgeUnresolved (nID n) = {}"
    and s: "(s = nodeExecuted \<and> (incoming edges (nID n) = [] \<or> edges_in edges st edgeActive (nID n) \<noteq> {})) \<or>
            (s = nodeSkipped \<and> incoming edges (nID n) \<noteq> [] \<and> edges_in edges st edgeActive (nID n) = {})"
    and f: "\<And>i. i \<in> set (outgoing edges (nID n)) \<Longrightarrow> f i = Inr (s = nodeExecuted \<and> live i)"
  shows "\<exists>st'. resolve_each edges f (outgoing edges (nID n))
      ((set_node (nID n) s st)\<lparr>terminalNodes := terminalNodes st + 1\<rparr>) = Inr st' \<and>
    sched_inv live nodes edges st' \<and> nodeStates st' = (nodeStates st)(nID n := s)"
proof -
  let ?v = "nID n" and ?out = "set (outgoing edges (nID n))"
  let ?st = "(set_node ?v s st)\<lparr>terminalNodes := terminalNodes st + 1\<rparr>"
  note I = sched_invD[OF inv]
  have un: "i < length edges \<and> edgeStates ?st ! i = edgeUnresolved" if "i \<in> ?out" for i
    using that I(2)[of i] w by (simp add: set_outgoing set_node_def)
  have c: "counted edges ?st" using I(1) by simp
  from resolve_each_ok[of edges ?st "outgoing edges ?v" f "\<lambda>i. s = nodeExecuted \<and> live i", OF c _ f un]
  obtain st' where
    st': "resolve_each edges f (outgoing edges ?v) ?st = Inr st'" "counted edges st'"
    and es: "\<And>j. edgeStates st' ! j = (if j \<in> ?out then resolved_to (s = nodeExecuted \<and> live j) else edgeStates st ! j)"
    and ns: "nodeStates st' = (nodeStates st)(?v := s)" and tn: "terminalNodes st' = terminalNodes st + 1"
    by (auto simp: outgoing_def set_node_def)
  have s': "s \<noteq> nodePending" "s \<noteq> nodeQueued" using s by auto
  have target: "nodeStates st u = nodePending \<and> u \<noteq> ?v" if "i \<in> ?out" "To (edges ! i) = u" for i u
  proof -
    have "i \<in> edges_in edges st edgeUnresolved u" using that un[of i] by (simp add: edges_in_def set_node_def)
    then show ?thesis using I(5)[of u] res by auto
  qed
  have same: "edges_in edges st' x u = edges_in edges st x u" if "nodeStates st u \<noteq> nodePending \<or> u = ?v" for x u
    using that target es by (fastforce simp: edges_in_def)
  have wait: "waits st' u \<longleftrightarrow> waits st u \<and> u \<noteq> ?v" for u using s' by (simp add: waits_def ns)
  have 1: "edgeStates st' ! i = edgeUnresolved \<longleftrightarrow> waits st' (From (edges ! i))" if "i < length edges" for i
    using I(2)[OF that] that es[of i] wait[of "From (edges ! i)"] by (auto simp: set_outgoing)
  have 2: "edgeStates st' ! i = edgeActive \<longleftrightarrow> nodeStates st' (From (edges ! i)) = nodeExecuted \<and> live i"
    if "i < length edges" for i
    using I(3)[OF that] that es[of i] by (auto simp: set_outgoing ns)
  have 3: "terminalNodes st' = length (filter (\<lambda>n. \<not> waits st' (nID n)) nodes)"
    using terminal_count[OF d n w, of st'] wait tn I(4) by simp
  have 4: "edges_in edges st' edgeUnresolved u = {}" if "nodeStates st' u \<noteq> nodePending" for u
    using that res I(5)[of u] same[of u edgeUnresolved] by (cases "u = ?v") (auto simp: ns)
  have 5: "incoming edges u = [] \<or> edges_in edges st' edgeActive u \<noteq> {}"
    if "nodeStates st' u = nodeQueued \<or> nodeStates st' u = nodeExecuted" for u
    using that s I(6)[of u] same[of u edgeActive] by (cases "u = ?v") (auto simp: ns)
  have 6: "incoming edges u \<noteq> [] \<and> edges_in edges st' edgeActive u = {}" if "nodeStates st' u = nodeSkipped" for u
    using that s I(7)[of u] same[of u edgeActive] by (cases "u = ?v") (auto simp: ns)
  have "sched_inv live nodes edges st'" unfolding sched_inv_def using st'(2) 1 2 3 4 5 6 by blast
  with st'(1) ns show ?thesis by blast
qed

text \<open>Nothing is skipped unless some edge is not live.\<close>

lemma skipped_not_live:
  assumes inv: "sched_inv live nodes edges st" and ac: "acyclic (edge_rel edges)"
    and v: "nodeStates st v = nodeSkipped"
  shows "\<exists>i < length edges. \<not> live i"
proof (rule ccontr)
  assume all: "\<not> (\<exists>i < length edges. \<not> live i)"
  have "wf (edge_rel edges)" using ac by (intro finite_acyclic_wf) (simp_all add: edge_rel_def)
  then have "nodeStates st v \<noteq> nodeSkipped" for v
  proof (induction v rule: wf_induct_rule)
    case (less v)
    show ?case
    proof
      assume s: "nodeStates st v = nodeSkipped"
      then have "incoming edges v \<noteq> []" using sched_invD(7)[OF inv] by blast
      then obtain i where i: "i < length edges" "To (edges ! i) = v"
        using set_incoming[of edges v] by (metis (mono_tags, lifting) list.set_intros(1) mem_Collect_eq neq_Nil_conv)
      have "edgeStates st ! i \<noteq> edgeUnresolved"
        using sched_invD(5)[OF inv, of v] s i by (auto simp: edges_in_def)
      then have "\<not> waits st (From (edges ! i))" using sched_invD(2)[OF inv i(1)] by simp
      moreover have "nodeStates st (From (edges ! i)) \<noteq> nodeSkipped"
        using less i by (auto simp: edge_rel_def)
      ultimately have "nodeStates st (From (edges ! i)) = nodeExecuted"
        by (cases "nodeStates st (From (edges ! i))") (auto simp: waits_def)
      then have "edgeStates st ! i = edgeActive" using sched_invD(3)[OF inv i(1)] all i(1) by blast
      then show False using sched_invD(7)[OF inv s] i by (auto simp: edges_in_def)
    qed
  qed
  with v show False by blast
qed

text \<open>When every edge is live, a node whose inputs are resolved has all of them active.\<close>

lemma all_active:
  assumes inv: "sched_inv live nodes edges st" and ac: "acyclic (edge_rel edges)"
    and l: "\<And>i. i < length edges \<Longrightarrow> live i" and r: "edges_in edges st edgeUnresolved v = {}"
  shows "activeInputs st v = int (length (incoming edges v))"
proof -
  have "edgeStates st ! i = edgeActive" if i: "i < length edges" "To (edges ! i) = v" for i
  proof -
    have "edgeStates st ! i \<noteq> edgeUnresolved" using r i by (auto simp: edges_in_def)
    then have "\<not> waits st (From (edges ! i))" using sched_invD(2)[OF inv i(1)] by simp
    moreover have "nodeStates st (From (edges ! i)) \<noteq> nodeSkipped" using skipped_not_live[OF inv ac] l by blast
    ultimately have "nodeStates st (From (edges ! i)) = nodeExecuted"
      by (cases "nodeStates st (From (edges ! i))") (auto simp: waits_def)
    then show ?thesis using sched_invD(3)[OF inv i(1)] l[OF i(1)] by blast
  qed
  then have "edges_in edges st edgeActive v = set (incoming edges v)"
    by (auto simp: edges_in_def set_incoming)
  moreover have "card (set (incoming edges v)) = length (incoming edges v)"
    by (rule distinct_card) (simp add: incoming_def)
  ultimately show ?thesis using sched_invD(1)[OF inv] by (simp add: counted_def)
qed

section \<open>A pass over the nodes\<close>

text \<open>The nodes of the current wave.\<close>

definition queued :: "Node list \<Rightarrow> sched \<Rightarrow> Node list \<Rightarrow> bool" where
  "queued nodes st ready \<longleftrightarrow> distinct (map nID ready) \<and> set ready = {n \<in> set nodes. nodeStates st (nID n) = nodeQueued}"

lemma queue_node:
  assumes inv: "sched_inv live nodes edges st" and v: "nodeStates st v = nodePending"
    and ok: "edges_in edges st edgeUnresolved v = {}" "incoming edges v = [] \<or> edges_in edges st edgeActive v \<noteq> {}"
  shows "sched_inv live nodes edges (set_node v nodeQueued st)"
proof -
  note I = sched_invD[OF inv]
  have w: "waits (set_node v nodeQueued st) = waits st" using v by (auto simp: waits_def set_node_def fun_eq_iff)
  have e: "edges_in edges (set_node v nodeQueued st) = edges_in edges st"
    by (simp add: edges_in_def set_node_def fun_eq_iff)
  have x: "nodeStates (set_node v nodeQueued st) u = nodeExecuted \<longleftrightarrow> nodeStates st u = nodeExecuted" for u
    using v by (auto simp: set_node_def)
  show ?thesis
    unfolding sched_inv_def w e x counted_node
    using I ok by (auto simp: set_node_def)
qed

lemma queued_snoc:
  assumes "queued nodes st ready" "distinct (map nID nodes)" "n \<in> set nodes" "nodeStates st (nID n) = nodePending"
    "nodeStates st' = (nodeStates st)(nID n := nodeQueued)"
  shows "queued nodes st' (ready @ [n])"
proof -
  have "m = n" if "m \<in> set nodes" "nID m = nID n" for m
    using that assms(2,3) by (metis distinct_map inj_onD)
  then show ?thesis using assms by (auto simp: queued_def)
qed

lemma queued_skip:
  assumes "queued nodes st ready" "nodeStates st (nID n) = nodePending"
    "nodeStates st' = (nodeStates st)(nID n := nodeSkipped)"
  shows "queued nodes st' ready"
  using assms by (auto simp: queued_def)

lemma scan_node_inv:
  assumes inv: "sched_inv live nodes edges st" and q: "queued nodes st ready" and d: "distinct (map nID nodes)"
    and n: "n \<in> set nodes" and p: "persistSkippedNode env n = None" and ac: "acyclic (edge_rel edges)"
  shows "((\<exists>i < length edges. \<not> live i) \<and> (\<exists>v a k. scan_node env edges n (st, ready, pr) = Inl (JoinInactive v a k))) \<or>
    (\<exists>st' ready' pr'. scan_node env edges n (st, ready, pr) = Inr (st', ready', pr') \<and>
       sched_inv live nodes edges st' \<and> queued nodes st' ready')"
proof (cases "nodeStates st (nID n) = nodePending")
  case False
  then show ?thesis using inv q by (simp add: scan_node_def)
next
  case True
  let ?v = "nID n"
  note Z = unresolved_zero[OF inv, of ?v]
  show ?thesis
  proof (cases "incoming edges ?v = [] \<or> (unresolvedInputs st ?v = 0 \<and> activeInputs st ?v > 0)")
    case run: True
    have "sched_inv live nodes edges (set_node ?v nodeQueued st)"
      by (rule queue_node[OF inv True]) (use run Z incoming_Nil in auto)
    moreover have "queued nodes (set_node ?v nodeQueued st) (ready @ [n])"
      by (rule queued_snoc[OF q d n True]) (simp add: set_node_def)
    moreover have "activeInputs st ?v = int (length (incoming edges ?v))" if "\<forall>i < length edges. live i"
      by (rule all_active[OF inv ac]) (use that run Z incoming_Nil in auto)
    ultimately show ?thesis using True run by (auto simp: scan_node_def Let_def)
  next
    case wait: False
    show ?thesis
    proof (cases "unresolvedInputs st ?v = 0")
      case z: True
      from finish_node[OF inv d n, of nodeSkipped "\<lambda>_. Inr False"] z wait True Z obtain st' where
        "resolve_each edges (\<lambda>_. Inr False) (outgoing edges ?v)
          ((set_node ?v nodeSkipped st)\<lparr>terminalNodes := terminalNodes st + 1\<rparr>) = Inr st'"
        "sched_inv live nodes edges st'" and ns: "nodeStates st' = (nodeStates st)(?v := nodeSkipped)"
        by (auto simp: waits_def)
      moreover have "queued nodes st' ready" by (rule queued_skip[OF q True ns])
      ultimately show ?thesis using True wait z p by (auto simp: scan_node_def Let_def)
    next
      case False
      then show ?thesis using True wait inv q by (simp add: scan_node_def Let_def)
    qed
  qed
qed

lemma scan_pass_inv:
  "\<lbrakk>sched_inv live nodes edges st; queued nodes st ready; distinct (map nID nodes); set xs \<subseteq> set nodes;
    \<forall>n \<in> set nodes. persistSkippedNode env n = None; acyclic (edge_rel edges)\<rbrakk> \<Longrightarrow>
   ((\<exists>i < length edges. \<not> live i) \<and> (\<exists>v a k. scan_pass env edges xs (st, ready, pr) = Inl (JoinInactive v a k))) \<or>
   (\<exists>st' ready' pr'. scan_pass env edges xs (st, ready, pr) = Inr (st', ready', pr') \<and>
      sched_inv live nodes edges st' \<and> queued nodes st' ready')"
proof (induction xs arbitrary: st ready pr)
  case (Cons x xs)
  have "x \<in> set nodes" "persistSkippedNode env x = None" using Cons.prems(4,5) by auto
  from scan_node_inv[OF Cons.prems(1-3) this Cons.prems(6), of pr] show ?case
  proof (elim disjE exE conjE)
    fix st' ready' pr'
    assume s: "scan_node env edges x (st, ready, pr) = Inr (st', ready', pr')"
      "sched_inv live nodes edges st'" "queued nodes st' ready'"
    have "set xs \<subseteq> set nodes" using Cons.prems(4) by simp
    from Cons.IH[OF s(2,3) Cons.prems(3) this Cons.prems(5,6), of pr'] show ?thesis using s(1) by simp
  qed auto
qed simp

text \<open>A pass without progress changes nothing and leaves only nodes with an unresolved input.\<close>

lemma scan_node_idle:
  "scan_node env edges n (st, ready, False) = Inr (st', ready', False) \<Longrightarrow>
   st' = st \<and> ready' = ready \<and> (nodeStates st (nID n) = nodePending \<longrightarrow> unresolvedInputs st (nID n) \<noteq> 0)"
  by (auto simp: scan_node_def Let_def split: if_splits option.splits sum.splits)

lemma scan_node_progress: "scan_node env edges n (st, ready, True) = Inr (st', ready', p) \<Longrightarrow> p"
  by (auto simp: scan_node_def Let_def split: if_splits option.splits sum.splits)

lemma scan_pass_progress: "scan_pass env edges xs (st, ready, True) = Inr (st', ready', p) \<Longrightarrow> p"
proof (induction xs arbitrary: st ready)
  case (Cons x xs)
  obtain st1 r1 p1 where "scan_node env edges x (st, ready, True) = Inr (st1, r1, p1)"
    "scan_pass env edges xs (st1, r1, p1) = Inr (st', ready', p)"
    using Cons.prems by (auto split: sum.splits)
  then show ?case using scan_node_progress Cons.IH by metis
qed simp

lemma scan_pass_idle:
  "scan_pass env edges xs (st, ready, False) = Inr (st', ready', False) \<Longrightarrow>
   st' = st \<and> ready' = ready \<and> (\<forall>n \<in> set xs. nodeStates st (nID n) = nodePending \<longrightarrow> unresolvedInputs st (nID n) \<noteq> 0)"
proof (induction xs arbitrary: st ready)
  case (Cons x xs)
  obtain st1 r1 p1 where s: "scan_node env edges x (st, ready, False) = Inr (st1, r1, p1)"
    "scan_pass env edges xs (st1, r1, p1) = Inr (st', ready', False)"
    using Cons.prems by (auto split: sum.splits)
  then have "\<not> p1" using scan_pass_progress[of env edges xs st1 r1 st' ready' False] by (cases p1) auto
  then show ?case using s scan_node_idle[of env edges x st ready st1 r1] Cons.IH[of st1 r1] by auto
qed simp

lemma scan_inv:
  "\<lbrakk>sched_inv live nodes edges st; queued nodes st ready; distinct (map nID nodes);
    \<forall>n \<in> set nodes. persistSkippedNode env n = None; acyclic (edge_rel edges)\<rbrakk> \<Longrightarrow>
   ((\<exists>i < length edges. \<not> live i) \<and> (\<exists>v a k. scan env nodes edges st ready = Inl (JoinInactive v a k))) \<or>
   (\<exists>st' ready'. scan env nodes edges st ready = Inr (st', ready') \<and> sched_inv live nodes edges st' \<and>
      queued nodes st' ready' \<and>
      (\<forall>n \<in> set nodes. nodeStates st' (nID n) = nodePending \<longrightarrow> unresolvedInputs st' (nID n) \<noteq> 0))"
proof (induction env nodes edges st ready rule: scan.induct)
  case (1 env nodes edges st ready)
  from scan_pass_inv[OF "1.prems"(1-3) subset_refl "1.prems"(4,5), where pr = False] show ?case
  proof (elim disjE exE conjE)
    fix i v a k assume "scan_pass env edges nodes (st, ready, False) = Inl (JoinInactive v a k)" "i < length edges" "\<not> live i"
    then show ?thesis by (subst (1 2) scan.simps) auto
  next
    fix st' ready' pr'
    assume s: "scan_pass env edges nodes (st, ready, False) = Inr (st', ready', pr')"
      "sched_inv live nodes edges st'" "queued nodes st' ready'"
    show ?thesis
    proof (cases pr')
      case True
      then show ?thesis
        using "1.IH"[OF s(1) refl refl True s(2,3) "1.prems"(3-5)] s(1) by (subst (1 2) scan.simps) simp
    next
      case False
      then show ?thesis using s scan_pass_idle[of env edges nodes st ready st' ready']
        by (subst (1 2) scan.simps) auto
    qed
  qed
qed

section \<open>Completing a wave\<close>

text \<open>
  What the scheduler relies on in a run that is neither cancelled nor failed by a node: every
  node executes, skips are persisted, the completion order is a permutation of the wave, and a
  conditional edge leaves a condition node that decided.
\<close>

definition env_ok :: "env \<Rightarrow> bool \<Rightarrow> Node list \<Rightarrow> Edge list \<Rightarrow> bool" where
  "env_ok env routing nodes edges \<longleftrightarrow>
     (\<forall>n \<in> set nodes. \<exists>d. executeNode env n = Inr d) \<and>
     (\<forall>n \<in> set nodes. persistSkippedNode env n = None) \<and>
     (\<forall>xs. mset (completionOrder env xs) = mset xs) \<and>
     (\<forall>w. \<not> ctxErr env w) \<and> (\<forall>w. \<not> ctxErrScan env w) \<and> \<not> ctxErrEnd env \<and>
     (routing \<longrightarrow> (\<forall>e \<in> set edges. Condition e \<noteq> None \<longrightarrow>
        nType (nodeMap nodes (From e)) = ''condition'' \<and> (\<exists>b. executeNode env (nodeMap nodes (From e)) = Inr (Some b))))"

lemma nodeMap_self: "distinct (map nID nodes) \<Longrightarrow> n \<in> set nodes \<Longrightarrow> nodeMap nodes (nID n) = n"
  using nodeMap_id[of "nID n" nodes] by (metis distinct_map image_eqI inj_onD)

lemma edge_active_live:
  assumes ok: "env_ok env routing nodes edges" and d: "distinct (map nID nodes)" and n: "n \<in> set nodes"
    and x: "executeNode env n = Inr dec" and i: "i \<in> set (outgoing edges (nID n))"
  shows "edge_active routing edges n dec i = Inr (edge_live env routing nodes edges i)"
proof -
  have nm: "nodeMap nodes (From (edges ! i)) = n" and e: "edges ! i \<in> set edges"
    using i nodeMap_self[OF d n] by (auto simp: set_outgoing)
  have "\<exists>b. edge_active routing edges n dec i = Inr b"
  proof (cases "Condition (edges ! i) = None \<or> \<not> routing")
    case True
    then show ?thesis by (auto simp: edge_active_def split: option.splits)
  next
    case False
    then have "nType n = ''condition'' \<and> (\<exists>b. executeNode env n = Inr (Some b))"
      using ok e nm unfolding env_ok_def by blast
    then show ?thesis using x False by (auto simp: edge_active_def)
  qed
  then show ?thesis by (auto simp: edge_live_def Let_def nm x)
qed

lemma release_inv:
  assumes ok: "env_ok env routing nodes edges" and d: "distinct (map nID nodes)"
  defines "live \<equiv> edge_live env routing nodes edges"
  shows "\<lbrakk>sched_inv live nodes edges st; distinct (map nID ns); set ns = {n \<in> set nodes. nodeStates st (nID n) = nodeQueued}\<rbrakk> \<Longrightarrow>
    \<exists>st'. release routing edges (map (\<lambda>n. (n, executeNode env n)) ns) st = Inr st' \<and> sched_inv live nodes edges st' \<and>
      (\<forall>n \<in> set nodes. nodeStates st' (nID n) \<noteq> nodeQueued)"
proof (induction ns arbitrary: st)
  case (Cons n ns)
  have n: "n \<in> set nodes" "nodeStates st (nID n) = nodeQueued" using Cons.prems(3) by auto
  obtain dec where x: "executeNode env n = Inr dec" using ok n(1) by (auto simp: env_ok_def)
  have w: "waits st (nID n)" using n(2) by (simp add: waits_def)
  have r: "edges_in edges st edgeUnresolved (nID n) = {}" using sched_invD(5)[OF Cons.prems(1)] n(2) by simp
  have a: "incoming edges (nID n) = [] \<or> edges_in edges st edgeActive (nID n) \<noteq> {}"
    using sched_invD(6)[OF Cons.prems(1)] n(2) by simp
  have "\<exists>st1. resolve_each edges (edge_active routing edges n dec) (outgoing edges (nID n))
      ((set_node (nID n) nodeExecuted st)\<lparr>terminalNodes := terminalNodes st + 1\<rparr>) = Inr st1 \<and>
    sched_inv live nodes edges st1 \<and> nodeStates st1 = (nodeStates st)(nID n := nodeExecuted)"
    by (rule finish_node[OF Cons.prems(1) d n(1) w r])
      (use a edge_active_live[OF ok d n(1) x] in \<open>auto simp: live_def\<close>)
  then obtain st1 where st1: "resolve_each edges (edge_active routing edges n dec) (outgoing edges (nID n))
      ((set_node (nID n) nodeExecuted st)\<lparr>terminalNodes := terminalNodes st + 1\<rparr>) = Inr st1"
    "sched_inv live nodes edges st1" "nodeStates st1 = (nodeStates st)(nID n := nodeExecuted)" by blast
  have "set ns = {m \<in> set nodes. nodeStates st1 (nID m) = nodeQueued}"
  proof -
    have "nID m \<noteq> nID n" if "m \<in> set ns" for m using that Cons.prems(2) by (auto simp: image_iff)
    moreover have "m \<in> set ns" if "m \<in> set nodes" "nodeStates st (nID m) = nodeQueued" "nID m \<noteq> nID n" for m
    proof -
      have "m \<in> set (n # ns)" using that(1,2) unfolding Cons.prems(3) by simp
      then show ?thesis using that(3) by auto
    qed
    ultimately show ?thesis using Cons.prems(3) by (auto simp: st1(3))
  qed
  from Cons.IH[OF st1(2) _ this] Cons.prems(2) show ?case using st1(1) x by simp
qed auto

lemma first_error_None: "(\<And>n. n \<in> set ns \<Longrightarrow> \<exists>d. f n = Inr d) \<Longrightarrow> first_error (map (\<lambda>n. (n, f n)) ns) = None"
proof (induction ns)
  case (Cons n ns)
  then obtain d where "f n = Inr d" by auto
  then show ?case using Cons by simp
qed simp

section \<open>Progress\<close>

text \<open>On an acyclic graph a scan that queues nothing has nothing left to wait for.\<close>

lemma no_stall:
  assumes inv: "sched_inv live nodes edges st" and wg: "well_graph nodes edges" and ac: "acyclic (edge_rel edges)"
    and q: "\<And>n. n \<in> set nodes \<Longrightarrow> nodeStates st (nID n) \<noteq> nodeQueued"
    and p: "\<And>n. n \<in> set nodes \<Longrightarrow> nodeStates st (nID n) = nodePending \<Longrightarrow> unresolvedInputs st (nID n) \<noteq> 0"
  shows "terminalNodes st = length nodes"
proof -
  let ?P = "{v \<in> nID ` set nodes. nodeStates st v = nodePending}"
  have "?P = {}"
  proof (rule ccontr)
    assume ne: "?P \<noteq> {}"
    have "wf (edge_rel edges)" using ac by (intro finite_acyclic_wf) (simp_all add: edge_rel_def)
    from wfE_min'[OF this ne] obtain v where v: "v \<in> ?P" "\<And>u. (u, v) \<in> edge_rel edges \<Longrightarrow> u \<notin> ?P"
      by blast
    then have "unresolvedInputs st v \<noteq> 0" using p by auto
    then obtain i where i: "i < length edges" "To (edges ! i) = v" "edgeStates st ! i = edgeUnresolved"
      unfolding unresolved_zero(1)[OF inv] by (auto simp: edges_in_def)
    then have "waits st (From (edges ! i))" using sched_invD(2)[OF inv] by simp
    moreover have f: "From (edges ! i) \<in> nID ` set nodes" "(From (edges ! i), v) \<in> edge_rel edges"
      using wg i by (auto simp: well_graph_def edge_rel_def)
    ultimately have "nodeStates st (From (edges ! i)) = nodePending" using q by (auto simp: waits_def)
    then show False using v(2)[OF f(2)] f(1) by simp
  qed
  then have "\<not> waits st (nID n)" if "n \<in> set nodes" for n using that q[OF that] by (auto simp: waits_def)
  then have "filter (\<lambda>n. \<not> waits st (nID n)) nodes = nodes" by (simp add: filter_id_conv)
  then show ?thesis using sched_invD(4)[OF inv] by simp
qed

lemma terminal_all:
  assumes "sched_inv live nodes edges st" "terminalNodes st \<ge> length nodes" "n \<in> set nodes"
  shows "\<not> waits st (nID n)"
proof -
  have "length (filter (\<lambda>n. \<not> waits st (nID n)) nodes) \<ge> length nodes"
    using assms(2) sched_invD(4)[OF assms(1)] by simp
  then show ?thesis
    using length_filter_less[of n nodes "\<lambda>n. \<not> waits st (nID n)"] assms(3) by auto
qed

text \<open>A scan executes nothing.\<close>

lemma scan_pass_executed:
  "scan_pass env edges xs (st, ready, p) = Inr (st', ready', p') \<Longrightarrow>
   nodeStates st' v = nodeExecuted \<longleftrightarrow> nodeStates st v = nodeExecuted"
proof (induction xs arbitrary: st ready p)
  case (Cons x xs)
  obtain st1 r1 p1 where s: "scan_node env edges x (st, ready, p) = Inr (st1, r1, p1)"
    "scan_pass env edges xs (st1, r1, p1) = Inr (st', ready', p')"
    using Cons.prems by (auto split: sum.splits)
  from s(1) have "nodeStates st1 v = nodeExecuted \<longleftrightarrow> nodeStates st v = nodeExecuted"
    by (rule scan_node_cases) auto
  with Cons.IH[OF s(2)] show ?case by simp
qed simp

lemma scan_executed:
  "scan env nodes edges st ready = Inr (st', ready') \<Longrightarrow> nodeStates st' v = nodeExecuted \<longleftrightarrow> nodeStates st v = nodeExecuted"
proof (induction env nodes edges st ready rule: scan.induct)
  case (1 env nodes edges st ready)
  obtain st1 r1 p where s: "scan_pass env edges nodes (st, ready, False) = Inr (st1, r1, p)"
    using "1.prems" by (subst (asm) scan.simps) (auto split: sum.splits)
  show ?case
  proof (cases p)
    case True
    then have "scan env nodes edges st1 r1 = Inr (st', ready')" using "1.prems" s by (subst (asm) scan.simps) simp
    from "1.IH"[OF s refl refl True this] scan_pass_executed[OF s, of v] show ?thesis by simp
  next
    case False
    then have "st' = st1" using "1.prems" s by (subst (asm) scan.simps) simp
    then show ?thesis using scan_pass_executed[OF s, of v] by simp
  qed
qed

text \<open>A scan that queues nothing while nodes are left has skipped one of them.\<close>

lemma empty_wave:
  assumes s: "scan env nodes edges st [] = Inr (st1, [])" and i1: "sched_inv live nodes edges st1"
    and i0: "sched_inv live nodes edges st" and q: "queued nodes st1 []" and q0: "queued nodes st []"
    and idle: "\<forall>n \<in> set nodes. nodeStates st1 (nID n) = nodePending \<longrightarrow> unresolvedInputs st1 (nID n) \<noteq> 0"
    and wg: "well_graph nodes edges" and ac: "acyclic (edge_rel edges)" and t: "terminalNodes st < length nodes"
  shows "(\<exists>i < length edges. \<not> live i) \<and> unresolved_nodes nodes st1 = []"
proof -
  have "nodeStates st1 (nID n) \<noteq> nodeQueued" if "n \<in> set nodes" for n using q that by (auto simp: queued_def)
  then have "terminalNodes st1 = length nodes" using no_stall[OF i1 wg ac] idle by blast
  then have nw: "\<not> waits st1 (nID n)" if "n \<in> set nodes" for n using terminal_all[OF i1 _ that] by simp
  then have "unresolved_nodes nodes st1 = []" by (auto simp: unresolved_nodes_def filter_empty_conv waits_def)
  moreover have "\<exists>n \<in> set nodes. waits st (nID n)"
  proof (rule ccontr)
    assume "\<not> (\<exists>n \<in> set nodes. waits st (nID n))"
    then have "filter (\<lambda>n. \<not> waits st (nID n)) nodes = nodes" by (simp add: filter_id_conv)
    then show False using t sched_invD(4)[OF i0] by simp
  qed
  then obtain n where n: "n \<in> set nodes" "waits st (nID n)" by blast
  have "nodeStates st1 (nID n) \<noteq> nodeExecuted" using scan_executed[OF s, of "nID n"] n(2) by (auto simp: waits_def)
  then have "nodeStates st1 (nID n) = nodeSkipped"
    using nw[OF n(1)] by (cases "nodeStates st1 (nID n)") (auto simp: waits_def)
  then have "\<exists>i < length edges. \<not> live i" by (rule skipped_not_live[OF i1 ac])
  ultimately show ?thesis by blast
qed

text \<open>The outcome of the loop from a state between two waves.\<close>

definition good_end :: "(nat \<Rightarrow> bool) \<Rightarrow> Node list \<Rightarrow> Edge list \<Rightarrow> outcome \<Rightarrow> bool" where
  "good_end live nodes edges r \<longleftrightarrow>
     (\<exists>st. r = Finished st \<and> sched_inv live nodes edges st \<and> (\<forall>n \<in> set nodes. \<not> waits st (nID n))) \<or>
     ((\<exists>i < length edges. \<not> live i) \<and> (r = FailedRun (Stalled []) \<or> (\<exists>v a k. r = FailedRun (JoinInactive v a k))))"

lemma wave_step:
  assumes ok: "env_ok env routing nodes edges" and wg: "well_graph nodes edges"
    and s: "scan env nodes edges st [] = Inr (st1, ready)" and ne: "ready \<noteq> []"
    and i1: "sched_inv (edge_live env routing nodes edges) nodes edges st1" and q: "queued nodes st1 ready"
    and t: "terminalNodes st < length nodes"
  shows "\<exists>st2. run_waves env routing nodes edges w st = run_waves env routing nodes edges (w + 1) st2 \<and>
    sched_inv (edge_live env routing nodes edges) nodes edges st2 \<and>
    (\<forall>n \<in> set nodes. nodeStates st2 (nID n) \<noteq> nodeQueued) \<and> pending nodes st2 < pending nodes st"
proof -
  let ?ns = "completionOrder env ready"
  have d: "distinct (map nID nodes)" using wg by (simp add: well_graph_def)
  have ms: "mset ?ns = mset ready" using ok by (simp add: env_ok_def)
  then have ns: "set ?ns = {n \<in> set nodes. nodeStates st1 (nID n) = nodeQueued}" "distinct (map nID ?ns)"
    using q mset_eq_setD[OF ms] mset_eq_imp_distinct_iff[of "map nID ?ns" "map nID ready"]
    by (auto simp: queued_def)
  have fe: "first_error (map (\<lambda>n. (n, executeNode env n)) ?ns) = None"
    by (rule first_error_None) (use ns ok in \<open>auto simp: env_ok_def\<close>)
  from release_inv[OF ok d i1 ns(2,1)] obtain st2 where
    r: "release routing edges (map (\<lambda>n. (n, executeNode env n)) ?ns) st1 = Inr st2"
    and i2: "sched_inv (edge_live env routing nodes edges) nodes edges st2"
      "\<forall>n \<in> set nodes. nodeStates st2 (nID n) \<noteq> nodeQueued"
    by blast
  have "run_waves env routing nodes edges w st = run_waves env routing nodes edges (w + 1) st2"
    using t s fe r ne ok by (subst run_waves.simps) (simp add: Let_def env_ok_def)
  moreover have "pending nodes st2 < pending nodes st"
    using scan_pending[OF s] release_pending[OF r, of nodes] ne by auto
  ultimately show ?thesis using i2 by blast
qed

lemma run_waves_good:
  assumes ok: "env_ok env routing nodes edges" and wg: "well_graph nodes edges" and ac: "acyclic (edge_rel edges)"
  defines "live \<equiv> edge_live env routing nodes edges"
  shows "\<lbrakk>sched_inv live nodes edges st; \<forall>n \<in> set nodes. nodeStates st (nID n) \<noteq> nodeQueued\<rbrakk> \<Longrightarrow>
    good_end live nodes edges (run_waves env routing nodes edges w st)"
proof (induction "pending nodes st" arbitrary: st w rule: less_induct)
  case less
  have d: "distinct (map nID nodes)" using wg by (simp add: well_graph_def)
  have per: "\<forall>n \<in> set nodes. persistSkippedNode env n = None" using ok by (simp add: env_ok_def)
  have q0: "queued nodes st []" using less.prems(2) by (auto simp: queued_def)
  have c: "\<not> ctxErr env w" "\<not> ctxErrScan env w" "\<not> ctxErrEnd env" using ok by (simp_all add: env_ok_def)
  show ?case
  proof (cases "terminalNodes st \<ge> length nodes")
    case True
    then have "run_waves env routing nodes edges w st = Finished st" using c by (subst run_waves.simps) simp
    then show ?thesis using less.prems(1) terminal_all[OF less.prems(1) True] by (auto simp: good_end_def)
  next
    case t: False
    from scan_inv[OF less.prems(1) q0 d per ac] show ?thesis
    proof (elim disjE exE conjE)
      fix i v a k assume "scan env nodes edges st [] = Inl (JoinInactive v a k)" "i < length edges" "\<not> live i"
      then show ?thesis using t c by (subst run_waves.simps) (auto simp: good_end_def)
    next
      fix st1 ready
      assume s: "scan env nodes edges st [] = Inr (st1, ready)" and i1: "sched_inv live nodes edges st1"
        and q: "queued nodes st1 ready"
        and idle: "\<forall>n \<in> set nodes. nodeStates st1 (nID n) = nodePending \<longrightarrow> unresolvedInputs st1 (nID n) \<noteq> 0"
      show ?thesis
      proof (cases "ready = []")
        case True
        with s have s': "scan env nodes edges st [] = Inr (st1, [])" by simp
        from True q have "queued nodes st1 []" by simp
        from empty_wave[OF s' i1 less.prems(1) this q0 idle wg ac] t
        show ?thesis using s' c by (subst run_waves.simps) (auto simp: good_end_def)
      next
        case False
        have i1': "sched_inv (edge_live env routing nodes edges) nodes edges st1" using i1 by (simp add: live_def)
        from wave_step[OF ok wg s False i1' q, of w] t obtain st2 where
          "run_waves env routing nodes edges w st = run_waves env routing nodes edges (w + 1) st2"
          "sched_inv live nodes edges st2" "\<forall>n \<in> set nodes. nodeStates st2 (nID n) \<noteq> nodeQueued"
          "pending nodes st2 < pending nodes st"
          unfolding live_def by auto
        then show ?thesis using less.hyps[of st2 "w + 1"] by simp
      qed
    qed
  qed
qed

section \<open>The specification\<close>

text \<open>
  Which nodes a run executes, said without waves, counters or completion order: a node without
  inputs, and a node that a live edge reaches from a node that executes.
\<close>

inductive executes :: "(nat \<Rightarrow> bool) \<Rightarrow> Edge list \<Rightarrow> string \<Rightarrow> bool" for live edges where
  executes_root: "incoming edges v = [] \<Longrightarrow> executes live edges v"
| executes_edge: "i < length edges \<Longrightarrow> executes live edges (From (edges ! i)) \<Longrightarrow> live i \<Longrightarrow>
    executes live edges (To (edges ! i))"

inductive_simps executes_iff: "executes live edges v"

lemma final_states:
  assumes inv: "sched_inv live nodes edges st" and t: "\<forall>n \<in> set nodes. \<not> waits st (nID n)"
    and wg: "well_graph nodes edges" and ac: "acyclic (edge_rel edges)" and n: "n \<in> set nodes"
  shows "nodeStates st (nID n) = (if executes live edges (nID n) then nodeExecuted else nodeSkipped)"
proof -
  have two: "nodeStates st v = nodeExecuted \<or> nodeStates st v = nodeSkipped" if "v \<in> nID ` set nodes" for v
    using t that by (cases "nodeStates st v") (auto simp: waits_def)
  have src: "From (edges ! i) \<in> nID ` set nodes \<and> To (edges ! i) \<in> nID ` set nodes" if "i < length edges" for i
    using wg that by (simp add: well_graph_def)
  have 1: "v \<in> nID ` set nodes \<longrightarrow> nodeStates st v = nodeExecuted" if "executes live edges v" for v
    using that
  proof induction
    case (executes_root v)
    then show ?case using two[of v] sched_invD(7)[OF inv, of v] by auto
  next
    case (executes_edge i)
    have "edgeStates st ! i = edgeActive"
      using executes_edge src sched_invD(3)[OF inv] by blast
    then have "i \<in> edges_in edges st edgeActive (To (edges ! i))" using executes_edge(1) by (simp add: edges_in_def)
    then have "nodeStates st (To (edges ! i)) \<noteq> nodeSkipped" using sched_invD(7)[OF inv] by blast
    then show ?case using two by blast
  qed
  have wf: "wf (edge_rel edges)" using ac by (intro finite_acyclic_wf) (simp_all add: edge_rel_def)
  have 2: "nodeStates st v = nodeExecuted \<longrightarrow> executes live edges v" for v
  proof (induction v rule: wf_induct_rule[OF wf])
    case (1 v)
    show ?case
    proof
      assume x: "nodeStates st v = nodeExecuted"
      show "executes live edges v"
      proof (cases "incoming edges v = []")
        case True
        then show ?thesis by (rule executes_root)
      next
        case False
        then obtain i where i: "i < length edges" "To (edges ! i) = v" "edgeStates st ! i = edgeActive"
          using sched_invD(6)[OF inv, of v] x by (auto simp: edges_in_def)
        then have "nodeStates st (From (edges ! i)) = nodeExecuted" "live i" using sched_invD(3)[OF inv] by auto
        moreover have "(From (edges ! i), v) \<in> edge_rel edges" using i by (auto simp: edge_rel_def)
        ultimately show ?thesis using 1 executes_edge[OF i(1)] i(2) by blast
      qed
    qed
  qed
  show ?thesis using 1[of "nID n"] 2[of "nID n"] two[of "nID n"] n by (cases "executes live edges (nID n)") auto
qed

lemma Execute_spec:
  assumes "env_ok env routing nodes edges" and "well_graph nodes edges" and "acyclic (edge_rel edges)"
  shows "(\<exists>st. Execute env routing nodes edges = Finished st \<and> (\<forall>n \<in> set nodes. nodeStates st (nID n) =
        (if executes (edge_live env routing nodes edges) edges (nID n) then nodeExecuted else nodeSkipped))) \<or>
    ((\<exists>i < length edges. \<not> edge_live env routing nodes edges i) \<and>
     (Execute env routing nodes edges = FailedRun (Stalled []) \<or>
      (\<exists>v a k. Execute env routing nodes edges = FailedRun (JoinInactive v a k))))"
proof -
  have "good_end (edge_live env routing nodes edges) nodes edges (Execute env routing nodes edges)"
    unfolding Execute_def
    by (rule run_waves_good[OF assms sched_inv_init]) (simp add: initSched_def)
  then show ?thesis
    unfolding good_end_def using final_states[OF _ _ assms(2,3)] by blast
qed

lemma Execute_all_nodes:
  assumes "env_ok env False nodes edges" and "well_graph nodes edges" and "acyclic (edge_rel edges)"
  shows "\<exists>st. Execute env False nodes edges = Finished st \<and> (\<forall>n \<in> set nodes. nodeStates st (nID n) = nodeExecuted)"
proof -
  let ?live = "edge_live env False nodes edges"
  have "\<exists>d. executeNode env (nodeMap nodes (From (edges ! i))) = Inr d" if "i < length edges" for i
    using assms(1,2) nodeMap_id that by (auto simp: env_ok_def well_graph_def)
  then have live: "?live i" if "i < length edges" for i
    using that by (fastforce simp: edge_live_def edge_active_def split: option.splits)
  have g: "good_end ?live nodes edges (Execute env False nodes edges)"
    unfolding Execute_def
    by (rule run_waves_good[OF assms sched_inv_init]) (simp add: initSched_def)
  then obtain st where st: "Execute env False nodes edges = Finished st" "sched_inv ?live nodes edges st"
    "\<forall>n \<in> set nodes. \<not> waits st (nID n)" using live by (auto simp: good_end_def)
  have "nodeStates st v \<noteq> nodeSkipped" for v using skipped_not_live[OF st(2) assms(3)] live by blast
  then have "nodeStates st (nID n) = nodeExecuted" if "n \<in> set nodes" for n
    using st(3) that by (cases "nodeStates st (nID n)") (auto simp: waits_def)
  with st(1) show ?thesis by blast
qed

section \<open>Properties\<close>

text \<open>
  C17. The wave scheduler is correct up to two failures. On an acyclic graph with distinct nodes
  and no dangling edge, when no node fails and nothing is cancelled, the run ends with every
  node executed or skipped exactly as the specification says, whatever the order in which the
  nodes of a wave complete; or some edge is not live and the run fails on an inactive join
  input or with the stall error that names no node. No internal error of the scheduler occurs.
\<close>

theorem Execute_correct:
  assumes "env_ok env routing nodes edges" and "well_graph nodes edges" and "acyclic (edge_rel edges)"
  shows "(\<exists>st. Execute env routing nodes edges = Finished st \<and> (\<forall>n \<in> set nodes. nodeStates st (nID n) =
        (if executes (edge_live env routing nodes edges) edges (nID n) then nodeExecuted else nodeSkipped))) \<or>
    ((\<exists>i < length edges. \<not> edge_live env routing nodes edges i) \<and>
     (Execute env routing nodes edges = FailedRun (Stalled []) \<or>
      (\<exists>v a k. Execute env routing nodes edges = FailedRun (JoinInactive v a k))))"
  by (rule Execute_spec[OF assms])

text \<open>
  A pipeline without conditional routing always finishes: every node is executed, and
  neither the stall error nor a join error can occur.
\<close>

lemma Execute_unconditional:
  assumes "env_ok env False nodes edges" and "well_graph nodes edges" and "acyclic (edge_rel edges)"
  shows "\<exists>st. Execute env False nodes edges = Finished st \<and> (\<forall>n \<in> set nodes. nodeStates st (nID n) = nodeExecuted)"
  by (rule Execute_all_nodes[OF assms])

text \<open>A condition node that decides false and has one branch, taken when it decides true.\<close>

definition demo_env :: env where
  "demo_env = \<lparr>executeNode = (\<lambda>_. Inr (Some False)), persistSkippedNode = (\<lambda>_. None), completionOrder = (\<lambda>xs. xs),
     ctxErr = (\<lambda>_. False), ctxErrScan = (\<lambda>_. False), ctxErrEnd = False\<rparr>"

definition demo_nodes :: "Node list" where
  "demo_nodes = [\<lparr>nID = ''c'', nType = ''condition'', nName = []\<rparr>, \<lparr>nID = ''a'', nType = ''code'', nName = []\<rparr>]"

definition demo_edges :: "Edge list" where
  "demo_edges = [\<lparr>From = ''c'', To = ''a'', Condition = Some True\<rparr>]"

lemma demo_ok: "env_ok demo_env r demo_nodes demo_edges" "well_graph demo_nodes demo_edges" "acyclic (edge_rel demo_edges)"
proof -
  show "env_ok demo_env r demo_nodes demo_edges"
    by (auto simp: env_ok_def demo_env_def demo_nodes_def demo_edges_def nodeMap_def intro: exI[of _ False])
  show "well_graph demo_nodes demo_edges" by (simp add: well_graph_def demo_nodes_def demo_edges_def)
  have "edge_rel demo_edges \<subseteq> measure (\<lambda>v. if v = ''a'' then 1 else 0)"
    by (simp add: edge_rel_def demo_edges_def)
  then show "acyclic (edge_rel demo_edges)" using wf_subset[OF wf_measure] wf_acyclic by blast
qed

theorem Execute_correct_witness:
  "\<exists>r. Execute demo_env False demo_nodes demo_edges = r \<and> (\<forall>v. r \<noteq> FailedRun (Underflow v)) \<and> (\<forall>i. r \<noteq> FailedRun (ResolvedTwice i))"
  using Execute_correct[OF demo_ok(1)[of False] demo_ok(2,3)] by auto

lemma Execute_unconditional_witness:
  "\<exists>st. Execute demo_env False demo_nodes demo_edges = Finished st \<and> (\<forall>n \<in> set demo_nodes. nodeStates st (nID n) = nodeExecuted)"
  by (rule Execute_unconditional[OF demo_ok])

text \<open>
  A run whose last nodes are all skipped is reported as failed. A condition node that decides
  false and has only a true branch skips the branch in a wave that queues nothing, and the
  scheduler then fails with a stall that names no node, although every node is terminal.
\<close>

lemma trailing_skip_fails:
  "Execute demo_env True demo_nodes demo_edges = FailedRun (Stalled [])"
proof -
  have "case Execute demo_env True demo_nodes demo_edges of FailedRun (Stalled []) \<Rightarrow> True | _ \<Rightarrow> False"
    by code_simp
  then show ?thesis by (auto split: outcome.splits sched_error.splits list.splits)
qed

end
