(* ===== verification/Pipe_Deps.thy ===== *)
theory Pipe_Deps
  imports Go_Prelude
begin

text \<open>
  Cross-pipeline dependencies: the rules of \<^verbatim>\<open>src/models/dependency.go\<close> and their evaluation and
  cycle check in \<^verbatim>\<open>src/engine/dependencies.go\<close>. Times are nanoseconds; the two store queries are
  arguments.
\<close>

section \<open>Rules\<close>

record DependencyRule =
  PipelineID :: string
  dState :: string
  WithinSec :: int
  dMode :: string

definition DepStateSucceeded :: string where "DepStateSucceeded = ''succeeded''"
definition DepStateCompleted :: string where "DepStateCompleted = ''completed''"
definition DepStateFailed :: string where "DepStateFailed = ''failed''"
definition DepModeGate :: string where "DepModeGate = ''gate''"
definition DepModeTrigger :: string where "DepModeTrigger = ''trigger''"

lemmas dep_consts = DepStateSucceeded_def DepStateCompleted_def DepStateFailed_def DepModeGate_def DepModeTrigger_def

definition Normalize :: "DependencyRule \<Rightarrow> DependencyRule" where
  "Normalize d = d\<lparr>dState := (if dState d = [] then DepStateSucceeded else dState d),
     dMode := (if dMode d = [] then DepModeGate else dMode d)\<rparr>"

text \<open>\<^verbatim>\<open>time.Duration(d.WithinSec) * time.Second\<close> multiplies in 64 bits.\<close>

definition Within :: "DependencyRule \<Rightarrow> int" where
  "Within d = (if WithinSec d \<le> 0 then 0 else i64 (WithinSec d * 1000000000))"

definition maxDependencyWindow :: int where
  "maxDependencyWindow = 100 * 365 * 24 * 3600"

datatype rule_error = NoPipelineID | InvalidState string | InvalidMode string | WindowNegative | WindowTooLarge

definition Validate :: "DependencyRule \<Rightarrow> rule_error option" where
  "Validate d =
     (if PipelineID d = [] then Some NoPipelineID
      else
        let s = (if dState d = [] then DepStateSucceeded else dState d);
            m = (if dMode d = [] then DepModeGate else dMode d)
        in if s \<noteq> DepStateSucceeded \<and> s \<noteq> DepStateCompleted \<and> s \<noteq> DepStateFailed then Some (InvalidState (dState d))
           else if m \<noteq> DepModeGate \<and> m \<noteq> DepModeTrigger then Some (InvalidMode (dMode d))
           else if WithinSec d < 0 then Some WindowNegative
           else if WithinSec d > maxDependencyWindow then Some WindowTooLarge
           else None)"

text \<open>The two loops of \<^verbatim>\<open>EffectiveDependencies\<close>; \<open>seen\<close> is the set of identifiers taken.\<close>

fun take_rules :: "string set \<Rightarrow> DependencyRule list \<Rightarrow> string set \<times> DependencyRule list" where
  "take_rules seen [] = (seen, [])"
| "take_rules seen (r # rs) =
     (if PipelineID r = [] \<or> PipelineID r \<in> seen then take_rules seen rs
      else case take_rules (insert (PipelineID r) seen) rs of (seen', out) \<Rightarrow> (seen', Normalize r # out))"

fun take_legacy :: "string set \<Rightarrow> string list \<Rightarrow> DependencyRule list" where
  "take_legacy seen [] = []"
| "take_legacy seen (i # is) =
     (if i = [] \<or> i \<in> seen then take_legacy seen is
      else \<lparr>PipelineID = i, dState = DepStateSucceeded, WithinSec = 0, dMode = DepModeGate\<rparr> #
           take_legacy (insert i seen) is)"

definition EffectiveDependencies :: "DependencyRule list \<Rightarrow> string list \<Rightarrow> DependencyRule list" where
  "EffectiveDependencies rules legacy =
     (case take_rules {} rules of (seen, out) \<Rightarrow> out @ take_legacy seen legacy)"

text \<open>The effective rules name each upstream once, in normal form; explicit rules win.\<close>

lemma Normalize_id [simp]: "PipelineID (Normalize d) = PipelineID d" "WithinSec (Normalize d) = WithinSec d"
  by (simp_all add: Normalize_def)

lemma Normalize_normal: "dState (Normalize d) \<noteq> []" "dMode (Normalize d) \<noteq> []"
  by (simp_all add: Normalize_def dep_consts)

lemma take_rules_spec:
  "take_rules seen rs = (seen', out) \<Longrightarrow>
   seen' = seen \<union> PipelineID ` set out \<and> distinct (map PipelineID out) \<and> PipelineID ` set out \<inter> seen = {} \<and>
   PipelineID ` set out = PipelineID ` set rs - insert [] seen \<and> set out \<subseteq> Normalize ` set rs"
proof (induction rs arbitrary: seen seen' out)
  case (Cons r rs)
  show ?case
  proof (cases "PipelineID r = [] \<or> PipelineID r \<in> seen")
    case True
    then show ?thesis using Cons.IH[of seen seen' out] Cons.prems by auto
  next
    case False
    with Cons.prems obtain out' where o: "take_rules (insert (PipelineID r) seen) rs = (seen', out')"
      "out = Normalize r # out'" by (auto split: prod.splits)
    from Cons.IH[OF o(1)] False o(2) show ?thesis by auto
  qed
qed simp

lemma take_legacy_spec:
  "distinct (map PipelineID (take_legacy seen is)) \<and> PipelineID ` set (take_legacy seen is) = set is - insert [] seen"
proof (induction "is" arbitrary: seen)
  case (Cons i "is")
  then show ?case by (cases "i = [] \<or> i \<in> seen") auto
qed simp

lemma take_legacy_normal: "\<forall>r \<in> set (take_legacy seen is). dState r \<noteq> [] \<and> dMode r \<noteq> []"
  by (induction seen "is" rule: take_legacy.induct) (simp_all add: dep_consts)

lemma EffectiveDependencies_ids:
  "distinct (map PipelineID (EffectiveDependencies rules legacy))"
  "PipelineID ` set (EffectiveDependencies rules legacy) = (PipelineID ` set rules \<union> set legacy) - {[]}"
proof -
  obtain seen out where t: "take_rules {} rules = (seen, out)" by fastforce
  note R = take_rules_spec[OF t] and L = take_legacy_spec[of seen legacy]
  show "distinct (map PipelineID (EffectiveDependencies rules legacy))"
    using R L by (auto simp: EffectiveDependencies_def t)
  have "PipelineID ` set (EffectiveDependencies rules legacy) = PipelineID ` set out \<union> (set legacy - insert [] seen)"
    using L by (simp add: EffectiveDependencies_def t image_Un)
  then show "PipelineID ` set (EffectiveDependencies rules legacy) = (PipelineID ` set rules \<union> set legacy) - {[]}"
    using R by auto
qed

section \<open>Evaluation\<close>

record Run =
  Status :: string
  FinishedAt :: "int option"
  StartedAt :: "int option"

record PipelineDepSummary =
  sID :: string
  sName :: string
  sOrgID :: string
  DependsOn :: "string list"
  DependencyRules :: "DependencyRule list"

text \<open>A pipeline, as far as its dependencies go.\<close>

type_synonym Pipeline = PipelineDepSummary

definition effective :: "PipelineDepSummary \<Rightarrow> DependencyRule list" where
  "effective s = EffectiveDependencies (DependencyRules s) (DependsOn s)"

record DependencyStatus =
  Rule :: DependencyRule
  UpstreamName :: string
  Satisfied :: bool
  dReason :: "string"
  LastStatus :: string
  LastRunAt :: "int option"
  Missing :: bool

record checkResult =
  statuses :: "DependencyStatus list"
  blockers :: "string list"

definition fail :: "DependencyStatus \<Rightarrow> string \<Rightarrow> checkResult \<Rightarrow> checkResult" where
  "fail st msg r =
     r\<lparr>blockers := blockers r @ (if dMode (Rule st) = DepModeGate then [msg] else []), statuses := statuses r @ [st]\<rparr>"

definition pass :: "DependencyStatus \<Rightarrow> checkResult \<Rightarrow> checkResult" where
  "pass st r = r\<lparr>statuses := statuses r @ [st\<lparr>Satisfied := True\<rparr>]\<rparr>"

definition matchesState :: "string \<Rightarrow> string \<Rightarrow> bool" where
  "matchesState actual want =
     (if want = DepStateSucceeded then actual = ''success''
      else if want = DepStateFailed then actual = ''failed''
      else if want = DepStateCompleted then actual = ''success'' \<or> actual = ''failed'' \<or> actual = ''cancelled''
      else False)"

text \<open>\<^verbatim>\<open>Time.Sub\<close> saturates. The texts of durations are an argument.\<close>

definition sub_time :: "int \<Rightarrow> int \<Rightarrow> int" where
  "sub_time a b = max (- (2 ^ 63)) (min (2 ^ 63 - 1) (a - b))"

text \<open>\<^verbatim>\<open>%q\<close> of the run and dependency states, which are plain identifiers.\<close>

definition quote :: "string \<Rightarrow> string" where
  "quote s = CHR 0x22 # s @ [CHR 0x22]"

definition last_run_at :: "Run \<Rightarrow> int option" where
  "last_run_at r = (case FinishedAt r of Some t \<Rightarrow> Some t | None \<Rightarrow> StartedAt r)"

definition check_rule ::
  "(int \<Rightarrow> string) \<Rightarrow> (string \<times> PipelineDepSummary) list \<Rightarrow> (string \<times> Run) list \<Rightarrow> int \<Rightarrow> DependencyRule \<Rightarrow> checkResult \<Rightarrow> checkResult" where
  "check_rule dur byID latest now rule r =
     (let st = \<lparr>Rule = rule, UpstreamName = [], Satisfied = False, dReason = [], LastStatus = [], LastRunAt = None, Missing = False\<rparr> in
      case map_of byID (PipelineID rule) of
        None \<Rightarrow> fail (st\<lparr>Missing := True, dReason := ''upstream pipeline not found''\<rparr>) (PipelineID rule @ '': not found'') r
      | Some upstream \<Rightarrow>
          let st = st\<lparr>UpstreamName := sName upstream\<rparr> in
          (case map_of latest (PipelineID rule) of
             None \<Rightarrow> fail (st\<lparr>dReason := ''no runs yet''\<rparr>) (sName upstream @ '': no runs yet'') r
           | Some l \<Rightarrow>
               let st = st\<lparr>LastStatus := Status l, LastRunAt := last_run_at l\<rparr> in
               if \<not> matchesState (Status l) (dState rule) then
                 (let reason = ''last run state is '' @ quote (Status l) @ '', need '' @ quote (dState rule)
                  in fail (st\<lparr>dReason := reason\<rparr>) (sName upstream @ '': '' @ reason) r)
               else
                 (case LastRunAt st of
                    Some t \<Rightarrow>
                      if Within rule > 0 \<and> sub_time now t > Within rule then
                        (let age = sub_time now t; ageStr = dur (age - age mod 1000000000)
                         in fail (st\<lparr>dReason := ''last run is stale (age '' @ ageStr @ '' > window '' @ dur (Within rule) @ '')''\<rparr>)
                              (sName upstream @ '': stale ('' @ ageStr @ '' old)'') r)
                      else pass st r
                  | None \<Rightarrow> pass st r)))"

definition CheckDependencies ::
  "(int \<Rightarrow> string) \<Rightarrow> (string \<Rightarrow> string + PipelineDepSummary list) \<Rightarrow> (string list \<Rightarrow> string + (string \<times> Run) list) \<Rightarrow>
   Pipeline \<Rightarrow> int \<Rightarrow> bool \<times> DependencyStatus list \<times> string" where
  "CheckDependencies dur listDeps latestRuns p now =
     (let rules = effective p in
      if rules = [] then (True, [], [])
      else case listDeps (sOrgID p) of
        Inl e \<Rightarrow> (False, [], ''dependency check failed: '' @ e)
      | Inr summaries \<Rightarrow>
          let byID = rev (map (\<lambda>s. (sID s, s)) summaries);
              ids = filter (\<lambda>i. i \<in> fst ` set byID) (map PipelineID rules)
          in case latestRuns ids of
               Inl e \<Rightarrow> (False, [], ''dependency check failed: '' @ e)
             | Inr latest \<Rightarrow>
                 let result = fold (check_rule dur byID latest now) rules \<lparr>statuses = [], blockers = []\<rparr>
                 in if blockers result \<noteq> []
                    then (False, statuses result, ''dependencies not satisfied: '' @ join_with ''; '' (blockers result))
                    else (True, statuses result, []))"

text \<open>What a rule asks of the world, and that the evaluation decides exactly that.\<close>

definition rule_holds :: "(string \<times> PipelineDepSummary) list \<Rightarrow> (string \<times> Run) list \<Rightarrow> int \<Rightarrow> DependencyRule \<Rightarrow> bool" where
  "rule_holds byID latest now rule \<longleftrightarrow>
     PipelineID rule \<in> fst ` set byID \<and>
     (\<exists>l. map_of latest (PipelineID rule) = Some l \<and> matchesState (Status l) (dState rule) \<and>
        (Within rule > 0 \<longrightarrow> (\<forall>t. last_run_at l = Some t \<longrightarrow> sub_time now t \<le> Within rule)))"

lemma check_rule_spec:
  "\<exists>st. statuses (check_rule dur byID latest now rule r) = statuses r @ [st] \<and> Rule st = rule \<and>
     (Satisfied st \<longleftrightarrow> rule_holds byID latest now rule)"
  "blockers (check_rule dur byID latest now rule r) = [] \<longleftrightarrow>
     blockers r = [] \<and> (dMode rule = DepModeGate \<longrightarrow> rule_holds byID latest now rule)"
proof -
  have up: "map_of byID (PipelineID rule) = None \<longleftrightarrow> PipelineID rule \<notin> fst ` set byID"
    by (rule map_of_eq_None_iff)
  show "\<exists>st. statuses (check_rule dur byID latest now rule r) = statuses r @ [st] \<and> Rule st = rule \<and>
     (Satisfied st \<longleftrightarrow> rule_holds byID latest now rule)"
    using up unfolding check_rule_def rule_holds_def fail_def pass_def Let_def
    by (cases "map_of byID (PipelineID rule)"; cases "map_of latest (PipelineID rule)")
      (auto split: option.splits)
  show "blockers (check_rule dur byID latest now rule r) = [] \<longleftrightarrow>
     blockers r = [] \<and> (dMode rule = DepModeGate \<longrightarrow> rule_holds byID latest now rule)"
    using up unfolding check_rule_def rule_holds_def fail_def pass_def Let_def
    by (cases "map_of byID (PipelineID rule)"; cases "map_of latest (PipelineID rule)")
      (auto split: option.splits)
qed

lemma check_rules_blockers:
  "blockers (fold (check_rule dur byID latest now) rules r) = [] \<longleftrightarrow>
   blockers r = [] \<and> (\<forall>rule \<in> set rules. dMode rule = DepModeGate \<longrightarrow> rule_holds byID latest now rule)"
  by (induction rules arbitrary: r) (auto simp: check_rule_spec(2))


lemma check_rules_statuses:
  "map (\<lambda>st. (Rule st, Satisfied st)) (statuses (fold (check_rule dur byID latest now) rules r)) =
   map (\<lambda>st. (Rule st, Satisfied st)) (statuses r) @ map (\<lambda>rule. (rule, rule_holds byID latest now rule)) rules"
proof (induction rules arbitrary: r)
  case (Cons rule rules)
  obtain st where "statuses (check_rule dur byID latest now rule r) = statuses r @ [st]" "Rule st = rule"
    "Satisfied st \<longleftrightarrow> rule_holds byID latest now rule"
    using check_rule_spec(1) by blast
  then show ?case by (simp add: Cons.IH)
qed simp

text \<open>The index the check builds from the summaries: the last one of an identifier wins.\<close>

definition by_id :: "PipelineDepSummary list \<Rightarrow> (string \<times> PipelineDepSummary) list" where
  "by_id summaries = rev (map (\<lambda>s. (sID s, s)) summaries)"

lemma by_id_keys [simp]: "fst ` set (by_id summaries) = sID ` set summaries"
  by (simp add: by_id_def image_image)

section \<open>Properties\<close>

text \<open>
  C37. When both store queries succeed, a run may start exactly when every effective rule in gate
  mode holds: its upstream is a pipeline of the same organisation, has a last run in a matching
  state, and that run is inside the freshness window if there is one. Trigger rules never block.
  The report has one status per effective rule, in order, marked satisfied exactly when the rule holds.
\<close>

theorem CheckDependencies_correct:
  assumes "effective p \<noteq> []" and "listDeps (sOrgID p) = Inr summaries"
    and "latestRuns (filter (\<lambda>i. i \<in> sID ` set summaries) (map PipelineID (effective p))) = Inr latest"
    and "CheckDependencies dur listDeps latestRuns p now = (satisfied, sts, reason)"
  shows "(satisfied \<longleftrightarrow>
          (\<forall>rule \<in> set (effective p). dMode rule = DepModeGate \<longrightarrow> rule_holds (by_id summaries) latest now rule)) \<and>
         map (\<lambda>st. (Rule st, Satisfied st)) sts =
           map (\<lambda>rule. (rule, rule_holds (by_id summaries) latest now rule)) (effective p) \<and>
         (satisfied \<longleftrightarrow> reason = [])"
proof -
  let ?res = "fold (check_rule dur (by_id summaries) latest now) (effective p) \<lparr>statuses = [], blockers = []\<rparr>"
  have "CheckDependencies dur listDeps latestRuns p now =
      (if blockers ?res \<noteq> [] then (False, statuses ?res, ''dependencies not satisfied: '' @ join_with ''; '' (blockers ?res))
       else (True, statuses ?res, []))"
    using assms(1-3) by (simp add: CheckDependencies_def Let_def image_image flip: by_id_def)
  then have "satisfied \<longleftrightarrow> blockers ?res = []" "sts = statuses ?res" "satisfied \<longleftrightarrow> reason = []"
    using assms(4) by (auto split: if_splits)
  then show ?thesis by (simp add: check_rules_blockers check_rules_statuses)
qed

theorem CheckDependencies_correct_witness:
  "let up = \<lparr>sID = ''a'', sName = ''up'', sOrgID = ''o'', DependsOn = [], DependencyRules = []\<rparr>;
       p = \<lparr>sID = ''b'', sName = ''down'', sOrgID = ''o'', DependsOn = [''a''], DependencyRules = []\<rparr>;
       run = \<lparr>Status = ''success'', FinishedAt = Some 5, StartedAt = Some 1\<rparr>
   in fst (CheckDependencies (\<lambda>_. []) (\<lambda>_. Inr [up]) (\<lambda>_. Inr [(''a'', run)]) p 9)"
proof -
  define up where "up = \<lparr>sID = ''a'', sName = ''up'', sOrgID = ''o'', DependsOn = [], DependencyRules = []\<rparr>"
  define p where "p = \<lparr>sID = ''b'', sName = ''down'', sOrgID = ''o'', DependsOn = [''a''], DependencyRules = []\<rparr>"
  define run where "run = \<lparr>Status = ''success'', FinishedAt = Some 5, StartedAt = Some (1::int)\<rparr>"
  obtain ok sts reason where c: "CheckDependencies (\<lambda>_. []) (\<lambda>_. Inr [up]) (\<lambda>_. Inr [(''a'', run)]) p 9 = (ok, sts, reason)"
    by (metis prod_cases3)
  have e: "effective p = [\<lparr>PipelineID = ''a'', dState = ''succeeded'', WithinSec = 0, dMode = ''gate''\<rparr>]"
    by (simp add: effective_def p_def EffectiveDependencies_def dep_consts)
  have "rule_holds (by_id [up]) [(''a'', run)] 9 \<lparr>PipelineID = ''a'', dState = ''succeeded'', WithinSec = 0, dMode = ''gate''\<rparr>"
    by (simp add: rule_holds_def by_id_def up_def run_def matchesState_def Within_def dep_consts)
  then have ok using CheckDependencies_correct[OF _ _ _ c, of "[up]" "[(''a'', run)]"] by (simp add: e dep_consts)
  then show ?thesis using c by (simp add: Let_def up_def p_def run_def)
qed

text \<open>
  A failed store query closes the gate: a pipeline with dependencies does not start, and no
  status is reported.
\<close>

lemma CheckDependencies_fail_closed:
  assumes "effective p \<noteq> []"
    and "(\<exists>e. listDeps (sOrgID p) = Inl e) \<or>
      (\<exists>summaries e. listDeps (sOrgID p) = Inr summaries \<and>
        latestRuns (filter (\<lambda>i. i \<in> sID ` set summaries) (map PipelineID (effective p))) = Inl e)"
  shows "\<exists>e. CheckDependencies dur listDeps latestRuns p now = (False, [], ''dependency check failed: '' @ e)"
  using assms by (auto simp: CheckDependencies_def Let_def image_image)

lemma CheckDependencies_fail_closed_witness:
  "\<exists>e. CheckDependencies (\<lambda>_. []) (\<lambda>_. Inl ''db is locked'') (\<lambda>_. Inr [])
     \<lparr>sID = ''b'', sName = ''down'', sOrgID = ''o'', DependsOn = [''a''], DependencyRules = []\<rparr> 9 =
   (False, [], ''dependency check failed: '' @ e)"
  by (rule CheckDependencies_fail_closed) (simp_all add: effective_def EffectiveDependencies_def)

text \<open>
  A rule that passes validation has a freshness window that is computed without wrap-around:
  its nanoseconds are exactly the seconds times $10^9$, inside the range of a 64-bit duration.
\<close>

lemma validated_window_exact:
  assumes "Validate d = None"
  shows "Within d = WithinSec d * 1000000000 \<and> 0 \<le> Within d \<and> Within d < 2 ^ 63"
proof -
  have "0 \<le> WithinSec d" "WithinSec d \<le> maxDependencyWindow"
    using assms by (auto simp: Validate_def Let_def split: if_splits)
  then have "0 \<le> WithinSec d * 1000000000" "WithinSec d * 1000000000 < 2 ^ 63"
    by (simp_all add: maxDependencyWindow_def)
  then show ?thesis by (auto simp: Within_def i64_id)
qed

lemma validated_window_exact_witness:
  "Within \<lparr>PipelineID = ''a'', dState = [], WithinSec = 3153600000, dMode = []\<rparr> = 3153600000000000000"
  using validated_window_exact[of "\<lparr>PipelineID = ''a'', dState = [], WithinSec = 3153600000, dMode = []\<rparr>"]
  by (simp add: Validate_def dep_consts maxDependencyWindow_def)

text \<open>
  The effective dependencies name every upstream of either list exactly once, never the empty
  identifier, with a state and a mode filled in; an upstream that has an explicit rule keeps that
  rule, normalised.
\<close>

lemma EffectiveDependencies_correct:
  "distinct (map PipelineID (EffectiveDependencies rules legacy)) \<and>
   PipelineID ` set (EffectiveDependencies rules legacy) = (PipelineID ` set rules \<union> set legacy) - {[]} \<and>
   (\<forall>r \<in> set (EffectiveDependencies rules legacy). dState r \<noteq> [] \<and> dMode r \<noteq> []) \<and>
   (\<forall>r \<in> set (EffectiveDependencies rules legacy).
      PipelineID r \<in> PipelineID ` set rules \<longrightarrow> r \<in> Normalize ` set rules)"
proof -
  obtain seen out where t: "take_rules {} rules = (seen, out)" by fastforce
  have E: "EffectiveDependencies rules legacy = out @ take_legacy seen legacy"
    by (simp add: EffectiveDependencies_def t)
  have sub: "set out \<subseteq> Normalize ` set rules" and seen: "seen = PipelineID ` set out"
    and out: "PipelineID ` set out = PipelineID ` set rules - {[]}"
    using take_rules_spec[OF t] by simp_all
  have leg: "PipelineID r \<noteq> [] \<and> PipelineID r \<notin> seen" if "r \<in> set (take_legacy seen legacy)" for r
  proof -
    have "PipelineID r \<in> PipelineID ` set (take_legacy seen legacy)" using that by (rule imageI)
    then show ?thesis using take_legacy_spec[of seen legacy] by simp
  qed
  have "dState r \<noteq> [] \<and> dMode r \<noteq> []" if "r \<in> set (EffectiveDependencies rules legacy)" for r
  proof (cases "r \<in> set out")
    case True
    then obtain d where "r = Normalize d" using sub by blast
    then show ?thesis by (simp add: Normalize_normal)
  next
    case False
    then show ?thesis using that take_legacy_normal[of seen legacy] by (simp add: E)
  qed
  moreover have "r \<in> Normalize ` set rules"
    if "r \<in> set (EffectiveDependencies rules legacy)" "PipelineID r \<in> PipelineID ` set rules" for r
  proof (cases "r \<in> set out")
    case False
    then have "PipelineID r \<noteq> []" "PipelineID r \<notin> PipelineID ` set out" using that(1) leg[of r] by (simp_all add: E seen)
    then show ?thesis unfolding out using that(2) by simp
  qed (use sub in blast)
  ultimately show ?thesis using EffectiveDependencies_ids[of rules legacy] by simp
qed

lemma EffectiveDependencies_correct_witness:
  "Normalize \<lparr>PipelineID = ''a'', dState = ''failed'', WithinSec = 0, dMode = []\<rparr>
     \<in> set (EffectiveDependencies [\<lparr>PipelineID = ''a'', dState = ''failed'', WithinSec = 0, dMode = []\<rparr>] [''a''])"
proof -
  let ?d = "\<lparr>PipelineID = ''a'', dState = ''failed'', WithinSec = 0, dMode = []\<rparr>"
  note E = EffectiveDependencies_correct[of "[?d]" "[''a'']"]
  have "''a'' \<in> PipelineID ` set (EffectiveDependencies [?d] [''a''])" using E[THEN conjunct2, THEN conjunct1] by simp
  then obtain r where r: "r \<in> set (EffectiveDependencies [?d] [''a''])" "PipelineID r = ''a''" by auto
  have "r \<in> Normalize ` set [?d]"
    using bspec[OF E[THEN conjunct2, THEN conjunct2, THEN conjunct2] r(1)] r(2) by simp
  then show ?thesis using r(1) by simp
qed

end
