(* ===== verification/Pipe_Cycle.thy ===== *)
theory Pipe_Cycle
  imports Pipe_Deps
begin

text \<open>
  Cycle detection over pipeline dependencies: \<^verbatim>\<open>DetectDependencyCycle\<close>, \<^verbatim>\<open>walkForCycle\<close> and
  \<^verbatim>\<open>formatCyclePath\<close> of \<^verbatim>\<open>src/engine/dependencies.go\<close>. The recursive closure of the depth-first
  walk carries fuel for its depth; the number of identifiers in the graph is always enough.
\<close>

type_synonym adjacency = "(string \<times> string list) list"

definition succs :: "adjacency \<Rightarrow> string \<Rightarrow> string list" where
  "succs adj v = (case map_of adj v of None \<Rightarrow> [] | Some xs \<Rightarrow> xs)"

datatype colour = White | Gray | Black

type_synonym walk = "(string \<Rightarrow> colour) \<times> string list"

text \<open>\<open>None\<close>: out of fuel; \<open>Inl\<close>: the path that closes a cycle; \<open>Inr\<close>: the colours and the path.\<close>

fun visit :: "adjacency \<Rightarrow> nat \<Rightarrow> string \<Rightarrow> walk \<Rightarrow> (string list + walk) option"
and visit_all :: "adjacency \<Rightarrow> nat \<Rightarrow> string list \<Rightarrow> walk \<Rightarrow> (string list + walk) option" where
  "visit adj 0 v s = None"
| "visit adj (Suc n) v (c, p) =
     (case c v of
        Gray \<Rightarrow> Some (Inl (p @ [v]))
      | Black \<Rightarrow> Some (Inr (c, p))
      | White \<Rightarrow>
          (case visit_all adj n (succs adj v) (c(v := Gray), p @ [v]) of
             None \<Rightarrow> None
           | Some (Inl cycle) \<Rightarrow> Some (Inl cycle)
           | Some (Inr (c', p')) \<Rightarrow> Some (Inr (c'(v := Black), butlast p'))))"
| "visit_all adj n [] s = Some (Inr s)"
| "visit_all adj n (x # xs) s =
     (if x = [] then visit_all adj n xs s
      else case visit adj n x s of
        None \<Rightarrow> None
      | Some (Inl cycle) \<Rightarrow> Some (Inl cycle)
      | Some (Inr s') \<Rightarrow> visit_all adj n xs s')"

text \<open>\<open>None\<close>: out of fuel; \<open>Some None\<close>: the walk ended without an error; otherwise the path of the error.\<close>

definition walkForCycle :: "string \<Rightarrow> adjacency \<Rightarrow> string list option option" where
  "walkForCycle start adj =
     (let ids = start # map fst adj @ concat (map snd adj)
      in case visit adj (Suc (Suc (length ids))) start (\<lambda>_. White, []) of
           None \<Rightarrow> None
         | Some (Inl cycle) \<Rightarrow> Some (Some cycle)
         | Some (Inr _) \<Rightarrow> Some None)"

definition formatCyclePath :: "string list \<Rightarrow> (string \<times> string) list \<Rightarrow> string" where
  "formatCyclePath ids names =
     join_with '' -> '' (map (\<lambda>i. case map_of names i of Some n \<Rightarrow> if n \<noteq> [] then n else i | None \<Rightarrow> i) ids)"

definition persisted :: "PipelineDepSummary list \<Rightarrow> adjacency" where
  "persisted summaries = fold (\<lambda>s. mput (sID s) (map PipelineID (effective s))) summaries []"

definition candidateKey :: "Pipeline \<Rightarrow> string" where
  "candidateKey p = (if sID p = [] then ''__candidate__'' else sID p)"

definition overlay :: "PipelineDepSummary list \<Rightarrow> Pipeline \<Rightarrow> adjacency" where
  "overlay summaries p = mput (candidateKey p) (map PipelineID (effective p)) (persisted summaries)"

text \<open>\<open>WalkUnfinished\<close> stands for a walk that does not return; the code has no such error.\<close>

datatype cycle_error = ListFailed string | CycleFound string | WalkUnfinished

definition DetectDependencyCycle :: "(string \<Rightarrow> string + PipelineDepSummary list) \<Rightarrow> Pipeline option \<Rightarrow> cycle_error option" where
  "DetectDependencyCycle listDeps candidate =
     (case candidate of
        None \<Rightarrow> None
      | Some p \<Rightarrow>
          (case listDeps (sOrgID p) of
             Inl e \<Rightarrow> Some (ListFailed e)
           | Inr summaries \<Rightarrow>
               let names = mput (candidateKey p) (sName p) (fold (\<lambda>s. mput (sID s) (sName s)) summaries [])
               in case walkForCycle (candidateKey p) (overlay summaries p) of
                    None \<Rightarrow> Some WalkUnfinished
                  | Some None \<Rightarrow> None
                  | Some (Some cycle) \<Rightarrow> Some (CycleFound (''dependency cycle detected: '' @ formatCyclePath cycle names))))"

section \<open>The walk\<close>

definition dep_rel :: "adjacency \<Rightarrow> (string \<times> string) set" where
  "dep_rel adj = {(u, v). v \<in> set (succs adj u) \<and> v \<noteq> []}"

definition black :: "walk \<Rightarrow> string set" where
  "black s = {v. fst s v = Black}"

text \<open>
  The gray identifiers are the path, the path follows the graph, and the black identifiers are
  closed under it and lie on no cycle.
\<close>

definition walk_inv :: "adjacency \<Rightarrow> walk \<Rightarrow> bool" where
  "walk_inv adj s \<longleftrightarrow>
     (\<forall>v. fst s v = Gray \<longleftrightarrow> v \<in> set (snd s)) \<and> distinct (snd s) \<and>
     (\<forall>i. Suc i < length (snd s) \<longrightarrow> (snd s ! i, snd s ! Suc i) \<in> dep_rel adj) \<and>
     (\<forall>u v. u \<in> black s \<longrightarrow> (u, v) \<in> dep_rel adj \<longrightarrow> v \<in> black s) \<and>
     (\<forall>v \<in> black s. (v, v) \<notin> (dep_rel adj)\<^sup>+)"

definition reaches :: "string list \<Rightarrow> string \<Rightarrow> adjacency \<Rightarrow> bool" where
  "reaches p v adj \<longleftrightarrow> p = [] \<or> (last p, v) \<in> dep_rel adj"

lemma closed_trancl:
  assumes "\<forall>u v. u \<in> B \<longrightarrow> (u, v) \<in> R \<longrightarrow> v \<in> B" "(u, v) \<in> R\<^sup>*" "u \<in> B"
  shows "v \<in> B"
  using assms(2,3,1) by (induction rule: rtrancl_induct) auto

lemma path_step:
  assumes "\<forall>i. Suc i < length p \<longrightarrow> (p ! i, p ! Suc i) \<in> R" "i \<le> j" "j < length p"
  shows "(p ! i, p ! j) \<in> R\<^sup>*"
  using assms(2,3)
proof (induction j)
  case (Suc j)
  then show ?case using assms(1) by (cases "i = Suc j") (auto intro: rtrancl_into_rtrancl)
qed simp

lemma gray_closes_cycle:
  assumes "walk_inv adj (c, p)" "reaches p v adj" "c v = Gray"
  shows "(v, v) \<in> (dep_rel adj)\<^sup>+ \<and> (hd (p @ [v]), v) \<in> (dep_rel adj)\<^sup>*"
proof -
  from assms(1,3) have v: "v \<in> set p" by (simp add: walk_inv_def)
  then have ne: "p \<noteq> []" by auto
  obtain i where i: "i < length p" "p ! i = v" using v by (auto simp: in_set_conv_nth)
  note st = path_step[of p "dep_rel adj"]
  have ch: "\<forall>i. Suc i < length p \<longrightarrow> (p ! i, p ! Suc i) \<in> dep_rel adj" using assms(1) by (simp add: walk_inv_def)
  have "(p ! i, p ! (length p - 1)) \<in> (dep_rel adj)\<^sup>*" using st[OF ch, of i "length p - 1"] i by simp
  then have "(v, last p) \<in> (dep_rel adj)\<^sup>*" using i ne by (simp add: last_conv_nth)
  moreover have "(last p, v) \<in> dep_rel adj" using assms(2) ne by (simp add: reaches_def)
  ultimately have "(v, v) \<in> (dep_rel adj)\<^sup>+" by (rule rtrancl_into_trancl1)
  moreover have "(hd p, v) \<in> (dep_rel adj)\<^sup>*" using st[OF ch, of 0 i] i ne by (simp add: hd_conv_nth)
  ultimately show ?thesis using ne by simp
qed

lemma walk_inv_push:
  assumes "walk_inv adj (c, p)" "reaches p v adj" "c v = White"
  shows "walk_inv adj (c(v := Gray), p @ [v])"
proof -
  have "c v = Gray \<longleftrightarrow> v \<in> set p" using assms(1) by (simp add: walk_inv_def)
  then have nv: "v \<notin> set p" using assms(3) by simp
  have "((p @ [v]) ! i, (p @ [v]) ! Suc i) \<in> dep_rel adj" if "Suc i < length (p @ [v])" for i
  proof (cases "Suc i < length p")
    case True
    then show ?thesis using assms(1) by (simp add: walk_inv_def nth_append)
  next
    case False
    then have i: "Suc i = length p" using that by simp
    then have "p \<noteq> []" by auto
    then have "last p = p ! i" using i by (simp add: last_conv_nth[of p] flip: i)
    then show ?thesis using assms(2) i \<open>p \<noteq> []\<close> by (auto simp: reaches_def nth_append)
  qed
  moreover have "black (c(v := Gray), p @ [v]) = black (c, p)" using assms(3) by (auto simp: black_def)
  ultimately show ?thesis using assms(1,3) nv by (auto simp: walk_inv_def)
qed

lemma walk_inv_pop:
  assumes inv: "walk_inv adj (c, p @ [v])" and s: "\<And>u. (v, u) \<in> dep_rel adj \<Longrightarrow> u \<in> black (c, p @ [v])"
  shows "walk_inv adj (c(v := Black), p)"
proof -
  let ?B = "black (c, p @ [v])"
  have cv: "c v = Gray" and d: "distinct (p @ [v])" using inv by (auto simp: walk_inv_def)
  have B: "black (c(v := Black), p) = insert v ?B" by (auto simp: black_def)
  have cl: "\<forall>u w. u \<in> ?B \<longrightarrow> (u, w) \<in> dep_rel adj \<longrightarrow> w \<in> ?B" using inv by (simp add: walk_inv_def)
  have nv: "(v, v) \<notin> (dep_rel adj)\<^sup>+"
  proof
    assume "(v, v) \<in> (dep_rel adj)\<^sup>+"
    then obtain u where "(v, u) \<in> dep_rel adj" "(u, v) \<in> (dep_rel adj)\<^sup>*" by (meson tranclD)
    then have "v \<in> ?B" using closed_trancl[OF cl] s by blast
    then show False using cv by (simp add: black_def)
  qed
  have "(p ! i, p ! Suc i) \<in> dep_rel adj" if "Suc i < length p" for i
  proof -
    have "((p @ [v]) ! i, (p @ [v]) ! Suc i) \<in> dep_rel adj" using inv that unfolding walk_inv_def by auto
    then show ?thesis using that by (simp add: nth_append)
  qed
  then show ?thesis
    using inv d nv s cl unfolding walk_inv_def B by (auto simp: black_def)
qed

text \<open>What a walk from \<open>start\<close> returns.\<close>

definition cycle_from :: "adjacency \<Rightarrow> string \<Rightarrow> bool" where
  "cycle_from adj start \<longleftrightarrow> (\<exists>v. (start, v) \<in> (dep_rel adj)\<^sup>* \<and> (v, v) \<in> (dep_rel adj)\<^sup>+)"

definition walk_result :: "adjacency \<Rightarrow> string set \<Rightarrow> string \<Rightarrow> walk \<Rightarrow> string list + walk \<Rightarrow> bool" where
  "walk_result adj V h s r \<longleftrightarrow>
     (case r of
        Inl cycle \<Rightarrow> hd cycle = h \<and> (last cycle, last cycle) \<in> (dep_rel adj)\<^sup>+ \<and> (h, last cycle) \<in> (dep_rel adj)\<^sup>*
      | Inr s' \<Rightarrow> walk_inv adj s' \<and> snd s' = snd s \<and> black s \<subseteq> black s' \<and> V \<subseteq> black s')"

lemma visit_spec:
  "visit adj n v s = Some r \<Longrightarrow> walk_inv adj s \<Longrightarrow> reaches (snd s) v adj \<Longrightarrow> walk_result adj {v} (hd (snd s @ [v])) s r"
  "visit_all adj n xs s = Some r \<Longrightarrow> walk_inv adj s \<Longrightarrow> snd s \<noteq> [] \<Longrightarrow>
     set xs \<subseteq> set (succs adj (last (snd s))) \<Longrightarrow> walk_result adj (set xs - {[]}) (hd (snd s)) s r"
proof (induction adj n v s and adj n xs s arbitrary: r and r rule: visit_visit_all.induct)
  case (2 adj n v c p)
  show ?case
  proof (cases "c v")
    case Gray
    then have "r = Inl (p @ [v])" using "2.prems"(1) by simp
    then show ?thesis
      using gray_closes_cycle[OF "2.prems"(2) _ Gray] "2.prems"(3) by (cases p) (auto simp: walk_result_def)
  next
    case Black
    then have "r = Inr (c, p)" using "2.prems"(1) by simp
    then show ?thesis using "2.prems"(2) Black by (simp add: walk_result_def black_def)
  next
    case White
    let ?s = "(c(v := Gray), p @ [v])"
    obtain r' where va: "visit_all adj n (succs adj v) ?s = Some r'" using "2.prems"(1) White by (auto split: option.splits)
    have inv: "walk_inv adj ?s" using walk_inv_push[OF "2.prems"(2) _ White] "2.prems"(3) by simp
    have R: "walk_result adj (set (succs adj v) - {[]}) (hd (p @ [v])) ?s r'"
      using "2.IH"[OF White va inv] by simp
    show ?thesis
    proof (cases r')
      case (Inl cyc)
      then have "r = Inl cyc" using "2.prems"(1) White va by simp
      then show ?thesis using R Inl by (auto simp: walk_result_def hd_append split: if_splits)
    next
      case (Inr s')
      obtain c' p' where s': "s' = (c', p')" by fastforce
      have p': "p' = p @ [v]" and i': "walk_inv adj (c', p @ [v])"
        and B: "black ?s \<subseteq> black (c', p @ [v])" "set (succs adj v) - {[]} \<subseteq> black (c', p @ [v])"
        using R Inr s' by (auto simp: walk_result_def)
      have "walk_inv adj (c'(v := Black), p)"
        by (rule walk_inv_pop[OF i']) (use B(2) in \<open>auto simp: dep_rel_def\<close>)
      moreover have "r = Inr (c'(v := Black), p)" using "2.prems"(1) White va Inr s' p' by simp
      moreover have "black (c, p) \<subseteq> black (c'(v := Black), p)"
        using B(1) White by (auto simp: black_def split: if_splits)
      ultimately show ?thesis by (simp add: walk_result_def black_def)
    qed
  qed
next
  case (4 adj n x xs s)
  show ?case
  proof (cases "x = []")
    case True
    then have "walk_result adj (set xs - {[]}) (hd (snd s)) s r" using 4 by simp
    then show ?thesis using True by (auto simp: walk_result_def split: sum.splits)
  next
    case False
    then obtain r1 where v1: "visit adj n x s = Some r1" using "4.prems"(1) by (auto split: option.splits)
    have "(last (snd s), x) \<in> dep_rel adj" using "4.prems"(4) False by (simp add: dep_rel_def)
    then have R1: "walk_result adj {x} (hd (snd s @ [x])) s r1"
      using "4.IH"(2)[OF False v1 "4.prems"(2)] by (simp add: reaches_def)
    show ?thesis
    proof (cases r1)
      case (Inl cyc)
      then have "r = Inl cyc" using v1 False "4.prems"(1) by simp
      moreover have "hd (snd s @ [x]) = hd (snd s)" using "4.prems"(3) by (rule hd_append2)
      moreover have "hd cyc = hd (snd s @ [x])" "(last cyc, last cyc) \<in> (dep_rel adj)\<^sup>+" "(hd (snd s @ [x]), last cyc) \<in> (dep_rel adj)\<^sup>*"
        using R1 unfolding Inl walk_result_def by simp_all
      ultimately show ?thesis by (simp add: walk_result_def)
    next
      case (Inr s1)
      then have i1: "walk_inv adj s1" "snd s1 = snd s" and B1: "black s \<subseteq> black s1" "x \<in> black s1"
        using R1 by (auto simp: walk_result_def)
      have "visit_all adj n xs s1 = Some r" using "4.prems"(1) v1 False Inr by simp
      from "4.IH"(3)[OF False v1 Inr this i1(1)] "4.prems"(3,4) i1(2)
      have "walk_result adj (set xs - {[]}) (hd (snd s)) s1 r" by simp
      then show ?thesis using B1 i1(2) by (auto simp: walk_result_def split: sum.splits)
    qed
  qed
qed (auto simp: walk_result_def)

text \<open>Each level of the recursion puts one more identifier on the path, so depth is bounded.\<close>

lemma visit_fuel:
  assumes U: "finite U" "\<And>u. set (succs adj u) \<subseteq> U"
  shows "walk_inv adj s \<Longrightarrow> reaches (snd s) v adj \<Longrightarrow> v \<in> U \<Longrightarrow> set (snd s) \<subseteq> U \<Longrightarrow>
      card (U - set (snd s)) < n \<Longrightarrow> visit adj n v s \<noteq> None"
    "walk_inv adj s \<Longrightarrow> snd s \<noteq> [] \<Longrightarrow> set xs \<subseteq> set (succs adj (last (snd s))) \<Longrightarrow> set (snd s) \<subseteq> U \<Longrightarrow>
      card (U - set (snd s)) < n \<Longrightarrow> visit_all adj n xs s \<noteq> None"
  using U(2)
proof (induction adj n v s and adj n xs s rule: visit_visit_all.induct)
  case (2 adj n v c p)
  show ?case
  proof (cases "c v")
    case White
    have inv: "walk_inv adj (c(v := Gray), p @ [v])" using walk_inv_push[OF "2.prems"(1) _ White] "2.prems"(2) by simp
    have "c v = Gray \<longleftrightarrow> v \<in> set p" using "2.prems"(1) by (simp add: walk_inv_def)
    then have "v \<in> U - set p" using White "2.prems"(3) by auto
    then have "card (U - set p - {v}) < card (U - set p)" using U(1) by (intro card_Diff1_less) auto
    moreover have "U - set (p @ [v]) = U - set p - {v}" by auto
    ultimately have "card (U - set (p @ [v])) < n" using "2.prems"(5) by simp
    then have "visit_all adj n (succs adj v) (c(v := Gray), p @ [v]) \<noteq> None"
      using "2.IH"[OF White inv] "2.prems"(3,4,6) by simp
    then show ?thesis using White by (auto split: option.splits sum.splits)
  qed simp_all
next
  case (4 adj n x xs s)
  show ?case
  proof (cases "x = []")
    case True
    then show ?thesis using 4 by simp
  next
    case False
    have r: "reaches (snd s) x adj" using "4.prems"(2,3) False by (auto simp: reaches_def dep_rel_def)
    have "x \<in> U" using "4.prems"(3,6) by auto
    then have "visit adj n x s \<noteq> None" using "4.IH"(2)[OF False "4.prems"(1) r] "4.prems"(4-6) by blast
    then obtain r1 where v1: "visit adj n x s = Some r1" by blast
    show ?thesis
    proof (cases r1)
      case (Inr s1)
      have "walk_inv adj s1" "snd s1 = snd s"
        using visit_spec(1)[OF v1 "4.prems"(1) r] Inr by (auto simp: walk_result_def)
      then show ?thesis using "4.IH"(3)[OF False v1 Inr] "4.prems" v1 False Inr by simp
    qed (simp add: v1 False)
  qed
qed auto

definition graph_ids :: "adjacency \<Rightarrow> string \<Rightarrow> string list" where
  "graph_ids adj start = start # map fst adj @ concat (map snd adj)"

lemma succs_ids: "set (succs adj u) \<subseteq> set (graph_ids adj start)"
proof (cases "map_of adj u")
  case (Some xs)
  then have "(u, xs) \<in> set adj" by (rule map_of_SomeD)
  then show ?thesis using Some by (force simp: succs_def graph_ids_def)
qed (simp add: succs_def)

lemma walkForCycle_correct:
  "(cycle_from adj start \<longrightarrow> (\<exists>cyc. walkForCycle start adj = Some (Some cyc))) \<and>
   (\<not> cycle_from adj start \<longrightarrow> walkForCycle start adj = Some None)"
proof -
  let ?ids = "graph_ids adj start" and ?s = "(\<lambda>_. White, []) :: walk"
  let ?n = "Suc (Suc (length ?ids))"
  have inv: "walk_inv adj ?s" and r: "reaches (snd ?s) start adj" by (simp_all add: walk_inv_def reaches_def black_def)
  have "card (set ?ids - set (snd ?s)) < ?n" using card_length[of ?ids] by simp
  moreover have "start \<in> set ?ids" by (simp add: graph_ids_def)
  ultimately have "visit adj ?n start ?s \<noteq> None"
    using visit_fuel(1)[of "set ?ids" adj ?s start ?n] inv r succs_ids[of adj _ start] by simp
  then obtain res where v: "visit adj ?n start ?s = Some res" by blast
  note R = visit_spec(1)[OF v inv r]
  have w: "walkForCycle start adj = (case res of Inl cyc \<Rightarrow> Some (Some cyc) | Inr _ \<Rightarrow> Some None)"
    using v by (simp add: walkForCycle_def graph_ids_def Let_def)
  show ?thesis
  proof (cases res)
    case (Inl cyc)
    have "hd cyc = start" "(last cyc, last cyc) \<in> (dep_rel adj)\<^sup>+" "(start, last cyc) \<in> (dep_rel adj)\<^sup>*"
      using R unfolding Inl walk_result_def by simp_all
    then have "cycle_from adj start" unfolding cycle_from_def by (intro exI[of _ "last cyc"]) auto
    then show ?thesis using w Inl by simp
  next
    case (Inr s')
    then have i: "walk_inv adj s'" "start \<in> black s'" using R by (auto simp: walk_result_def)
    have "\<not> cycle_from adj start"
    proof
      assume "cycle_from adj start"
      then obtain u where u: "(start, u) \<in> (dep_rel adj)\<^sup>*" "(u, u) \<in> (dep_rel adj)\<^sup>+" by (auto simp: cycle_from_def)
      have "u \<in> black s'" by (rule closed_trancl[OF _ u(1) i(2)]) (use i(1) in \<open>simp add: walk_inv_def\<close>)
      then show False using i(1) u(2) by (auto simp: walk_inv_def)
    qed
    then show ?thesis using w Inr by simp
  qed
qed

text \<open>A cycle either stays inside the edges of the old graph or passes through the changed node.\<close>

lemma path_avoids_or_meets:
  assumes "(u, v) \<in> R\<^sup>+" and "\<And>a b. (a, b) \<in> R \<Longrightarrow> a \<noteq> k \<Longrightarrow> (a, b) \<in> Q"
  shows "(u, v) \<in> Q\<^sup>+ \<or> (u, k) \<in> R\<^sup>* \<and> (k, v) \<in> R\<^sup>+"
  using assms(1)
proof (induction rule: trancl_induct)
  case (base y)
  then show ?case using assms(2) by (cases "u = k") auto
next
  case (step y z)
  then show ?case
    by (cases "y = k") (auto dest: assms(2) trancl_into_rtrancl intro: trancl_into_trancl)
qed

lemmas cycle_avoids_or_meets = path_avoids_or_meets[where u = v and v = v for v]

section \<open>Properties\<close>

text \<open>
  C35. Saving a pipeline is checked exactly: the walk always ends (no depth bound is reached), the
  check reports a failed listing exactly when the pipelines of the organisation cannot be listed, and
  when they can it reports a cycle exactly if a dependency cycle can be reached from the pipeline in
  the graph of its organisation with its own rules overlaid, and nothing otherwise.
\<close>

theorem DetectDependencyCycle_correct:
  "(case listDeps (sOrgID p) of
      Inl e \<Rightarrow> DetectDependencyCycle listDeps (Some p) = Some (ListFailed e)
    | Inr summaries \<Rightarrow>
        if cycle_from (overlay summaries p) (candidateKey p)
        then \<exists>m. DetectDependencyCycle listDeps (Some p) = Some (CycleFound m)
        else DetectDependencyCycle listDeps (Some p) = None)"
proof (cases "listDeps (sOrgID p)")
  case (Inr summaries)
  then show ?thesis
    using walkForCycle_correct[of "overlay summaries p" "candidateKey p"]
    by (auto simp: DetectDependencyCycle_def Let_def)
qed (simp add: DetectDependencyCycle_def)

theorem DetectDependencyCycle_correct_witness:
  "cycle_from
     (overlay [\<lparr>sID = ''b'', sName = [], sOrgID = [], DependsOn = [''a''], DependencyRules = []\<rparr>]
        \<lparr>sID = ''a'', sName = [], sOrgID = [], DependsOn = [''b''], DependencyRules = []\<rparr>) ''a''"
proof -
  let ?p = "\<lparr>sID = ''a'', sName = [], sOrgID = [], DependsOn = [''b''], DependencyRules = []\<rparr>"
  let ?q = "\<lparr>sID = ''b'', sName = [], sOrgID = [], DependsOn = [''a''], DependencyRules = []\<rparr>"
  have "DetectDependencyCycle (\<lambda>_. Inr [?q]) (Some ?p) \<noteq> None" by code_simp
  then show ?thesis using DetectDependencyCycle_correct[of "\<lambda>_. Inr [?q]" ?p]
    by (auto simp: candidateKey_def split: if_splits)
qed

text \<open>
  C36. The dependency graph of an organisation stays acyclic: when the persisted graph has no cycle
  and a save is accepted, the graph with the saved rules has none.
\<close>

theorem accepted_save_keeps_acyclic:
  assumes "acyclic (dep_rel (persisted summaries))" and "listDeps (sOrgID p) = Inr summaries"
    and "DetectDependencyCycle listDeps (Some p) = None"
  shows "acyclic (dep_rel (overlay summaries p))"
proof (rule acyclicI, intro allI notI)
  let ?R = "dep_rel (overlay summaries p)" and ?k = "candidateKey p"
  fix v
  assume v: "(v, v) \<in> ?R\<^sup>+"
  have "walkForCycle ?k (overlay summaries p) = Some None"
    using assms(2,3) by (simp add: DetectDependencyCycle_def Let_def split: option.splits)
  then have none: "\<not> cycle_from (overlay summaries p) ?k" using walkForCycle_correct[of "overlay summaries p" ?k] by auto
  have step: "(a, b) \<in> dep_rel (persisted summaries)" if "(a, b) \<in> ?R" "a \<noteq> ?k" for a b
    using that by (simp add: dep_rel_def succs_def overlay_def)
  have "(v, v) \<in> (dep_rel (persisted summaries))\<^sup>+ \<or> (v, ?k) \<in> ?R\<^sup>* \<and> (?k, v) \<in> ?R\<^sup>+"
    by (rule cycle_avoids_or_meets[OF v step])
  then show False
  proof
    assume "(v, v) \<in> (dep_rel (persisted summaries))\<^sup>+"
    then show False using assms(1) by (auto simp: acyclic_def)
  next
    assume "(v, ?k) \<in> ?R\<^sup>* \<and> (?k, v) \<in> ?R\<^sup>+"
    then show False using none v unfolding cycle_from_def by (blast dest: trancl_into_rtrancl)
  qed
qed

theorem accepted_save_keeps_acyclic_witness:
  "acyclic (dep_rel (overlay [] \<lparr>sID = ''a'', sName = [], sOrgID = [], DependsOn = [''b''], DependencyRules = []\<rparr>))"
proof (rule accepted_save_keeps_acyclic[of "[]" "\<lambda>_. Inr []"])
  show "acyclic (dep_rel (persisted []))" by (simp add: dep_rel_def persisted_def succs_def acyclic_def)
  show "DetectDependencyCycle (\<lambda>_. Inr []) (Some \<lparr>sID = ''a'', sName = [], sOrgID = [], DependsOn = [''b''], DependencyRules = []\<rparr>) = None"
    by code_simp
qed simp

end
