(* ===== verification/Pipe_Model.thy ===== *)
theory Pipe_Model
  imports Dag_Order Pipe_Deps
begin

text \<open>
  A pipeline as it is stored (\<^verbatim>\<open>src/models/pipeline.go\<close>): nodes with their configuration, declared
  interface and capabilities, edges with ports, and the schedule and dependency settings. The
  graph theories see its nodes and edges truncated to identifiers.
\<close>

section \<open>Pipelines\<close>

record VNode = Node +
  Config :: gomap
  Interface :: "gomap option"
  Capabilities :: "string list"

record VEdge = Edge +
  FromPort :: string
  ToPort :: string

record VPipeline =
  pID :: string
  IRVersion :: string
  pName :: string
  Description :: string
  Nodes :: "VNode list"
  Edges :: "VEdge list"
  Schedule :: string
  ScheduleTimezone :: string
  SLADeadline :: string
  SLATimezone :: string
  pDependsOn :: "string list"
  pDependencyRules :: "DependencyRule list"

definition zeroVNode :: VNode where
  "zeroVNode = \<lparr>nID = [], nType = [], nName = [], Config = [], Interface = None, Capabilities = []\<rparr>"

abbreviation plain_nodes :: "VPipeline \<Rightarrow> Node list" where
  "plain_nodes p \<equiv> map Node.truncate (Nodes p)"

abbreviation plain_edges :: "VPipeline \<Rightarrow> Edge list" where
  "plain_edges p \<equiv> map Edge.truncate (Edges p)"

end
