(* ===== verification/Data_Key.thy ===== *)
theory Data_Key
  imports Go_Prelude "HOL-Library.Sublist"
begin

text \<open>
  The identity of values and rows: \<^verbatim>\<open>valueKey\<close>, \<^verbatim>\<open>floatKey\<close> and \<^verbatim>\<open>valuesKey\<close> of
  \<^verbatim>\<open>src/engine/value_key.go\<close>, and \<^verbatim>\<open>deduplicate\<close> of \<^verbatim>\<open>src/engine/transform.go\<close>. The shortest
  spelling of a float and the \<^verbatim>\<open>%T:%#v\<close> rendering of containers are arguments.
\<close>

type_synonym DataRow = gomap

record DataSet =
  Columns :: "string list"
  Rows :: "DataRow list"

definition whole :: "rat \<Rightarrow> bool" where
  "whole r \<longleftrightarrow> of_int (trunc_rat r) = r"

definition floatKey :: "(f64 \<Rightarrow> string) \<Rightarrow> f64 \<Rightarrow> string" where
  "floatKey ff f =
     (case f of
        Fin r \<Rightarrow> if whole r \<and> - (2 ^ 63) \<le> r \<and> r < 2 ^ 63 then ''n:'' @ show_int (trunc_rat r) else ''f:'' @ ff f
      | _ \<Rightarrow> ''f:'' @ ff f)"

fun valueKey :: "(f64 \<Rightarrow> string) \<Rightarrow> (goval \<Rightarrow> string) \<Rightarrow> goval \<Rightarrow> string" where
  "valueKey ff gs VNil = ''z''"
| "valueKey ff gs (VStr s) = ''s:'' @ s"
| "valueKey ff gs (VBool b) = (if b then ''b:1'' else ''b:0'')"
| "valueKey ff gs (VInt i) = ''n:'' @ show_int i"
| "valueKey ff gs (VInt64 i) = ''n:'' @ show_int i"
| "valueKey ff gs (VUint64 i) = ''n:'' @ show_int i"
| "valueKey ff gs (VFloat f) = floatKey ff f"
| "valueKey ff gs (VList l) = gs (VList l)"
| "valueKey ff gs (VMap m) = gs (VMap m)"

fun valuesKey :: "(f64 \<Rightarrow> string) \<Rightarrow> (goval \<Rightarrow> string) \<Rightarrow> goval list \<Rightarrow> string" where
  "valuesKey ff gs [] = []"
| "valuesKey ff gs (v # vs) = (let k = valueKey ff gs v in show_nat (length k) @ '':'' @ k @ valuesKey ff gs vs)"

text \<open>The loop of \<^verbatim>\<open>deduplicate\<close>; \<open>seen\<close> is the map of keys taken.\<close>

fun dedup_rows :: "(DataRow \<Rightarrow> string) \<Rightarrow> string list \<Rightarrow> DataRow list \<Rightarrow> DataRow list" where
  "dedup_rows key seen [] = []"
| "dedup_rows key seen (row # rows) =
     (if key row \<in> set seen then dedup_rows key seen rows
      else row # dedup_rows key (key row # seen) rows)"

definition row_key :: "(f64 \<Rightarrow> string) \<Rightarrow> (goval \<Rightarrow> string) \<Rightarrow> string list \<Rightarrow> DataRow \<Rightarrow> string" where
  "row_key ff gs cols row = valuesKey ff gs (map (mget row) cols)"

definition deduplicate :: "(f64 \<Rightarrow> string) \<Rightarrow> (goval \<Rightarrow> string) \<Rightarrow> string list \<Rightarrow> DataSet \<Rightarrow> DataSet" where
  "deduplicate ff gs cols ds = ds\<lparr>Rows := dedup_rows (row_key ff gs cols) [] (Rows ds)\<rparr>"

section \<open>Keys of values\<close>

text \<open>
  What the key stands for: numbers are the same when they have the same value, whatever type
  carries them; any other two values when they are equal.
\<close>

fun num_of :: "goval \<Rightarrow> rat option" where
  "num_of (VInt i) = Some (of_int i)"
| "num_of (VInt64 i) = Some (of_int i)"
| "num_of (VUint64 i) = Some (of_int i)"
| "num_of (VFloat (Fin r)) = Some r"
| "num_of _ = None"

definition same_value :: "goval \<Rightarrow> goval \<Rightarrow> bool" where
  "same_value a b \<longleftrightarrow> (case (num_of a, num_of b) of (None, None) \<Rightarrow> a = b | (x, y) \<Rightarrow> x = y)"

text \<open>A scalar; an integer lies in the range of \<^verbatim>\<open>int64\<close>.\<close>

fun scalar :: "goval \<Rightarrow> bool" where
  "scalar (VInt i) \<longleftrightarrow> - (2 ^ 63) \<le> i \<and> i < 2 ^ 63"
| "scalar (VInt64 i) \<longleftrightarrow> - (2 ^ 63) \<le> i \<and> i < 2 ^ 63"
| "scalar (VUint64 i) \<longleftrightarrow> - (2 ^ 63) \<le> i \<and> i < 2 ^ 63"
| "scalar (VList _) \<longleftrightarrow> False"
| "scalar (VMap _) \<longleftrightarrow> False"
| "scalar _ \<longleftrightarrow> True"

lemma trunc_of_int [simp]: "trunc_rat (of_int i) = i"
  by (simp add: trunc_rat_def flip: of_int_minus)

lemma whole_of_int [simp]: "whole (of_int i)"
  by (simp add: whole_def)

text \<open>The key of a scalar number: by its value where that is an integer of 64 bits.\<close>

lemma number_key:
  assumes "num_of v = Some r" "scalar v"
  shows "valueKey ff gs v =
    (if whole r \<and> - (2 ^ 63) \<le> r \<and> r < 2 ^ 63 then ''n:'' @ show_int (trunc_rat r) else ''f:'' @ ff (Fin r))"
proof (cases v)
  case (VFloat f)
  then show ?thesis using assms by (cases f) (auto simp: floatKey_def)
qed (use assms in auto)

lemma other_float_key: "num_of (VFloat f) = None \<Longrightarrow> floatKey ff f = ''f:'' @ ff f"
  by (cases f) (simp_all add: floatKey_def)

lemma other_key:
  assumes "num_of a = None" "num_of b = None" "scalar a" "scalar b"
    and "\<And>f g. a = VFloat f \<Longrightarrow> b = VFloat g \<Longrightarrow> ff f = ff g \<Longrightarrow> f = g"
  shows "valueKey ff gs a = valueKey ff gs b \<longleftrightarrow> a = b"
proof (cases "\<exists>f g. a = VFloat f \<and> b = VFloat g")
  case True
  then obtain f g where fg: "a = VFloat f" "b = VFloat g" by blast
  have "floatKey ff f = ''f:'' @ ff f" "floatKey ff g = ''f:'' @ ff g"
    using assms(1,2) fg by (simp_all add: other_float_key)
  then show ?thesis using assms(5)[OF fg] fg by auto
next
  case False
  have fl: "floatKey ff f = ''f:'' @ ff f" if "a = VFloat f \<or> b = VFloat f" for f
    using assms(1,2) that by (metis other_float_key)
  show ?thesis using assms(1-4) False fl by (cases a; cases b) simp_all
qed

lemma mixed_key:
  assumes "num_of a = Some r" "num_of b = None" "scalar a" "scalar b"
    and "\<And>f g. a = VFloat f \<Longrightarrow> b = VFloat g \<Longrightarrow> ff f = ff g \<Longrightarrow> f = g"
  shows "valueKey ff gs a \<noteq> valueKey ff gs b"
proof (cases "\<exists>g. b = VFloat g")
  case True
  then obtain g where g: "b = VFloat g" by blast
  have k: "valueKey ff gs b = ''f:'' @ ff g" using assms(2) g by (simp add: other_float_key)
  show ?thesis
  proof (cases "\<exists>f. a = VFloat f")
    case True
    then obtain f where f: "a = VFloat f" by blast
    then have "ff f \<noteq> ff g" using assms(5)[OF f g] assms(1,2) g by auto
    moreover have "f = Fin r" using assms(1) f by (cases f) auto
    ultimately show ?thesis using number_key[OF assms(1,3)] k by simp
  next
    case False
    then have "valueKey ff gs a = ''n:'' @ show_int (trunc_rat r)" using assms(1,3) by (cases a) auto
    then show ?thesis using k by simp
  qed
next
  case False
  then show ?thesis using number_key[OF assms(1,3)] assms(2,4) by (cases b) (auto split: if_splits)
qed

lemma valueKey_same:
  assumes "scalar a" "scalar b"
    and inj: "\<And>f g. a = VFloat f \<Longrightarrow> b = VFloat g \<Longrightarrow> ff f = ff g \<Longrightarrow> f = g"
  shows "valueKey ff gs a = valueKey ff gs b \<longleftrightarrow> same_value a b"
proof (cases "num_of a")
  case None
  show ?thesis
  proof (cases "num_of b")
    case None
    then show ?thesis using other_key[OF \<open>num_of a = None\<close> None assms(1,2) inj] \<open>num_of a = None\<close>
      by (simp add: same_value_def)
  next
    case (Some r)
    have "valueKey ff gs b \<noteq> valueKey ff gs a" by (rule mixed_key[OF Some None assms(2,1)]) (use inj in metis)
    then show ?thesis using None Some by (auto simp: same_value_def)
  qed
next
  case (Some x)
  show ?thesis
  proof (cases "num_of b")
    case None
    then show ?thesis using mixed_key[OF Some None assms(1,2) inj] Some by (auto simp: same_value_def)
  next
    case (Some y)
    have fl: "v = VFloat (Fin r)" if "num_of v = Some r" "scalar v" "\<not> (whole r \<and> - (2 ^ 63) \<le> r \<and> r < 2 ^ 63)" for v r
      using that by (cases v rule: num_of.cases) auto
    have eq: "x = y" if "ff (Fin x) = ff (Fin y)" "\<not> (whole x \<and> - (2 ^ 63) \<le> x \<and> x < 2 ^ 63)"
      "\<not> (whole y \<and> - (2 ^ 63) \<le> y \<and> y < 2 ^ 63)"
      using inj[OF fl[OF \<open>num_of a = Some x\<close> assms(1) that(2)] fl[OF Some assms(2) that(3)] that(1)] by simp
    let ?in = "\<lambda>r :: rat. whole r \<and> - (2 ^ 63) \<le> r \<and> r < 2 ^ 63"
    have "show_int (trunc_rat x) = show_int (trunc_rat y) \<longleftrightarrow> x = y" if "?in x" "?in y"
      using that unfolding whole_def by (metis show_int_inj)
    moreover have "ff (Fin x) = ff (Fin y) \<longleftrightarrow> x = y" if "\<not> ?in x" "\<not> ?in y"
      using eq[OF _ that] by blast
    moreover have "x \<noteq> y" if "?in x \<noteq> ?in y" using that by blast
    ultimately have "valueKey ff gs a = valueKey ff gs b \<longleftrightarrow> x = y"
      unfolding number_key[OF \<open>num_of a = Some x\<close> assms(1)] number_key[OF Some assms(2)]
      by (cases "?in x"; cases "?in y") (simp_all only: if_True if_False, auto)
    then show ?thesis using Some \<open>num_of a = Some x\<close> by (simp add: same_value_def)
  qed
qed

section \<open>Keys of rows\<close>

lemma split_at_fresh: "c \<notin> set a \<Longrightarrow> c \<notin> set b \<Longrightarrow> a @ c # x = b @ c # y \<longleftrightarrow> a = b \<and> x = y"
proof (induction a arbitrary: b)
  case Nil
  then show ?case by (cases b) auto
next
  case (Cons z a)
  then show ?case by (cases b) auto
qed

text \<open>The lengths make the encoding of a row uniquely decodable.\<close>

lemma valuesKey_unique: "valuesKey ff gs xs = valuesKey ff gs ys \<longleftrightarrow> map (valueKey ff gs) xs = map (valueKey ff gs) ys"
proof (induction xs arbitrary: ys)
  case Nil
  then show ?case by (cases ys) (auto simp: Let_def)
next
  case (Cons x xs)
  show ?case
  proof (cases ys)
    case Nil
    then show ?thesis by (simp add: Let_def)
  next
    case (Cons y zs)
    then show ?thesis
      using Cons.IH[of zs] split_at_fresh[OF colon_not_digit colon_not_digit]
      by (auto simp: Let_def append_eq_append_conv)
  qed
qed

definition same_row :: "string list \<Rightarrow> DataRow \<Rightarrow> DataRow \<Rightarrow> bool" where
  "same_row cols r r' \<longleftrightarrow> (\<forall>c \<in> set cols. same_value (mget r c) (mget r' c))"

definition keyed :: "(f64 \<Rightarrow> string) \<Rightarrow> string list \<Rightarrow> DataRow list \<Rightarrow> bool" where
  "keyed ff cols rows \<longleftrightarrow>
     (\<forall>r \<in> set rows. \<forall>c \<in> set cols. scalar (mget r c)) \<and>
     (\<forall>r \<in> set rows. \<forall>r' \<in> set rows. \<forall>c \<in> set cols. \<forall>f g.
        mget r c = VFloat f \<longrightarrow> mget r' c = VFloat g \<longrightarrow> ff f = ff g \<longrightarrow> f = g)"

lemma row_key_same:
  assumes "keyed ff cols rows" "r \<in> set rows" "r' \<in> set rows"
  shows "row_key ff gs cols r = row_key ff gs cols r' \<longleftrightarrow> same_row cols r r'"
proof -
  have "valueKey ff gs (mget r c) = valueKey ff gs (mget r' c) \<longleftrightarrow> same_value (mget r c) (mget r' c)"
    if "c \<in> set cols" for c
    by (rule valueKey_same) (use assms that in \<open>auto simp: keyed_def\<close>)
  then show ?thesis by (simp add: row_key_def valuesKey_unique same_row_def)
qed

lemma dedup_rows_spec:
  "subseq (dedup_rows key seen rows) rows \<and>
   (\<forall>r \<in> set rows. key r \<in> set seen \<or> (\<exists>r' \<in> set (dedup_rows key seen rows). key r' = key r)) \<and>
   (\<forall>r \<in> set (dedup_rows key seen rows). key r \<notin> set seen) \<and>
   distinct (map key (dedup_rows key seen rows))"
proof (induction key seen rows rule: dedup_rows.induct)
  case (2 key seen row rows)
  then show ?case by (cases "key row \<in> set seen") auto
qed simp

section \<open>Properties\<close>

text \<open>
  C38. Deduplication keeps, in order, one row of each class of rows that agree on the columns: the
  kept rows are a subsequence of the input, every input row agrees with a kept one, and no two
  kept rows agree. Numbers agree by value whatever type carries them; text never agrees with a
  number. It holds for scalar values with integers in the range of int64 and a float rendering
  that tells the floats at hand apart.
\<close>

theorem deduplicate_correct:
  assumes "keyed ff cols (Rows ds)" and "kept = Rows (deduplicate ff gs cols ds)"
  shows "subseq kept (Rows ds) \<and> (\<forall>r \<in> set (Rows ds). \<exists>r' \<in> set kept. same_row cols r' r) \<and>
    (\<forall>i j. i < j \<longrightarrow> j < length kept \<longrightarrow> \<not> same_row cols (kept ! i) (kept ! j))"
proof -
  have k: "kept = dedup_rows (row_key ff gs cols) [] (Rows ds)" by (simp add: assms(2) deduplicate_def)
  note S = dedup_rows_spec[of "row_key ff gs cols" "[]" "Rows ds", folded k]
  have sub: "set kept \<subseteq> set (Rows ds)" using S by (auto dest: list_emb_set)
  note same = row_key_same[OF assms(1)]
  have "\<not> same_row cols (kept ! i) (kept ! j)" if "i < j" "j < length kept" for i j
  proof -
    have "kept ! i \<in> set (Rows ds)" "kept ! j \<in> set (Rows ds)" using sub that by (auto intro: nth_mem)
    moreover have "row_key ff gs cols (kept ! i) \<noteq> row_key ff gs cols (kept ! j)"
      using S that nth_eq_iff_index_eq[of "map (row_key ff gs cols) kept" i j] by simp
    ultimately show ?thesis using same by blast
  qed
  moreover have "\<exists>r' \<in> set kept. same_row cols r' r" if "r \<in> set (Rows ds)" for r
    using S that same sub by (metis empty_iff list.set(1) subsetD)
  ultimately show ?thesis using S by blast
qed

theorem deduplicate_correct_witness:
  "let rows = [[(''a'', VInt64 5)], [(''a'', VFloat (Fin 5))], [(''a'', VStr ''5'')]]
   in keyed (\<lambda>_. []) [''a''] rows \<and>
      (\<exists>r' \<in> set (Rows (deduplicate (\<lambda>_. []) (\<lambda>_. []) [''a''] \<lparr>Columns = [''a''], Rows = rows\<rparr>)).
         same_row [''a''] r' [(''a'', VFloat (Fin 5))])"
proof -
  define ds where "ds = \<lparr>Columns = [''a''], Rows = [[(''a'', VInt64 5)], [(''a'', VFloat (Fin 5))], [(''a'', VStr ''5'')]]\<rparr>"
  have k: "keyed (\<lambda>_. []) [''a''] (Rows ds)" by (auto simp: keyed_def ds_def mget_def)
  have "[(''a'', VFloat (Fin 5))] \<in> set (Rows ds)" by (simp add: ds_def)
  then have "\<exists>r' \<in> set (Rows (deduplicate (\<lambda>_. []) (\<lambda>_. []) [''a''] ds)). same_row [''a''] r' [(''a'', VFloat (Fin 5))]"
    using deduplicate_correct[OF k refl] by blast
  then show ?thesis using k by (simp add: ds_def Let_def)
qed

text \<open>
  Above the range of int64 the same number has two keys: a \<^verbatim>\<open>uint64\<close> of $2^{63}$ is keyed as an
  integer and the equal \<^verbatim>\<open>float64\<close> by its spelling, so they neither join nor deduplicate.
\<close>

lemma uint64_float_keys_differ:
  "same_value (VUint64 (2 ^ 63)) (VFloat (Fin (2 ^ 63))) \<and>
   valueKey ff gs (VUint64 (2 ^ 63)) \<noteq> valueKey ff gs (VFloat (Fin (2 ^ 63)))"
  by (simp add: same_value_def floatKey_def)

end
