(* ===== verification/Data_Join.thy ===== *)
theory Data_Join
  imports Data_Key
begin

text \<open>
  Joins and unions of datasets: \<^verbatim>\<open>src/engine/join.go\<close> and \<^verbatim>\<open>src/engine/union.go\<close>. The hash join is
  compared with a nested loop over the two inputs.
\<close>

section \<open>The column plan\<close>

datatype JoinType = JoinInner | JoinLeft | JoinRight | JoinFull

definition JoinCollisionPrefix :: string where "JoinCollisionPrefix = ''prefix''"
definition JoinCollisionError :: string where "JoinCollisionError = ''error''"
definition JoinCollisionAlias :: string where "JoinCollisionAlias = ''alias''"

lemmas join_consts = JoinCollisionPrefix_def JoinCollisionError_def JoinCollisionAlias_def

record JoinOptions =
  CollisionPolicy :: string
  RightAlias :: string

datatype join_error =
    PolicyUnsupported string | AliasRequired string | AliasNotAllowed
  | LeftDuplicate string | RightDuplicate string | LeftKeyMissing string | RightKeyMissing string
  | CollisionsRejected "string list" | NotUnique string string
  | TwoInputs | KeyColumns

text \<open>\<^verbatim>\<open>strings.TrimSpace(s) == ""\<close>, for the white space of ASCII.\<close>

definition blank :: "string \<Rightarrow> bool" where
  "blank s = list_all (\<lambda>c. c \<in> {CHR '' '', CHR 0x09, CHR 0x0A, CHR 0x0B, CHR 0x0C, CHR 0x0D}) s"

fun first_duplicate :: "string list \<Rightarrow> string list \<Rightarrow> string option" where
  "first_duplicate seen [] = None"
| "first_duplicate seen (c # cs) = (if c \<in> set seen then Some c else first_duplicate (c # seen) cs)"

text \<open>The loop that prefixes a name until it is free.\<close>

lemma length_le_sum: "x \<in> set xs \<Longrightarrow> length x \<le> sum_list (map length xs)"
  by (simp add: member_le_sum_list)

function prefix_fresh :: "string list \<Rightarrow> string \<Rightarrow> string" where
  "prefix_fresh used out = (if out \<in> set used then prefix_fresh used (''right_'' @ out) else out)"
  by pat_completeness auto
termination
  by (relation "measure (\<lambda>(used, out). Suc (sum_list (map length used)) - length out)")
    (auto dest!: length_le_sum)

declare prefix_fresh.simps [simp del]

definition output_name :: "string \<Rightarrow> string \<Rightarrow> bool \<Rightarrow> string list \<Rightarrow> string \<Rightarrow> string" where
  "output_name policy ralias colliding used c =
     (if policy = JoinCollisionAlias then ralias @ ''_'' @ c
      else if policy = JoinCollisionPrefix \<and> colliding then prefix_fresh used (''right_'' @ c)
      else c)"

text \<open>The naming loop; \<open>skip\<close> holds of the key column that both sides share.\<close>

fun name_right :: "string \<Rightarrow> string \<Rightarrow> bool \<Rightarrow> (string \<Rightarrow> bool) \<Rightarrow> string list \<Rightarrow> string list \<Rightarrow> join_error + (string \<times> string) list" where
  "name_right policy ralias colliding skip used [] = Inr []"
| "name_right policy ralias colliding skip used (c # cs) =
     (if skip c then name_right policy ralias colliding skip used cs
      else
        let out = output_name policy ralias colliding used c
        in if out \<in> set used then Inl (NotUnique policy out)
           else case name_right policy ralias colliding skip (out # used) cs of
                  Inl e \<Rightarrow> Inl e
                | Inr names \<Rightarrow> Inr ((c, out) # names))"

definition planJoinColumns ::
  "string list \<Rightarrow> string list \<Rightarrow> string \<Rightarrow> string \<Rightarrow> JoinOptions \<Rightarrow> join_error + (string list \<times> (string \<times> string) list)" where
  "planJoinColumns leftColumns rightColumns leftKey rightKey options =
     (let policy = (if CollisionPolicy options = [] then JoinCollisionPrefix else CollisionPolicy options);
          skip = (\<lambda>c. c = rightKey \<and> leftKey = rightKey);
          collisions = filter (\<lambda>c. c \<in> set leftColumns \<and> \<not> skip c) rightColumns
      in if policy \<noteq> JoinCollisionPrefix \<and> policy \<noteq> JoinCollisionError \<and> policy \<noteq> JoinCollisionAlias
         then Inl (PolicyUnsupported policy)
         else if policy = JoinCollisionAlias \<and> blank (RightAlias options) then Inl (AliasRequired policy)
         else if policy \<noteq> JoinCollisionAlias \<and> RightAlias options \<noteq> [] then Inl AliasNotAllowed
         else case first_duplicate [] leftColumns of
           Some c \<Rightarrow> Inl (LeftDuplicate c)
         | None \<Rightarrow>
             case first_duplicate [] rightColumns of
               Some c \<Rightarrow> Inl (RightDuplicate c)
             | None \<Rightarrow>
                 if leftKey \<notin> set leftColumns then Inl (LeftKeyMissing leftKey)
                 else if rightKey \<notin> set rightColumns then Inl (RightKeyMissing rightKey)
                 else if policy = JoinCollisionError \<and> collisions \<noteq> [] then Inl (CollisionsRejected collisions)
                 else case name_right policy (RightAlias options) (collisions \<noteq> []) skip leftColumns rightColumns of
                        Inl e \<Rightarrow> Inl e
                      | Inr names \<Rightarrow> Inr (leftColumns @ map snd names, names))"

section \<open>The join\<close>

definition joinValueKey :: "(goval \<Rightarrow> string) \<Rightarrow> goval \<Rightarrow> string option" where
  "joinValueKey vk v = (if v = VNil then None else Some (vk v))"

definition out_name :: "(string \<times> string) list \<Rightarrow> string \<Rightarrow> string" where
  "out_name names c = (case map_of names c of None \<Rightarrow> [] | Some n \<Rightarrow> n)"

definition mergeRows :: "DataRow \<Rightarrow> DataRow \<Rightarrow> string list \<Rightarrow> string \<Rightarrow> string \<Rightarrow> (string \<times> string) list \<Rightarrow> DataRow" where
  "mergeRows leftRow rightRow rightCols rightKey leftKey names =
     fold (\<lambda>c m. if c = rightKey \<and> leftKey = rightKey then m else mput (out_name names c) (mget rightRow c) m)
       rightCols leftRow"

definition mergeUnmatchedLeft :: "DataRow \<Rightarrow> string list \<Rightarrow> string \<Rightarrow> string \<Rightarrow> (string \<times> string) list \<Rightarrow> DataRow" where
  "mergeUnmatchedLeft leftRow rightColumns rightKey leftKey names =
     fold (\<lambda>c m. if c = rightKey \<and> leftKey = rightKey then m else mput (out_name names c) VNil m)
       rightColumns leftRow"

definition merge_unmatched_right :: "string list \<Rightarrow> DataRow \<Rightarrow> string \<Rightarrow> string \<Rightarrow> (string \<times> string) list \<Rightarrow> DataRow" where
  "merge_unmatched_right leftCols rightRow rightKey leftKey names =
     fold (\<lambda>(k, v) m. if k = rightKey \<and> leftKey = rightKey then mput k v m else mput (out_name names k) v m)
       rightRow (fold (\<lambda>c. mput c VNil) leftCols [])"

type_synonym row_index = "(string \<times> DataRow list) list"

definition index_row :: "(DataRow \<Rightarrow> string option) \<Rightarrow> DataRow \<Rightarrow> row_index \<Rightarrow> row_index" where
  "index_row key row idx =
     (case key row of
        None \<Rightarrow> idx
      | Some k \<Rightarrow> mput k ((case map_of idx k of None \<Rightarrow> [] | Some rs \<Rightarrow> rs) @ [row]) idx)"

text \<open>One left row: its output rows are appended, and its key is recorded when it matched.\<close>

definition join_left ::
  "(DataRow \<Rightarrow> string option) \<Rightarrow> row_index \<Rightarrow> (DataRow \<Rightarrow> DataRow \<Rightarrow> DataRow) \<Rightarrow> (DataRow \<Rightarrow> DataRow) \<Rightarrow> bool \<Rightarrow> DataRow \<Rightarrow>
   DataRow list \<times> string set \<Rightarrow> DataRow list \<times> string set" where
  "join_left key idx merge pad outer leftRow = (\<lambda>(out, matched).
     case key leftRow of
       None \<Rightarrow> (if outer then out @ [pad leftRow] else out, matched)
     | Some k \<Rightarrow>
         (case map_of idx k of
            Some rs \<Rightarrow> (out @ map (merge leftRow) rs, insert k matched)
          | None \<Rightarrow> (if outer then out @ [pad leftRow] else out, matched)))"

definition join_right :: "(DataRow \<Rightarrow> string option) \<Rightarrow> string set \<Rightarrow> (DataRow \<Rightarrow> DataRow) \<Rightarrow> DataRow list \<Rightarrow> DataRow list" where
  "join_right key matched pad rows =
     map pad (filter (\<lambda>r. case key r of None \<Rightarrow> True | Some k \<Rightarrow> k \<notin> matched) rows)"

definition JoinDatasetsWithOptions ::
  "(goval \<Rightarrow> string) \<Rightarrow> DataSet option \<Rightarrow> DataSet option \<Rightarrow> string \<Rightarrow> string \<Rightarrow> JoinType \<Rightarrow> JoinOptions \<Rightarrow> join_error + DataSet" where
  "JoinDatasetsWithOptions vk left right leftKey rightKey joinType options =
     (case (left, right) of
        (Some l, Some r) \<Rightarrow>
          if leftKey = [] \<or> rightKey = [] then Inl KeyColumns
          else (case planJoinColumns (Columns l) (Columns r) leftKey rightKey options of
                  Inl e \<Rightarrow> Inl e
                | Inr (outCols, names) \<Rightarrow>
                    let lkey = (\<lambda>row. joinValueKey vk (mget row leftKey));
                        rkey = (\<lambda>row. joinValueKey vk (mget row rightKey));
                        idx = fold (index_row rkey) (Rows r) [];
                        (out, matched) = fold (join_left lkey idx
                           (\<lambda>lr rr. mergeRows lr rr (Columns r) rightKey leftKey names)
                           (\<lambda>lr. mergeUnmatchedLeft lr (Columns r) rightKey leftKey names)
                           (joinType = JoinLeft \<or> joinType = JoinFull)) (Rows l) ([], {});
                        extra = (if joinType = JoinRight \<or> joinType = JoinFull
                           then join_right rkey matched (\<lambda>rr. merge_unmatched_right (Columns l) rr rightKey leftKey names) (Rows r)
                           else [])
                    in Inr \<lparr>Columns = outCols, Rows = out @ extra\<rparr>)
      | _ \<Rightarrow> Inl TwoInputs)"

definition JoinDatasets ::
  "(goval \<Rightarrow> string) \<Rightarrow> DataSet option \<Rightarrow> DataSet option \<Rightarrow> string \<Rightarrow> string \<Rightarrow> JoinType \<Rightarrow> join_error + DataSet" where
  "JoinDatasets vk left right leftKey rightKey joinType =
     JoinDatasetsWithOptions vk left right leftKey rightKey joinType
       \<lparr>CollisionPolicy = JoinCollisionPrefix, RightAlias = []\<rparr>"

definition ParseJoinType :: "string \<Rightarrow> JoinType" where
  "ParseJoinType s =
     (let t = lower s in
      if t = ''left'' then JoinLeft
      else if t = ''right'' then JoinRight
      else if t = ''full'' \<or> t = ''outer'' \<or> t = ''full_outer'' then JoinFull
      else JoinInner)"

section \<open>The union\<close>

fun first_seen :: "string list \<Rightarrow> string list \<Rightarrow> string list" where
  "first_seen seen [] = seen"
| "first_seen seen (c # cs) = (if c \<in> set seen then first_seen seen cs else first_seen (seen @ [c]) cs)"

definition UnionDatasets :: "DataSet option list \<Rightarrow> nat + DataSet" where
  "UnionDatasets inputs =
     (let nonNil = [ds. Some ds \<leftarrow> inputs] in
      if length nonNil < 2 then Inl (length nonNil)
      else
        let columns = first_seen [] (concat (map Columns nonNil))
        in Inr \<lparr>Columns = columns,
             Rows = map (\<lambda>row. fold (\<lambda>c. mput c (mget row c)) columns []) (concat (map Rows nonNil))\<rparr>)"

section \<open>The plan names columns once\<close>

lemma first_duplicate_None: "first_duplicate seen cs = None \<longleftrightarrow> distinct cs \<and> set cs \<inter> set seen = {}"
  by (induction seen cs rule: first_duplicate.induct) auto

lemma prefix_fresh_free: "prefix_fresh used out \<notin> set used"
proof (induction used out rule: prefix_fresh.induct)
  case (1 used out)
  show ?case
  proof (cases "out \<in> set used")
    case True
    then show ?thesis using 1 by (subst prefix_fresh.simps) simp
  next
    case False
    then show ?thesis by (subst prefix_fresh.simps) simp
  qed
qed

lemma name_right_spec:
  "name_right policy ralias colliding skip used cs = Inr names \<Longrightarrow>
   map fst names = filter (\<lambda>c. \<not> skip c) cs \<and> distinct (map snd names) \<and> set (map snd names) \<inter> set used = {}"
proof (induction policy ralias colliding skip used cs arbitrary: names rule: name_right.induct)
  case (2 policy ralias colliding skip used c cs)
  show ?case
  proof (cases "skip c")
    case True
    then show ?thesis using "2.IH"(1) "2.prems" by simp
  next
    case False
    let ?out = "output_name policy ralias colliding used c"
    from False "2.prems" obtain rest where r: "?out \<notin> set used"
      "name_right policy ralias colliding skip (?out # used) cs = Inr rest" "names = (c, ?out) # rest"
      by (auto simp: Let_def split: if_splits sum.splits)
    from "2.IH"(2)[OF False refl r(1,2)] r False show ?thesis by auto
  qed
qed simp

lemma planJoinColumns_Inr:
  assumes "planJoinColumns lc rc lk rk opts = Inr (cols, names)"
  shows "cols = lc @ map snd names" "distinct cols" "map fst names = filter (\<lambda>c. \<not> (c = rk \<and> lk = rk)) rc"
    "distinct rc" "lk \<in> set lc" "rk \<in> set rc"
proof -
  obtain p a b where *: "name_right p a b (\<lambda>c. c = rk \<and> lk = rk) lc rc = Inr names" "cols = lc @ map snd names"
    "first_duplicate [] lc = None" "first_duplicate [] rc = None" "lk \<in> set lc" "rk \<in> set rc"
    using assms by (auto simp: planJoinColumns_def Let_def split: if_splits option.splits sum.splits)
  note N = name_right_spec[OF *(1)]
  show "cols = lc @ map snd names" "lk \<in> set lc" "rk \<in> set rc" using * by simp_all
  show "distinct rc" using *(4) by (simp add: first_duplicate_None)
  show "map fst names = filter (\<lambda>c. \<not> (c = rk \<and> lk = rk)) rc" using N by simp
  show "distinct cols" using N *(2,3) by (auto simp: first_duplicate_None)
qed

lemma out_name_col:
  assumes "map fst names = filter (\<lambda>c. \<not> (c = rk \<and> lk = rk)) rc" "c \<in> set rc" "\<not> (c = rk \<and> lk = rk)"
  shows "out_name names c \<in> set (map snd names)"
proof -
  have "c \<in> set (map fst names)" using assms by simp
  then obtain n where "map_of names c = Some n" by (metis map_of_eq_None_iff list.set_map option.exhaust)
  then show ?thesis by (force simp: out_name_def dest: map_of_SomeD)
qed

text \<open>The keys of the rows that the join builds.\<close>

lemma fold_mput_keys:
  "fst ` set (fold (\<lambda>c m. if skip c then m else mput (f c) (g c) m) cs m) =
   fst ` set m \<union> f ` {c \<in> set cs. \<not> skip c}"
  by (induction cs arbitrary: m) auto

lemma mergeRows_keys:
  "fst ` set (mergeRows l r rc rk lk names) = fst ` set l \<union> out_name names ` {c \<in> set rc. \<not> (c = rk \<and> lk = rk)}"
  unfolding mergeRows_def by (rule fold_mput_keys)

lemma mergeUnmatchedLeft_keys:
  "fst ` set (mergeUnmatchedLeft l rc rk lk names) = fst ` set l \<union> out_name names ` {c \<in> set rc. \<not> (c = rk \<and> lk = rk)}"
  unfolding mergeUnmatchedLeft_def by (rule fold_mput_keys)

lemma merge_unmatched_right_keys:
  "fst ` set (merge_unmatched_right lc r rk lk names) =
   set lc \<union> (\<lambda>k. if k = rk \<and> lk = rk then k else out_name names k) ` fst ` set r"
proof -
  have 1: "fst ` set (fold (\<lambda>c. mput c VNil) lc m) = fst ` set m \<union> set lc" for m :: DataRow
    by (induction lc arbitrary: m) auto
  have 2: "fst ` set (fold (\<lambda>(k, v). mput (f k) v) r m) = fst ` set m \<union> f ` fst ` set r" for f and m :: DataRow
  proof (induction r arbitrary: m)
    case (Cons kv r)
    then show ?case by (cases kv) simp
  qed simp
  have 3: "(\<lambda>(k, v) m. if k = rk \<and> lk = rk then mput k v m else mput (out_name names k) v m) =
      (\<lambda>(k, v). mput (if k = rk \<and> lk = rk then k else out_name names k) v)"
    by (auto simp: fun_eq_iff)
  show ?thesis unfolding merge_unmatched_right_def 3 2 1 by simp
qed

section \<open>The hash join is a nested loop\<close>

lemma index_lookup:
  "map_of (fold (index_row key) rows idx) k =
   (let rs = filter (\<lambda>r. key r = Some k) rows in
    case map_of idx k of None \<Rightarrow> if rs = [] then None else Some rs | Some old \<Rightarrow> Some (old @ rs))"
proof (induction rows arbitrary: idx)
  case (Cons r rows)
  have "map_of (index_row key r idx) k =
      (if key r = Some k then Some ((case map_of idx k of None \<Rightarrow> [] | Some rs \<Rightarrow> rs) @ [r]) else map_of idx k)"
    by (cases "key r") (auto simp: index_row_def)
  then show ?case by (cases "map_of idx k") (simp_all add: Cons.IH Let_def)
qed (auto split: option.splits)

definition left_rows ::
  "(DataRow \<Rightarrow> DataRow \<Rightarrow> bool) \<Rightarrow> DataRow list \<Rightarrow> (DataRow \<Rightarrow> DataRow \<Rightarrow> DataRow) \<Rightarrow> (DataRow \<Rightarrow> DataRow) \<Rightarrow> bool \<Rightarrow> DataRow \<Rightarrow> DataRow list" where
  "left_rows matches rs merge pad outer l =
     (let ms = filter (matches l) rs in if ms \<noteq> [] then map (merge l) ms else if outer then [pad l] else [])"

definition nested_loop ::
  "(DataRow \<Rightarrow> DataRow \<Rightarrow> bool) \<Rightarrow> (DataRow \<Rightarrow> DataRow \<Rightarrow> DataRow) \<Rightarrow> (DataRow \<Rightarrow> DataRow) \<Rightarrow> (DataRow \<Rightarrow> DataRow) \<Rightarrow>
   JoinType \<Rightarrow> DataRow list \<Rightarrow> DataRow list \<Rightarrow> DataRow list" where
  "nested_loop matches merge padl padr joinType ls rs =
     concat (map (left_rows matches rs merge padl (joinType = JoinLeft \<or> joinType = JoinFull)) ls) @
     (if joinType = JoinRight \<or> joinType = JoinFull
      then map padr (filter (\<lambda>r. \<not> (\<exists>l \<in> set ls. matches l r)) rs) else [])"

lemma join_left_fold:
  fixes lkey rkey :: "DataRow \<Rightarrow> string option"
  defines "matches \<equiv> \<lambda>l r. lkey l \<noteq> None \<and> rkey r = lkey l"
  shows "fold (join_left lkey (fold (index_row rkey) rs []) merge pad outer) ls (out, matched) =
    (out @ concat (map (left_rows matches rs merge pad outer) ls),
     matched \<union> {k. (\<exists>l \<in> set ls. lkey l = Some k) \<and> (\<exists>r \<in> set rs. rkey r = Some k)})"
proof (induction ls arbitrary: out matched)
  case (Cons l ls)
  let ?idx = "fold (index_row rkey) rs []" and ?new = "{k. lkey l = Some k \<and> (\<exists>r \<in> set rs. rkey r = Some k)}"
  have step: "join_left lkey ?idx merge pad outer l (out, matched) =
      (out @ left_rows matches rs merge pad outer l, matched \<union> ?new)"
  proof (cases "lkey l")
    case None
    then show ?thesis by (simp add: join_left_def left_rows_def matches_def Let_def)
  next
    case (Some k)
    then have m: "filter (matches l) rs = filter (\<lambda>r. rkey r = Some k) rs" by (simp add: matches_def)
    show ?thesis
    proof (cases "filter (\<lambda>r. rkey r = Some k) rs = []")
      case True
      then have n: "?new = {}" using Some by (auto simp: filter_empty_conv)
      show ?thesis using Some True m unfolding n by (simp add: join_left_def index_lookup left_rows_def Let_def)
    next
      case False
      then have n: "?new = {k}" using Some by (auto simp: filter_empty_conv)
      show ?thesis using Some False m unfolding n by (simp add: join_left_def index_lookup left_rows_def Let_def)
    qed
  qed
  have "{k. (\<exists>x \<in> set (l # ls). lkey x = Some k) \<and> (\<exists>r \<in> set rs. rkey r = Some k)} =
      ?new \<union> {k. (\<exists>x \<in> set ls. lkey x = Some k) \<and> (\<exists>r \<in> set rs. rkey r = Some k)}" by auto
  then show ?case by (simp only: fold_simps step Cons.IH list.map concat.simps append_assoc Un_assoc)
qed simp

lemma hash_join_nested_loop:
  assumes "planJoinColumns (Columns l) (Columns r) lk rk opts = Inr (cols, names)" "lk \<noteq> []" "rk \<noteq> []"
  shows "JoinDatasetsWithOptions vk (Some l) (Some r) lk rk joinType opts = Inr \<lparr>Columns = cols,
    Rows = nested_loop (\<lambda>x y. joinValueKey vk (mget x lk) \<noteq> None \<and> joinValueKey vk (mget y rk) = joinValueKey vk (mget x lk))
      (\<lambda>x y. mergeRows x y (Columns r) rk lk names) (\<lambda>x. mergeUnmatchedLeft x (Columns r) rk lk names)
      (\<lambda>y. merge_unmatched_right (Columns l) y rk lk names) joinType (Rows l) (Rows r)\<rparr>"
proof -
  have R: "filter (\<lambda>y. case joinValueKey vk (mget y rk) of None \<Rightarrow> True
        | Some k \<Rightarrow> k \<notin> {k. (\<exists>x \<in> set (Rows l). joinValueKey vk (mget x lk) = Some k) \<and>
                             (\<exists>y \<in> set (Rows r). joinValueKey vk (mget y rk) = Some k)}) (Rows r) =
      filter (\<lambda>y. \<not> (\<exists>x \<in> set (Rows l). joinValueKey vk (mget x lk) \<noteq> None \<and>
        joinValueKey vk (mget y rk) = joinValueKey vk (mget x lk))) (Rows r)"
    by (rule filter_cong[OF refl]) (auto split: option.splits)
  show ?thesis
    using assms(2,3) R
    by (simp add: JoinDatasetsWithOptions_def assms(1) Let_def join_left_fold nested_loop_def join_right_def)
qed

section \<open>Properties\<close>

text \<open>
  Rows match when both keys are present and the same value.
\<close>

definition keys_match :: "string \<Rightarrow> string \<Rightarrow> DataRow \<Rightarrow> DataRow \<Rightarrow> bool" where
  "keys_match lk rk l r \<longleftrightarrow> mget l lk \<noteq> VNil \<and> mget r rk \<noteq> VNil \<and> same_value (mget r rk) (mget l lk)"

definition join_keyed :: "(f64 \<Rightarrow> string) \<Rightarrow> string \<Rightarrow> string \<Rightarrow> DataRow list \<Rightarrow> DataRow list \<Rightarrow> bool" where
  "join_keyed ff lk rk ls rs \<longleftrightarrow>
     (\<forall>l \<in> set ls. scalar (mget l lk)) \<and> (\<forall>r \<in> set rs. scalar (mget r rk)) \<and>
     (\<forall>l \<in> set ls. \<forall>r \<in> set rs. \<forall>f g. mget r rk = VFloat f \<longrightarrow> mget l lk = VFloat g \<longrightarrow> ff f = ff g \<longrightarrow> f = g)"

lemma key_match:
  assumes "join_keyed ff lk rk ls rs" "l \<in> set ls" "r \<in> set rs"
  shows "joinValueKey (valueKey ff gs) (mget l lk) \<noteq> None \<and>
      joinValueKey (valueKey ff gs) (mget r rk) = joinValueKey (valueKey ff gs) (mget l lk) \<longleftrightarrow> keys_match lk rk l r"
proof -
  have "valueKey ff gs (mget r rk) = valueKey ff gs (mget l lk) \<longleftrightarrow> same_value (mget r rk) (mget l lk)"
    by (rule valueKey_same) (use assms in \<open>auto simp: join_keyed_def\<close>)
  then show ?thesis by (auto simp: joinValueKey_def keys_match_def)
qed

lemma nested_loop_cong:
  assumes "\<And>l r. l \<in> set ls \<Longrightarrow> r \<in> set rs \<Longrightarrow> f l r \<longleftrightarrow> g l r"
  shows "nested_loop f merge padl padr joinType ls rs = nested_loop g merge padl padr joinType ls rs"
proof -
  have "left_rows f rs merge padl outer l = left_rows g rs merge padl outer l" if "l \<in> set ls" for l outer
    using assms that by (simp add: left_rows_def cong: filter_cong)
  then have 1: "map (left_rows f rs merge padl outer) ls = map (left_rows g rs merge padl outer) ls" for outer by simp
  have 2: "filter (\<lambda>r. \<not> (\<exists>l \<in> set ls. f l r)) rs = filter (\<lambda>r. \<not> (\<exists>l \<in> set ls. g l r)) rs"
    by (rule filter_cong[OF refl]) (use assms in blast)
  show ?thesis unfolding nested_loop_def 1 2 ..
qed

text \<open>
  C21. The hash join computes what a nested loop over the two inputs does, for each join type: for
  every left row, in order, its merge with each right row of the same key value, in order; when
  there is none, in a left or full join, the left row padded with nulls; then, in a right or full
  join, every right row that no left row matches. A null key matches nothing. The columns must have a plan and the keys a
  name. Keys match by value under two conditions: each key cell is null, a text, a Boolean, a float or an integer that fits
  a signed 64-bit one (no larger unsigned integer and no composite), and two different floats print differently.
\<close>

theorem join_is_nested_loop:
  assumes "planJoinColumns (Columns l) (Columns r) lk rk opts = Inr (cols, names)" and "lk \<noteq> []" and "rk \<noteq> []"
    and "join_keyed ff lk rk (Rows l) (Rows r)"
  shows "JoinDatasetsWithOptions (valueKey ff gs) (Some l) (Some r) lk rk joinType opts = Inr \<lparr>Columns = cols,
    Rows = nested_loop (keys_match lk rk) (\<lambda>x y. mergeRows x y (Columns r) rk lk names)
      (\<lambda>x. mergeUnmatchedLeft x (Columns r) rk lk names)
      (\<lambda>y. merge_unmatched_right (Columns l) y rk lk names) joinType (Rows l) (Rows r)\<rparr>"
  unfolding hash_join_nested_loop[OF assms(1-3)] using nested_loop_cong[OF key_match[OF assms(4)]] by simp

theorem join_is_nested_loop_witness:
  "JoinDatasetsWithOptions (valueKey (\<lambda>_. []) (\<lambda>_. []))
     (Some \<lparr>Columns = [''k''], Rows = [[(''k'', VInt64 5)], [(''k'', VNil)]]\<rparr>)
     (Some \<lparr>Columns = [''k'', ''v''], Rows = [[(''k'', VFloat (Fin 5)), (''v'', VStr ''x'')]]\<rparr>)
     ''k'' ''k'' JoinLeft \<lparr>CollisionPolicy = [], RightAlias = []\<rparr> =
   Inr \<lparr>Columns = [''k'', ''v''], Rows = [[(''k'', VInt64 5), (''v'', VStr ''x'')], [(''k'', VNil), (''v'', VNil)]]\<rparr>"
proof -
  let ?l = "\<lparr>Columns = [''k''], Rows = [[(''k'', VInt64 5)], [(''k'', VNil)]]\<rparr>"
  let ?r = "\<lparr>Columns = [''k'', ''v''], Rows = [[(''k'', VFloat (Fin 5)), (''v'', VStr ''x'')]]\<rparr>"
  have plan: "planJoinColumns (Columns ?l) (Columns ?r) ''k'' ''k'' \<lparr>CollisionPolicy = [], RightAlias = []\<rparr> =
      Inr ([''k'', ''v''], [(''v'', ''v'')])"
    by (simp add: planJoinColumns_def Let_def output_name_def join_consts)
  have k: "join_keyed (\<lambda>_. []) ''k'' ''k'' (Rows ?l) (Rows ?r)" by (simp add: join_keyed_def mget_def)
  show ?thesis
    using join_is_nested_loop[OF plan _ _ k, of "\<lambda>_. []" JoinLeft]
    by (simp add: nested_loop_def left_rows_def keys_match_def mget_def same_value_def
        mergeRows_def mergeUnmatchedLeft_def out_name_def)
qed

definition conforms :: "DataSet \<Rightarrow> bool" where
  "conforms ds \<longleftrightarrow> (\<forall>row \<in> set (Rows ds). fst ` set row \<subseteq> set (Columns ds))"

lemma nested_loop_rows:
  assumes "x \<in> set (nested_loop matches merge padl padr joinType ls rs)"
  shows "(\<exists>l \<in> set ls. \<exists>r \<in> set rs. x = merge l r) \<or> (\<exists>l \<in> set ls. x = padl l) \<or> (\<exists>r \<in> set rs. x = padr r)"
  using assms by (auto simp: nested_loop_def left_rows_def Let_def split: if_splits)

lemma join_Inr:
  assumes "JoinDatasetsWithOptions vk (Some l) (Some r) lk rk joinType opts = Inr out"
  obtains cols names where "planJoinColumns (Columns l) (Columns r) lk rk opts = Inr (cols, names)" "lk \<noteq> []" "rk \<noteq> []"
  using assms by (auto simp: JoinDatasetsWithOptions_def split: if_splits sum.splits)

text \<open>
  The output of a join is well typed: when every input row has only the columns of its
  dataset, the output columns are distinct and every output row has only output columns.
\<close>

lemma join_output_typed:
  assumes "conforms l" and "conforms r" and "JoinDatasetsWithOptions vk (Some l) (Some r) lk rk joinType opts = Inr out"
  shows "distinct (Columns out) \<and> conforms out"
proof -
  obtain cols names where plan: "planJoinColumns (Columns l) (Columns r) lk rk opts = Inr (cols, names)"
    and k: "lk \<noteq> []" "rk \<noteq> []" using join_Inr[OF assms(3)] by blast
  note P = planJoinColumns_Inr[OF plan]
  have named: "out_name names c \<in> set cols" if "c \<in> set (Columns r)" "\<not> (c = rk \<and> lk = rk)" for c
    using out_name_col[OF P(3) that] P(1) by simp
  have L: "fst ` set a \<subseteq> set cols" if "a \<in> set (Rows l)" for a
    using assms(1) that P(1) by (auto simp: conforms_def)
  have R: "(\<lambda>k. if k = rk \<and> lk = rk then k else out_name names k) ` fst ` set b \<subseteq> set cols"
    if "b \<in> set (Rows r)" for b
    using assms(2) that named P(1,5) by (auto simp: conforms_def)
  have merged: "fst ` set (mergeRows a b (Columns r) rk lk names) \<subseteq> set cols"
    "fst ` set (mergeUnmatchedLeft a (Columns r) rk lk names) \<subseteq> set cols" if "a \<in> set (Rows l)" for a b
    unfolding mergeRows_keys mergeUnmatchedLeft_keys using L[OF that] named by blast+
  have padded: "fst ` set (merge_unmatched_right (Columns l) b rk lk names) \<subseteq> set cols" if "b \<in> set (Rows r)" for b
    unfolding merge_unmatched_right_keys using R[OF that] P(1) by simp
  have "fst ` set x \<subseteq> set cols" if "x \<in> set (Rows out)" for x
  proof -
    have "(\<exists>a \<in> set (Rows l). \<exists>b \<in> set (Rows r). x = mergeRows a b (Columns r) rk lk names) \<or>
        (\<exists>a \<in> set (Rows l). x = mergeUnmatchedLeft a (Columns r) rk lk names) \<or>
        (\<exists>b \<in> set (Rows r). x = merge_unmatched_right (Columns l) b rk lk names)"
      using that assms(3) nested_loop_rows unfolding hash_join_nested_loop[OF plan k] by fastforce
    then show ?thesis using merged padded by blast
  qed
  moreover have "Columns out = cols" using assms(3) unfolding hash_join_nested_loop[OF plan k] by auto
  ultimately show ?thesis using P(2) by (auto simp: conforms_def)
qed

lemma join_output_typed_witness:
  "\<exists>out. JoinDatasetsWithOptions (\<lambda>_. []) (Some \<lparr>Columns = [''k'', ''v''], Rows = []\<rparr>)
     (Some \<lparr>Columns = [''k'', ''v''], Rows = []\<rparr>) ''k'' ''k'' JoinFull \<lparr>CollisionPolicy = [], RightAlias = []\<rparr> = Inr out \<and>
     Columns out = [''k'', ''v'', ''right_v''] \<and> distinct (Columns out)"
proof -
  let ?ds = "\<lparr>Columns = [''k'', ''v''], Rows = []\<rparr>"
  have "prefix_fresh [''k'', ''v''] ''right_v'' = ''right_v''" by (subst prefix_fresh.simps) simp
  then have j: "JoinDatasetsWithOptions (\<lambda>_. []) (Some ?ds) (Some ?ds) ''k'' ''k'' JoinFull \<lparr>CollisionPolicy = [], RightAlias = []\<rparr> =
      Inr \<lparr>Columns = [''k'', ''v'', ''right_v''], Rows = []\<rparr>"
    by (simp add: JoinDatasetsWithOptions_def planJoinColumns_def Let_def output_name_def join_consts join_right_def)
  then show ?thesis using join_output_typed[OF _ _ j] by (simp add: conforms_def)
qed

end
