(* ===== verification/Data_Agg.thy ===== *)
theory Data_Agg
  imports Data_Join
begin

text \<open>
  Grouped aggregation, once over a whole dataset (\<^verbatim>\<open>aggregate\<close> and \<^verbatim>\<open>computeAgg\<close> of
  \<^verbatim>\<open>src/engine/transform.go\<close>) and once over batches (\<^verbatim>\<open>src/engine/stream_agg.go\<close>). Float
  arithmetic, float parsing, the ordering of non-numbers and the text of a value are arguments.
\<close>

record AggField =
  aColumn :: string
  aFunction :: string
  aAlias :: string

record TransformRule =
  rType :: string
  GroupBy :: "string list"
  AggFields :: "AggField list"
  Aggregations :: "AggField list"

text \<open>What the arithmetic of the host computes.\<close>

record agg_ops =
  fadd :: "f64 \<Rightarrow> f64 \<Rightarrow> f64"
  fdiv :: "f64 \<Rightarrow> f64 \<Rightarrow> f64"
  float_of :: "int \<Rightarrow> f64"
  ParseFloat :: "string \<Rightarrow> f64 option"
  compareAggValues :: "goval \<Rightarrow> goval \<Rightarrow> int"
  value_key :: "goval \<Rightarrow> string"

definition toAggFloat :: "agg_ops \<Rightarrow> goval \<Rightarrow> f64 option" where
  "toAggFloat ops v =
     (case v of
        VFloat f \<Rightarrow> Some f
      | VInt i \<Rightarrow> Some (float_of ops i)
      | VInt64 i \<Rightarrow> Some (float_of ops i)
      | VStr s \<Rightarrow> ParseFloat ops s
      | _ \<Rightarrow> None)"

section \<open>Accumulators\<close>

record aggAccumulator =
  acount :: nat
  asum :: f64
  avgSum :: f64
  avgCount :: nat
  amin :: f64
  amax :: f64
  sawAny :: bool
  adistinct :: "string set"
  sawOther :: bool
  ordMin :: goval
  ordMax :: goval

definition zeroAcc :: aggAccumulator where
  "zeroAcc = \<lparr>acount = 0, asum = Fin 0, avgSum = Fin 0, avgCount = 0, amin = Fin 0, amax = Fin 0, sawAny = False,
     adistinct = {}, sawOther = False, ordMin = VNil, ordMax = VNil\<rparr>"

definition add :: "agg_ops \<Rightarrow> goval \<Rightarrow> aggAccumulator \<Rightarrow> aggAccumulator" where
  "add ops v a0 =
     (let a = a0\<lparr>acount := acount a0 + 1\<rparr> in
      if v = VNil then a
      else
        let a = a\<lparr>adistinct := insert (value_key ops v) (adistinct a)\<rparr>;
            a = (if ordMin a = VNil \<or> compareAggValues ops v (ordMin a) < 0 then a\<lparr>ordMin := v\<rparr> else a);
            a = (if ordMax a = VNil \<or> compareAggValues ops v (ordMax a) > 0 then a\<lparr>ordMax := v\<rparr> else a)
        in case toAggFloat ops v of
             None \<Rightarrow> a\<lparr>sawOther := True\<rparr>
           | Some f \<Rightarrow>
               a\<lparr>asum := fadd ops (asum a) f, avgSum := fadd ops (avgSum a) f, avgCount := avgCount a + 1,
                 amin := (if \<not> sawAny a \<or> f_less f (amin a) then f else amin a),
                 amax := (if \<not> sawAny a \<or> f_less (amax a) f then f else amax a),
                 sawAny := True\<rparr>)"

definition agg_result :: "agg_ops \<Rightarrow> string \<Rightarrow> aggAccumulator \<Rightarrow> goval" where
  "agg_result ops fn a =
     (let f = lower fn in
      if f = ''count'' then VInt (int (acount a))
      else if f = ''count_distinct'' then VInt (int (card (adistinct a)))
      else if f = ''sum'' then VFloat (asum a)
      else if f = ''avg'' then
        VFloat (if avgCount a = 0 then Fin 0 else fdiv ops (avgSum a) (float_of ops (int (avgCount a))))
      else if f = ''min'' then (if sawOther a \<and> \<not> sawAny a then ordMin a else VFloat (amin a))
      else if f = ''max'' then (if sawOther a \<and> \<not> sawAny a then ordMax a else VFloat (amax a))
      else VNil)"

section \<open>The whole dataset\<close>

definition computeAgg :: "agg_ops \<Rightarrow> string \<Rightarrow> string \<Rightarrow> DataRow list \<Rightarrow> goval" where
  "computeAgg ops fn col rows =
     (let f = lower fn in
      if f = ''count'' then VInt (int (length rows))
      else if f = ''count_distinct'' then
        VInt (int (card (fold (\<lambda>row seen. if mget row col \<noteq> VNil then insert (value_key ops (mget row col)) seen else seen) rows {})))
      else if f = ''sum'' then
        VFloat (fold (\<lambda>row s. case toAggFloat ops (mget row col) of Some x \<Rightarrow> fadd ops s x | None \<Rightarrow> s) rows (Fin 0))
      else if f = ''avg'' then
        (case fold (\<lambda>row (s, n). case toAggFloat ops (mget row col) of Some x \<Rightarrow> (fadd ops s x, Suc n) | None \<Rightarrow> (s, n)) rows (Fin 0, 0) of
           (s, n) \<Rightarrow> VFloat (if n = 0 then Fin 0 else fdiv ops s (float_of ops (int n))))
      else if f = ''min'' \<or> f = ''max'' then agg_result ops fn (fold (\<lambda>row. add ops (mget row col)) rows zeroAcc)
      else VNil)"

definition field_name :: "AggField \<Rightarrow> string" where
  "field_name af = (if aAlias af = [] then aFunction af @ ''_'' @ aColumn af else aAlias af)"

definition key_columns :: "string list \<Rightarrow> DataRow \<Rightarrow> DataRow" where
  "key_columns cols keyRow = fold (\<lambda>c. mput c (mget keyRow c)) cols []"

type_synonym group = "DataRow \<times> DataRow list"

definition group_row :: "(DataRow \<Rightarrow> string) \<Rightarrow> DataRow \<Rightarrow> (string \<times> group) list \<times> string list \<Rightarrow> (string \<times> group) list \<times> string list" where
  "group_row key row = (\<lambda>(groups, order).
     case map_of groups (key row) of
       None \<Rightarrow> (mput (key row) (row, [row]) groups, order @ [key row])
     | Some (keyRow, rows) \<Rightarrow> (mput (key row) (keyRow, rows @ [row]) groups, order))"

definition rule_fields :: "TransformRule \<Rightarrow> AggField list" where
  "rule_fields r = (if AggFields r = [] \<and> Aggregations r \<noteq> [] then Aggregations r else AggFields r)"

text \<open>\<open>gk\<close> is \<^verbatim>\<open>canonicalGroupKey\<close>: the \<^verbatim>\<open>%#v\<close> text of the key values.\<close>

definition aggregate :: "agg_ops \<Rightarrow> (goval list \<Rightarrow> string) \<Rightarrow> TransformRule \<Rightarrow> DataSet \<Rightarrow> DataSet" where
  "aggregate ops gk r ds =
     (let fields = rule_fields r;
          (groups, order) = fold (group_row (\<lambda>row. gk (map (mget row) (GroupBy r)))) (Rows ds) ([], [])
      in \<lparr>Columns = GroupBy r @ map field_name fields,
          Rows = map (\<lambda>key. case map_of groups key of
             None \<Rightarrow> []
           | Some (keyRow, rows) \<Rightarrow>
               fold (\<lambda>af. mput (field_name af) (computeAgg ops (aFunction af) (aColumn af) rows)) fields
                 (key_columns (GroupBy r) keyRow)) order\<rparr>)"

section \<open>Batches\<close>

record streamAggGroup =
  gKeyRow :: DataRow
  accs :: "aggAccumulator list"

record streamAggState =
  srule :: TransformRule
  sfields :: "AggField list"
  sgroups :: "(string \<times> streamAggGroup) list"
  sorder :: "string list"

datatype agg_error = NoGroupBy | NoAggregations

definition newStreamAggState :: "TransformRule \<Rightarrow> agg_error + streamAggState" where
  "newStreamAggState r =
     (if GroupBy r = [] then Inl NoGroupBy
      else if rule_fields r = [] then Inl NoAggregations
      else Inr \<lparr>srule = r, sfields = rule_fields r, sgroups = [], sorder = []\<rparr>)"

definition stream_key :: "(goval \<Rightarrow> string) \<Rightarrow> string list \<Rightarrow> DataRow \<Rightarrow> string" where
  "stream_key sv cols row = join_with [CHR 0x00] (map (\<lambda>c. sv (mget row c)) cols)"

definition fold_row :: "agg_ops \<Rightarrow> (goval \<Rightarrow> string) \<Rightarrow> DataRow \<Rightarrow> streamAggState \<Rightarrow> streamAggState" where
  "fold_row ops sv row s =
     (let key = stream_key sv (GroupBy (srule s)) row;
          (g, s) = (case map_of (sgroups s) key of
             Some g \<Rightarrow> (g, s)
           | None \<Rightarrow> (\<lparr>gKeyRow = row, accs = replicate (length (sfields s)) zeroAcc\<rparr>, s\<lparr>sorder := sorder s @ [key]\<rparr>));
          g = g\<lparr>accs := map2 (\<lambda>af. add ops (mget row (aColumn af))) (sfields s) (accs g)\<rparr>
      in s\<lparr>sgroups := mput key g (sgroups s)\<rparr>)"

definition fold_batch :: "agg_ops \<Rightarrow> (goval \<Rightarrow> string) \<Rightarrow> DataSet \<Rightarrow> streamAggState \<Rightarrow> streamAggState" where
  "fold_batch ops sv batch s = fold (fold_row ops sv) (Rows batch) s"

definition finalize :: "agg_ops \<Rightarrow> streamAggState \<Rightarrow> DataSet" where
  "finalize ops s =
     \<lparr>Columns = GroupBy (srule s) @ map field_name (sfields s),
      Rows = map (\<lambda>key. case map_of (sgroups s) key of
         None \<Rightarrow> []
       | Some g \<Rightarrow>
           fold (\<lambda>(af, a). mput (field_name af) (agg_result ops (aFunction af) a)) (zip (sfields s) (accs g))
             (key_columns (GroupBy (srule s)) (gKeyRow g))) (sorder s)\<rparr>"

section \<open>One accumulator agrees with one loop\<close>

abbreviation accumulate :: "agg_ops \<Rightarrow> string \<Rightarrow> DataRow list \<Rightarrow> aggAccumulator" where
  "accumulate ops col rows \<equiv> fold (\<lambda>row. add ops (mget row col)) rows zeroAcc"

lemma add_fields:
  "acount (add ops v a) = Suc (acount a)"
  "adistinct (add ops v a) = (if v = VNil then adistinct a else insert (value_key ops v) (adistinct a))"
  "asum (add ops v a) = (case toAggFloat ops v of Some x \<Rightarrow> fadd ops (asum a) x | None \<Rightarrow> asum a)"
  "avgSum (add ops v a) = (case toAggFloat ops v of Some x \<Rightarrow> fadd ops (avgSum a) x | None \<Rightarrow> avgSum a)"
  "avgCount (add ops v a) = (case toAggFloat ops v of Some x \<Rightarrow> Suc (avgCount a) | None \<Rightarrow> avgCount a)"
  by (auto simp: add_def Let_def toAggFloat_def split: goval.splits option.splits)

lemma accumulate_fields:
  "acount (fold (\<lambda>row. add ops (mget row col)) rows a) = acount a + length rows"
  "adistinct (fold (\<lambda>row. add ops (mget row col)) rows a) =
     fold (\<lambda>row seen. if mget row col \<noteq> VNil then insert (value_key ops (mget row col)) seen else seen) rows (adistinct a)"
  "asum (fold (\<lambda>row. add ops (mget row col)) rows a) =
     fold (\<lambda>row s. case toAggFloat ops (mget row col) of Some x \<Rightarrow> fadd ops s x | None \<Rightarrow> s) rows (asum a)"
  "(avgSum (fold (\<lambda>row. add ops (mget row col)) rows a), avgCount (fold (\<lambda>row. add ops (mget row col)) rows a)) =
     fold (\<lambda>row (s, n). case toAggFloat ops (mget row col) of Some x \<Rightarrow> (fadd ops s x, Suc n) | None \<Rightarrow> (s, n)) rows (avgSum a, avgCount a)"
  by (induction rows arbitrary: a) (auto simp: add_fields split: option.splits)

lemma agg_result_accumulate: "agg_result ops fn (accumulate ops col rows) = computeAgg ops fn col rows"
proof -
  note F = accumulate_fields[of ops col rows zeroAcc]
  let ?n = "fold (\<lambda>row (s, n). case toAggFloat ops (mget row col) of Some x \<Rightarrow> (fadd ops s x, Suc n) | None \<Rightarrow> (s, n)) rows (Fin 0, 0)"
  have avg: "?n = (avgSum (accumulate ops col rows), avgCount (accumulate ops col rows))"
    using F(4) by (simp add: zeroAcc_def)
  consider "lower fn = ''avg''" | "lower fn = ''min'' \<or> lower fn = ''max''" | "lower fn \<notin> {''avg'', ''min'', ''max''}" by blast
  then show ?thesis
  proof cases
    case 1
    then show ?thesis by (simp add: agg_result_def computeAgg_def avg)
  next
    case 2
    then show ?thesis by (auto simp: computeAgg_def)
  next
    case 3
    have "acount zeroAcc = 0" "adistinct zeroAcc = {}" "asum zeroAcc = Fin 0" by (simp_all add: zeroAcc_def)
    then show ?thesis using 3 unfolding agg_result_def computeAgg_def Let_def F(1-3) by simp
  qed
qed

section \<open>Grouping\<close>

text \<open>
  Both aggregations keep, per key and in order of first appearance, the first row and what they
  fold over the rows of the key. The interface is the update of one row; the groups of a whole
  run are the classes of the key, whatever is folded.
\<close>

abbreviation of_key :: "(DataRow \<Rightarrow> string) \<Rightarrow> string \<Rightarrow> DataRow list \<Rightarrow> DataRow list" where
  "of_key key k rows \<equiv> filter (\<lambda>r. key r = k) rows"

locale grouping =
  fixes key :: "DataRow \<Rightarrow> string" and start :: "DataRow \<Rightarrow> 'g" and upd :: "DataRow \<Rightarrow> 'g \<Rightarrow> 'g"
    and step :: "DataRow \<Rightarrow> 's \<Rightarrow> 's" and groups :: "'s \<Rightarrow> (string \<times> DataRow \<times> 'g) list" and order :: "'s \<Rightarrow> string list"
    and inv :: "'s \<Rightarrow> bool"
  assumes step_inv: "inv s \<Longrightarrow> inv (step row s)"
    and step_new: "inv s \<Longrightarrow> map_of (groups s) (key row) = None \<Longrightarrow>
      map_of (groups (step row s)) = (map_of (groups s))(key row \<mapsto> (row, start row)) \<and> order (step row s) = order s @ [key row]"
    and step_old: "inv s \<Longrightarrow> map_of (groups s) (key row) = Some (r0, g) \<Longrightarrow>
      map_of (groups (step row s)) = (map_of (groups s))(key row \<mapsto> (r0, upd row g)) \<and> order (step row s) = order s"
begin

definition folded :: "DataRow list \<Rightarrow> 'g" where
  "folded rows = fold upd (tl rows) (start (hd rows))"

definition represents :: "DataRow list \<Rightarrow> 's \<Rightarrow> bool" where
  "represents rows s \<longleftrightarrow>
     inv s \<and> order s = map key (dedup_rows key [] rows) \<and>
     (\<forall>k. map_of (groups s) k = (case of_key key k rows of [] \<Rightarrow> None | r # rs \<Rightarrow> Some (r, folded (r # rs))))"

lemma dedup_snoc:
  "dedup_rows key seen (rows @ [r]) =
   dedup_rows key seen rows @ (if key r \<in> set seen \<union> key ` set rows then [] else [r])"
  by (induction rows arbitrary: seen) auto

lemma represents_step:
  assumes "represents rows s"
  shows "represents (rows @ [row]) (step row s)"
proof (cases "map_of (groups s) (key row)")
  case None
  then have "of_key key (key row) rows = []" using assms by (auto simp: represents_def split: list.splits)
  then have e: "key row \<notin> key ` set rows" by (auto simp: filter_empty_conv)
  then show ?thesis
    using assms step_new[OF _ None] step_inv None
    by (auto simp: represents_def dedup_snoc folded_def split: list.splits)
next
  case (Some g)
  obtain r0 rs where rs: "of_key key (key row) rows = r0 # rs" "g = (r0, folded (r0 # rs))"
    using assms Some by (auto simp: represents_def split: list.splits)
  then have e: "key row \<in> key ` set rows" by (metis (mono_tags) filter_eq_Cons_iff imageI in_set_conv_decomp)
  have "folded (r0 # rs @ [row]) = upd row (folded (r0 # rs))" by (simp add: folded_def)
  then show ?thesis
    using assms step_old[OF _ Some[unfolded rs(2)]] step_inv rs e
    by (auto simp: represents_def dedup_snoc split: list.splits)
qed

lemma represents_run:
  assumes "inv s" "order s = []" "groups s = []"
  shows "represents rows (fold step rows s)"
proof (induction rows rule: rev_induct)
  case Nil
  then show ?case using assms by (simp add: represents_def)
next
  case (snoc r rows)
  then show ?case using represents_step by simp
qed

text \<open>What is reported per key depends on the rows of its class only.\<close>

lemma report_classes:
  assumes "inv s" "order s = []" "groups s = []"
  shows "map (\<lambda>k. case map_of (groups (fold step rows s)) k of None \<Rightarrow> d | Some x \<Rightarrow> out x) (order (fold step rows s)) =
    map (\<lambda>r. let c = of_key key (key r) rows in out (hd c, folded c)) (dedup_rows key [] rows)"
proof -
  have R: "represents rows (fold step rows s)" using represents_run[OF assms] .
  have "(case map_of (groups (fold step rows s)) (key r) of None \<Rightarrow> d | Some x \<Rightarrow> out x) =
      (let c = of_key key (key r) rows in out (hd c, folded c))" if "r \<in> set (dedup_rows key [] rows)" for r
  proof -
    have "r \<in> set rows" using dedup_rows_spec[of key "[]" rows] that by (auto dest: list_emb_set)
    then have "of_key key (key r) rows \<noteq> []" by (auto simp: filter_empty_conv)
    then obtain x xs where x: "of_key key (key r) rows = x # xs" by (cases "of_key key (key r) rows") auto
    then have "map_of (groups (fold step rows s)) (key r) = Some (x, folded (x # xs))"
      using R by (simp add: represents_def)
    then show ?thesis using x by simp
  qed
  then show ?thesis using R by (simp add: represents_def)
qed

end

interpretation batch: grouping key "\<lambda>r. [r]" "\<lambda>r rs. rs @ [r]" "group_row key" fst snd "\<lambda>_. True"
  for key
  by unfold_locales (auto simp: group_row_def split: prod.splits)

lemma batch_folded: "rows \<noteq> [] \<Longrightarrow> batch.folded rows = rows"
proof -
  have "fold (\<lambda>r rs. rs @ [r]) xs ys = ys @ xs" for xs ys :: "DataRow list"
    by (induction xs arbitrary: ys) auto
  then show "rows \<noteq> [] \<Longrightarrow> batch.folded rows = rows" by (cases rows) (simp_all add: batch.folded_def)
qed

definition stream_inv :: "TransformRule \<Rightarrow> AggField list \<Rightarrow> streamAggState \<Rightarrow> bool" where
  "stream_inv r afs s \<longleftrightarrow> srule s = r \<and> sfields s = afs"

definition stream_groups :: "streamAggState \<Rightarrow> (string \<times> DataRow \<times> aggAccumulator list) list" where
  "stream_groups s = map (\<lambda>(k, g). (k, gKeyRow g, accs g)) (sgroups s)"

definition add_all :: "agg_ops \<Rightarrow> AggField list \<Rightarrow> DataRow \<Rightarrow> aggAccumulator list \<Rightarrow> aggAccumulator list" where
  "add_all ops afs row as = map2 (\<lambda>af. add ops (mget row (aColumn af))) afs as"

lemma stream_groups_lookup:
  "map_of (stream_groups s) k = map_option (\<lambda>g. (gKeyRow g, accs g)) (map_of (sgroups s) k)"
proof -
  have "map_of (map (\<lambda>(k, g). (k, gKeyRow g, accs g)) gs) k = map_option (\<lambda>g. (gKeyRow g, accs g)) (map_of gs k)"
    for gs :: "(string \<times> streamAggGroup) list"
    by (induction gs) auto
  then show ?thesis by (simp add: stream_groups_def)
qed

interpretation stream: grouping "stream_key sv (GroupBy r)" "\<lambda>row. add_all ops afs row (replicate (length afs) zeroAcc)"
  "add_all ops afs" "fold_row ops sv" stream_groups sorder "stream_inv r afs"
  for ops sv r afs
  by unfold_locales
    (auto simp: stream_inv_def fold_row_def stream_groups_lookup add_all_def Let_def fun_eq_iff split: option.splits)

lemma add_all_fold:
  "length as = length afs \<Longrightarrow>
   fold (add_all ops afs) rows as = map2 (\<lambda>af. fold (\<lambda>row. add ops (mget row (aColumn af))) rows) afs as"
proof (induction rows arbitrary: as)
  case Nil
  have "as = map (\<lambda>(_, a). a) (zip afs as)" using Nil by (simp add: map_snd_zip[unfolded snd_def] split_def map_snd_zip)
  then show ?case by (simp add: id_def)
next
  case (Cons row rows)
  have "length (add_all ops afs row as) = length afs" using Cons.prems by (simp add: add_all_def)
  from Cons.IH[OF this] Cons.prems show ?case
    by (auto simp: add_all_def intro!: nth_equalityI)
qed

lemma stream_folded:
  assumes "rows \<noteq> []"
  shows "stream.folded ops afs rows = map (\<lambda>af. accumulate ops (aColumn af) rows) afs"
proof -
  obtain r rs where "rows = r # rs" using assms by (cases rows) auto
  then have "stream.folded ops afs rows = fold (add_all ops afs) rows (replicate (length afs) zeroAcc)"
    by (simp add: stream.folded_def)
  also have "\<dots> = map (\<lambda>af. accumulate ops (aColumn af) rows) afs"
    by (subst add_all_fold) (auto intro!: nth_equalityI)
  finally show ?thesis .
qed

text \<open>The classes of two keys that tell the same rows apart are the same.\<close>

definition same_partition :: "(DataRow \<Rightarrow> string) \<Rightarrow> (DataRow \<Rightarrow> string) \<Rightarrow> DataRow list \<Rightarrow> bool" where
  "same_partition k1 k2 rows \<longleftrightarrow> (\<forall>r \<in> set rows. \<forall>r' \<in> set rows. k1 r = k1 r' \<longleftrightarrow> k2 r = k2 r')"

lemma dedup_rows_partition:
  "same_partition k1 k2 (zs @ rows) \<Longrightarrow> dedup_rows k1 (map k1 zs) rows = dedup_rows k2 (map k2 zs) rows"
proof (induction rows arbitrary: zs)
  case (Cons r rows)
  have "k1 r \<in> k1 ` set zs \<longleftrightarrow> k2 r \<in> k2 ` set zs" using Cons.prems by (auto simp: same_partition_def image_iff)
  moreover have "same_partition k1 k2 (zs @ rows)" "same_partition k1 k2 ((r # zs) @ rows)"
    using Cons.prems by (auto simp: same_partition_def)
  ultimately show ?case using Cons.IH[of zs] Cons.IH[of "r # zs"] by simp
qed simp

lemma of_key_partition:
  "same_partition k1 k2 rows \<Longrightarrow> r \<in> set rows \<Longrightarrow> of_key k1 (k1 r) rows = of_key k2 (k2 r) rows"
  by (rule filter_cong[OF refl]) (auto simp: same_partition_def)

section \<open>Properties\<close>

abbreviation group_key :: "(goval list \<Rightarrow> string) \<Rightarrow> TransformRule \<Rightarrow> DataRow \<Rightarrow> string" where
  "group_key gk r row \<equiv> gk (map (mget row) (GroupBy r))"

definition agg_row :: "agg_ops \<Rightarrow> TransformRule \<Rightarrow> DataRow list \<Rightarrow> DataRow" where
  "agg_row ops r c =
     fold (\<lambda>af. mput (field_name af) (computeAgg ops (aFunction af) (aColumn af) c)) (rule_fields r) (key_columns (GroupBy r) (hd c))"

lemma aggregate_classes:
  "Rows (aggregate ops gk r ds) =
   map (\<lambda>row. agg_row ops r (of_key (group_key gk r) (group_key gk r row) (Rows ds))) (dedup_rows (group_key gk r) [] (Rows ds))"
proof -
  let ?k = "group_key gk r" and ?s = "fold (group_row (group_key gk r)) (Rows ds) ([], [])"
  let ?out = "\<lambda>(keyRow, rows). fold (\<lambda>af. mput (field_name af) (computeAgg ops (aFunction af) (aColumn af) rows)) (rule_fields r)
      (key_columns (GroupBy r) keyRow)"
  have "Rows (aggregate ops gk r ds) = map (\<lambda>k. case map_of (fst ?s) k of None \<Rightarrow> [] | Some x \<Rightarrow> ?out x) (snd ?s)"
    by (simp add: aggregate_def Let_def split_def)
  also have "\<dots> = map (\<lambda>row. let c = of_key ?k (?k row) (Rows ds) in ?out (hd c, batch.folded c)) (dedup_rows ?k [] (Rows ds))"
    by (rule batch.report_classes) simp_all
  also have "\<dots> = map (\<lambda>row. agg_row ops r (of_key ?k (?k row) (Rows ds))) (dedup_rows ?k [] (Rows ds))"
  proof (rule map_cong[OF refl])
    fix row assume "row \<in> set (dedup_rows ?k [] (Rows ds))"
    then have "row \<in> set (Rows ds)" using dedup_rows_spec[of ?k "[]" "Rows ds"] by (auto dest: list_emb_set)
    then have "of_key ?k (?k row) (Rows ds) \<noteq> []" by (auto simp: filter_empty_conv)
    then show "(let c = of_key ?k (?k row) (Rows ds) in ?out (hd c, batch.folded c)) = agg_row ops r (of_key ?k (?k row) (Rows ds))"
      by (simp add: agg_row_def batch_folded Let_def)
  qed
  finally show ?thesis .
qed

lemma fold_batches: "fold (fold_batch ops sv) batches s = fold (fold_row ops sv) (concat (map Rows batches)) s"
  by (induction batches arbitrary: s) (simp_all add: fold_batch_def)

lemma zip_results:
  "fold (\<lambda>(af, a). mput (field_name af) (agg_result ops (aFunction af) a)) (zip afs (map (\<lambda>af. accumulate ops (aColumn af) c) afs)) m =
   fold (\<lambda>af. mput (field_name af) (computeAgg ops (aFunction af) (aColumn af) c)) afs m"
  by (induction afs arbitrary: m) (simp_all add: agg_result_accumulate)

lemma stream_classes:
  assumes "newStreamAggState r = Inr s" "rows = concat (map Rows batches)"
  shows "Rows (finalize ops (fold (fold_batch ops sv) batches s)) =
    map (\<lambda>row. agg_row ops r (of_key (stream_key sv (GroupBy r)) (stream_key sv (GroupBy r) row) rows))
      (dedup_rows (stream_key sv (GroupBy r)) [] rows)"
proof -
  let ?k = "stream_key sv (GroupBy r)" and ?afs = "rule_fields r" and ?t = "fold (fold_row ops sv) rows s"
  let ?out = "\<lambda>(keyRow, as). fold (\<lambda>(af, a). mput (field_name af) (agg_result ops (aFunction af) a)) (zip ?afs as)
      (key_columns (GroupBy r) keyRow)"
  have s: "stream_inv r ?afs s" "sorder s = []" "stream_groups s = []"
    using assms(1) by (auto simp: newStreamAggState_def stream_inv_def stream_groups_def split: if_splits)
  have "stream_inv r ?afs ?t" using stream.represents_run[OF s] by (simp add: stream.represents_def)
  then have "srule ?t = r" "sfields ?t = ?afs" by (simp_all add: stream_inv_def)
  then have "Rows (finalize ops (fold (fold_batch ops sv) batches s)) =
      map (\<lambda>k. case map_of (stream_groups ?t) k of None \<Rightarrow> [] | Some x \<Rightarrow> ?out x) (sorder ?t)"
    by (auto simp: finalize_def fold_batches assms(2) stream_groups_lookup split: option.splits)
  also have "\<dots> = map (\<lambda>row. let c = of_key ?k (?k row) rows in ?out (hd c, stream.folded ops ?afs c)) (dedup_rows ?k [] rows)"
    by (rule stream.report_classes[OF s])
  also have "\<dots> = map (\<lambda>row. agg_row ops r (of_key ?k (?k row) rows)) (dedup_rows ?k [] rows)"
  proof (rule map_cong[OF refl])
    fix row assume "row \<in> set (dedup_rows ?k [] rows)"
    then have "row \<in> set rows" using dedup_rows_spec[of ?k "[]" rows] by (auto dest: list_emb_set)
    then have "of_key ?k (?k row) rows \<noteq> []" by (auto simp: filter_empty_conv)
    then show "(let c = of_key ?k (?k row) rows in ?out (hd c, stream.folded ops ?afs c)) = agg_row ops r (of_key ?k (?k row) rows)"
      by (simp add: agg_row_def stream_folded Let_def zip_results)
  qed
  finally show ?thesis .
qed

text \<open>
  Streaming aggregation computes what the whole-dataset aggregation does, however the rows are
  cut into batches: the same columns, the same groups in the same order, and the same result of
  every function in every group. It holds when the two group keys tell the same rows apart.
\<close>

lemma stream_aggregate_equivalent:
  assumes "newStreamAggState r = Inr s" and "rows = concat (map Rows batches)"
    and "same_partition (stream_key sv (GroupBy r)) (\<lambda>row. gk (map (mget row) (GroupBy r))) rows"
  shows "finalize ops (fold (fold_batch ops sv) batches s) = aggregate ops gk r \<lparr>Columns = cols, Rows = rows\<rparr>"
proof -
  let ?k1 = "stream_key sv (GroupBy r)" and ?k2 = "group_key gk r"
  have "dedup_rows ?k1 [] rows = dedup_rows ?k2 [] rows"
    using dedup_rows_partition[of ?k1 ?k2 "[]" rows] assms(3) by simp
  moreover have "of_key ?k1 (?k1 row) rows = of_key ?k2 (?k2 row) rows" if "row \<in> set (dedup_rows ?k2 [] rows)" for row
    by (rule of_key_partition[OF assms(3)]) (use that dedup_rows_spec[of ?k2 "[]" rows] in \<open>auto dest: list_emb_set\<close>)
  ultimately have "Rows (finalize ops (fold (fold_batch ops sv) batches s)) = Rows (aggregate ops gk r \<lparr>Columns = cols, Rows = rows\<rparr>)"
    unfolding stream_classes[OF assms(1,2)] aggregate_classes by simp
  moreover have "Columns (finalize ops (fold (fold_batch ops sv) batches s)) = Columns (aggregate ops gk r \<lparr>Columns = cols, Rows = rows\<rparr>)"
  proof -
    have "stream_inv r (rule_fields r) s" "sorder s = []" "stream_groups s = []"
      using assms(1) by (auto simp: newStreamAggState_def stream_inv_def stream_groups_def split: if_splits)
    from stream.represents_run[OF this, of sv ops rows] show ?thesis
      by (simp add: finalize_def aggregate_def Let_def split_def fold_batches stream.represents_def stream_inv_def flip: assms(2))
  qed
  ultimately show ?thesis by simp
qed

text \<open>Text keys without a zero byte: the case the streaming key was written for.\<close>

lemma text_keys_partition:
  assumes "\<And>row c. row \<in> set rows \<Longrightarrow> c \<in> set cols \<Longrightarrow> \<exists>s. mget row c = VStr s \<and> CHR 0x00 \<notin> set s"
    and "\<And>s. sv (VStr s) = s" and "inj_on gk ((\<lambda>row. map (mget row) cols) ` set rows)" and "cols \<noteq> []"
  shows "same_partition (stream_key sv cols) (\<lambda>row. gk (map (mget row) cols)) rows"
proof -
  have split: "split_on (CHR 0x00) (stream_key sv cols row) = map (\<lambda>c. sv (mget row c)) cols" if "row \<in> set rows" for row
  proof -
    have "\<forall>x \<in> set xs. CHR 0x00 \<notin> set x \<Longrightarrow> xs \<noteq> [] \<Longrightarrow> split_on (CHR 0x00) (join_with [CHR 0x00] xs) = xs" for xs
      by (induction "[CHR 0x00]" xs rule: join_with.induct) (auto simp: split_on_append)
    moreover have "\<forall>x \<in> set (map (\<lambda>c. sv (mget row c)) cols). CHR 0x00 \<notin> set x"
      using assms(1)[OF that] assms(2) by fastforce
    ultimately show ?thesis using assms(4) by (simp add: stream_key_def)
  qed
  have "stream_key sv cols r = stream_key sv cols r' \<longleftrightarrow> map (mget r) cols = map (mget r') cols"
    if r: "r \<in> set rows" "r' \<in> set rows" for r r'
  proof
    assume "stream_key sv cols r = stream_key sv cols r'"
    then have "map (\<lambda>c. sv (mget r c)) cols = map (\<lambda>c. sv (mget r' c)) cols" using split r by metis
    then have "mget r c = mget r' c" if "c \<in> set cols" for c
      using assms(1)[OF r(1) that] assms(1)[OF r(2) that] assms(2) that by fastforce
    then show "map (mget r) cols = map (mget r') cols" by simp
  next
    assume "map (mget r) cols = map (mget r') cols"
    then have "map (\<lambda>c. sv (mget r c)) cols = map (\<lambda>c. sv (mget r' c)) cols" by simp
    then show "stream_key sv cols r = stream_key sv cols r'" by (simp only: stream_key_def)
  qed
  then show ?thesis using assms(3) unfolding same_partition_def by (metis (no_types, lifting) image_eqI inj_onD)
qed

text \<open>An instance with exact arithmetic.\<close>

definition demo_ops :: agg_ops where
  "demo_ops = \<lparr>fadd = (\<lambda>a b. case (a, b) of (Fin x, Fin y) \<Rightarrow> Fin (x + y) | _ \<Rightarrow> NaN),
     fdiv = (\<lambda>a b. case (a, b) of (Fin x, Fin y) \<Rightarrow> Fin (x / y) | _ \<Rightarrow> NaN), float_of = (\<lambda>i. Fin (of_int i)),
     ParseFloat = (\<lambda>_. None), compareAggValues = (\<lambda>_ _. 0), value_key = (\<lambda>_. [])\<rparr>"

definition demo_ff :: "f64 \<Rightarrow> string" where
  "demo_ff f = []"

lemma stream_aggregate_equivalent_witness:
  "let f = \<lparr>aColumn = ''v'', aFunction = ''sum'', aAlias = []\<rparr>;
       r = \<lparr>rType = ''aggregate'', GroupBy = [''k''], AggFields = [f], Aggregations = []\<rparr>;
       a = [(''k'', VStr ''x''), (''v'', VInt64 1)]; b = [(''k'', VStr ''y''), (''v'', VInt64 2)]
   in \<exists>s gk. newStreamAggState r = Inr s \<and>
        finalize demo_ops (fold (fold_batch demo_ops (sprint_v demo_ff)) [\<lparr>Columns = [], Rows = [a]\<rparr>, \<lparr>Columns = [], Rows = [b, a]\<rparr>] s) =
        aggregate demo_ops gk r \<lparr>Columns = [], Rows = [a, b, a]\<rparr>"
proof -
  let ?r = "\<lparr>rType = ''aggregate'', GroupBy = [''k''],
      AggFields = [\<lparr>aColumn = ''v'', aFunction = ''sum'', aAlias = []\<rparr>], Aggregations = []\<rparr>"
  let ?a = "[(''k'', VStr ''x''), (''v'', VInt64 1)]" and ?b = "[(''k'', VStr ''y''), (''v'', VInt64 2)]"
  define gk :: "goval list \<Rightarrow> string" where "gk vs = concat (map (sprint_v demo_ff) vs)" for vs
  obtain s where s: "newStreamAggState ?r = Inr s" by (simp add: newStreamAggState_def rule_fields_def)
  have p: "same_partition (stream_key (sprint_v demo_ff) (GroupBy ?r)) (\<lambda>row. gk (map (mget row) (GroupBy ?r))) [?a, ?b, ?a]"
    by (rule text_keys_partition) (auto simp: gk_def mget_def)
  have "finalize demo_ops (fold (fold_batch demo_ops (sprint_v demo_ff)) [\<lparr>Columns = [], Rows = [?a]\<rparr>, \<lparr>Columns = [], Rows = [?b, ?a]\<rparr>] s) =
      aggregate demo_ops gk ?r \<lparr>Columns = [], Rows = [?a, ?b, ?a]\<rparr>"
    by (rule stream_aggregate_equivalent[OF s _ p]) simp
  then show ?thesis using s by (auto simp: Let_def)
qed

text \<open>
  The two aggregations do not group alike: the streaming key is the printed text of the values, so
  the text "1" and the number 1 fall into one group there and into two in the whole dataset, whose
  key tells them apart.
\<close>

lemma stream_merges_groups:
  assumes "gk [VStr ''1''] \<noteq> gk [VInt64 1]"
    and "r = \<lparr>rType = ''aggregate'', GroupBy = [''k''],
      AggFields = [\<lparr>aColumn = ''k'', aFunction = ''count'', aAlias = []\<rparr>], Aggregations = []\<rparr>"
    and "rows = [[(''k'', VStr ''1'')], [(''k'', VInt64 1)]]" and "newStreamAggState r = Inr s"
  shows "length (Rows (aggregate ops gk r \<lparr>Columns = [''k''], Rows = rows\<rparr>)) = 2 \<and>
    length (Rows (finalize ops (fold (fold_batch ops (sprint_v ff)) [\<lparr>Columns = [''k''], Rows = rows\<rparr>] s))) = 1"
proof -
  have "show_int 1 = ''1''" by code_simp
  moreover have "rows = concat (map Rows [\<lparr>Columns = [''k''], Rows = rows\<rparr>])" by simp
  ultimately show ?thesis
    unfolding aggregate_classes stream_classes[OF assms(4) \<open>rows = concat _\<close>]
    using assms(1-3) by (simp add: mget_def stream_key_def)
qed

lemma stream_merges_groups_witness:
  "\<exists>gk r s rows. length (Rows (aggregate demo_ops gk r \<lparr>Columns = [''k''], Rows = rows\<rparr>)) = 2 \<and>
     length (Rows (finalize demo_ops (fold (fold_batch demo_ops (sprint_v demo_ff)) [\<lparr>Columns = [''k''], Rows = rows\<rparr>] s))) = 1"
proof -
  define gk :: "goval list \<Rightarrow> string" where "gk vs = (if vs = [VInt64 1] then ''[]interface {}{1}'' else [])" for vs
  define r where "r = \<lparr>rType = ''aggregate'', GroupBy = [''k''],
      AggFields = [\<lparr>aColumn = ''k'', aFunction = ''count'', aAlias = []\<rparr>], Aggregations = []\<rparr>"
  obtain s where s: "newStreamAggState r = Inr s" by (simp add: newStreamAggState_def rule_fields_def r_def)
  have "gk [VStr ''1''] \<noteq> gk [VInt64 1]" by (simp add: gk_def)
  from stream_merges_groups[OF this r_def refl s] show ?thesis by blast
qed

end
