(* ===== verification/Cond_Expr.thy ===== *)
theory Cond_Expr
  imports Data_Agg
begin

text \<open>
  The condition language of pipelines: the check made when a pipeline is saved
  (\<^verbatim>\<open>IsConditionExpressionSupported\<close> of \<^verbatim>\<open>src/models/pipeline.go\<close>) and the evaluation at run time
  (\<^verbatim>\<open>src/engine/condition.go\<close>). Each regular expression is a recogniser that returns its groups;
  none of them needs backtracking. White space is that of ASCII.
\<close>

section \<open>The patterns\<close>

datatype cmp_op = OpEq | OpNe | OpGe | OpLe | OpGt | OpLt

definition re_space :: "char \<Rightarrow> bool" where
  "re_space c \<longleftrightarrow> c \<in> {CHR 0x09, CHR 0x0A, CHR 0x0C, CHR 0x0D, CHR 0x20}"

definition skip_space :: "string \<Rightarrow> string" where
  "skip_space = dropWhile re_space"

definition trim_space :: "string \<Rightarrow> string" where
  "trim_space s = (let sp = (\<lambda>c. re_space c \<or> c = CHR 0x0B) in rev (dropWhile sp (rev (dropWhile sp s))))"

definition is_digit :: "char \<Rightarrow> bool" where
  "is_digit c \<longleftrightarrow> 48 \<le> (of_char c :: nat) \<and> (of_char c :: nat) < 58"

fun take_op :: "string \<Rightarrow> (cmp_op \<times> string) option" where
  "take_op (c # d # s) =
     (if c = CHR ''='' \<and> d = CHR ''='' then Some (OpEq, s)
      else if c = CHR ''!'' \<and> d = CHR ''='' then Some (OpNe, s)
      else if c = CHR ''>'' then Some (if d = CHR ''='' then (OpGe, s) else (OpGt, d # s))
      else if c = CHR ''<'' then Some (if d = CHR ''='' then (OpLe, s) else (OpLt, d # s))
      else None)"
| "take_op _ = None"

text \<open>\<^verbatim>\<open>\s*"([^"]+)"\s*\)\<close>, after the opening parenthesis.\<close>

definition quoted_arg :: "string \<Rightarrow> (string \<times> string) option" where
  "quoted_arg s =
     (case skip_space s of
        [] \<Rightarrow> None
      | q # r \<Rightarrow>
          if q \<noteq> CHR 0x22 \<or> takeWhile (\<lambda>c. c \<noteq> CHR 0x22) r = [] then None
          else (case dropWhile (\<lambda>c. c \<noteq> CHR 0x22) r of
                  [] \<Rightarrow> None
                | _ # r2 \<Rightarrow>
                    (case skip_space r2 of
                       [] \<Rightarrow> None
                     | p # rest \<Rightarrow> if p = CHR '')'' then Some (takeWhile (\<lambda>c. c \<noteq> CHR 0x22) r, rest) else None)))"

text \<open>\<^verbatim>\<open>\d+(?:\.\d*)?|\.\d+\<close>, up to the end.\<close>

definition is_number :: "string \<Rightarrow> bool" where
  "is_number s =
     (case dropWhile is_digit s of
        [] \<Rightarrow> s \<noteq> []
      | c # f \<Rightarrow> c = CHR ''.'' \<and> list_all is_digit f \<and> (takeWhile is_digit s \<noteq> [] \<or> f \<noteq> []))"

definition compare_tail :: "(string \<Rightarrow> bool) \<Rightarrow> string \<Rightarrow> (cmp_op \<times> string) option" where
  "compare_tail num s =
     (case take_op (skip_space s) of
        None \<Rightarrow> None
      | Some (op, r) \<Rightarrow> let d = skip_space r in if num d then Some (op, d) else None)"

definition reRowCount :: "string \<Rightarrow> (cmp_op \<times> string) option" where
  "reRowCount s = Option.bind (cut_prefix s ''row_count'') (compare_tail (\<lambda>d. d \<noteq> [] \<and> list_all is_digit d))"

definition reColExists :: "string \<Rightarrow> string option" where
  "reColExists s =
     Option.bind (cut_prefix s ''column_exists('') (\<lambda>r.
       case quoted_arg r of Some (name, []) \<Rightarrow> Some name | _ \<Rightarrow> None)"

definition column_compare :: "string \<Rightarrow> (string \<times> cmp_op \<times> string) option" where
  "column_compare r =
     (case quoted_arg r of
        None \<Rightarrow> None
      | Some (name, r2) \<Rightarrow> map_option (\<lambda>(op, d). (name, op, d)) (compare_tail is_number r2))"

definition reNullPct :: "string \<Rightarrow> (string \<times> cmp_op \<times> string) option" where
  "reNullPct s = Option.bind (cut_prefix s ''null_pct('') column_compare"

definition reMinMax :: "string \<Rightarrow> (string \<times> string \<times> cmp_op \<times> string) option" where
  "reMinMax s =
     (case cut_prefix s ''min('' of
        Some r \<Rightarrow> map_option (Pair ''min'') (column_compare r)
      | None \<Rightarrow> Option.bind (cut_prefix s ''max('') (\<lambda>r. map_option (Pair ''max'') (column_compare r)))"

definition IsConditionExpressionSupported :: "string \<Rightarrow> bool" where
  "IsConditionExpressionSupported expr =
     (let e = trim_space expr in
      e = ''always_true'' \<or> e = ''always_false'' \<or> reRowCount e \<noteq> None \<or> reColExists e \<noteq> None \<or>
      reNullPct e \<noteq> None \<or> reMinMax e \<noteq> None)"

section \<open>Evaluation\<close>

record cond_ops = agg_ops +
  fmul :: "f64 \<Rightarrow> f64 \<Rightarrow> f64"
  sprint :: "goval \<Rightarrow> string"

datatype cond_reason =
    NoData | AlwaysTrue | AlwaysFalse
  | RowCount nat cmp_op int | ColumnFound string bool
  | NullPct string f64 cmp_op f64 | MinMax string string f64 cmp_op f64
  | UnsupportedExpression string

text \<open>\<open>Value\<close> is the value whose text the result carries.\<close>

record ConditionResult =
  Passed :: bool
  cReason :: cond_reason
  cValue :: goval

fun compareInts :: "int \<Rightarrow> cmp_op \<Rightarrow> int \<Rightarrow> bool" where
  "compareInts a OpGt b = (a > b)"
| "compareInts a OpLt b = (a < b)"
| "compareInts a OpGe b = (a \<ge> b)"
| "compareInts a OpLe b = (a \<le> b)"
| "compareInts a OpEq b = (a = b)"
| "compareInts a OpNe b = (a \<noteq> b)"

fun compareFloats :: "f64 \<Rightarrow> cmp_op \<Rightarrow> f64 \<Rightarrow> bool" where
  "compareFloats a OpGt b = f_less b a"
| "compareFloats a OpLt b = f_less a b"
| "compareFloats a OpGe b = f_le b a"
| "compareFloats a OpLe b = f_le a b"
| "compareFloats a OpEq b = f_eq a b"
| "compareFloats a OpNe b = (\<not> f_eq a b)"

definition toFloat :: "cond_ops \<Rightarrow> goval \<Rightarrow> f64 option" where
  "toFloat ops v =
     (case v of
        VFloat f \<Rightarrow> Some f
      | VInt i \<Rightarrow> Some (float_of ops i)
      | VInt64 i \<Rightarrow> Some (float_of ops i)
      | VStr s \<Rightarrow> ParseFloat ops s
      | _ \<Rightarrow> None)"

definition computeNullPct :: "cond_ops \<Rightarrow> string \<Rightarrow> DataSet \<Rightarrow> f64" where
  "computeNullPct ops col ds =
     (if Rows ds = [] then Fin 0
      else
        let nulls = length (filter (\<lambda>row. mget row col = VNil \<or> sprint ops (mget row col) = []) (Rows ds))
        in fmul ops (fdiv ops (float_of ops (int nulls)) (float_of ops (int (length (Rows ds))))) (Fin 100))"

text \<open>The fold keeps \<open>None\<close> until the first number.\<close>

definition minmax_row :: "cond_ops \<Rightarrow> string \<Rightarrow> string \<Rightarrow> DataRow \<Rightarrow> f64 option \<Rightarrow> f64 option" where
  "minmax_row ops fn col row acc =
     (if mget row col = VNil then acc
      else case toFloat ops (mget row col) of
        None \<Rightarrow> acc
      | Some f \<Rightarrow>
          (case acc of
             None \<Rightarrow> Some f
           | Some result \<Rightarrow>
               if fn = ''min'' \<and> f_less f result then Some f
               else if fn = ''max'' \<and> f_less result f then Some f
               else Some result))"

definition computeMinMax :: "cond_ops \<Rightarrow> string \<Rightarrow> string \<Rightarrow> DataSet \<Rightarrow> f64" where
  "computeMinMax ops fn col ds =
     (case fold (minmax_row ops fn col) (Rows ds) None of None \<Rightarrow> Fin 0 | Some f \<Rightarrow> f)"

text \<open>\<^verbatim>\<open>n, _ := strconv.Atoi(s)\<close> on digits: the largest int where the number does not fit.\<close>

definition atoi :: "string \<Rightarrow> int" where
  "atoi d = min (2 ^ 63 - 1) (int (digits_value d))"

text \<open>
  \<^verbatim>\<open>threshold, _ := strconv.ParseFloat(s, 64)\<close> on a number of the pattern: unsigned and well formed, so the
  only error is the range error, which leaves the infinity.
\<close>

definition parse_threshold :: "cond_ops \<Rightarrow> string \<Rightarrow> f64" where
  "parse_threshold ops d = (case ParseFloat ops d of None \<Rightarrow> PosInf | Some f \<Rightarrow> f)"

definition EvaluateCondition :: "cond_ops \<Rightarrow> string \<Rightarrow> DataSet option \<Rightarrow> ConditionResult" where
  "EvaluateCondition ops expr0 input =
     (case input of
        None \<Rightarrow> \<lparr>Passed = False, cReason = NoData, cValue = VStr []\<rparr>
      | Some ds \<Rightarrow>
          let expr = trim_space expr0 in
          if expr = ''always_true'' then \<lparr>Passed = True, cReason = AlwaysTrue, cValue = VBool True\<rparr>
          else if expr = ''always_false'' then \<lparr>Passed = False, cReason = AlwaysFalse, cValue = VBool False\<rparr>
          else case reRowCount expr of
            Some (op, d) \<Rightarrow>
              let n = atoi d; actual = length (Rows ds)
              in \<lparr>Passed = compareInts (int actual) op n, cReason = RowCount actual op n, cValue = VInt (int actual)\<rparr>
          | None \<Rightarrow>
          (case reColExists expr of
            Some name \<Rightarrow>
              let found = name \<in> set (Columns ds)
              in \<lparr>Passed = found, cReason = ColumnFound name found, cValue = VBool found\<rparr>
          | None \<Rightarrow>
          (case reNullPct expr of
            Some (col, op, d) \<Rightarrow>
              let threshold = parse_threshold ops d; pct = computeNullPct ops col ds
              in \<lparr>Passed = compareFloats pct op threshold, cReason = NullPct col pct op threshold, cValue = VFloat pct\<rparr>
          | None \<Rightarrow>
          (case reMinMax expr of
            Some (fn, col, op, d) \<Rightarrow>
              let threshold = parse_threshold ops d; val = computeMinMax ops fn col ds
              in \<lparr>Passed = compareFloats val op threshold, cReason = MinMax fn col val op threshold, cValue = VFloat val\<rparr>
          | None \<Rightarrow> \<lparr>Passed = False, cReason = UnsupportedExpression expr, cValue = VStr []\<rparr>))))"

text \<open>\<^verbatim>\<open>runCondition\<close>: the data passes through, the decision is separate.\<close>

definition runCondition :: "cond_ops \<Rightarrow> gomap \<Rightarrow> DataSet option \<Rightarrow> DataSet option \<times> bool" where
  "runCondition ops config input =
     (let expr = mget_str config ''expression'' in
      if expr = [] then (input, True) else (input, Passed (EvaluateCondition ops expr input)))"

section \<open>Properties\<close>

text \<open>
  The validator accepts exactly the expressions that the runtime recognises: an accepted
  expression is never evaluated as unsupported, and a rejected one always is.
\<close>

lemma supported_iff_recognised:
  "IsConditionExpressionSupported expr \<longleftrightarrow> (\<forall>e. cReason (EvaluateCondition ops expr (Some ds)) \<noteq> UnsupportedExpression e)"
proof -
  let ?e = "trim_space expr"
  consider "?e = ''always_true'' \<or> ?e = ''always_false''"
    | "?e \<noteq> ''always_true''" "?e \<noteq> ''always_false''" by blast
  then show ?thesis
  proof cases
    case 1
    then show ?thesis by (auto simp: IsConditionExpressionSupported_def EvaluateCondition_def Let_def)
  next
    case 2
    then show ?thesis
      by (cases "reRowCount ?e"; cases "reColExists ?e"; cases "reNullPct ?e"; cases "reMinMax ?e")
        (auto simp: IsConditionExpressionSupported_def EvaluateCondition_def Let_def split: prod.splits)
  qed
qed

text \<open>
  A row-count condition decides the comparison with the number as written, however long: the
  parse saturates where the number leaves the range of int, and no dataset is that long.
\<close>

lemma row_count_exact:
  assumes "reRowCount (trim_space expr) = Some (op, d)" and "int (length (Rows ds)) < 2 ^ 63 - 1"
  shows "Passed (EvaluateCondition ops expr (Some ds)) = compareInts (int (length (Rows ds))) op (int (digits_value d))"
proof -
  have "reRowCount ''always_true'' = None" "reRowCount ''always_false'' = None" by code_simp+
  then have "trim_space expr \<noteq> ''always_true''" "trim_space expr \<noteq> ''always_false''" using assms(1) by auto
  moreover have "compareInts a op (min m n) = compareInts a op n" if "a < m" for a m n :: int
    using that by (cases op) auto
  ultimately show ?thesis using assms by (simp add: EvaluateCondition_def Let_def atoi_def)
qed

definition demo_cond_ops :: cond_ops where
  "demo_cond_ops = agg_ops.extend demo_ops \<lparr>fmul = (\<lambda>a b. a), sprint = (\<lambda>_. [])\<rparr>"

lemma row_count_exact_witness:
  "\<not> Passed (EvaluateCondition demo_cond_ops '' row_count > 99999999999999999999 '' (Some \<lparr>Columns = [], Rows = [[]]\<rparr>))"
proof -
  have "reRowCount (trim_space '' row_count > 99999999999999999999 '') = Some (OpGt, ''99999999999999999999'')" by code_simp
  moreover have "digits_value ''99999999999999999999'' = 99999999999999999999" by (simp add: digits_value_def)
  ultimately show ?thesis using row_count_exact[of "'' row_count > 99999999999999999999 ''" OpGt _ "\<lparr>Columns = [], Rows = [[]]\<rparr>"] by simp
qed

end
