(* ===== verification/Pipe_Validate.thy ===== *)
theory Pipe_Validate
  imports Dag_Progress Task_Sound Pipe_Model Cond_Expr
begin

text \<open>
  Validation of a pipeline: \<^verbatim>\<open>ValidatePipeline\<close> of \<^verbatim>\<open>src/engine/validate.go\<close>, which every save and
  every run passes, and the structural check \<^verbatim>\<open>Pipeline.Validate\<close> of \<^verbatim>\<open>src/models/pipeline.go\<close>.
  Error messages are constructors. The record \<open>host\<close> holds what the checks call: the cron parser, the
  time zone database, the disabled node types, the executors, and the per-type check of a node's
  own configuration (\<^verbatim>\<open>validateNodeConfig\<close>).
\<close>

section \<open>Executors\<close>

text \<open>An executor; one that declares node kinds has the second field.\<close>

record NodeExecutor =
  CanHandle :: "string \<Rightarrow> bool"
  DeclaredCapabilities :: "(string \<Rightarrow> string list option) option"

record host =
  scheduleFor :: "string \<Rightarrow> string \<Rightarrow> string option"
  LoadLocation :: "string \<Rightarrow> string option"
  DisabledNodeTypes :: "string list"
  executors :: "NodeExecutor option list"
  nodeConfigErrors :: "VNode \<Rightarrow> string list"
  parseNumber :: number_parser

definition ConditionalEdgesIRVersion :: string where "ConditionalEdgesIRVersion = ''2.1''"
definition SupportedIRVersions :: "string list" where "SupportedIRVersions = [''2.0'', ConditionalEdgesIRVersion, ''2.2'']"

definition IsIRVersionSupported :: "string \<Rightarrow> bool" where
  "IsIRVersionSupported v \<longleftrightarrow> v = [] \<or> v \<in> set SupportedIRVersions"

definition IsBuiltInNodeType :: "string \<Rightarrow> bool" where
  "IsBuiltInNodeType t \<longleftrightarrow> t \<in> set
     [''source_file'', ''source_api'', ''source_db'', ''transform'', ''project'', ''aggregate'', ''filter'',
      ''quality_check'', ''contract_gate'', ''sql_generate'', ''code'', ''task'', ''join'', ''sink_file'', ''sink_db'',
      ''sink_api'', ''migrate'', ''condition'', ''dbt'', ''notify'', ''bash'', ''union'', ''dataset_map'',
      ''dataset_filter'', ''wait'']"

definition executorCanHandle :: "string \<Rightarrow> NodeExecutor option list \<Rightarrow> bool" where
  "executorCanHandle t execs = list_ex (\<lambda>x. case x of None \<Rightarrow> False | Some e \<Rightarrow> CanHandle e t) execs"

section \<open>Interfaces of nodes\<close>

definition dataset_port :: "(string \<times> goval) list \<Rightarrow> goval" where
  "dataset_port rest = VMap ((''value'', VMap [(''kind'', VStr ''dataset'')]) # rest)"

definition interface_doc :: "gomap \<Rightarrow> gomap \<Rightarrow> gomap" where
  "interface_doc ins outs = [(''contract'', VStr ''brokoli.task-interface/v1''), (''inputs'', VMap ins), (''outputs'', VMap outs)]"

definition migrate_row :: goval where
  "migrate_row =
     (let field = (\<lambda>name kind. VMap [(''name'', VStr name), (''type'', VMap [(''kind'', VStr kind)]), (''required'', VBool True)])
      in VMap [(''kind'', VStr ''record''),
        (''fields'', VList [field ''migrated_rows'' ''int64'', field ''table'' ''string'', field ''chunks'' ''int64''])])"

definition NodeTypeInterfaces :: "(string \<times> gomap) list" where
  "NodeTypeInterfaces =
     (let inp = [(''input'', dataset_port [])]; out = [(''result'', dataset_port [])]
      in [(''source_file'', interface_doc [] out), (''source_db'', interface_doc [] out),
          (''transform'', interface_doc inp out), (''quality_check'', interface_doc inp out),
          (''contract_gate'', interface_doc inp out), (''condition'', interface_doc inp out),
          (''union'', interface_doc [(''input'', dataset_port [(''cardinality'', VStr ''many'')])] out),
          (''dataset_map'', interface_doc inp out), (''dataset_filter'', interface_doc inp out),
          (''sink_file'', interface_doc inp []), (''sink_db'', interface_doc inp []), (''sink_api'', interface_doc inp []),
          (''notify'', interface_doc [(''input'', dataset_port [(''cardinality'', VStr ''optional'')])] []),
          (''migrate'', interface_doc []
             [(''result'', VMap [(''value'', VMap [(''kind'', VStr ''dataset''), (''row'', migrate_row)])])])])"

definition effectiveNodeInterface :: "VNode \<Rightarrow> gomap option" where
  "effectiveNodeInterface n = (case Interface n of Some i \<Rightarrow> Some i | None \<Rightarrow> map_of NodeTypeInterfaces (nType n))"

definition portValueFromInterface :: "gomap \<Rightarrow> string \<Rightarrow> string \<Rightarrow> PortValue option" where
  "portValueFromInterface iface grp portName =
     (let groupMap = (case as_map (mget iface grp) of None \<Rightarrow> [] | Some m \<Rightarrow> m) in
      case map_of groupMap portName of
        None \<Rightarrow> None
      | Some portRaw \<Rightarrow>
          (case as_map portRaw of
             None \<Rightarrow> None
           | Some portMap \<Rightarrow>
               (case map_of portMap ''value'' of
                  None \<Rightarrow> None
                | Some valueRaw \<Rightarrow> (case ParsePortValue valueRaw of Inl _ \<Rightarrow> None | Inr pv \<Rightarrow> Some pv))))"

text \<open>The first executor that recognises the type decides.\<close>

fun declared_caps :: "NodeExecutor option list \<Rightarrow> string \<Rightarrow> string list option" where
  "declared_caps [] t = None"
| "declared_caps (x # xs) t =
     (case Option.bind x DeclaredCapabilities of
        None \<Rightarrow> declared_caps xs t
      | Some d \<Rightarrow> (case d t of None \<Rightarrow> declared_caps xs t | Some caps \<Rightarrow> Some caps))"

definition nodeIsSourceCapable :: "VNode \<Rightarrow> NodeExecutor option list \<Rightarrow> bool" where
  "nodeIsSourceCapable n execs =
     (if Capabilities n \<noteq> [] then ''source'' \<in> set (Capabilities n)
      else case declared_caps execs (nType n) of
        Some caps \<Rightarrow> ''source'' \<in> set caps
      | None \<Rightarrow>
          if nType n = ''task'' then
            portValueFromInterface (case effectiveNodeInterface n of None \<Rightarrow> [] | Some i \<Rightarrow> i) ''inputs'' ''input'' = None
          else nType n \<in> set [''source_file'', ''source_api'', ''source_db'', ''dbt'', ''migrate''])"

definition nodeHasExpansion :: "VNode \<Rightarrow> bool" where
  "nodeHasExpansion n \<longleftrightarrow> nType n = ''code'' \<and> map_of (Config n) ''expansion'' \<noteq> None"

definition IsDigest :: "string \<Rightarrow> bool" where
  "IsDigest d \<longleftrightarrow>
     (case cut_prefix d ''sha256:'' of
        None \<Rightarrow> False
      | Some h \<Rightarrow> length h = 64 \<and> list_all (\<lambda>c. is_digit c \<or> 97 \<le> (of_char c :: nat) \<and> (of_char c :: nat) \<le> 102) h)"

datatype bundle_error = BundleRequired | BundleNotObject | BundleDigest | BundleFormat string

definition taskBundleV2Reference :: "gomap \<Rightarrow> bundle_error + string" where
  "taskBundleV2Reference config =
     (case map_of config ''task_bundle'' of
        None \<Rightarrow> Inl BundleRequired
      | Some raw \<Rightarrow>
          (case as_map raw of
             None \<Rightarrow> Inl BundleNotObject
           | Some m \<Rightarrow>
               if \<not> IsDigest (mget_str m ''digest'') then Inl BundleDigest
               else if mget_str m ''format'' \<noteq> ''brokoli.task-bundle/v2'' then Inl (BundleFormat (mget_str m ''format''))
               else Inr (mget_str m ''digest'')))"

section \<open>ValidatePipeline\<close>

datatype verror =
    NameRequired | BadSchedule string string | UnsupportedIR string | NoNodes
  | EmptyNodeID string | DuplicateNodeID string | TaskBundle string bundle_error | UnsupportedType string string
  | UnknownSource string | UnknownTarget string | SelfLoop string | PortsNotRouted string string
  | ConditionalNeedsIR string string | ConditionalNeedsCondition string string | BranchRequired string string
  | NoOutgoing string string | NoIncoming string string | NotAssignable string string Result | AssignPanic
  | ConditionInputs string nat | ConditionExpression string | JoinInputs string nat | SingleInput string string nat
  | UnionInputs string nat
  | HasCycle | NoSource | Disconnected string | TypeDisabled string string | NodeConfig string string
  | JoinKeyTypes string string string | JoinPlan string join_error

fun check_nodes :: "host \<Rightarrow> string set \<Rightarrow> VNode list \<Rightarrow> verror list" where
  "check_nodes h seen [] = []"
| "check_nodes h seen (n # ns) =
     (if nID n = [] then [EmptyNodeID (nName n)] else if nID n \<in> seen then [DuplicateNodeID (nID n)] else []) @
     (if nType n = ''task'' then
        (case taskBundleV2Reference (Config n) of Inl e \<Rightarrow> [TaskBundle (nID n) e] | Inr _ \<Rightarrow> [])
      else if \<not> IsBuiltInNodeType (nType n) \<and> \<not> executorCanHandle (nType n) (executors h)
      then [UnsupportedType (nID n) (nType n)] else []) @
     check_nodes h (if nID n = [] then seen else insert (nID n) seen) ns"

definition node_ids :: "VNode list \<Rightarrow> string set" where
  "node_ids nodes = nID ` set (filter (\<lambda>n. nID n \<noteq> []) nodes)"

definition node_type :: "VNode list \<Rightarrow> string \<Rightarrow> string" where
  "node_type nodes i =
     (case map_of (rev (map (\<lambda>n. (nID n, nType n)) (filter (\<lambda>n. nID n \<noteq> []) nodes))) i of None \<Rightarrow> [] | Some t \<Rightarrow> t)"

definition check_edge :: "VPipeline \<Rightarrow> VEdge \<Rightarrow> verror list" where
  "check_edge p e =
     (if From e \<notin> node_ids (Nodes p) then [UnknownSource (From e)] else []) @
     (if To e \<notin> node_ids (Nodes p) then [UnknownTarget (To e)] else []) @
     (if From e = To e then [SelfLoop (From e)] else []) @
     (if FromPort e \<noteq> [] \<or> ToPort e \<noteq> [] then [PortsNotRouted (From e) (To e)] else []) @
     (if Condition e \<noteq> None then
        (if IRVersion p \<noteq> ConditionalEdgesIRVersion then [ConditionalNeedsIR (From e) (To e)] else []) @
        (if node_type (Nodes p) (From e) \<noteq> ''condition'' then [ConditionalNeedsCondition (From e) (To e)] else [])
      else []) @
     (if IRVersion p = ConditionalEdgesIRVersion \<and> node_type (Nodes p) (From e) = ''condition'' \<and> Condition e = None
      then [BranchRequired (From e) (To e)] else [])"

definition validateEdgeAssignability :: "number_parser \<Rightarrow> VNode \<Rightarrow> VNode \<Rightarrow> verror list" where
  "validateEdgeAssignability parse fromNode toNode =
     (case (effectiveNodeInterface fromNode, effectiveNodeInterface toNode) of
        (Some pif, Some cif) \<Rightarrow>
          (case (portValueFromInterface pif ''outputs'' ''result'', portValueFromInterface cif ''inputs'' ''input'') of
             (Some pp, Some cp) \<Rightarrow>
               (case AssignPort parse pp cp of
                  None \<Rightarrow> [AssignPanic]
                | Some res \<Rightarrow> if RVerdict res = Incompatible then [NotAssignable (nID fromNode) (nID toNode) res] else [])
           | _ \<Rightarrow> [])
      | _ \<Rightarrow> [])"

definition nodesByID :: "VNode list \<Rightarrow> string \<Rightarrow> VNode" where
  "nodesByID nodes i = (case map_of (rev (map (\<lambda>n. (nID n, n)) nodes)) i of None \<Rightarrow> zeroVNode | Some n \<Rightarrow> n)"

definition inputDegree :: "VEdge list \<Rightarrow> string \<Rightarrow> nat" where
  "inputDegree edges i = length (filter (\<lambda>e. To e = i) edges)"

text \<open>Exactly one incoming edge, whose source is a dynamic expansion.\<close>

definition unionFedBySingleExpansion :: "string \<Rightarrow> VEdge list \<Rightarrow> VNode list \<Rightarrow> bool" where
  "unionFedBySingleExpansion i edges nodes =
     (case filter (\<lambda>e. To e = i) edges of [e] \<Rightarrow> nodeHasExpansion (nodesByID nodes (From e)) | _ \<Rightarrow> False)"

definition edge_semantics :: "host \<Rightarrow> VNode list \<Rightarrow> VEdge \<Rightarrow> verror list" where
  "edge_semantics h nodes e =
     (let fromNode = nodesByID nodes (From e); toNode = nodesByID nodes (To e) in
      (if nType fromNode \<in> set [''sink_file'', ''sink_db'', ''sink_api'', ''notify'', ''migrate'']
       then [NoOutgoing (From e) (nType fromNode)] else []) @
      (if nodeIsSourceCapable toNode (executors h) then [NoIncoming (To e) (nType toNode)] else []) @
      validateEdgeAssignability (parseNumber h) fromNode toNode)"

definition node_semantics :: "string \<Rightarrow> VNode list \<Rightarrow> VEdge list \<Rightarrow> VNode \<Rightarrow> verror list" where
  "node_semantics ir nodes edges n =
     (let count = inputDegree edges (nID n) in
      if nType n = ''condition'' then
        (if ir = ConditionalEdgesIRVersion then
           (if count \<noteq> 1 then [ConditionInputs (nName n) count] else []) @
           (case as_str (mget (Config n) ''expression'') of
              None \<Rightarrow> [ConditionExpression (nName n)]
            | Some e \<Rightarrow> if IsConditionExpressionSupported e then [] else [ConditionExpression (nName n)])
         else [])
      else if nType n = ''join'' then (if count \<noteq> 2 then [JoinInputs (nName n) count] else [])
      else if nType n \<in> set [''project'', ''aggregate'', ''filter'', ''contract_gate''] then
        (if count \<noteq> 1 then [SingleInput (nName n) (nType n) count] else [])
      else if nType n = ''union'' then
        (if count < 2 \<and> \<not> (count = 1 \<and> unionFedBySingleExpansion (nID n) edges nodes) then [UnionInputs (nName n) count] else [])
      else [])"

definition validateEdgeSemantics :: "host \<Rightarrow> string \<Rightarrow> VNode list \<Rightarrow> VEdge list \<Rightarrow> verror list" where
  "validateEdgeSemantics h ir nodes edges =
     concat (map (edge_semantics h nodes) edges) @ concat (map (node_semantics ir nodes edges) nodes)"

text \<open>The declared columns of a schema: names in order and their kinds.\<close>

fun schema_columns :: "goval list \<Rightarrow> (string list \<times> (string \<times> string) list) option" where
  "schema_columns [] = Some ([], [])"
| "schema_columns (raw # rest) =
     (case as_map raw of
        None \<Rightarrow> None
      | Some column \<Rightarrow>
          let name = mget_str column ''name'';
              kind = (case as_map (mget column ''type'') of None \<Rightarrow> [] | Some t \<Rightarrow> mget_str t ''kind'')
          in if name = [] \<or> kind = [] then None
             else map_option (\<lambda>(names, kinds). (name # names, if name \<in> fst ` set kinds then kinds else (name, kind) # kinds))
                    (schema_columns rest))"

definition declaredSchemaColumns :: "goval \<Rightarrow> (string list \<times> (string \<times> string) list) option" where
  "declaredSchemaColumns raw =
     (case as_map raw of
        None \<Rightarrow> None
      | Some schema \<Rightarrow> (case as_list (mget schema ''columns'') of None \<Rightarrow> None | Some cols \<Rightarrow> schema_columns cols))"

definition join_schema_errors :: "VNode list \<Rightarrow> VEdge list \<Rightarrow> VNode \<Rightarrow> verror list" where
  "join_schema_errors nodes edges join =
     (let inc = map (\<lambda>e. nodesByID nodes (From e)) (filter (\<lambda>e. To e = nID join \<and> From e \<in> nID ` set nodes) edges) in
      if nType join \<noteq> ''join'' \<or> length inc \<noteq> 2 then []
      else case (declaredSchemaColumns (mget (Config (inc ! 0)) ''schema''), declaredSchemaColumns (mget (Config (inc ! 1)) ''schema'')) of
        (Some (lc, lk), Some (rc, rk)) \<Rightarrow>
          let leftKey = mget_str (Config join) ''left_key'';
              rightKey = (if mget_str (Config join) ''right_key'' = [] then leftKey else mget_str (Config join) ''right_key'');
              kind = (\<lambda>kinds k. case map_of kinds k of None \<Rightarrow> [] | Some t \<Rightarrow> t);
              l = kind lk leftKey; r = kind rk rightKey
          in if l \<noteq> [] \<and> r \<noteq> [] \<and> l \<noteq> ''unknown'' \<and> r \<noteq> ''unknown'' \<and> l \<noteq> r then [JoinKeyTypes (nName join) l r]
             else (case planJoinColumns lc rc leftKey rightKey
                       \<lparr>CollisionPolicy = mget_str (Config join) ''collision_policy'', RightAlias = mget_str (Config join) ''right_alias''\<rparr> of
                     Inl e \<Rightarrow> [JoinPlan (nName join) e]
                   | Inr _ \<Rightarrow> [])
      | _ \<Rightarrow> [])"

definition validateDeclaredJoinSchemas :: "VPipeline \<Rightarrow> verror list" where
  "validateDeclaredJoinSchemas p = concat (map (join_schema_errors (Nodes p) (Edges p)) (Nodes p))"

definition disconnected :: "VPipeline \<Rightarrow> verror list" where
  "disconnected p =
     (if length (Nodes p) > 1
      then map (\<lambda>n. Disconnected (nID n))
             (filter (\<lambda>n. nType n \<noteq> ''migrate'' \<and> nID n \<notin> From ` set (Edges p) \<union> To ` set (Edges p)) (Nodes p))
      else [])"

definition ValidatePipeline :: "host \<Rightarrow> VPipeline \<Rightarrow> verror list" where
  "ValidatePipeline h p =
     (if pName p = [] then [NameRequired] else []) @
     (if Schedule p \<noteq> [] then
        (case scheduleFor h (Schedule p) (ScheduleTimezone p) of None \<Rightarrow> [] | Some e \<Rightarrow> [BadSchedule (Schedule p) e])
      else []) @
     (if \<not> IsIRVersionSupported (IRVersion p) then [UnsupportedIR (IRVersion p)] else []) @
     (if Nodes p = [] then [NoNodes]
      else
        check_nodes h {} (Nodes p) @
        concat (map (check_edge p) (Edges p)) @
        validateEdgeSemantics h (IRVersion p) (Nodes p) (Edges p) @
        (case topoSort (plain_nodes p) (plain_edges p) of Inl _ \<Rightarrow> [HasCycle] | Inr _ \<Rightarrow> []) @
        (if list_ex (\<lambda>n. nodeIsSourceCapable n (executors h)) (Nodes p) then [] else [NoSource]) @
        disconnected p @
        concat (map (\<lambda>n. (if nType n \<in> set (DisabledNodeTypes h) then [TypeDisabled (nName n) (nType n)] else []) @
                         map (NodeConfig (nName n)) (nodeConfigErrors h n)) (Nodes p)) @
        validateDeclaredJoinSchemas p)"

section \<open>The structural check of a stored pipeline\<close>

datatype perror =
    PUnsupportedIR string | PNameRequired | PNameCharacters | PNameTooLong | PDescriptionTooLong | PTooManyNodes
  | PScheduleTimezone string string | PSLATimezone string string | PSLADeadline
  | PDuplicateNode string | PRule rule_error | PSelfRule | PSelfDependsOn
  | PUnknownSource string | PUnknownTarget string | PConditionalIR string string
  | PConditionalSource string string | PBranchRequired string string
  | PConditionInputs string nat | PConditionExpression string

fun first_some :: "('a \<Rightarrow> 'e option) \<Rightarrow> 'a list \<Rightarrow> 'e option" where
  "first_some f [] = None"
| "first_some f (x # xs) = (case f x of Some e \<Rightarrow> Some e | None \<Rightarrow> first_some f xs)"

lemma first_some_None [simp]: "first_some f xs = None \<longleftrightarrow> (\<forall>x \<in> set xs. f x = None)"
  by (induction xs) (auto split: option.splits)

lemma first_some_Some: "first_some f xs = Some e \<Longrightarrow> \<exists>x \<in> set xs. f x = Some e"
  by (induction xs) (auto split: option.splits)

definition any_node_type :: "VNode list \<Rightarrow> string \<Rightarrow> string" where
  "any_node_type nodes i = (case map_of (rev (map (\<lambda>n. (nID n, nType n)) nodes)) i of None \<Rightarrow> [] | Some t \<Rightarrow> t)"

definition check_stored_edge :: "VPipeline \<Rightarrow> VEdge \<Rightarrow> perror option" where
  "check_stored_edge p e =
     (if From e \<notin> nID ` set (Nodes p) then Some (PUnknownSource (From e))
      else if To e \<notin> nID ` set (Nodes p) then Some (PUnknownTarget (To e))
      else if Condition e \<noteq> None \<and> IRVersion p \<noteq> ConditionalEdgesIRVersion then Some (PConditionalIR (From e) (To e))
      else if Condition e \<noteq> None \<and> any_node_type (Nodes p) (From e) \<noteq> ''condition'' then Some (PConditionalSource (From e) (To e))
      else if IRVersion p = ConditionalEdgesIRVersion \<and> any_node_type (Nodes p) (From e) = ''condition'' \<and> Condition e = None
      then Some (PBranchRequired (From e) (To e))
      else None)"

definition check_stored_condition :: "VPipeline \<Rightarrow> VNode \<Rightarrow> perror option" where
  "check_stored_condition p n =
     (if nType n \<noteq> ''condition'' then None
      else if inputDegree (Edges p) (nID n) \<noteq> 1 then Some (PConditionInputs (nID n) (inputDegree (Edges p) (nID n)))
      else case as_str (mget (Config n) ''expression'') of
        None \<Rightarrow> Some (PConditionExpression (nID n))
      | Some e \<Rightarrow> if IsConditionExpressionSupported e then None else Some (PConditionExpression (nID n)))"

definition check_rule_of :: "VPipeline \<Rightarrow> DependencyRule \<Rightarrow> perror option" where
  "check_rule_of p r =
     (case Validate r of
        Some e \<Rightarrow> Some (PRule e)
      | None \<Rightarrow> if PipelineID r = pID p \<and> pID p \<noteq> [] then Some PSelfRule else None)"

text \<open>The checks before the loops: version, name, sizes, time zones and deadline.\<close>

definition zone_error :: "host \<Rightarrow> string \<Rightarrow> string option" where
  "zone_error h z = (if z = [] then None else LoadLocation h z)"

definition check_header :: "host \<Rightarrow> VPipeline \<Rightarrow> perror option" where
  "check_header h p =
     (if \<not> IsIRVersionSupported (IRVersion p) then Some (PUnsupportedIR (IRVersion p))
      else if pName p = [] then Some PNameRequired
      else if list_ex (\<lambda>c. c \<in> set [CHR ''<'', CHR ''>'', CHR 0x22, CHR 0x27, CHR ''&'']) (pName p) then Some PNameCharacters
      else if length (pName p) > 255 then Some PNameTooLong
      else if length (Description p) > 2000 then Some PDescriptionTooLong
      else if length (Nodes p) > 500 then Some PTooManyNodes
      else case zone_error h (ScheduleTimezone p) of
        Some e \<Rightarrow> Some (PScheduleTimezone (ScheduleTimezone p) e)
      | None \<Rightarrow>
          (case zone_error h (SLATimezone p) of
             Some e \<Rightarrow> Some (PSLATimezone (SLATimezone p) e)
           | None \<Rightarrow> if SLADeadline p \<noteq> [] \<and> CHR '':'' \<notin> set (SLADeadline p) then Some PSLADeadline else None))"

definition check_dependencies :: "VPipeline \<Rightarrow> perror option" where
  "check_dependencies p =
     (case first_some (check_rule_of p) (pDependencyRules p) of
        Some e \<Rightarrow> Some e
      | None \<Rightarrow> first_some (\<lambda>d. if d = pID p \<and> pID p \<noteq> [] then Some PSelfDependsOn else None) (pDependsOn p))"

definition Pipeline_Validate :: "host \<Rightarrow> VPipeline \<Rightarrow> perror option" where
  "Pipeline_Validate h p =
     (case check_header h p of
        Some e \<Rightarrow> Some e
      | None \<Rightarrow>
          (case first_duplicate [] (map nID (Nodes p)) of
             Some i \<Rightarrow> Some (PDuplicateNode i)
           | None \<Rightarrow>
               (case check_dependencies p of
                  Some e \<Rightarrow> Some e
                | None \<Rightarrow>
                    (case first_some (check_stored_edge p) (Edges p) of
                       Some e \<Rightarrow> Some e
                     | None \<Rightarrow>
                         if IRVersion p = ConditionalEdgesIRVersion then first_some (check_stored_condition p) (Nodes p) else None))))"

section \<open>What validation gives\<close>

lemma truncate_fields [simp]:
  "nID (Node.truncate n) = nID n" "nType (Node.truncate n) = nType n" "nName (Node.truncate n) = nName n"
  "From (Edge.truncate e) = From e" "To (Edge.truncate e) = To e" "Condition (Edge.truncate e) = Condition e"
  by (simp_all add: Node.truncate_def Edge.truncate_def)

lemma check_nodes_Nil:
  "check_nodes h seen ns = [] \<Longrightarrow>
   distinct (map nID ns) \<and> (\<forall>n \<in> set ns. nID n \<noteq> [] \<and> nID n \<notin> seen) \<and>
   (\<forall>n \<in> set ns. nType n \<noteq> ''task'' \<longrightarrow> IsBuiltInNodeType (nType n) \<or> executorCanHandle (nType n) (executors h))"
proof (induction h seen ns rule: check_nodes.induct)
  case (2 h seen n ns)
  have n: "nID n \<noteq> []" "nID n \<notin> seen" using "2.prems" by (auto simp only: check_nodes.simps append_is_Nil_conv split: if_splits)
  have "nType n \<noteq> ''task'' \<longrightarrow> IsBuiltInNodeType (nType n) \<or> executorCanHandle (nType n) (executors h)"
    using "2.prems" by (auto simp only: check_nodes.simps append_is_Nil_conv split: if_splits)
  moreover have "check_nodes h (insert (nID n) seen) ns = []" using "2.prems" n(1) by (simp only: check_nodes.simps append_is_Nil_conv if_False)
  ultimately show ?case using "2.IH" n by simp force
qed simp

lemma ValidatePipeline_Nil:
  assumes "ValidatePipeline h p = []"
  shows "Nodes p \<noteq> []" "check_nodes h {} (Nodes p) = []" "\<And>e. e \<in> set (Edges p) \<Longrightarrow> check_edge p e = []"
    "validateEdgeSemantics h (IRVersion p) (Nodes p) (Edges p) = []"
    "\<exists>xs. topoSort (plain_nodes p) (plain_edges p) = Inr xs" "IsIRVersionSupported (IRVersion p)"
  using assms by (auto simp: ValidatePipeline_def split: if_splits option.splits sum.splits)

lemma node_type_unique:
  assumes "distinct (map nID nodes)" "n \<in> set nodes" "nID n \<noteq> []"
  shows "node_type nodes (nID n) = nType n"
proof -
  let ?ns = "filter (\<lambda>n. nID n \<noteq> []) nodes"
  have "distinct (map fst (rev (map (\<lambda>n. (nID n, nType n)) ?ns)))"
    using assms(1) by (simp add: rev_map[symmetric] comp_def distinct_map_filter)
  moreover have "(nID n, nType n) \<in> set (rev (map (\<lambda>n. (nID n, nType n)) ?ns))" using assms(2,3) by auto
  ultimately have "map_of (rev (map (\<lambda>n. (nID n, nType n)) ?ns)) (nID n) = Some (nType n)" by (rule map_of_is_SomeI)
  then show ?thesis by (simp add: node_type_def)
qed

lemma validated_graph:
  assumes "ValidatePipeline h p = []"
  shows "well_graph (plain_nodes p) (plain_edges p)" "acyclic (edge_rel (plain_edges p))"
proof -
  note V = ValidatePipeline_Nil[OF assms]
  have "From e \<in> nID ` set (Nodes p) \<and> To e \<in> nID ` set (Nodes p)" if "e \<in> set (Edges p)" for e
    using V(3)[OF that] by (auto simp: check_edge_def node_ids_def split: if_splits)
  then show wg: "well_graph (plain_nodes p) (plain_edges p)"
    using check_nodes_Nil[OF V(2)] by (auto simp: well_graph_def comp_def image_image)
  show "acyclic (edge_rel (plain_edges p))" using topo.order_iff_acyclic[OF wg] V(5) by blast
qed

lemma validated_edge:
  assumes "ValidatePipeline h p = []" "e \<in> set (plain_edges p)"
  shows "Condition e \<noteq> None \<longleftrightarrow> IRVersion p = ConditionalEdgesIRVersion \<and> nType (nodeMap (plain_nodes p) (From e)) = ''condition''"
proof -
  note V = ValidatePipeline_Nil[OF assms(1)] and wg = validated_graph(1)[OF assms(1)]
  obtain e' where e': "e' \<in> set (Edges p)" "e = Edge.truncate e'" using assms(2) by auto
  obtain n where n: "n \<in> set (Nodes p)" "nID n = From e"
    using wg assms(2) by (auto simp: well_graph_def image_image)
  have d: "distinct (map nID (Nodes p))" "nID n \<noteq> []" using check_nodes_Nil[OF V(2)] n(1) by auto
  have "node_type (Nodes p) (From e) = nType n" using node_type_unique[OF d(1) n(1) d(2)] n(2) by simp
  moreover have "nodeMap (plain_nodes p) (nID (Node.truncate n)) = Node.truncate n"
    by (rule nodeMap_self) (use d n(1) in \<open>auto simp: comp_def\<close>)
  ultimately have "nType (nodeMap (plain_nodes p) (From e)) = node_type (Nodes p) (From e)" using n(2) by simp
  then show ?thesis using V(3)[OF e'(1)] e'(2) by (auto simp: check_edge_def split: if_splits)
qed

definition output_port :: "VNode \<Rightarrow> PortValue option" where
  "output_port n = Option.bind (effectiveNodeInterface n) (\<lambda>i. portValueFromInterface i ''outputs'' ''result'')"

definition input_port :: "VNode \<Rightarrow> PortValue option" where
  "input_port n = Option.bind (effectiveNodeInterface n) (\<lambda>i. portValueFromInterface i ''inputs'' ''input'')"

lemma validated_ports:
  assumes "ValidatePipeline h p = []" "e \<in> set (Edges p)"
    "output_port (nodesByID (Nodes p) (From e)) = Some pp" "input_port (nodesByID (Nodes p) (To e)) = Some cp"
  shows "\<exists>res. AssignPort (parseNumber h) pp cp = Some res \<and> RVerdict res \<noteq> Incompatible"
proof -
  have "validateEdgeAssignability (parseNumber h) (nodesByID (Nodes p) (From e)) (nodesByID (Nodes p) (To e)) = []"
    using ValidatePipeline_Nil(4)[OF assms(1)] assms(2) by (auto simp: validateEdgeSemantics_def edge_semantics_def Let_def)
  then show ?thesis
    using assms(3,4)
    by (auto simp: validateEdgeAssignability_def output_port_def input_port_def bind_eq_Some_conv split: option.splits if_splits)
qed

lemma validated_inputs:
  assumes "ValidatePipeline h p = []" "n \<in> set (Nodes p)"
  shows "node_semantics (IRVersion p) (Nodes p) (Edges p) n = []"
  using ValidatePipeline_Nil(4)[OF assms(1)] assms(2) by (auto simp: validateEdgeSemantics_def)

lemma any_node_type_eq:
  assumes "distinct (map nID nodes)" "\<forall>n \<in> set nodes. nID n \<noteq> []"
  shows "any_node_type nodes i = node_type nodes i"
  using assms(2) by (simp add: any_node_type_def node_type_def)

lemma if_Nil: "(if c then xs else []) = [] \<longleftrightarrow> (c \<longrightarrow> xs = [])"
  by simp

lemma node_semantics_stored:
  assumes "node_semantics (IRVersion p) (Nodes p) (Edges p) n = []" "IRVersion p = ConditionalEdgesIRVersion"
  shows "check_stored_condition p n = None"
proof (cases "nType n = ''condition''")
  case True
  then show ?thesis using assms
    by (cases "as_str (mget (Config n) ''expression'')")
      (auto simp: node_semantics_def check_stored_condition_def Let_def split: if_splits)
qed (simp add: check_stored_condition_def)

lemma check_edge_Nil:
  "check_edge p e = [] \<longleftrightarrow>
   From e \<in> node_ids (Nodes p) \<and> To e \<in> node_ids (Nodes p) \<and> From e \<noteq> To e \<and> FromPort e = [] \<and> ToPort e = [] \<and>
   (Condition e \<noteq> None \<longrightarrow> IRVersion p = ConditionalEdgesIRVersion \<and> node_type (Nodes p) (From e) = ''condition'') \<and>
   \<not> (IRVersion p = ConditionalEdgesIRVersion \<and> node_type (Nodes p) (From e) = ''condition'' \<and> Condition e = None)"
proof -
  define t where "t = (node_type (Nodes p) (From e) = ''condition'')"
  define v where "v = (IRVersion p = ConditionalEdgesIRVersion)"
  show ?thesis unfolding check_edge_def append_is_Nil_conv if_Nil t_def[symmetric] v_def[symmetric] by auto
qed

lemma check_edge_stored:
  assumes "check_edge p e = []" and eq: "\<And>i. any_node_type (Nodes p) i = node_type (Nodes p) i"
  shows "check_stored_edge p e = None"
proof -
  have "node_ids (Nodes p) \<subseteq> nID ` set (Nodes p)" by (auto simp: node_ids_def)
  then have "From e \<in> nID ` set (Nodes p)" "To e \<in> nID ` set (Nodes p)" using assms(1) unfolding check_edge_Nil by blast+
  then show ?thesis
    using assms(1) unfolding check_edge_Nil check_stored_edge_def eq by (cases "Condition e") simp_all
qed

lemma check_header_errors:
  assumes "check_header h p = Some err" "IsIRVersionSupported (IRVersion p)" "pName p \<noteq> []"
  shows "err \<in> {PNameCharacters, PNameTooLong, PDescriptionTooLong, PTooManyNodes, PSLADeadline} \<or>
    (\<exists>z e. err = PScheduleTimezone z e \<or> err = PSLATimezone z e)"
proof -
  define bad where "bad = list_ex (\<lambda>c. c \<in> set [CHR ''<'', CHR ''>'', CHR 0x22, CHR 0x27, CHR ''&'']) (pName p)"
  from assms show ?thesis unfolding check_header_def bad_def[symmetric] by (auto split: if_splits option.splits)
qed

lemma check_dependencies_errors:
  assumes "check_dependencies p = Some err"
  shows "err \<in> {PSelfRule, PSelfDependsOn} \<or> (\<exists>e. err = PRule e)"
  using assms
  by (auto simp: check_dependencies_def check_rule_of_def dest!: first_some_Some split: option.splits if_splits)

section \<open>Properties\<close>

text \<open>
  C18. A pipeline that validation accepts is fit to run: its node identifiers are distinct, no edge
  dangles, the graph has no cycle, an edge carries a branch exactly when the version routes and
  the edge leaves a condition node, every join has two inputs, every routed condition has a
  supported expression, and no edge connects ports whose types are incompatible.
\<close>

theorem validated_pipeline_sound:
  assumes "ValidatePipeline h p = []"
  shows "well_graph (plain_nodes p) (plain_edges p) \<and> acyclic (edge_rel (plain_edges p)) \<and>
    (\<forall>e \<in> set (plain_edges p). Condition e \<noteq> None \<longleftrightarrow>
       IRVersion p = ''2.1'' \<and> nType (nodeMap (plain_nodes p) (From e)) = ''condition'') \<and>
    (\<forall>n \<in> set (Nodes p). nType n = ''join'' \<longrightarrow> inputDegree (Edges p) (nID n) = 2) \<and>
    (\<forall>n \<in> set (Nodes p). nType n = ''condition'' \<and> IRVersion p = ''2.1'' \<longrightarrow>
       inputDegree (Edges p) (nID n) = 1 \<and>
       (\<exists>e. mget (Config n) ''expression'' = VStr e \<and> IsConditionExpressionSupported e)) \<and>
    (\<forall>e \<in> set (Edges p). \<forall>pp cp. output_port (nodesByID (Nodes p) (From e)) = Some pp \<longrightarrow>
       input_port (nodesByID (Nodes p) (To e)) = Some cp \<longrightarrow>
       (\<exists>res. AssignPort (parseNumber h) pp cp = Some res \<and> RVerdict res \<noteq> Incompatible))"
proof -
  have "inputDegree (Edges p) (nID n) = 2" if "n \<in> set (Nodes p)" "nType n = ''join''" for n
    using validated_inputs[OF assms that(1)] that(2) by (simp add: node_semantics_def Let_def split: if_splits)
  moreover have "inputDegree (Edges p) (nID n) = 1 \<and>
      (\<exists>e. mget (Config n) ''expression'' = VStr e \<and> IsConditionExpressionSupported e)"
    if "n \<in> set (Nodes p)" "nType n = ''condition''" "IRVersion p = ''2.1''" for n
    using validated_inputs[OF assms that(1)] that(2,3)
    by (simp add: node_semantics_def ConditionalEdgesIRVersion_def Let_def split: if_splits option.splits)
  ultimately show ?thesis
    using validated_graph[OF assms] validated_edge[OF assms] validated_ports[OF assms]
    unfolding ConditionalEdgesIRVersion_def by blast
qed

definition demo_host :: host where
  "demo_host = \<lparr>scheduleFor = (\<lambda>_ _. None), LoadLocation = (\<lambda>_. None), DisabledNodeTypes = [], executors = [],
     nodeConfigErrors = (\<lambda>_. []), parseNumber = demo_number\<rparr>"

definition demo_pipeline :: VPipeline where
  "demo_pipeline = \<lparr>pID = ''p'', IRVersion = ''2.0'', pName = ''copy'', Description = [],
     Nodes = [\<lparr>nID = ''a'', nType = ''source_file'', nName = ''read'', Config = [], Interface = None, Capabilities = []\<rparr>,
              \<lparr>nID = ''b'', nType = ''sink_file'', nName = ''write'', Config = [], Interface = None, Capabilities = []\<rparr>],
     Edges = [\<lparr>From = ''a'', To = ''b'', Condition = None, FromPort = [], ToPort = []\<rparr>],
     Schedule = [], ScheduleTimezone = [], SLADeadline = [], SLATimezone = [], pDependsOn = [], pDependencyRules = []\<rparr>"

lemma demo_valid: "ValidatePipeline demo_host demo_pipeline = []"
proof -
  have "case ValidatePipeline demo_host demo_pipeline of [] \<Rightarrow> True | _ \<Rightarrow> False" by code_simp
  then show ?thesis by (auto split: list.splits)
qed

theorem validated_pipeline_sound_witness:
  "well_graph (plain_nodes demo_pipeline) (plain_edges demo_pipeline) \<and> acyclic (edge_rel (plain_edges demo_pipeline))"
  using validated_pipeline_sound[OF demo_valid] by blast

text \<open>
  The two validators agree on the graph: a pipeline the engine accepts can fail the stored
  check only for its name, its sizes, a time zone, the deadline format or its dependencies, never
  for its version, nodes, edges or conditions.
\<close>

lemma validators_agree:
  assumes "ValidatePipeline h p = []" and "Pipeline_Validate h p = Some err"
  shows "err \<in> {PNameCharacters, PNameTooLong, PDescriptionTooLong, PTooManyNodes, PSLADeadline, PSelfRule, PSelfDependsOn} \<or>
    (\<exists>z e. err = PScheduleTimezone z e \<or> err = PSLATimezone z e) \<or> (\<exists>e. err = PRule e)"
proof -
  note V = ValidatePipeline_Nil[OF assms(1)]
  have N: "distinct (map nID (Nodes p))" "\<forall>n \<in> set (Nodes p). nID n \<noteq> []" using check_nodes_Nil[OF V(2)] by auto
  have name: "pName p \<noteq> []" using assms(1) by (auto simp: ValidatePipeline_def)
  have dup: "first_duplicate [] (map nID (Nodes p)) = None" using N(1) by (simp add: first_duplicate_None)
  have edges: "first_some (check_stored_edge p) (Edges p) = None"
    using V(3) check_edge_stored[OF _ any_node_type_eq[OF N]] by simp
  have cond: "(if IRVersion p = ConditionalEdgesIRVersion then first_some (check_stored_condition p) (Nodes p) else None) = None"
    using validated_inputs[OF assms(1)] node_semantics_stored[of p] by auto
  have "check_header h p = Some err \<or> check_dependencies p = Some err"
    using assms(2) unfolding Pipeline_Validate_def dup edges cond option.case
    by (cases "check_header h p"; cases "check_dependencies p") simp_all
  then show ?thesis using check_header_errors[OF _ V(6) name] check_dependencies_errors by blast
qed

lemma validators_agree_witness:
  "\<exists>err. Pipeline_Validate demo_host (demo_pipeline\<lparr>pName := ''<copy>''\<rparr>) = Some err \<and>
     ValidatePipeline demo_host (demo_pipeline\<lparr>pName := ''<copy>''\<rparr>) = [] \<and>
     (\<forall>i. err \<noteq> PDuplicateNode i)"
proof -
  let ?p = "demo_pipeline\<lparr>pName := ''<copy>''\<rparr>"
  have "case ValidatePipeline demo_host ?p of [] \<Rightarrow> True | _ \<Rightarrow> False" by code_simp
  then have v: "ValidatePipeline demo_host ?p = []" by (auto split: list.splits)
  have "case Pipeline_Validate demo_host ?p of Some PNameCharacters \<Rightarrow> True | _ \<Rightarrow> False" by code_simp
  then have "Pipeline_Validate demo_host ?p = Some PNameCharacters" by (auto split: option.splits perror.splits)
  from validators_agree[OF v this] v this show ?thesis by auto
qed

end
