(* ===== verification/Retry_Policy.thy ===== *)
theory Retry_Policy
  imports Go_Prelude
begin

text \<open>
  Retries of a node: \<^verbatim>\<open>src/engine/retry.go\<close> and the attempt loop of \<^verbatim>\<open>executeNode\<close> in
  \<^verbatim>\<open>src/engine/runner.go\<close>. Durations are nanoseconds in 64 bits. What an attempt does is an
  argument; \<open>conv\<close> is the host's conversion of a float that no 64-bit integer holds.
\<close>

record RetryConfig =
  MaxRetries :: int
  BackoffType :: string
  BackoffBase :: int
  BackoffMax :: int

definition second :: int where "second = 1000000000"
definition millisecond :: int where "millisecond = 1000000"

definition float_to_int64 :: "(f64 \<Rightarrow> int) \<Rightarrow> f64 \<Rightarrow> int" where
  "float_to_int64 conv f =
     (case f of
        Fin r \<Rightarrow> if - (2 ^ 63) \<le> trunc_rat r \<and> trunc_rat r < 2 ^ 63 then trunc_rat r else conv f
      | _ \<Rightarrow> conv f)"

definition DefaultRetryConfig :: "string \<Rightarrow> RetryConfig" where
  "DefaultRetryConfig nodeType =
     (if nodeType \<in> set [''source_db'', ''source_api'', ''sink_db'', ''sink_api'']
      then \<lparr>MaxRetries = 3, BackoffType = ''exponential'', BackoffBase = 2 * second, BackoffMax = 30 * second\<rparr>
      else if nodeType \<in> set [''source_file'', ''sink_file'']
      then \<lparr>MaxRetries = 2, BackoffType = ''fixed'', BackoffBase = 1 * second, BackoffMax = 5 * second\<rparr>
      else \<lparr>MaxRetries = 0, BackoffType = [], BackoffBase = 0, BackoffMax = 0\<rparr>)"

definition ParseRetryConfig :: "(f64 \<Rightarrow> int) \<Rightarrow> string \<Rightarrow> gomap \<Rightarrow> RetryConfig" where
  "ParseRetryConfig conv nodeType config =
     (let rc = DefaultRetryConfig nodeType;
          rc = (case as_float (mget config ''max_retries'') of Some f \<Rightarrow> rc\<lparr>MaxRetries := float_to_int64 conv f\<rparr> | None \<Rightarrow> rc)
      in case as_str (mget config ''retry_backoff'') of Some s \<Rightarrow> rc\<lparr>BackoffType := s\<rparr> | None \<Rightarrow> rc)"

text \<open>\<^verbatim>\<open>math.Pow(2, float64(attempt-1))\<close> is exact for the exponents at hand.\<close>

definition ComputeBackoff :: "(f64 \<Rightarrow> int) \<Rightarrow> RetryConfig \<Rightarrow> int \<Rightarrow> int" where
  "ComputeBackoff conv cfg attempt =
     (if attempt \<le> 0 then 0
      else
        let delay =
          (if BackoffType cfg = ''exponential''
           then i64 (BackoffBase cfg * float_to_int64 conv (Fin (2 ^ nat (attempt - 1))))
           else if BackoffType cfg = ''linear'' then i64 (BackoffBase cfg * attempt)
           else BackoffBase cfg)
        in if BackoffMax cfg > 0 \<and> delay > BackoffMax cfg then BackoffMax cfg else delay)"

definition ShouldRetry :: "RetryConfig \<Rightarrow> int \<Rightarrow> bool \<Rightarrow> bool" where
  "ShouldRetry cfg attempt failed \<longleftrightarrow> \<not> (MaxRetries cfg \<le> 0 \<or> attempt \<ge> MaxRetries cfg) \<and> failed"

section \<open>The attempt loop\<close>

text \<open>The settings that \<^verbatim>\<open>executeNode\<close> reads from the node.\<close>

definition node_retries :: "(f64 \<Rightarrow> int) \<Rightarrow> gomap \<Rightarrow> int" where
  "node_retries conv config = (case as_float (mget config ''max_retries'') of Some f \<Rightarrow> float_to_int64 conv f | None \<Rightarrow> 0)"

definition node_backoff :: "(f64 \<Rightarrow> int) \<Rightarrow> gomap \<Rightarrow> RetryConfig" where
  "node_backoff conv config =
     (let baseDelay = (case as_float (mget config ''retry_delay'') of
            Some f \<Rightarrow> if f_less (Fin 0) f then i64 (float_to_int64 conv f * millisecond) else second
          | None \<Rightarrow> second);
          backoffType = (if mget_str config ''retry_backoff'' \<noteq> [] then mget_str config ''retry_backoff'' else ''exponential'')
      in \<lparr>MaxRetries = 0, BackoffType = backoffType, BackoffBase = baseDelay, BackoffMax = 60 * second\<rparr>)"

text \<open>
  What one attempt comes to: it succeeds, it returns from the function at once (the store failed,
  or the run parks), or it fails, and may still be running.
\<close>

datatype attempt_outcome = Succeeded "bool option" | Returned string | FailedAttempt string bool

datatype node_result = NodeDone "bool option" | NodeError string

function attempt_loop ::
  "(nat \<Rightarrow> attempt_outcome) \<Rightarrow> (nat \<Rightarrow> bool) \<Rightarrow> int \<Rightarrow> nat \<Rightarrow> string option \<Rightarrow> node_result \<times> nat list" where
  "attempt_loop run cancelled maxRetries attempt lastErr =
     (let finish = (case lastErr of Some e \<Rightarrow> NodeError e | None \<Rightarrow> NodeDone None) in
      if int attempt \<le> maxRetries then
        (if attempt > 0 \<and> cancelled attempt then (NodeError ''cancelled during retry wait'', [])
         else case run attempt of
           Succeeded d \<Rightarrow> (NodeDone d, [attempt])
         | Returned e \<Rightarrow> (NodeError e, [attempt])
         | FailedAttempt e True \<Rightarrow> (NodeError e, [attempt])
         | FailedAttempt e False \<Rightarrow>
             (case attempt_loop run cancelled maxRetries (Suc attempt) (Some e) of (r, as) \<Rightarrow> (r, attempt # as)))
      else (finish, []))"
  by pat_completeness auto
termination
  by (relation "measure (\<lambda>(_, _, m, a, _). nat (m + 1 - int a))") auto

declare attempt_loop.simps [simp del]

definition executeNode_attempts :: "(f64 \<Rightarrow> int) \<Rightarrow> gomap \<Rightarrow> (nat \<Rightarrow> attempt_outcome) \<Rightarrow> (nat \<Rightarrow> bool) \<Rightarrow> node_result \<times> nat list" where
  "executeNode_attempts conv config run cancelled = attempt_loop run cancelled (node_retries conv config) 0 None"

section \<open>Backoff\<close>

definition exact_backoff :: "RetryConfig \<Rightarrow> int \<Rightarrow> int" where
  "exact_backoff cfg attempt =
     (if BackoffType cfg = ''exponential'' then BackoffBase cfg * 2 ^ nat (attempt - 1)
      else if BackoffType cfg = ''linear'' then BackoffBase cfg * attempt
      else BackoffBase cfg)"

lemma trunc_pow2: "trunc_rat (2 ^ n) = 2 ^ n"
  by (simp add: trunc_rat_def)

lemma pow2_le_product:
  fixes b :: int
  assumes "1 \<le> b" "b * 2 ^ n < 2 ^ 63"
  shows "2 ^ n < (2 :: int) ^ 63"
proof -
  have "1 * 2 ^ n \<le> b * 2 ^ n" using assms(1) by (intro mult_right_mono) simp_all
  from order.strict_trans1[OF this assms(2)] show ?thesis by simp
qed

lemma backoff_delay:
  assumes "0 < attempt" "1 \<le> BackoffBase cfg" "exact_backoff cfg attempt < 2 ^ 63"
  shows "ComputeBackoff conv cfg attempt =
    (if BackoffMax cfg > 0 then min (BackoffMax cfg) (exact_backoff cfg attempt) else exact_backoff cfg attempt)"
proof -
  have pos: "0 \<le> exact_backoff cfg attempt" using assms(1,2) by (simp add: exact_backoff_def)
  have "i64 (BackoffBase cfg * float_to_int64 conv (Fin (2 ^ nat (attempt - 1)))) = exact_backoff cfg attempt"
    if "BackoffType cfg = ''exponential''"
  proof -
    let ?n = "nat (attempt - 1)"
    have "(2::int) ^ ?n < 2 ^ 63" using pow2_le_product[OF assms(2)] assms(3) that by (simp add: exact_backoff_def)
    moreover have "- (2 ^ 63) \<le> (2::int) ^ ?n" by (rule order_trans[of _ 0]) simp_all
    ultimately have "float_to_int64 conv (Fin (2 ^ ?n)) = 2 ^ ?n" by (simp add: float_to_int64_def trunc_pow2)
    then show ?thesis using that assms(3) pos by (simp add: exact_backoff_def i64_id)
  qed
  moreover have "i64 (BackoffBase cfg * attempt) = exact_backoff cfg attempt" if "BackoffType cfg = ''linear''"
    using that assms(3) pos by (simp add: exact_backoff_def i64_id)
  ultimately show ?thesis using assms(1) by (auto simp: ComputeBackoff_def Let_def exact_backoff_def)
qed

section \<open>Properties\<close>

text \<open>
  C40. For a base delay of at least a nanosecond, and while the exact delay fits in 64 bits, the backoff is the exact
  exponential, linear or fixed delay, cut at the cap when the cap is positive: it is positive, never above a positive cap,
  and never shorter for a later attempt. A cap that is zero or negative cuts nothing.
\<close>

theorem backoff_bounds:
  assumes "1 \<le> BackoffBase cfg" and "0 < a" and "a \<le> b" and "exact_backoff cfg b < 2 ^ 63"
  shows "ComputeBackoff conv cfg b = (if 0 < BackoffMax cfg then min (BackoffMax cfg) (exact_backoff cfg b) else exact_backoff cfg b) \<and>
    0 < ComputeBackoff conv cfg a \<and> ComputeBackoff conv cfg a \<le> ComputeBackoff conv cfg b"
proof -
  have "(2::int) ^ nat (a - 1) \<le> 2 ^ nat (b - 1)" using assms(3) by (intro power_increasing) auto
  then have le: "exact_backoff cfg a \<le> exact_backoff cfg b"
    using assms(1,3) by (auto simp: exact_backoff_def mult_left_mono)
  have "0 < exact_backoff cfg a" using assms(1,2) by (auto simp: exact_backoff_def)
  then show ?thesis
    using backoff_delay[of b cfg conv] backoff_delay[of a cfg conv] assms le by auto
qed

theorem backoff_bounds_witness:
  "ComputeBackoff (\<lambda>_. 0) (node_backoff (\<lambda>_. 0) []) 3 = 4000000000 \<and>
   ComputeBackoff (\<lambda>_. 0) (node_backoff (\<lambda>_. 0) []) 34 = 60000000000 \<and>
   ComputeBackoff (\<lambda>_. 0) ((node_backoff (\<lambda>_. 0) [])\<lparr>BackoffMax := 0\<rparr>) 3 = 4000000000"
proof -
  let ?cfg = "node_backoff (\<lambda>_. 0) []"
  have "1 \<le> BackoffBase ?cfg" "exact_backoff ?cfg 34 = 8589934592000000000" "exact_backoff ?cfg 3 = 4000000000"
    "exact_backoff (?cfg\<lparr>BackoffMax := 0\<rparr>) 3 = 4000000000" "1 \<le> BackoffBase (?cfg\<lparr>BackoffMax := 0\<rparr>)"
    by (simp_all add: node_backoff_def mget_def mget_str_def second_def exact_backoff_def)
  moreover have "BackoffMax ?cfg = 60000000000" by (simp add: node_backoff_def Let_def second_def)
  ultimately show ?thesis
    using backoff_bounds[of ?cfg 3 3 "\<lambda>_. 0"] backoff_bounds[of ?cfg 34 34 "\<lambda>_. 0"] backoff_bounds[of "?cfg\<lparr>BackoffMax := 0\<rparr>" 3 3 "\<lambda>_. 0"]
    by simp
qed

text \<open>
  The base delay can be zero: a positive \<^verbatim>\<open>retry_delay\<close> below one millisecond is truncated before it is scaled, and
  the node retries at once.
\<close>

lemma fractional_delay_is_zero:
  "ComputeBackoff conv (node_backoff conv [(''retry_delay'', VFloat (Fin (1/2)))]) 1 = 0"
proof -
  have "trunc_rat (1/2) = 0" by code_simp
  then show ?thesis by (simp add: ComputeBackoff_def node_backoff_def mget_def mget_str_def float_to_int64_def i64_def second_def Let_def)
qed

text \<open>
  Past that the product wraps: with the settings a node has by default, the delay before
  attempt 35 is negative, below the cap, and the retry starts at once.
\<close>

lemma backoff_wraps:
  "ComputeBackoff conv (node_backoff conv []) 35 = - 1266874889709551616"
proof -
  have "float_to_int64 conv (Fin (2 ^ 34)) = 17179869184" by (simp add: float_to_int64_def trunc_rat_def)
  then show ?thesis by (simp add: ComputeBackoff_def node_backoff_def mget_def mget_str_def second_def i64_def)
qed

text \<open>One run of the loop: the failures before the last attempt, and the last one.\<close>

lemma attempt_loop_result:
  assumes "int a \<le> m" "a = 0 \<or> \<not> cancelled a"
  shows "attempt_loop run cancelled m a le = (r, as) \<Longrightarrow>
    \<exists>k. as = [a..<Suc k] \<and> a \<le> k \<and> int k \<le> m \<and>
      (\<forall>i. a \<le> i \<longrightarrow> i < k \<longrightarrow> (\<exists>e. run i = FailedAttempt e False) \<and> \<not> cancelled (Suc i)) \<and>
      (case r of
         NodeDone d \<Rightarrow> run k = Succeeded d
       | NodeError e \<Rightarrow> run k = Returned e \<or> run k = FailedAttempt e True \<or> run k = FailedAttempt e False \<and> int k = m \<or>
           (\<exists>e'. run k = FailedAttempt e' False) \<and> int k < m \<and> cancelled (Suc k) \<and> e = ''cancelled during retry wait'')"
  using assms
proof (induction run cancelled m a le arbitrary: r as rule: attempt_loop.induct)
  case (1 run cancelled m a le)
  show ?case
  proof (cases "\<exists>e. run a = FailedAttempt e False")
    case True
    then obtain e where e: "run a = FailedAttempt e False" by blast
    obtain r' as' where rec: "attempt_loop run cancelled m (Suc a) (Some e) = (r', as')" by fastforce
    have as: "as = a # as'" "r = r'" using "1.prems" e rec by (subst (asm) attempt_loop.simps, force simp: Let_def)+
    consider "int (Suc a) \<le> m" "\<not> cancelled (Suc a)" | "int (Suc a) \<le> m" "cancelled (Suc a)" | "\<not> int (Suc a) \<le> m" by blast
    then show ?thesis
    proof cases
      case 1
      then obtain k where k: "as' = [Suc a..<Suc k]" "Suc a \<le> k" "int k \<le> m"
        "\<forall>i. Suc a \<le> i \<longrightarrow> i < k \<longrightarrow> (\<exists>e. run i = FailedAttempt e False) \<and> \<not> cancelled (Suc i)"
        "case r' of NodeDone d \<Rightarrow> run k = Succeeded d
         | NodeError e \<Rightarrow> run k = Returned e \<or> run k = FailedAttempt e True \<or> run k = FailedAttempt e False \<and> int k = m \<or>
             (\<exists>e'. run k = FailedAttempt e' False) \<and> int k < m \<and> cancelled (Suc k) \<and> e = ''cancelled during retry wait''"
        using "1.IH"[OF refl _ _ e _ rec] "1.prems" by auto
      have "(\<exists>e. run i = FailedAttempt e False) \<and> \<not> cancelled (Suc i)" if "a \<le> i" "i < k" for i
        using k(4) e 1(2) that by (cases "i = a") auto
      moreover have "as = [a..<Suc k]" using as k(1,2) by (simp add: upt_conv_Cons)
      ultimately show ?thesis using k as(2) by (intro exI[of _ k]) simp
    next
      case 2
      then have "as' = []" "r' = NodeError ''cancelled during retry wait''" using rec by (subst (asm) attempt_loop.simps, simp)+
      then show ?thesis using as e 2 "1.prems"(2) by (intro exI[of _ a]) auto
    next
      case 3
      then have "as' = []" "r' = NodeError e" using rec by (subst (asm) attempt_loop.simps, simp)+
      then show ?thesis using as e 3 "1.prems"(2) by (intro exI[of _ a]) auto
    qed
  next
    case False
    then have "as = [a] \<and> (case r of NodeDone d \<Rightarrow> run a = Succeeded d
         | NodeError e \<Rightarrow> run a = Returned e \<or> run a = FailedAttempt e True)"
      using "1.prems" by (subst (asm) attempt_loop.simps) (auto simp: Let_def split: if_splits attempt_outcome.splits bool.splits)
    then show ?thesis using "1.prems"(2) by (intro exI[of _ a]) (auto split: node_result.splits)
  qed
qed

text \<open>
  C39. The attempt loop of a node whose retries are not negative ends, also when the run is cancelled while it waits: it makes its
  attempts in order from 0, at most one more than the configured retries, and goes on only after a failure that is no
  longer running and a wait that was not cancelled. It reports success only when the last attempt succeeded; otherwise it
  reports the error of the last attempt (which returned, still runs, or was the last one allowed), or that it was cancelled
  during the wait after it.
\<close>

theorem attempts_correct:
  assumes "0 \<le> node_retries conv config" and "executeNode_attempts conv config run cancelled = (r, as)"
  shows "\<exists>k. as = [0..<Suc k] \<and> int k \<le> node_retries conv config \<and>
      (\<forall>i < k. (\<exists>e. run i = FailedAttempt e False) \<and> \<not> cancelled (Suc i)) \<and>
      (case r of
         NodeDone d \<Rightarrow> run k = Succeeded d
       | NodeError e \<Rightarrow> run k = Returned e \<or> run k = FailedAttempt e True \<or>
           run k = FailedAttempt e False \<and> int k = node_retries conv config \<or>
           (\<exists>e'. run k = FailedAttempt e' False) \<and> int k < node_retries conv config \<and> cancelled (Suc k) \<and>
             e = ''cancelled during retry wait'')"
  using attempt_loop_result[of 0 "node_retries conv config" cancelled run None r as] assms
  by (auto simp: executeNode_attempts_def)

theorem attempts_correct_witness:
  "\<exists>r as. executeNode_attempts (\<lambda>_. 0) [(''max_retries'', VFloat (Fin 2))]
     (\<lambda>i. if i = 1 then Succeeded None else FailedAttempt ''timeout'' False) (\<lambda>_. False) = (r, as) \<and> length as \<le> 3"
proof -
  let ?run = "\<lambda>i. if i = 1 then Succeeded None else FailedAttempt ''timeout'' False"
  obtain r as where e: "executeNode_attempts (\<lambda>_. 0) [(''max_retries'', VFloat (Fin 2))] ?run (\<lambda>_. False) = (r, as)" by fastforce
  have n: "node_retries (\<lambda>_. 0) [(''max_retries'', VFloat (Fin 2))] = 2"
    by (simp add: node_retries_def mget_def float_to_int64_def trunc_rat_def)
  obtain k where "as = [0..<Suc k]" "int k \<le> 2" using attempts_correct[OF _ e] n by auto
  then show ?thesis using e by auto
qed

text \<open>
  A negative number of retries makes a node succeed without running: the loop is never
  entered, no error is recorded, and the node is reported as done.
\<close>

lemma negative_retries_skip_node:
  assumes "node_retries conv config < 0"
  shows "executeNode_attempts conv config run cancelled = (NodeDone None, [])"
  using assms by (simp add: executeNode_attempts_def attempt_loop.simps)

lemma negative_retries_skip_node_witness:
  "executeNode_attempts (\<lambda>_. 0) [(''max_retries'', VFloat (Fin (- 1)))] (\<lambda>_. FailedAttempt ''refused'' False) (\<lambda>_. False) =
   (NodeDone None, [])"
  by (rule negative_retries_skip_node) (simp add: node_retries_def mget_def float_to_int64_def trunc_rat_def)

end
