(* ===== verification/Tick_Interval.thy ===== *)
theory Tick_Interval
  imports Go_Prelude "HOL-Library.Monad_Syntax"
begin

text \<open>
  Data intervals of a schedule: the derivation of the previous tick (\<^verbatim>\<open>src/engine/interval.go\<close>),
  the enumeration of a backfill (\<^verbatim>\<open>src/engine/backfill.go\<close>) and the catch-up of missed intervals
  (\<^verbatim>\<open>src/engine/scheduler.go\<close>). An instant is a number of nanoseconds; the zero \<^verbatim>\<open>time.Time\<close>, by
  which the cron library says that a schedule never fires again, is \<open>None\<close>. The schedule is an
  argument: only its \<^verbatim>\<open>Next\<close> is ever called. A cron expression without a time zone works in the zone of
  the time it is given, so a parsed schedule is a function of that zone; a walk stays in the zone it starts in. Loops that
  only a law of the schedule ends are partial functions, and the law gives that they return.
\<close>

type_synonym schedule = "int \<Rightarrow> int option"

definition second_ns :: int where "second_ns = 1000000000"
definition minute_ns :: int where "minute_ns = 60 * second_ns"
definition day_ns :: int where "day_ns = 24 * 60 * minute_ns"

text \<open>
  What the cron library documents of \<^verbatim>\<open>Next\<close>: the next activation, later than the given time. The
  answer is the same for every time before that activation, and a schedule that has ended stays so.
\<close>

definition cron_law :: "schedule \<Rightarrow> bool" where
  "cron_law Next \<longleftrightarrow>
     (\<forall>t n. Next t = Some n \<longrightarrow> t < n) \<and>
     (\<forall>t n s. Next t = Some n \<longrightarrow> t \<le> s \<longrightarrow> s < n \<longrightarrow> Next s = Some n) \<and>
     (\<forall>t s. Next t = None \<longrightarrow> t \<le> s \<longrightarrow> Next s = None)"

definition tick :: "schedule \<Rightarrow> int \<Rightarrow> bool" where
  "tick Next p \<longleftrightarrow> Next (p - 1) = Some p"

section \<open>The previous tick\<close>

definition maxIntervalLookback :: int where "maxIntervalLookback = 366 * day_ns"

text \<open>The walk back: it returns the seed from which some tick before \<open>t\<close> is seen.\<close>

partial_function (option) seek :: "schedule \<Rightarrow> int \<Rightarrow> int \<Rightarrow> int option option" where
  "seek Next t back =
     (case Next (t - back) of
        None \<Rightarrow> Some None
      | Some n \<Rightarrow>
          if n < t then Some (Some (t - back))
          else if back * 2 > maxIntervalLookback then Some None
          else seek Next t (back * 2))"

text \<open>The walk forward to the last tick before \<open>t\<close>.\<close>

partial_function (option) walk :: "schedule \<Rightarrow> int \<Rightarrow> int \<Rightarrow> int option" where
  "walk Next t prev =
     (case Next prev of
        None \<Rightarrow> Some prev
      | Some n \<Rightarrow> if n < t then walk Next t n else Some prev)"

definition prevTick :: "schedule \<Rightarrow> int \<Rightarrow> int option option" where
  "prevTick Next t =
     do {
       found \<leftarrow> seek Next t minute_ns;
       case found of
         None \<Rightarrow> Some None
       | Some seed \<Rightarrow>
           (case Next seed of
              None \<Rightarrow> Some None
            | Some prev \<Rightarrow> map_option Some (walk Next t prev))
     }"

text \<open>
  The wrapper that asks a schedule for its next activation in the pipeline's time zone, whatever zone the given time has;
  without it the schedule works in the zone of the given time.
\<close>

definition tzCronSchedule_Next :: "('loc \<Rightarrow> schedule) \<Rightarrow> 'loc \<Rightarrow> 'loc \<Rightarrow> schedule" where
  "tzCronSchedule_Next inner loc given t = inner loc t"

definition scheduleFor ::
  "(string \<Rightarrow> string + ('loc \<Rightarrow> schedule)) \<Rightarrow> (string \<Rightarrow> 'loc option) \<Rightarrow> string \<Rightarrow> string \<Rightarrow> string + ('loc \<Rightarrow> schedule)" where
  "scheduleFor parse loadLocation expr timezone =
     (case parse expr of
        Inl e \<Rightarrow> Inl e
      | Inr sched \<Rightarrow>
          if timezone \<noteq> [] then
            (case loadLocation timezone of
               Some loc \<Rightarrow> Inr (tzCronSchedule_Next sched loc)
             | None \<Rightarrow> Inr sched)
          else Inr sched)"

section \<open>Backfill\<close>

datatype backfill_error =
    EngineClosed | EmptyRange | GetPipelineFailed string | PipelineIsDraft | NoSchedule | ParseSchedule string
  | NotIntervalScoped | TooManyIntervals | NoCompleteInterval

text \<open>The loop body of \<^verbatim>\<open>enumerateIntervals\<close>; every iteration adds an interval, so the cap ends it.\<close>

function enum_loop :: "nat \<Rightarrow> schedule \<Rightarrow> int \<Rightarrow> int option \<Rightarrow> (int \<times> int) list \<Rightarrow> backfill_error + (int \<times> int) list" where
  "enum_loop cap Next end a out =
     (case a of
        None \<Rightarrow> Inr out
      | Some x \<Rightarrow>
          if x > end then Inr out
          else case Next x of
            None \<Rightarrow> Inr out
          | Some b \<Rightarrow>
              if b > end then Inr out
              else if length (out @ [(x, b)]) > cap then Inl TooManyIntervals
              else enum_loop cap Next end (Some b) (out @ [(x, b)]))"
  by pat_completeness auto
termination
  by (relation "measure (\<lambda>(cap, _, _, _, out). Suc cap - length out)") auto

declare enum_loop.simps [simp del]

definition enumerateIntervals :: "nat \<Rightarrow> schedule \<Rightarrow> int \<Rightarrow> int \<Rightarrow> backfill_error + (int \<times> int) list" where
  "enumerateIntervals cap Next start end = enum_loop cap Next end (Next (start - 1)) []"

definition backfillMaxIntervals :: nat where "backfillMaxIntervals = 500"

text \<open>\<^verbatim>\<open>pipelineReferencesInterval\<close>: some string of a node's configuration names the interval.\<close>

fun mentions_interval :: "goval \<Rightarrow> bool" where
  "mentions_interval (VStr s) = (contains_str s ''${interval.'' \<or> contains_str s ''${param.date}'')"
| "mentions_interval (VMap m) = list_ex (\<lambda>(_, v). mentions_interval v) m"
| "mentions_interval (VList l) = list_ex mentions_interval l"
| "mentions_interval _ = False"

definition pipelineReferencesInterval :: "gomap list \<Rightarrow> bool" where
  "pipelineReferencesInterval configs = list_ex (\<lambda>c. mentions_interval (VMap c)) configs"

record BPipeline =
  bDraft :: bool
  bSchedule :: string
  bTimezone :: string
  bConfigs :: "gomap list"

text \<open>\<open>Zone\<close> is the time zone of the start, in which a schedule without one of its own is walked.\<close>

record 'loc BackfillRequest =
  Start :: int
  End :: int
  Zone :: 'loc
  Force :: bool

record BackfillPlan =
  Intervals :: nat
  First :: int
  Last :: int
  Concurrency :: nat

text \<open>
  \<^verbatim>\<open>Backfill\<close> up to the background dispatch: the plan, and the intervals the dispatch loop walks.
\<close>

definition Backfill ::
  "bool \<Rightarrow> (string \<Rightarrow> string \<Rightarrow> string + ('loc \<Rightarrow> schedule)) \<Rightarrow> string + BPipeline \<Rightarrow> 'loc BackfillRequest \<Rightarrow>
   backfill_error + (BackfillPlan \<times> (int \<times> int) list)" where
  "Backfill closing schedFor found req =
     (if closing then Inl EngineClosed
      else if \<not> (End req > Start req) then Inl EmptyRange
      else case found of
        Inl e \<Rightarrow> Inl (GetPipelineFailed e)
      | Inr pipe \<Rightarrow>
          if bDraft pipe then Inl PipelineIsDraft
          else if bSchedule pipe = [] then Inl NoSchedule
          else case schedFor (bSchedule pipe) (bTimezone pipe) of
            Inl e \<Rightarrow> Inl (ParseSchedule e)
          | Inr sched \<Rightarrow>
              if \<not> Force req \<and> \<not> pipelineReferencesInterval (bConfigs pipe) then Inl NotIntervalScoped
              else case enumerateIntervals backfillMaxIntervals (sched (Zone req)) (Start req) (End req) of
                Inl e \<Rightarrow> Inl e
              | Inr ivs \<Rightarrow>
                  if ivs = [] then Inl NoCompleteInterval
                  else Inr (\<lparr>Intervals = length ivs, First = fst (hd ivs), Last = snd (last ivs), Concurrency = 1\<rparr>, ivs))"

section \<open>Catch-up\<close>

record CRun =
  cID :: string
  cStartedAt :: "int option"
  cIntervalEnd :: "int option"

text \<open>
  The runs of a pipeline as the store lists them: those that have not started first, then by start, newest first, then by
  identifier, and only as many as are asked for.
\<close>

definition ListRunsByPipeline :: "nat \<Rightarrow> CRun list \<Rightarrow> CRun list" where
  "ListRunsByPipeline limit rows =
     take limit (rev (sort_key (\<lambda>r. if cStartedAt r = None then 1 else 0 :: nat)
       (sort_key (\<lambda>r. case cStartedAt r of None \<Rightarrow> 0 | Some t \<Rightarrow> t) (sort_key cID rows))))"

text \<open>The newest end of an interval on record; an absent one is the zero time.\<close>

definition newest_end :: "CRun list \<Rightarrow> int option" where
  "newest_end runs = fold (\<lambda>r anchor. case cIntervalEnd r of
       None \<Rightarrow> anchor
     | Some e \<Rightarrow> (case anchor of None \<Rightarrow> Some e | Some a \<Rightarrow> if e > a then Some e else anchor)) runs None"

definition catchup_anchor :: "CRun list \<Rightarrow> int option" where
  "catchup_anchor runs =
     (case newest_end runs of
        Some a \<Rightarrow> Some a
      | None \<Rightarrow> (case find (\<lambda>r. cStartedAt r \<noteq> None) runs of None \<Rightarrow> None | Some r \<Rightarrow> cStartedAt r))"

definition clamp_anchor :: "int \<Rightarrow> int \<Rightarrow> int" where
  "clamp_anchor now anchor = (if anchor < now - maxIntervalLookback then now - maxIntervalLookback else anchor)"

definition catchUpMaxIntervals :: nat where "catchUpMaxIntervals = 50"

partial_function (option) count_missed :: "schedule \<Rightarrow> int \<Rightarrow> int option \<Rightarrow> nat \<Rightarrow> nat option" where
  "count_missed Next now a cnt =
     (case a of
        None \<Rightarrow> Some cnt
      | Some x \<Rightarrow>
          (case Next x of
             None \<Rightarrow> Some cnt
           | Some b \<Rightarrow> if b > now then Some cnt else count_missed Next now (Some b) (cnt + 1)))"

partial_function (option) keep_missed ::
  "schedule \<Rightarrow> int \<Rightarrow> nat \<Rightarrow> int option \<Rightarrow> nat \<Rightarrow> (int \<times> int) list \<Rightarrow> (int \<times> int) list option" where
  "keep_missed Next now skip a i kept =
     (case a of
        None \<Rightarrow> Some kept
      | Some x \<Rightarrow>
          (case Next x of
             None \<Rightarrow> Some kept
           | Some b \<Rightarrow>
               if b > now then Some kept
               else keep_missed Next now skip (Some b) (i + 1) (if i \<ge> skip then kept @ [(x, b)] else kept)))"

text \<open>
  \<^verbatim>\<open>catchUpPerInterval\<close> up to its dispatch loop: the intervals it dispatches, oldest first. It looks at fifty runs of
  the pipeline, no more.
\<close>

definition catchUpRunsListed :: nat where "catchUpRunsListed = 50"

definition catchUpPerInterval :: "nat \<Rightarrow> schedule \<Rightarrow> int \<Rightarrow> CRun list \<Rightarrow> (int \<times> int) list option" where
  "catchUpPerInterval cap Next now rows =
     (case catchup_anchor (ListRunsByPipeline catchUpRunsListed rows) of
        None \<Rightarrow> Some []
      | Some a \<Rightarrow>
          let anchor = clamp_anchor now a in
          do {
            cnt \<leftarrow> count_missed Next now (Next (anchor - 1)) 0;
            if cnt = 0 then Some []
            else keep_missed Next now (if cnt > cap then cnt - cap else 0) (Next (anchor - 1)) 0 []
          })"

section \<open>Ticks\<close>

named_theorems cron "laws of the next activation"

lemma Next_later [cron]: "cron_law Next \<Longrightarrow> Next t = Some n \<Longrightarrow> t < n"
  unfolding cron_law_def by blast

lemma Next_stable [cron]: "cron_law Next \<Longrightarrow> Next t = Some n \<Longrightarrow> t \<le> s \<Longrightarrow> s < n \<Longrightarrow> Next s = Some n"
  unfolding cron_law_def by blast

lemma Next_ended [cron]: "cron_law Next \<Longrightarrow> Next t = None \<Longrightarrow> t \<le> s \<Longrightarrow> Next s = None"
  unfolding cron_law_def by blast

lemma tick_Next [cron]: "cron_law Next \<Longrightarrow> Next t = Some n \<Longrightarrow> tick Next n"
  using Next_stable[of Next t n "n - 1"] Next_later[of Next t n] by (simp add: tick_def)

lemma Next_least [cron]:
  assumes "cron_law Next" "Next t = Some n" "tick Next p" "t < p"
  shows "n \<le> p"
proof (rule ccontr)
  assume "\<not> n \<le> p"
  then have "Next (p - 1) = Some n" using Next_stable[OF assms(1,2), of "p - 1"] assms(4) by simp
  then show False using assms(3) \<open>\<not> n \<le> p\<close> by (simp add: tick_def)
qed

lemma Next_None [cron]:
  assumes "cron_law Next" "Next t = None" "tick Next p"
  shows "p \<le> t"
  using Next_ended[OF assms(1,2), of "p - 1"] assms(3) by (cases "t \<le> p - 1") (auto simp: tick_def)

lemma Next_of_tick [cron]: "cron_law Next \<Longrightarrow> tick Next p \<Longrightarrow> Next t = Some n \<Longrightarrow> n \<noteq> p \<Longrightarrow> t < p \<Longrightarrow> n < p"
  using Next_least[of Next t n p] by simp

section \<open>Correctness of the previous tick\<close>

definition last_tick_before :: "schedule \<Rightarrow> int \<Rightarrow> int \<Rightarrow> bool" where
  "last_tick_before Next t p \<longleftrightarrow> tick Next p \<and> p < t \<and> (\<forall>q. tick Next q \<and> q < t \<longrightarrow> q \<le> p)"

lemma walk_correct:
  assumes "cron_law Next" "tick Next prev" "prev < t"
  shows "\<exists>p. walk Next t prev = Some p \<and> prev \<le> p \<and> last_tick_before Next t p"
  using assms(2,3)
proof (induction "nat (t - prev)" arbitrary: prev rule: less_induct)
  case less
  have stop: "last_tick_before Next t prev" if "\<And>q. tick Next q \<Longrightarrow> q < t \<Longrightarrow> q \<le> prev"
    using less.prems that by (simp add: last_tick_before_def)
  show ?case
  proof (cases "Next prev")
    case None
    then have "last_tick_before Next t prev" using stop Next_None[OF assms(1) None] by blast
    then show ?thesis using None by (auto simp: walk.simps)
  next
    case (Some n)
    show ?thesis
    proof (cases "n < t")
      case True
      have "prev < n" "tick Next n" using Next_later[OF assms(1) Some] tick_Next[OF assms(1) Some] by auto
      then obtain p where "walk Next t n = Some p" "n \<le> p" "last_tick_before Next t p"
        using less.hyps[of n] True by auto
      then show ?thesis using Some True \<open>prev < n\<close> by (subst walk.simps) auto
    next
      case False
      then have "last_tick_before Next t prev" using stop Next_least[OF assms(1) Some] by (meson leD leI le_less_trans)
      then show ?thesis using Some False by (auto simp: walk.simps)
    qed
  qed
qed

text \<open>The doublings of the walk back: nineteen of them stay within the bound.\<close>

lemma lookback_doublings: "minute_ns * 2 ^ k * 2 > maxIntervalLookback \<longleftrightarrow> k \<ge> 19"
proof -
  have "maxIntervalLookback = minute_ns * 527040" by (simp add: maxIntervalLookback_def day_ns_def)
  moreover have "0 < minute_ns" by (simp add: minute_ns_def second_ns_def)
  ultimately have "minute_ns * 2 ^ k * 2 > maxIntervalLookback \<longleftrightarrow> minute_ns * 527040 < minute_ns * (2 ^ k * 2)"
    by (simp add: mult.assoc)
  also have "\<dots> \<longleftrightarrow> 527040 < (2 :: int) ^ k * 2" using \<open>0 < minute_ns\<close> by (simp add: mult_less_cancel_left_pos)
  also have "\<dots> \<longleftrightarrow> k \<ge> 19"
  proof
    assume "527040 < (2 :: int) ^ k * 2"
    then show "k \<ge> 19" using power_increasing[of k 18 "2 :: int"] by (cases "k \<le> 18") auto
  next
    assume "k \<ge> 19"
    then show "527040 < (2 :: int) ^ k * 2" using power_increasing[of 19 k "2 :: int"] by simp
  qed
  finally show ?thesis .
qed

definition reach_back :: int where "reach_back = minute_ns * 2 ^ 19"

lemma seek_correct:
  assumes "cron_law Next" "Next (t - minute_ns) \<noteq> None" "k \<le> 19"
  shows "\<exists>r. seek Next t (minute_ns * 2 ^ k) = Some r \<and>
    (case r of
       None \<Rightarrow> \<forall>q. tick Next q \<and> q < t \<longrightarrow> q \<le> t - reach_back
     | Some seed \<Rightarrow> t - reach_back \<le> seed \<and> (\<exists>n. Next seed = Some n \<and> n < t))"
  using assms(3)
proof (induction "19 - k" arbitrary: k rule: less_induct)
  case less
  define d where "d = minute_ns * 2 ^ k"
  have pos: "0 < minute_ns" by (simp add: minute_ns_def second_ns_def)
  have d: "minute_ns \<le> d" "d \<le> reach_back"
    using pos less.prems power_increasing[of k 19 "2 :: int"] by (auto simp: d_def reach_back_def)
  obtain n where n: "Next (t - d) = Some n"
    using Next_ended[OF assms(1), of "t - d" "t - minute_ns"] assms(2) d by (cases "Next (t - d)") auto
  consider "n < t" | "\<not> n < t" "k \<ge> 19" | "\<not> n < t" "k < 19" by linarith
  then show ?case
  proof cases
    case 1
    then show ?thesis using n d(2) by (subst seek.simps) (auto simp: d_def)
  next
    case 2
    then have "k = 19" "d * 2 > maxIntervalLookback" using less.prems lookback_doublings[of k] by (auto simp: d_def)
    moreover have "q \<le> t - reach_back" if "tick Next q" "q < t" for q
    proof (rule ccontr)
      assume "\<not> q \<le> t - reach_back"
      then have "n \<le> q" using Next_least[OF assms(1) n that(1)] \<open>k = 19\<close> by (simp add: d_def reach_back_def)
      then show False using 2(1) that(2) by simp
    qed
    ultimately show ?thesis using n 2(1) by (subst seek.simps) (auto simp: d_def)
  next
    case 3
    then have "\<not> d * 2 > maxIntervalLookback" using lookback_doublings[of k] by (auto simp: d_def)
    then have "seek Next t d = seek Next t (d * 2)" using n 3(1) by (subst seek.simps) auto
    moreover have "d * 2 = minute_ns * 2 ^ Suc k" by (simp add: d_def)
    ultimately have "seek Next t (minute_ns * 2 ^ k) = seek Next t (minute_ns * 2 ^ Suc k)" by (simp only: d_def)
    moreover have "19 - Suc k < 19 - k" "Suc k \<le> 19" using 3(2) by auto
    ultimately show ?thesis using less.hyps[of "Suc k"] by simp
  qed
qed

lemma prevTick_spec:
  assumes "cron_law Next" "Next (t - minute_ns) \<noteq> None"
  shows "\<exists>r. prevTick Next t = Some r \<and>
    (case r of
       Some p \<Rightarrow> last_tick_before Next t p \<and> t - reach_back < p
     | None \<Rightarrow> \<forall>q. tick Next q \<and> q < t \<longrightarrow> q \<le> t - reach_back)"
proof -
  obtain r where r: "seek Next t minute_ns = Some r"
    "case r of None \<Rightarrow> \<forall>q. tick Next q \<and> q < t \<longrightarrow> q \<le> t - reach_back
     | Some seed \<Rightarrow> t - reach_back \<le> seed \<and> (\<exists>n. Next seed = Some n \<and> n < t)"
    using seek_correct[OF assms, of 0] by auto
  show ?thesis
  proof (cases r)
    case None
    then show ?thesis using r by (auto simp: prevTick_def)
  next
    case (Some seed)
    then obtain n where n: "Next seed = Some n" "n < t" and "t - reach_back \<le> seed" using r(2) by auto
    moreover have "seed < n" "tick Next n" using Next_later[OF assms(1) n(1)] tick_Next[OF assms(1) n(1)] by auto
    moreover obtain p where "walk Next t n = Some p" "n \<le> p" "last_tick_before Next t p"
      using walk_correct[OF assms(1) \<open>tick Next n\<close> n(2)] by blast
    ultimately show ?thesis using Some r(1) by (auto simp: prevTick_def)
  qed
qed

section \<open>Complete intervals\<close>

text \<open>
  The walk that backfill and both catch-up loops share: from a tick on, the consecutive pairs of
  ticks that end by \<open>e\<close>.
\<close>

inductive complete_from :: "schedule \<Rightarrow> int \<Rightarrow> int option \<Rightarrow> (int \<times> int) list \<Rightarrow> bool" for Next e where
  never: "complete_from Next e None []"
| last: "Next x = None \<or> (\<exists>b. Next x = Some b \<and> b > e) \<Longrightarrow> complete_from Next e (Some x) []"
| step: "Next x = Some b \<Longrightarrow> b \<le> e \<Longrightarrow> complete_from Next e (Some b) ivs \<Longrightarrow> complete_from Next e (Some x) ((x, b) # ivs)"

lemma complete_from_exists:
  assumes "cron_law Next"
  shows "\<exists>ivs. complete_from Next e a ivs"
proof (cases a)
  case None
  then show ?thesis using never by blast
next
  case (Some x)
  have "\<exists>ivs. complete_from Next e (Some x) ivs"
  proof (induction "nat (e - x)" arbitrary: x rule: less_induct)
    case less
    show ?case
    proof (cases "\<exists>b. Next x = Some b \<and> b \<le> e")
      case True
      then obtain b where b: "Next x = Some b" "b \<le> e" by blast
      then have "nat (e - b) < nat (e - x)" using Next_later[OF assms b(1)] by simp
      then show ?thesis using less step[of Next x b e] b by blast
    next
      case False
      then show ?thesis using last[of Next x e] by (cases "Next x") fastforce+
    qed
  qed
  then show ?thesis using Some by simp
qed

lemma enum_loop_complete:
  assumes "cron_law Next" "complete_from Next e a ivs" "length out \<le> cap"
  shows "enum_loop cap Next e a out = (if length (out @ ivs) > cap then Inl TooManyIntervals else Inr (out @ ivs))"
  using assms(2,3)
proof (induction arbitrary: out)
  case (last x)
  then show ?case by (subst enum_loop.simps) auto
next
  case (step x b ivs)
  have "\<not> x > e" using Next_later[OF assms(1) step(1)] step(2) by simp
  then show ?case
    using step.hyps(1,2) step.prems step.IH[of "out @ [(x, b)]"] by (subst enum_loop.simps) auto
qed (subst enum_loop.simps, simp)

lemma count_missed_complete:
  "complete_from Next e a ivs \<Longrightarrow> count_missed Next e a n = Some (n + length ivs)"
  by (induction arbitrary: n rule: complete_from.induct) (subst count_missed.simps, auto)+

lemma keep_missed_complete:
  "complete_from Next e a ivs \<Longrightarrow> keep_missed Next e skip a i kept = Some (kept @ drop (skip - i) ivs)"
proof (induction arbitrary: i kept rule: complete_from.induct)
  case (step x b ivs)
  show ?case
  proof (cases "i \<ge> skip")
    case True
    then show ?thesis using step by (subst keep_missed.simps) auto
  next
    case False
    then have "skip - i = Suc (skip - Suc i)" by simp
    then show ?thesis using step False by (subst keep_missed.simps) auto
  qed
qed (subst keep_missed.simps, auto)+

definition owed :: "schedule \<Rightarrow> int \<Rightarrow> int \<Rightarrow> (int \<times> int) set" where
  "owed Next s e = {(a, b). tick Next a \<and> s \<le> a \<and> Next a = Some b \<and> b \<le> e}"

fun gapless :: "(int \<times> int) list \<Rightarrow> bool" where
  "gapless ((a, b) # (c, d) # ivs) = (a < b \<and> b = c \<and> gapless ((c, d) # ivs))"
| "gapless [(a, b)] = (a < b)"
| "gapless [] = True"

lemma owed_step:
  assumes "cron_law Next" "tick Next x" "Next x = Some b"
  shows "owed Next x e = (if b \<le> e then insert (x, b) (owed Next b e) else {})"
proof -
  have split: "p = x \<or> b \<le> p" if "tick Next p" "x \<le> p" for p
    using Next_least[OF assms(1,3) that(1)] that(2) by linarith
  have later: "b < c" if "Next b = Some c" for c using Next_later[OF assms(1) that] .
  have bound: "b \<le> c" if "tick Next p" "x \<le> p" "Next p = Some c" for p c
    using split[OF that(1,2)] that(3) assms(3) Next_later[OF assms(1) that(3)] by auto
  have "owed Next x e = {}" if "\<not> b \<le> e" using that bound unfolding owed_def by fastforce
  moreover have "owed Next x e = insert (x, b) (owed Next b e)" if "b \<le> e"
    using that split assms(2,3) Next_later[OF assms(1,3)] unfolding owed_def by fastforce
  ultimately show ?thesis by simp
qed

lemma complete_from_owed:
  assumes "cron_law Next" "complete_from Next e (Some x) ivs" "tick Next x"
  shows "set ivs = owed Next x e" "gapless ivs" "ivs = [] \<or> fst (hd ivs) = x"
proof -
  have "set ivs = owed Next x e \<and> gapless ivs \<and> (ivs = [] \<or> fst (hd ivs) = x)"
    using assms(2,3)
  proof (induction "Some x" ivs arbitrary: x rule: complete_from.induct)
    case (last x)
    have "owed Next x e = {}"
    proof (cases "Next x")
      case None
      then show ?thesis using Next_ended[OF assms(1) None] by (auto simp: owed_def)
    next
      case (Some b)
      then show ?thesis using owed_step[OF assms(1) last(2) Some] last(1) by auto
    qed
    then show ?case by simp
  next
    case (step x b ivs)
    note b = tick_Next[OF assms(1) step(1)] Next_later[OF assms(1) step(1)]
    have "gapless ((x, b) # ivs)" using step.hyps(4)[OF b(1)] b(2) by (cases ivs) auto
    then show ?case using step.hyps(4)[OF b(1)] owed_step[OF assms(1) step.prems step.hyps(1)] step.hyps(2) by simp
  qed
  then show "set ivs = owed Next x e" "gapless ivs" "ivs = [] \<or> fst (hd ivs) = x" by auto
qed

lemma complete_from_start:
  assumes "cron_law Next"
  obtains ivs where "complete_from Next e (Next (s - 1)) ivs" "set ivs = owed Next s e" "gapless ivs"
proof -
  obtain ivs where c: "complete_from Next e (Next (s - 1)) ivs" using complete_from_exists[OF assms] by blast
  have "set ivs = owed Next s e \<and> gapless ivs"
  proof (cases "Next (s - 1)")
    case None
    then have "ivs = []" using c by (auto elim: complete_from.cases)
    moreover have "owed Next s e = {}" using Next_None[OF assms None] by (fastforce simp: owed_def)
    ultimately show ?thesis by simp
  next
    case (Some x)
    note x = tick_Next[OF assms Some] Next_later[OF assms Some]
    have "s \<le> a \<longleftrightarrow> x \<le> a" if "tick Next a" for a using Next_least[OF assms Some that] x(2) by auto
    then have "owed Next s e = owed Next x e" by (auto simp: owed_def)
    then show ?thesis using complete_from_owed[OF assms c[unfolded Some] x(1)] by simp
  qed
  then show ?thesis using that c by blast
qed

lemma gapless_distinct: "gapless ivs \<Longrightarrow> (\<forall>iv \<in> set (tl ivs). fst (hd ivs) < fst iv) \<and> distinct ivs"
proof (induction ivs rule: gapless.induct)
  case (1 a b c d ivs)
  then have "fst iv > a" if "iv \<in> set ((c, d) # ivs)" for iv using that by fastforce
  then show ?case using 1 by fastforce
qed auto

section \<open>Properties\<close>

text \<open>A schedule that fires every \<open>d\<close> nanoseconds, on which the properties are instantiated.\<close>

definition every :: "int \<Rightarrow> schedule" where
  "every d t = Some ((t div d + 1) * d)"

lemma div_less_int:
  fixes d :: int
  assumes "0 < d"
  shows "s div d < q \<longleftrightarrow> s < q * d"
proof -
  have s: "s = s div d * d + s mod d" "0 \<le> s mod d" "s mod d < d" using assms by auto
  have "q * d \<le> s div d * d" if "q \<le> s div d" using that assms by (simp add: mult_right_mono)
  moreover have "s div d * d + d \<le> q * d" if "s div d < q"
    using that assms mult_right_mono[of "s div d + 1" q d] by (simp add: distrib_right)
  ultimately show ?thesis using s by (cases "s div d < q") linarith+
qed

lemma div_between:
  fixes d :: int
  assumes "0 < d" "t \<le> s" "s < (t div d + 1) * d"
  shows "s div d = t div d"
proof -
  have "t div d \<le> s div d" using assms(1,2) by (simp add: zdiv_mono1)
  moreover have "s div d < t div d + 1" using div_less_int[OF assms(1)] assms(3) by blast
  ultimately show ?thesis by simp
qed

lemma cron_law_every:
  assumes "0 < d"
  shows "cron_law (every d)"
proof -
  have "t < (t div d + 1) * d" for t
    using div_less_int[OF assms, of t "t div d + 1"] by simp
  then show ?thesis using div_between[OF assms] by (auto simp: cron_law_def every_def)
qed

lemma tick_every:
  assumes "0 < d"
  shows "tick (every d) p \<longleftrightarrow> d dvd p"
proof
  assume "tick (every d) p"
  then have "p = d * ((p - 1) div d + 1)" by (simp add: tick_def every_def mult.commute)
  then show "d dvd p" by (rule dvdI)
next
  assume "d dvd p"
  then obtain k where "p = d * k" by (rule dvdE)
  then have "p - 1 = (d - 1) + (k - 1) * d" by (simp add: algebra_simps)
  then have "(p - 1) div d = (d - 1) div d + (k - 1)" using assms by (metis add.commute div_mult_self1 less_irrefl)
  then have "(p - 1) div d = k - 1" using assms by (simp add: div_pos_pos_trivial)
  then show "tick (every d) p" using \<open>p = d * k\<close> by (simp add: tick_def every_def mult.commute)
qed

lemma prevTick_ended: "Next (t - minute_ns) = None \<Longrightarrow> prevTick Next t = Some None"
  by (subst prevTick_def, subst seek.simps) simp

text \<open>
  C9. The derivation of the previous tick always returns, also for a schedule that never fires again. It answers with the last
  activation before \<open>t\<close> exactly when the schedule still fires after one minute before \<open>t\<close> and some activation lies less
  than \<open>reach_back\<close> before \<open>t\<close>, and otherwise that there is none. \<open>reach_back\<close> is nineteen doublings of a minute, about
  364 days: activations between that and the documented bound of 366 days are not found.
\<close>

theorem prevTick_correct:
  assumes "cron_law Next"
  shows "\<exists>r. prevTick Next t = Some r \<and>
    (r \<noteq> None \<longleftrightarrow> Next (t - minute_ns) \<noteq> None \<and> (\<exists>q. tick Next q \<and> t - reach_back < q \<and> q < t)) \<and>
    (\<forall>p. r = Some p \<longrightarrow> last_tick_before Next t p)"
proof (cases "Next (t - minute_ns) = None")
  case True
  then show ?thesis using prevTick_ended[of Next t] by simp
next
  case False
  from prevTick_spec[OF assms False] obtain r where r: "prevTick Next t = Some r"
    "case r of Some p \<Rightarrow> last_tick_before Next t p \<and> t - reach_back < p
     | None \<Rightarrow> \<forall>q. tick Next q \<and> q < t \<longrightarrow> q \<le> t - reach_back" by blast
  then show ?thesis using False by (cases r) (force simp: last_tick_before_def)+
qed

definition hourly :: schedule where "hourly = every (60 * minute_ns)"

lemma cron_law_hourly: "cron_law hourly"
  unfolding hourly_def by (rule cron_law_every) (simp add: minute_ns_def second_ns_def)

theorem prevTick_correct_witness:
  "\<exists>r. prevTick hourly 7200000000001 = Some r \<and>
    (r \<noteq> None \<longleftrightarrow> hourly (7200000000001 - minute_ns) \<noteq> None \<and> (\<exists>q. tick hourly q \<and> 7200000000001 - reach_back < q \<and> q < 7200000000001)) \<and>
    (\<forall>p. r = Some p \<longrightarrow> last_tick_before hourly 7200000000001 p)"
  by (rule prevTick_correct[OF cron_law_hourly])

text \<open>
  C10. A backfill enumerates exactly the complete intervals of the schedule in its range: every
  pair of consecutive activations inside it, oldest first and without gaps. When there are more
  than the cap it refuses; it never truncates.
\<close>

theorem enumerateIntervals_correct:
  assumes "cron_law Next"
  shows "(if card (owed Next start e) > cap then enumerateIntervals cap Next start e = Inl TooManyIntervals
    else \<exists>out. enumerateIntervals cap Next start e = Inr out \<and> set out = owed Next start e \<and> gapless out)"
proof -
  obtain ivs where ivs: "complete_from Next e (Next (start - 1)) ivs" "set ivs = owed Next start e" "gapless ivs"
    using complete_from_start[OF assms] .
  have "card (owed Next start e) = length ivs" using gapless_distinct[OF ivs(3)] ivs(2) distinct_card[of ivs] by simp
  then show ?thesis using enum_loop_complete[OF assms ivs(1), of "[]" cap] ivs(2,3) by (simp add: enumerateIntervals_def)
qed

theorem enumerateIntervals_correct_witness:
  "if card (owed hourly 0 (3600 * second_ns * 3)) > 500 then enumerateIntervals 500 hourly 0 (3600 * second_ns * 3) = Inl TooManyIntervals
   else \<exists>out. enumerateIntervals 500 hourly 0 (3600 * second_ns * 3) = Inr out \<and>
     set out = owed hourly 0 (3600 * second_ns * 3) \<and> gapless out"
  by (rule enumerateIntervals_correct[OF cron_law_hourly])

lemma owed_prevTick:
  assumes "cron_law Next" "(a, b) \<in> owed Next s e" "b - a < reach_back"
  shows "prevTick Next b = Some (Some a)"
proof -
  have a: "tick Next a" "Next a = Some b" using assms(2) by (auto simp: owed_def)
  note b = tick_Next[OF assms(1) a(2)] Next_later[OF assms(1) a(2)]
  have "Next (b - minute_ns) \<noteq> None"
    using Next_None[OF assms(1) _ b(1)] by (force simp: minute_ns_def second_ns_def)
  from prevTick_spec[OF assms(1) this] obtain r where r: "prevTick Next b = Some r"
    "case r of Some p \<Rightarrow> last_tick_before Next b p \<and> b - reach_back < p
     | None \<Rightarrow> \<forall>q. tick Next q \<and> q < b \<longrightarrow> q \<le> b - reach_back" by blast
  show ?thesis
  proof (cases r)
    case None
    then show ?thesis using r(2) a(1) b(2) assms(3) by force
  next
    case (Some p)
    then have p: "tick Next p" "p < b" "a \<le> p" using r(2) a(1) b(2) by (auto simp: last_tick_before_def)
    then have "p = a" using Next_least[OF assms(1) a(2) p(1)] by linarith
    then show ?thesis using r(1) Some by simp
  qed
qed

lemma enumerated_prevTick:
  assumes "cron_law Next" and "enumerateIntervals cap Next start e = Inr out" and "(a, b) \<in> set out" and "b - a < reach_back"
  shows "prevTick Next b = Some (Some a)"
proof -
  obtain ivs where ivs: "complete_from Next e (Next (start - 1)) ivs" "set ivs = owed Next start e"
    using complete_from_start[OF assms(1)] by metis
  then have "set out = owed Next start e"
    using enum_loop_complete[OF assms(1) ivs(1), of "[]" cap] assms(2) by (simp add: enumerateIntervals_def split: if_splits)
  then show ?thesis using owed_prevTick[OF assms(1) _ assms(4)] assms(3) by blast
qed

lemma catchUp_spec:
  assumes "cron_law Next" "catchup_anchor (ListRunsByPipeline catchUpRunsListed runs) = Some a"
  obtains ivs where "set ivs = owed Next (clamp_anchor now a) now" "gapless ivs"
    "catchUpPerInterval cap Next now runs = Some (drop (length ivs - cap) ivs)"
proof -
  obtain ivs where ivs: "complete_from Next now (Next (clamp_anchor now a - 1)) ivs"
    "set ivs = owed Next (clamp_anchor now a) now" "gapless ivs" using complete_from_start[OF assms(1)] .
  have "(if length ivs > cap then length ivs - cap else 0) = length ivs - cap" by simp
  then have "catchUpPerInterval cap Next now runs = Some (drop (length ivs - cap) ivs)"
    using count_missed_complete[OF ivs(1), of 0] keep_missed_complete[OF ivs(1), of "length ivs - cap" 0 "[]"] assms(2)
    by (simp add: catchUpPerInterval_def Let_def)
  then show ?thesis using that ivs(2,3) by blast
qed

text \<open>
  Catch-up of an opted-in pipeline returns the newest intervals it is owed: of all complete
  intervals between its anchor and now it keeps the last ones up to the cap, oldest first, and
  drops only older ones. In particular it ends at the newest activation that has passed.
\<close>

lemma catchUp_keeps_newest:
  assumes "cron_law Next" and "catchup_anchor (ListRunsByPipeline catchUpRunsListed runs) = Some a"
  shows "\<exists>ivs. set ivs = owed Next (clamp_anchor now a) now \<and> gapless ivs \<and>
    catchUpPerInterval cap Next now runs = Some (drop (length ivs - cap) ivs)"
  using catchUp_spec[OF assms] by metis

lemma catchUp_keeps_newest_witness:
  "\<exists>ivs. set ivs = owed hourly (clamp_anchor 7200000000000 0) 7200000000000 \<and> gapless ivs \<and>
    catchUpPerInterval 50 hourly 7200000000000 [\<lparr>cID = ''r'', cStartedAt = None, cIntervalEnd = Some 0\<rparr>] = Some (drop (length ivs - 50) ivs)"
  by (rule catchUp_keeps_newest[OF cron_law_hourly]) (simp add: catchup_anchor_def newest_end_def ListRunsByPipeline_def catchUpRunsListed_def)

lemma gapless_ends: "gapless ivs \<Longrightarrow> \<forall>iv \<in> set ivs. snd iv \<le> snd (last ivs)"
proof (induction ivs rule: gapless.induct)
  case (1 a b c d ivs)
  then have later: "\<forall>iv \<in> set ((c, d) # ivs). snd iv \<le> snd (last ((c, d) # ivs))" by auto
  have "c < d" using "1.prems" by (cases ivs) auto
  then have "b \<le> snd (last ((c, d) # ivs))" using later 1 by auto
  then show ?case using later by auto
qed auto

lemma newest_end_ge:
  "r \<in> set runs \<Longrightarrow> cIntervalEnd r = Some x \<Longrightarrow> \<exists>m. newest_end runs = Some m \<and> x \<le> m"
proof (induction runs rule: rev_induct)
  case (snoc r' runs)
  show ?case
  proof (cases "r \<in> set runs")
    case True
    then show ?thesis using snoc by (auto simp: newest_end_def split: option.splits)
  next
    case False
    then show ?thesis using snoc.prems by (auto simp: newest_end_def split: option.splits)
  qed
qed simp

text \<open>
  C12. Catch-up ends: once the run of the newest dispatched interval is among the fifty runs that the store lists first, a
  further pass at the same time dispatches nothing, whatever other runs are on record.
\<close>

theorem catchUp_settles:
  assumes "cron_law Next" and "catchUpPerInterval cap Next now runs = Some kept" and "kept \<noteq> []"
    and "r \<in> set (ListRunsByPipeline 50 runs')" and "cIntervalEnd r = Some (snd (last kept))"
  shows "catchUpPerInterval cap Next now runs' = Some []"
proof -
  obtain a where a: "catchup_anchor (ListRunsByPipeline catchUpRunsListed runs) = Some a"
    using assms(2,3) by (auto simp: catchUpPerInterval_def split: option.splits)
  obtain ivs where ivs: "set ivs = owed Next (clamp_anchor now a) now" "gapless ivs"
    "catchUpPerInterval cap Next now runs = Some (drop (length ivs - cap) ivs)" using catchUp_spec[OF assms(1) a] .
  then have kept: "kept = drop (length ivs - cap) ivs" using assms(2) by simp
  then have last: "last kept = last ivs" "ivs \<noteq> []" using assms(3) by auto
  define l where "l = snd (last ivs)"
  have l: "clamp_anchor now a < l"
    using ivs(1) last(2) Next_later[OF assms(1)] last_in_set[OF last(2)] by (force simp: owed_def l_def)
  obtain m where m: "newest_end (ListRunsByPipeline catchUpRunsListed runs') = Some m" "l \<le> m"
    using newest_end_ge[OF assms(4,5)] last(1) by (auto simp: l_def catchUpRunsListed_def)
  have "owed Next (clamp_anchor now m) now \<subseteq> set ivs" using m(2) l by (auto simp: ivs(1) owed_def clamp_anchor_def)
  moreover have "b \<le> l" if "(c, b) \<in> set ivs" for c b using gapless_ends[OF ivs(2)] that by (force simp: l_def)
  moreover have "l < b" if "(c, b) \<in> owed Next (clamp_anchor now m) now" for c b
  proof -
    have "m \<le> c" "Next c = Some b" using that by (auto simp: owed_def clamp_anchor_def split: if_splits)
    then show ?thesis using Next_later[OF assms(1), of c b] m(2) by simp
  qed
  ultimately have "owed Next (clamp_anchor now m) now = {}" by (metis leD subsetD surj_pair equals0I)
  then show ?thesis using catchUp_spec[OF assms(1), of runs' m now cap] m(1) by (auto simp: catchup_anchor_def)
qed

theorem catchUp_settles_witness:
  "catchUpPerInterval 50 hourly 3600000000000 [\<lparr>cID = ''r'', cStartedAt = None, cIntervalEnd = Some 3600000000000\<rparr>] = Some []"
proof -
  have "catchUpPerInterval 50 hourly 3600000000000 [\<lparr>cID = ''r'', cStartedAt = None, cIntervalEnd = Some 0\<rparr>] = Some [(0, 3600000000000)]"
    by (simp add: catchUpPerInterval_def catchup_anchor_def newest_end_def clamp_anchor_def maxIntervalLookback_def ListRunsByPipeline_def
        catchUpRunsListed_def
        day_ns_def minute_ns_def second_ns_def hourly_def every_def count_missed.simps keep_missed.simps)
  from catchUp_settles[OF cron_law_hourly this, of "\<lparr>cID = ''r'', cStartedAt = None, cIntervalEnd = Some 3600000000000\<rparr>"]
  show ?thesis by (simp add: ListRunsByPipeline_def)
qed

text \<open>
  The fifty runs matter: with fifty later runs of older slices on record, as a backfill leaves them, the run of the
  newest interval is not listed and the next pass dispatches the interval again.
\<close>

lemma catchUp_repeats:
  "let old = \<lparr>cID = ''s'', cStartedAt = Some 1, cIntervalEnd = Some 3600000000000\<rparr>;
       later = map (\<lambda>i. \<lparr>cID = ''b'', cStartedAt = Some (2 + int i), cIntervalEnd = Some 0\<rparr>) [0..<50]
   in old \<in> set (old # later) \<and> catchUpPerInterval 50 hourly 3600000000000 (old # later) = Some [(0, 3600000000000)]"
proof -
  let ?rows = "\<lparr>cID = ''s'', cStartedAt = Some 1, cIntervalEnd = Some 3600000000000\<rparr> #
    map (\<lambda>i. \<lparr>cID = ''b'', cStartedAt = Some (2 + int i), cIntervalEnd = Some 0\<rparr>) [0..<50]"
  have "catchup_anchor (ListRunsByPipeline catchUpRunsListed ?rows) = Some 0" by code_simp
  then have "catchUpPerInterval 50 hourly 3600000000000 ?rows = Some [(0, 3600000000000)]"
    by (simp add: catchUpPerInterval_def clamp_anchor_def maxIntervalLookback_def day_ns_def minute_ns_def second_ns_def hourly_def
        every_def count_missed.simps keep_missed.simps)
  then show ?thesis by (simp only: Let_def list.set_intros)
qed

text \<open>
  The walk back doubles from one minute and gives up when the next doubling would pass 366
  days, so it looks back 364 days and not a year: for a schedule that fires every 365 days it
  finds no previous tick, although one lies within the bound it names.
\<close>

lemma yearly_interval_missed:
  "prevTick (every (365 * day_ns)) (365 * day_ns * k) = Some None \<and>
   tick (every (365 * day_ns)) (365 * day_ns * (k - 1)) \<and>
   365 * day_ns * k - 365 * day_ns * (k - 1) \<le> maxIntervalLookback"
proof -
  let ?d = "365 * day_ns" and ?N = "every (365 * day_ns)"
  have d: "0 < ?d" "reach_back < ?d" by (simp_all add: day_ns_def reach_back_def minute_ns_def second_ns_def)
  note law = cron_law_every[OF d(1)] and ticks = tick_every[OF d(1)]
  have "?N (?d * k - minute_ns) \<noteq> None" by (simp add: every_def)
  from prevTick_spec[OF law this] obtain r where r: "prevTick ?N (?d * k) = Some r"
    "case r of Some p \<Rightarrow> last_tick_before ?N (?d * k) p \<and> ?d * k - reach_back < p | None \<Rightarrow> True"
    by (auto split: option.splits)
  have "r = None"
  proof (rule ccontr)
    assume "r \<noteq> None"
    then obtain p where p: "?d dvd p" "p < ?d * k" "?d * k - reach_back < p"
      using r(2) ticks by (auto simp: last_tick_before_def)
    obtain j where j: "p = ?d * j" using p(1) by (rule dvdE)
    have "j < k" using p(2) d(1) unfolding j by (simp add: mult_less_cancel_left_pos)
    then have "?d * j \<le> ?d * (k - 1)" using d(1) by (simp add: mult_left_mono)
    then show False using p(3) d(2) unfolding j by (simp add: right_diff_distrib)
  qed
  then show ?thesis using r(1) ticks
    by (simp add: right_diff_distrib maxIntervalLookback_def day_ns_def minute_ns_def second_ns_def)
qed

end
