(* ===== verification/Cron_Scheduler.thy ===== *)
theory Cron_Scheduler
  imports Tick_Interval
begin

text \<open>
  The cron scheduler (\<^verbatim>\<open>src/engine/scheduler.go\<close>): the table of registered pipelines and its
  synchronisation with the store, the run a tick dispatches, and the catch-up pass at start. The
  cron library keeps the jobs under identifiers it allocates (\<open>alloc\<close>); its parser, the time zone
  database, the clock and the answers of the leader election are arguments.
\<close>

record SPipeline =
  pID :: string
  pName :: string
  pSchedule :: string
  pTimezone :: string
  pEnabled :: bool
  pDraft :: bool
  pCatchup :: bool

type_synonym job = "string \<times> schedule"

record Scheduler =
  entries :: "(string \<times> nat) list"
  schedules :: "(string \<times> string) list"
  names :: "(string \<times> string) list"
  cronJobs :: "(nat \<times> job) list"

record 'loc cronlib =
  parse :: "string \<Rightarrow> string + ('loc \<Rightarrow> schedule)"
  loadLocation :: "string \<Rightarrow> 'loc option"
  utc :: 'loc
  alloc :: "(nat \<times> job) list \<Rightarrow> nat"

definition NewScheduler :: Scheduler where
  "NewScheduler = \<lparr>entries = [], schedules = [], names = [], cronJobs = []\<rparr>"

section \<open>Registration\<close>

definition Unregister :: "string \<Rightarrow> Scheduler \<Rightarrow> Scheduler" where
  "Unregister p s =
     (case map_of (entries s) p of
        Some e \<Rightarrow> s\<lparr>cronJobs := mdel e (cronJobs s), entries := mdel p (entries s),
                   schedules := mdel p (schedules s), names := mdel p (names s)\<rparr>
      | None \<Rightarrow> s)"

definition register_schedule :: "('loc, 'm) cronlib_scheme \<Rightarrow> string \<Rightarrow> string \<Rightarrow> string + schedule" where
  "register_schedule lib expr timezone =
     (let loc = (if timezone \<noteq> [] then (case loadLocation lib timezone of Some l \<Rightarrow> l | None \<Rightarrow> utc lib) else utc lib)
      in case parse lib expr of
           Inl e \<Rightarrow> Inl e
         | Inr sched \<Rightarrow> Inr (if loc \<noteq> utc lib then tzCronSchedule_Next sched loc (utc lib) else sched (utc lib)))"

definition Register ::
  "('loc, 'm) cronlib_scheme \<Rightarrow> string \<Rightarrow> string \<Rightarrow> string \<Rightarrow> string \<Rightarrow> Scheduler \<Rightarrow> string option \<times> Scheduler" where
  "Register lib p name expr timezone s =
     (let s = Unregister p s
      in case register_schedule lib expr timezone of
           Inl e \<Rightarrow> (Some (''parse cron: '' @ e), s)
         | Inr sched \<Rightarrow>
             let e = alloc lib (cronJobs s)
             in (None, s\<lparr>cronJobs := mput e (p, sched) (cronJobs s), entries := mput p e (entries s),
                        schedules := mput p expr (schedules s), names := mput p name (names s)\<rparr>))"

definition SyncPipeline ::
  "('loc, 'm) cronlib_scheme \<Rightarrow> string \<Rightarrow> string \<Rightarrow> string \<Rightarrow> bool \<Rightarrow> string \<Rightarrow> Scheduler \<Rightarrow> Scheduler" where
  "SyncPipeline lib p name expr enabled timezone s =
     (if enabled \<and> expr \<noteq> [] then snd (Register lib p name expr timezone s) else Unregister p s)"

definition scheduled :: "SPipeline \<Rightarrow> bool" where
  "scheduled p \<longleftrightarrow> pEnabled p \<and> \<not> pDraft p \<and> pSchedule p \<noteq> []"

definition sync_one :: "('loc, 'm) cronlib_scheme \<Rightarrow> SPipeline \<Rightarrow> Scheduler \<Rightarrow> Scheduler" where
  "sync_one lib p = SyncPipeline lib (pID p) (pName p) (pSchedule p) (pEnabled p \<and> \<not> pDraft p) (pTimezone p)"

definition syncSchedulesFromStore ::
  "('loc, 'm) cronlib_scheme \<Rightarrow> string + SPipeline list \<Rightarrow> Scheduler \<Rightarrow> Scheduler" where
  "syncSchedulesFromStore lib listed s =
     (case listed of
        Inl _ \<Rightarrow> s
      | Inr pipelines \<Rightarrow>
          let live = pID ` set (filter scheduled pipelines);
              s = fold (sync_one lib) pipelines s;
              stale = filter (\<lambda>p. p \<notin> live) (map fst (entries s))
          in fold Unregister stale s)"

text \<open>The registration loop of \<^verbatim>\<open>Start\<close>, with the number of pipelines it registered.\<close>

definition start_register ::
  "('loc, 'm) cronlib_scheme \<Rightarrow> SPipeline list \<Rightarrow> Scheduler \<Rightarrow> Scheduler \<times> nat" where
  "start_register lib pipelines s =
     fold (\<lambda>p (s, n). if scheduled p then
         (case Register lib (pID p) (pName p) (pSchedule p) (pTimezone p) s of
            (Some _, s') \<Rightarrow> (s', n)
          | (None, s') \<Rightarrow> (s', n + 1))
       else (s, n)) pipelines (s, 0)"

section \<open>Dispatch\<close>

record RunOptions =
  Trigger :: string
  DataInterval :: "(int \<times> int) option"

definition plain_options :: RunOptions where
  "plain_options = \<lparr>Trigger = ''scheduled'', DataInterval = None\<rparr>"

text \<open>\<open>prev\<close> is the activation the cron entry recorded, if it has one.\<close>

definition scheduledRunOptions :: "schedule \<Rightarrow> int option \<Rightarrow> int \<Rightarrow> RunOptions option" where
  "scheduledRunOptions Next prev now =
     do {
       fired \<leftarrow> (case prev of Some t \<Rightarrow> Some (Some t) | None \<Rightarrow> prevTick Next now);
       case fired of
         None \<Rightarrow> Some plain_options
       | Some t \<Rightarrow>
           do {
             start \<leftarrow> prevTick Next t;
             Some (plain_options\<lparr>DataInterval := map_option (\<lambda>a. (a, t)) start\<rparr>)
           }
     }"

text \<open>The job of a cron entry: the options it dispatches a run with, or nothing on a standby.\<close>

definition fire :: "bool \<Rightarrow> schedule \<Rightarrow> int option \<Rightarrow> int \<Rightarrow> RunOptions option option" where
  "fire leader Next prev now = (if \<not> leader then Some None else map_option Some (scheduledRunOptions Next prev now))"

text \<open>The single catch-up run of a pipeline that did not opt in.\<close>

definition catch_up_once :: "schedule \<Rightarrow> int \<Rightarrow> CRun list \<Rightarrow> (int \<times> int) option list option" where
  "catch_up_once Next now runs =
     (case ListRunsByPipeline 1 runs of
        [] \<Rightarrow> Some []
      | r # _ \<Rightarrow>
          (case cStartedAt r of
             None \<Rightarrow> Some []
           | Some lastRun \<Rightarrow>
               (case Next lastRun of
                  None \<Rightarrow> Some []
                | Some t \<Rightarrow>
                    if t < now \<and> now - t < day_ns
                    then map_option (\<lambda>start. [map_option (\<lambda>a. (a, t)) start]) (prevTick Next t)
                    else Some [])))"

text \<open>
  The dispatch goroutine of a per-interval catch-up: \<open>closing\<close> and \<open>leads\<close> answer before each run.
\<close>

fun dispatch_kept :: "(nat \<Rightarrow> bool) \<Rightarrow> (nat \<Rightarrow> bool) \<Rightarrow> nat \<Rightarrow> (int \<times> int) list \<Rightarrow> (int \<times> int) list" where
  "dispatch_kept closing leads i [] = []"
| "dispatch_kept closing leads i (iv # ivs) =
     (if closing i then [] else if \<not> leads i then [] else iv # dispatch_kept closing leads (Suc i) ivs)"

datatype catch_up = Once string "(int \<times> int) option list" | PerInterval string "(int \<times> int) list"

text \<open>
  \<^verbatim>\<open>catchUpMissedRuns\<close>: \<open>leads i\<close> is the answer of the election to question \<open>i\<close>; \<open>runs\<close> is what the store
  has of a pipeline, \<open>None\<close> when listing it fails; the times that the store returns are in UTC. The result names the pipelines in order with the
  intervals they dispatch; the outer \<open>None\<close> is a walk that does not end.
\<close>

fun catch_up_loop ::
  "('loc, 'm) cronlib_scheme \<Rightarrow> (nat \<Rightarrow> bool) \<Rightarrow> (string \<Rightarrow> CRun list option) \<Rightarrow> int \<Rightarrow> nat \<Rightarrow> SPipeline list \<Rightarrow> catch_up list option" where
  "catch_up_loop lib leads runs now i [] = Some []"
| "catch_up_loop lib leads runs now i (p # ps) =
     (if \<not> scheduled p then catch_up_loop lib leads runs now i ps
      else if \<not> leads i then Some []
      else case scheduleFor (parse lib) (loadLocation lib) (pSchedule p) (pTimezone p) of
        Inl _ \<Rightarrow> catch_up_loop lib leads runs now (Suc i) ps
      | Inr sched \<Rightarrow>
          do {
            one \<leftarrow> (case runs (pID p) of
                      None \<Rightarrow> Some []
                    | Some rs \<Rightarrow>
                        if pCatchup p
                        then map_option (\<lambda>kept. [PerInterval (pID p) kept]) (catchUpPerInterval catchUpMaxIntervals (sched (utc lib)) now rs)
                        else map_option (\<lambda>ds. [Once (pID p) ds]) (catch_up_once (sched (utc lib)) now rs));
            rest \<leftarrow> catch_up_loop lib leads runs now (Suc i) ps;
            Some (one @ rest)
          })"

definition catchUpMissedRuns ::
  "('loc, 'm) cronlib_scheme \<Rightarrow> (nat \<Rightarrow> bool) \<Rightarrow> (string \<Rightarrow> CRun list option) \<Rightarrow> int \<Rightarrow> SPipeline list \<Rightarrow> catch_up list option" where
  "catchUpMissedRuns lib leads runs now ps =
     (if \<not> leads 0 then Some [] else catch_up_loop lib leads runs now 1 ps)"

section \<open>The table and the library agree\<close>

text \<open>
  Every registered pipeline has one job in the library and the library has no other job: no
  pipeline fires twice for a tick, and none fires that is not registered.
\<close>

definition cron_inv :: "Scheduler \<Rightarrow> bool" where
  "cron_inv s \<longleftrightarrow> wf_map (entries s) \<and> wf_map (cronJobs s) \<and>
     fst ` set (schedules s) = fst ` set (entries s) \<and> fst ` set (names s) = fst ` set (entries s) \<and>
     (\<forall>p e. map_of (entries s) p = Some e \<longleftrightarrow> (\<exists>sched. map_of (cronJobs s) e = Some (p, sched)))"

definition fresh_ids :: "('loc, 'm) cronlib_scheme \<Rightarrow> bool" where
  "fresh_ids lib \<longleftrightarrow> (\<forall>jobs. alloc lib jobs \<notin> fst ` set jobs)"

lemma cron_invD:
  assumes "cron_inv s"
  shows "map_of (entries s) p = Some e \<longleftrightarrow> (\<exists>sched. map_of (cronJobs s) e = Some (p, sched))"
  using assms unfolding cron_inv_def by blast

lemma Unregister_entries:
  "map_of (entries (Unregister p s)) = (map_of (entries s))(p := None)"
  by (auto simp: Unregister_def fun_eq_iff split: option.splits)

lemma Unregister_inv:
  assumes "cron_inv s"
  shows "cron_inv (Unregister p s)"
proof (cases "map_of (entries s) p")
  case None
  then show ?thesis using assms by (simp add: Unregister_def)
next
  case (Some e)
  have "map_of (entries s) q = Some e \<longleftrightarrow> q = p" for q
    using cron_invD[OF assms, of _ e] Some by auto
  then have "map_of (entries s) q = Some e' \<Longrightarrow> q \<noteq> p \<Longrightarrow> e' \<noteq> e" for q e' by blast
  moreover have "map_of (cronJobs s) e' = Some (p, sc) \<Longrightarrow> e' = e" for e' sc
    using cron_invD[OF assms, of p e'] Some by auto
  moreover have "Unregister p s = s\<lparr>cronJobs := mdel e (cronJobs s), entries := mdel p (entries s),
      schedules := mdel p (schedules s), names := mdel p (names s)\<rparr>" using Some by (simp add: Unregister_def)
  ultimately show ?thesis using assms unfolding cron_inv_def by (auto simp del: map_of_eq_Some_iff)
qed

lemma Register_cases:
  obtains e err where "register_schedule lib expr tz = Inl e" "Register lib p name expr tz s = (Some err, Unregister p s)"
  | sched s' where "register_schedule lib expr tz = Inr sched" "Register lib p name expr tz s = (None, s')"
    "s' = (Unregister p s)\<lparr>cronJobs := mput (alloc lib (cronJobs (Unregister p s))) (p, sched) (cronJobs (Unregister p s)),
        entries := mput p (alloc lib (cronJobs (Unregister p s))) (entries (Unregister p s)),
        schedules := mput p expr (schedules (Unregister p s)), names := mput p name (names (Unregister p s))\<rparr>"
  by (cases "register_schedule lib expr tz") (simp_all add: Register_def Let_def)

lemma Register_inv:
  assumes "cron_inv s" "fresh_ids lib"
  shows "cron_inv (snd (Register lib p name expr tz s))"
proof (cases rule: Register_cases[of lib expr tz p name s])
  case (1 e err)
  then show ?thesis using Unregister_inv[OF assms(1)] by simp
next
  case (2 sched s')
  let ?u = "Unregister p s" and ?e = "alloc lib (cronJobs (Unregister p s))"
  have u: "cron_inv ?u" "map_of (entries ?u) p = None" using Unregister_inv[OF assms(1)] Unregister_entries by simp_all
  have "map_of (cronJobs ?u) ?e = None" using assms(2) by (simp add: map_of_None_iff fresh_ids_def)
  then have "map_of (entries ?u) q \<noteq> Some ?e" for q using cron_invD[OF u(1)] by auto
  moreover have "map_of (cronJobs ?u) e \<noteq> Some (p, sc)" for e sc using cron_invD[OF u(1), of p e] u(2) by auto
  ultimately have "cron_inv s'" using u unfolding 2(3) cron_inv_def by auto
  then show ?thesis using 2 by simp
qed

lemma sync_one_inv:
  "cron_inv s \<Longrightarrow> fresh_ids lib \<Longrightarrow> cron_inv (sync_one lib p s)"
  using Register_inv Unregister_inv by (auto simp: sync_one_def SyncPipeline_def)

lemma fold_keeps: "P s \<Longrightarrow> (\<And>x s. P s \<Longrightarrow> P (f x s)) \<Longrightarrow> P (fold f xs s)"
  by (induction xs arbitrary: s) auto

section \<open>What synchronisation leaves registered\<close>

definition registers :: "('loc, 'm) cronlib_scheme \<Rightarrow> SPipeline \<Rightarrow> bool" where
  "registers lib p \<longleftrightarrow> scheduled p \<and> (\<exists>sched. register_schedule lib (pSchedule p) (pTimezone p) = Inr sched)"

definition job_of :: "Scheduler \<Rightarrow> string \<Rightarrow> (string \<times> string \<times> schedule) option" where
  "job_of s p =
     (case (map_of (entries s) p, map_of (schedules s) p, map_of (names s) p) of
        (Some e, Some expr, Some name) \<Rightarrow> map_option (\<lambda>(_, sched). (name, expr, sched)) (map_of (cronJobs s) e)
      | _ \<Rightarrow> None)"

definition wanted :: "('loc, 'm) cronlib_scheme \<Rightarrow> SPipeline \<Rightarrow> (string \<times> string \<times> schedule) option" where
  "wanted lib p =
     (if scheduled p then
        (case register_schedule lib (pSchedule p) (pTimezone p) of
           Inl _ \<Rightarrow> None
         | Inr sched \<Rightarrow> Some (pName p, pSchedule p, sched))
      else None)"

lemma job_of_Unregister:
  assumes "cron_inv s"
  shows "job_of (Unregister p s) = (job_of s)(p := None)"
proof
  fix q
  show "job_of (Unregister p s) q = ((job_of s)(p := None)) q"
  proof (cases "map_of (entries s) p")
    case None
    then show ?thesis by (simp add: Unregister_def job_of_def)
  next
    case (Some e)
    have "map_of (entries s) q \<noteq> Some e" if "q \<noteq> p" using cron_invD[OF assms, of _ e] Some that by auto
    then show ?thesis using Some by (auto simp: Unregister_def job_of_def split: option.splits)
  qed
qed

lemma job_of_Register:
  assumes "cron_inv s" "fresh_ids lib"
  shows "job_of (snd (Register lib p name expr tz s)) =
    (job_of s)(p := (case register_schedule lib expr tz of Inl _ \<Rightarrow> None | Inr sched \<Rightarrow> Some (name, expr, sched)))"
proof (cases rule: Register_cases[of lib expr tz p name s])
  case (1 e err)
  then show ?thesis using job_of_Unregister[OF assms(1)] by simp
next
  case (2 sched s')
  let ?u = "Unregister p s" and ?e = "alloc lib (cronJobs (Unregister p s))"
  have u: "cron_inv ?u" using Unregister_inv[OF assms(1)] .
  have "map_of (cronJobs ?u) ?e = None" using assms(2) by (simp add: map_of_None_iff fresh_ids_def)
  then have "map_of (entries ?u) q \<noteq> Some ?e" for q using cron_invD[OF u] by auto
  then have "job_of s' = (job_of ?u)(p \<mapsto> (name, expr, sched))"
    unfolding 2(3) by (auto simp: job_of_def fun_eq_iff split: option.splits)
  then show ?thesis using job_of_Unregister[OF assms(1)] 2(1,2) by simp
qed

lemma job_of_sync_one:
  assumes "cron_inv s" "fresh_ids lib"
  shows "job_of (sync_one lib p s) = (job_of s)(pID p := wanted lib p)"
  using job_of_Register[OF assms] job_of_Unregister[OF assms(1)]
  by (auto simp: sync_one_def SyncPipeline_def wanted_def scheduled_def)

lemma job_of_sync:
  assumes "cron_inv s" "fresh_ids lib" "distinct (map pID ps)"
  shows "job_of (fold (sync_one lib) ps s) q =
    (case find (\<lambda>p. pID p = q) ps of Some p \<Rightarrow> wanted lib p | None \<Rightarrow> job_of s q)"
  using assms(1,3)
proof (induction ps arbitrary: s)
  case (Cons p ps)
  have "find (\<lambda>x. pID x = pID p) ps = None" using Cons.prems(2) unfolding find_None_iff by (simp add: image_iff) metis
  then show ?case
    using Cons.IH[OF sync_one_inv[OF Cons.prems(1) assms(2)]] Cons.prems(2) job_of_sync_one[OF Cons.prems(1) assms(2)]
    by (auto split: option.split)
qed simp

lemma job_of_Unregister_all:
  assumes "cron_inv s"
  shows "job_of (fold Unregister qs s) q = (if q \<in> set qs then None else job_of s q)"
  using assms
proof (induction qs arbitrary: s)
  case (Cons x qs)
  then show ?case using Cons.IH[OF Unregister_inv[OF Cons.prems]] job_of_Unregister[OF Cons.prems] by simp
qed simp

lemma job_of_None:
  assumes "cron_inv s" "q \<notin> fst ` set (entries s)"
  shows "job_of s q = None"
  using assms(2) by (auto simp: job_of_def map_of_None_iff[symmetric])

text \<open>
  C13. Synchronisation with the store leaves exactly the right schedules registered: after it,
  the library runs one job for every enabled pipeline that is no draft and whose schedule parses,
  under its current name, expression and time zone, and no other job. Pipelines that were
  disabled, rescheduled, turned into drafts or deleted are dropped.
\<close>

theorem sync_exact:
  assumes "cron_inv s" and "fresh_ids lib" and "distinct (map pID ps)"
  shows "cron_inv (syncSchedulesFromStore lib (Inr ps) s) \<and>
    job_of (syncSchedulesFromStore lib (Inr ps) s) q =
      (case find (\<lambda>p. pID p = q) ps of Some p \<Rightarrow> wanted lib p | None \<Rightarrow> None)"
proof -
  let ?f = "fold (sync_one lib) ps s" and ?live = "pID ` set (filter scheduled ps)"
  let ?stale = "filter (\<lambda>p. p \<notin> ?live) (map fst (entries ?f))"
  have eq: "syncSchedulesFromStore lib (Inr ps) s = fold Unregister ?stale ?f"
    by (simp add: syncSchedulesFromStore_def Let_def)
  have inv: "cron_inv ?f" by (rule fold_keeps[of cron_inv, OF assms(1)]) (rule sync_one_inv[OF _ assms(2)])
  have "cron_inv (fold Unregister ?stale ?f)" by (rule fold_keeps[of cron_inv, OF inv]) (rule Unregister_inv)
  moreover have "job_of (fold Unregister ?stale ?f) q = (case find (\<lambda>p. pID p = q) ps of Some p \<Rightarrow> wanted lib p | None \<Rightarrow> None)"
  proof (cases "find (\<lambda>p. pID p = q) ps")
    case None
    then have "q \<notin> ?live" by (auto simp: find_None_iff)
    then show ?thesis using None job_of_Unregister_all[OF inv] job_of_None[OF inv, of q] by auto
  next
    case (Some p)
    then have p: "p \<in> set ps" "pID p = q" using find_in[OF Some] by auto
    have "wanted lib p = None" if "q \<notin> ?live" using p that by (auto simp: wanted_def)
    then show ?thesis
      using Some job_of_Unregister_all[OF inv] job_of_sync[OF assms, of q] by auto
  qed
  ultimately show ?thesis unfolding eq by blast
qed

definition demo_lib :: "unit cronlib" where
  "demo_lib = \<lparr>parse = (\<lambda>e. if e = ''@hourly'' then Inr (\<lambda>_. hourly) else Inl ''expected 5 fields''),
     loadLocation = (\<lambda>_. None), utc = (), alloc = (\<lambda>jobs. Suc (Max (insert 0 (fst ` set jobs))))\<rparr>"

definition demo_p :: SPipeline where
  "demo_p = \<lparr>pID = ''p'', pName = ''daily'', pSchedule = ''@hourly'', pTimezone = [], pEnabled = True, pDraft = False, pCatchup = False\<rparr>"

lemma fresh_demo_lib: "fresh_ids demo_lib"
proof -
  have "Suc (Max (insert 0 (fst ` set jobs))) \<notin> fst ` set jobs" for jobs :: "(nat \<times> job) list"
    using Max_ge[of "insert 0 (fst ` set jobs)" "Suc (Max (insert 0 (fst ` set jobs)))"] by fastforce
  then show ?thesis by (simp add: fresh_ids_def demo_lib_def)
qed

theorem sync_exact_witness:
  "cron_inv (syncSchedulesFromStore demo_lib (Inr [demo_p]) NewScheduler) \<and>
   job_of (syncSchedulesFromStore demo_lib (Inr [demo_p]) NewScheduler) ''p'' = Some (''daily'', ''@hourly'', hourly)"
proof -
  have "cron_inv NewScheduler" by (simp add: cron_inv_def NewScheduler_def)
  moreover have "wanted demo_lib demo_p = Some (''daily'', ''@hourly'', hourly)"
    by (simp add: wanted_def scheduled_def register_schedule_def demo_lib_def demo_p_def)
  ultimately show ?thesis using sync_exact[of NewScheduler demo_lib "[demo_p]" "''p''"] fresh_demo_lib
    by (simp add: demo_p_def)
qed

section \<open>Dispatch and derivation agree\<close>

lemma register_schedule_scheduleFor:
  "register_schedule lib expr tz = map_sum (\<lambda>e. e) (\<lambda>sched. sched (utc lib)) (scheduleFor (parse lib) (loadLocation lib) expr tz)"
  by (auto simp: register_schedule_def scheduleFor_def Let_def tzCronSchedule_Next_def fun_eq_iff split: sum.splits option.splits)

lemma scheduleFor_zone:
  assumes "scheduleFor pr load expr tz = Inr sched" "z = u \<or> tz \<noteq> [] \<and> load tz \<noteq> None"
  shows "sched z = sched u"
  using assms by (auto simp: scheduleFor_def tzCronSchedule_Next_def fun_eq_iff split: sum.splits if_splits)

text \<open>
  C11. Backfill and scheduler agree on what an interval is: for every interval of an accepted backfill, the job that the scheduler
  registers for the pipeline's schedule, when it fires at the end of that interval, stamps the same interval on its run. This
  holds for a pipeline that has a time zone the host knows; without one it needs a request whose start is given in UTC,
  since a schedule without a zone is walked in the zone of the request. And the interval has to be shorter than the walk back
  reaches.
\<close>

theorem backfill_matches_schedule:
  assumes "Backfill closing (scheduleFor (parse lib) (loadLocation lib)) (Inr pipe) req = Inr (plan, ivs)"
    and "register_schedule lib (bSchedule pipe) (bTimezone pipe) = Inr Next" and "cron_law Next"
    and "Zone req = utc lib \<or> bTimezone pipe \<noteq> [] \<and> loadLocation lib (bTimezone pipe) \<noteq> None"
    and "(a, b) \<in> set ivs" and "b - a < reach_back"
  shows "fire True Next (Some b) now = Some (Some \<lparr>Trigger = ''scheduled'', DataInterval = Some (a, b)\<rparr>)"
proof -
  obtain sched where s: "scheduleFor (parse lib) (loadLocation lib) (bSchedule pipe) (bTimezone pipe) = Inr sched" "Next = sched (utc lib)"
    using assms(2) unfolding register_schedule_scheduleFor
    by (cases "scheduleFor (parse lib) (loadLocation lib) (bSchedule pipe) (bTimezone pipe)") auto
  have "sched (Zone req) = Next" using scheduleFor_zone[OF s(1), of "Zone req" "utc lib"] assms(4) s(2) by auto
  then have "enumerateIntervals backfillMaxIntervals Next (Start req) (End req) = Inr ivs"
    using assms(1) s(1) by (auto simp: Backfill_def split: if_splits sum.splits)
  from enumerated_prevTick[OF assms(3) this assms(5,6)] show ?thesis
    by (simp add: fire_def scheduledRunOptions_def plain_options_def)
qed

definition demo_pipe :: BPipeline where
  "demo_pipe = \<lparr>bDraft = False, bSchedule = ''@hourly'', bTimezone = [], bConfigs = []\<rparr>"

theorem backfill_matches_schedule_witness:
  "fire True hourly (Some 3600000000000) 3600000000007 = Some (Some \<lparr>Trigger = ''scheduled'', DataInterval = Some (0, 3600000000000)\<rparr>)"
proof -
  have "enumerateIntervals 500 hourly 0 3600000000000 = Inr [(0, 3600000000000)]"
    by (simp add: enumerateIntervals_def enum_loop.simps hourly_def every_def minute_ns_def second_ns_def)
  then have "Backfill False (scheduleFor (parse demo_lib) (loadLocation demo_lib)) (Inr demo_pipe)
      \<lparr>Start = 0, End = 3600000000000, Zone = (), Force = True\<rparr> =
    Inr (\<lparr>Intervals = 1, First = 0, Last = 3600000000000, Concurrency = 1\<rparr>, [(0, 3600000000000)])"
    by (simp add: Backfill_def demo_pipe_def scheduleFor_def demo_lib_def backfillMaxIntervals_def)
  from backfill_matches_schedule[OF this, of hourly 0 3600000000000 3600000000007] show ?thesis
    using cron_law_hourly
    by (simp add: register_schedule_def demo_pipe_def demo_lib_def reach_back_def minute_ns_def second_ns_def)
qed

text \<open>
  The condition on zones is needed. A daily schedule at 06:00 without a time zone, backfilled by a request whose start is
  given at the offset +05:00, has the intervals between 01:00 UTC of one day and the next; the scheduler, in UTC, never
  stamps such an interval.
\<close>

definition daily6 :: "int \<Rightarrow> schedule" where
  "daily6 offset t = map_option (\<lambda>n. n + 6 * 60 * minute_ns - offset) (every day_ns (t + offset - 6 * 60 * minute_ns))"

lemma backfill_zone_disagrees:
  "enumerateIntervals 500 (daily6 (5 * 60 * minute_ns)) 0 (2 * day_ns) = Inr [(60 * minute_ns, day_ns + 60 * minute_ns)]"
  "enumerateIntervals 500 (daily6 0) 0 (2 * day_ns) = Inr [(6 * 60 * minute_ns, day_ns + 6 * 60 * minute_ns)]"
  by (simp_all add: enumerateIntervals_def enum_loop.simps daily6_def every_def day_ns_def minute_ns_def second_ns_def)

text \<open>
  C14. A tick dispatches its own interval: the job of a cron entry fires only on the leader, and
  when its pipeline's schedule has an earlier activation within reach, the run carries the
  interval from the last activation before the tick to the tick. That interval is one of the complete
  intervals of the schedule (\<open>owed\<close>), the set which a backfill and a catch-up over it enumerate.
\<close>

theorem fire_interval:
  assumes "cron_law Next" and "tick Next t" and "last_tick_before Next t a" and "t - reach_back < a" and "t \<le> e"
  shows "fire leader Next (Some t) now = Some (if leader then Some \<lparr>Trigger = ''scheduled'', DataInterval = Some (a, t)\<rparr> else None) \<and>
    (a, t) \<in> owed Next a e"
proof -
  have a: "tick Next a" "a < t" using assms(3) by (auto simp: last_tick_before_def)
  have n: "Next a = Some t"
  proof (cases "Next a")
    case None
    then show ?thesis using Next_None[OF assms(1) None assms(2)] a(2) by simp
  next
    case (Some n)
    then have "tick Next n" "a < n" "n \<le> t"
      using tick_Next[OF assms(1) Some] Next_later[OF assms(1) Some] Next_least[OF assms(1) Some assms(2) a(2)] by auto
    then show ?thesis using assms(3) Some unfolding last_tick_before_def by force
  qed
  then have o: "(a, t) \<in> owed Next a e" using a(1) assms(5) by (simp add: owed_def)
  then have "prevTick Next t = Some (Some a)" using owed_prevTick[OF assms(1)] assms(4) by simp
  then show ?thesis using o by (simp add: fire_def scheduledRunOptions_def plain_options_def)
qed

theorem fire_interval_witness:
  "fire True hourly (Some 3600000000000) 3600000000005 = Some (Some \<lparr>Trigger = ''scheduled'', DataInterval = Some (0, 3600000000000)\<rparr>) \<and>
   (0, 3600000000000) \<in> owed hourly 0 3600000000000"
proof -
  have ticks: "tick hourly p \<longleftrightarrow> 3600000000000 dvd p" for p
    using tick_every[of "60 * minute_ns"] by (simp add: hourly_def minute_ns_def second_ns_def)
  have "q \<le> 0" if "3600000000000 dvd q" "q < 3600000000000" for q :: int using that zdvd_imp_le[of 3600000000000 q] by force
  then have "last_tick_before hourly 3600000000000 0" by (auto simp: last_tick_before_def ticks)
  then show ?thesis
    using fire_interval[OF cron_law_hourly, of 3600000000000 0 3600000000000 True 3600000000005]
    by (simp add: ticks reach_back_def minute_ns_def second_ns_def)
qed

section \<open>Catch-up and leadership\<close>

lemma catch_up_loop_prefix:
  assumes "catch_up_loop lib (\<lambda>_. True) runs now j ps = Some full" "catch_up_loop lib leads runs now i ps = Some out"
  shows "\<exists>rest. full = out @ rest"
  using assms
proof (induction ps arbitrary: i j full out)
  case (Cons p ps)
  show ?case
  proof (cases "scheduled p \<and> leads i")
    case True
    then show ?thesis
      using Cons.prems Cons.IH by (fastforce simp: Option.bind_eq_Some_conv split: sum.splits)
  next
    case False
    then show ?thesis using Cons by (auto split: if_splits)
  qed
qed simp

text \<open>
  A catch-up pass dispatches only while its instance leads: whatever the election answers,
  and whenever leadership is lost, what the pass dispatches is an initial part of what a pass with
  lasting leadership would dispatch, and nothing at all when it never led.
\<close>

lemma catchUp_needs_leadership:
  assumes "catchUpMissedRuns lib leads runs now ps = Some out" and "catchUpMissedRuns lib (\<lambda>_. True) runs now ps = Some full"
  shows "(\<exists>rest. full = out @ rest) \<and> (leads 0 = False \<longrightarrow> out = [])"
  using assms catch_up_loop_prefix[of lib runs now 1 ps full leads 1 out] by (auto simp: catchUpMissedRuns_def split: if_splits)

definition demo_runs :: "string \<Rightarrow> CRun list option" where
  "demo_runs _ = Some [\<lparr>cID = ''r'', cStartedAt = Some 3600000000001, cIntervalEnd = None\<rparr>]"

lemma demo_once: "catch_up_once hourly 7200000000001 [\<lparr>cID = ''r'', cStartedAt = Some 3600000000001, cIntervalEnd = None\<rparr>] =
  Some [Some (3600000000000, 7200000000000)]"
proof -
  have "prevTick hourly 7200000000000 = Some (Some 3600000000000)"
    by (rule owed_prevTick[OF cron_law_hourly, of _ _ 3600000000000 7200000000000])
      (simp_all add: owed_def tick_def hourly_def every_def minute_ns_def second_ns_def reach_back_def)
  then show ?thesis
    by (simp add: catch_up_once_def ListRunsByPipeline_def hourly_def every_def minute_ns_def second_ns_def day_ns_def)
qed

lemma demo_catch_up:
  "catchUpMissedRuns demo_lib (\<lambda>_. True) demo_runs 7200000000001 [demo_p] = Some [Once ''p'' [Some (3600000000000, 7200000000000)]]"
  "catchUpMissedRuns demo_lib (\<lambda>i. i = 0) demo_runs 7200000000001 [demo_p] = Some []"
  using demo_once
  by (simp_all add: catchUpMissedRuns_def scheduled_def demo_p_def demo_runs_def demo_lib_def scheduleFor_def)

lemma catchUp_needs_leadership_witness:
  "\<exists>rest. [Once ''p'' [Some (3600000000000, 7200000000000)]] = [] @ rest"
  using catchUp_needs_leadership[OF demo_catch_up(2,1)] by blast

end
