(* ===== verification/Run_Events.thy ===== *)
theory Run_Events
  imports Go_Prelude
begin

text \<open>
  Runs as an event log: the events (\<^verbatim>\<open>src/models/run_event.go\<close>), the rows they stand for
  (\<^verbatim>\<open>src/models/run.go\<close>), the projection that replays a log (\<^verbatim>\<open>src/engine/projection.go\<close>), and the
  places in \<^verbatim>\<open>src/engine/runner.go\<close> and \<^verbatim>\<open>src/engine/engine.go\<close> that write a row and append the event
  for it. An instant is a number of nanoseconds. Identifiers, times and measurements that a writer
  draws are its arguments; a store error ends a writer before its event and is not modelled.
\<close>

section \<open>Rows and events\<close>

text \<open>\<open>RunStatusUnset\<close> is the empty string, the status of a run without any event.\<close>

datatype RunStatus =
    RunStatusUnset | RunStatusPending | RunStatusRunning | RunStatusSuccess | RunStatusFailed | RunStatusCancelled
  | RunStatusBlocked | RunStatusWaiting | RunStatusSkipped

datatype RunEventType =
    RunEventCreated | RunEventQueued | RunEventClaimed | RunEventCancelled | RunEventParked | RunEventWoken
  | RunEventTerminal | RunEventLineageIncomplete | AttemptStarted | AttemptCompleted | AttemptFailed | AttemptSkipped
  | AttemptQuery | RetryScheduled | RunEventRecoveryStarted | RunEventRecoveryCompleted | RunEventRecoveryFailed
  | RunEventRecoveryRequeued | RunEventResumedFromNode

type_synonym params = "(string \<times> string) list"

record RunEventPayload =
  yStatus :: RunStatus
  yPipelineID :: string
  yNodeRunID :: string
  yStartedAt :: "int option"
  yFinishedAt :: "int option"
  yReadyAt :: "int option"
  yError :: string
  yRowCount :: int
  yDurationMs :: int
  yQueueMs :: int
  yRowsPerSec :: f64
  yTraceID :: string
  ySpanID :: string
  yConditionResult :: "bool option"
  yReused :: bool
  yArtifactRunID :: string
  yStatement :: string
  yBackoffMs :: int
  yParams :: "params option"
  yPipelineVersion :: int
  yResumedFromRunID :: string

definition no_payload :: RunEventPayload where
  "no_payload = \<lparr>yStatus = RunStatusUnset, yPipelineID = [], yNodeRunID = [], yStartedAt = None, yFinishedAt = None,
     yReadyAt = None, yError = [], yRowCount = 0, yDurationMs = 0, yQueueMs = 0, yRowsPerSec = Fin 0, yTraceID = [],
     ySpanID = [], yConditionResult = None, yReused = False, yArtifactRunID = [], yStatement = [], yBackoffMs = 0,
     yParams = None, yPipelineVersion = 0, yResumedFromRunID = []\<rparr>"

record RunEvent =
  eNodeID :: string
  eAttempt :: "int option"
  EventType :: RunEventType
  Payload :: RunEventPayload
  CreatedAt :: int

record NodeRun =
  nrID :: string
  nrRunID :: string
  nrNodeID :: string
  nrStatus :: RunStatus
  nrRowCount :: int
  nrStartedAt :: "int option"
  nrDurationMs :: int
  nrError :: string
  nrAttempt :: int
  nrReadyAt :: "int option"
  nrQueueMs :: int
  nrRowsPerSec :: f64
  nrTraceID :: string
  nrSpanID :: string

definition no_node_run :: NodeRun where
  "no_node_run = \<lparr>nrID = [], nrRunID = [], nrNodeID = [], nrStatus = RunStatusUnset, nrRowCount = 0, nrStartedAt = None,
     nrDurationMs = 0, nrError = [], nrAttempt = 0, nrReadyAt = None, nrQueueMs = 0, nrRowsPerSec = Fin 0, nrTraceID = [],
     nrSpanID = []\<rparr>"

text \<open>The part of a run that its events determine.\<close>

record Run =
  rID :: string
  rPipelineID :: string
  rStatus :: RunStatus
  rError :: string
  rParams :: "params option"
  rStartedAt :: "int option"
  rFinishedAt :: "int option"
  rTraceID :: string
  rPipelineVersion :: int
  rResumedFromRunID :: string
  NodeRuns :: "NodeRun list"

definition no_run :: "string \<Rightarrow> Run" where
  "no_run runID = \<lparr>rID = runID, rPipelineID = [], rStatus = RunStatusUnset, rError = [], rParams = None, rStartedAt = None,
     rFinishedAt = None, rTraceID = [], rPipelineVersion = 0, rResumedFromRunID = [], NodeRuns = []\<rparr>"

definition isTerminalRunStatus :: "RunStatus \<Rightarrow> bool" where
  "isTerminalRunStatus s \<longleftrightarrow> s \<in> {RunStatusSuccess, RunStatusFailed, RunStatusCancelled, RunStatusBlocked}"

section \<open>The projection\<close>

definition attempt_of :: "int option \<Rightarrow> int" where
  "attempt_of a = (case a of Some n \<Rightarrow> n | None \<Rightarrow> 0)"

definition nodeRunKey :: "string \<Rightarrow> int option \<Rightarrow> string" where
  "nodeRunKey nodeID a = nodeID @ [CHR 0x00] @ show_int (attempt_of a)"

record proj =
  pRun :: Run
  nodeRuns :: "(string \<times> NodeRun) list"
  order :: "string list"

definition getOrCreateNodeRun :: "string \<Rightarrow> RunEvent \<Rightarrow> proj \<Rightarrow> NodeRun \<times> proj" where
  "getOrCreateNodeRun runID e st =
     (let key = nodeRunKey (eNodeID e) (eAttempt e);
          (nr, st) = (case map_of (nodeRuns st) key of
             Some nr \<Rightarrow> (nr, st)
           | None \<Rightarrow>
               let nr = no_node_run\<lparr>nrID := yNodeRunID (Payload e), nrRunID := runID, nrNodeID := eNodeID e,
                          nrAttempt := attempt_of (eAttempt e)\<rparr>
               in (nr, st\<lparr>nodeRuns := mput key nr (nodeRuns st), order := order st @ [key]\<rparr>))
      in (if yNodeRunID (Payload e) \<noteq> [] then nr\<lparr>nrID := yNodeRunID (Payload e)\<rparr> else nr, st))"

text \<open>The row is a pointer in the map: what a case assigns to it is written back under its key.\<close>

definition with_node_run :: "string \<Rightarrow> RunEvent \<Rightarrow> (NodeRun \<Rightarrow> NodeRun) \<Rightarrow> proj \<Rightarrow> proj" where
  "with_node_run runID e f st =
     (if eNodeID e = [] then st
      else case getOrCreateNodeRun runID e st of
        (nr, st') \<Rightarrow> st'\<lparr>nodeRuns := mput (nodeRunKey (eNodeID e) (eAttempt e)) (f nr) (nodeRuns st')\<rparr>)"

definition project_event :: "string \<Rightarrow> RunEvent \<Rightarrow> proj \<Rightarrow> proj" where
  "project_event runID e st =
     (let p = Payload e; run = pRun st in
      case EventType e of
        RunEventCreated \<Rightarrow>
          st\<lparr>pRun := run\<lparr>rPipelineID := yPipelineID p, rStatus := yStatus p, rStartedAt := yStartedAt p,
            rFinishedAt := yFinishedAt p, rTraceID := yTraceID p, rError := yError p, rPipelineVersion := yPipelineVersion p,
            rResumedFromRunID := yResumedFromRunID p,
            rParams := (if yParams p \<noteq> None then yParams p else rParams run)\<rparr>\<rparr>
      | RunEventClaimed \<Rightarrow>
          st\<lparr>pRun := run\<lparr>rStatus := RunStatusRunning,
            rStartedAt := (if yStartedAt p \<noteq> None then yStartedAt p else rStartedAt run),
            rTraceID := (if yTraceID p \<noteq> [] then yTraceID p else rTraceID run),
            rParams := (if yParams p \<noteq> None then yParams p else rParams run)\<rparr>\<rparr>
      | RunEventCancelled \<Rightarrow> st\<lparr>pRun := run\<lparr>rStatus := yStatus p, rFinishedAt := yFinishedAt p, rError := yError p\<rparr>\<rparr>
      | RunEventTerminal \<Rightarrow> st\<lparr>pRun := run\<lparr>rStatus := yStatus p, rFinishedAt := yFinishedAt p, rError := yError p\<rparr>\<rparr>
      | RunEventRecoveryFailed \<Rightarrow> st\<lparr>pRun := run\<lparr>rStatus := yStatus p, rFinishedAt := yFinishedAt p, rError := yError p\<rparr>\<rparr>
      | RunEventRecoveryRequeued \<Rightarrow>
          st\<lparr>pRun := run\<lparr>rStatus := RunStatusPending, rStartedAt := None, rFinishedAt := None, rError := yError p\<rparr>\<rparr>
      | AttemptStarted \<Rightarrow>
          with_node_run runID e (\<lambda>nr. nr\<lparr>nrStatus := RunStatusRunning, nrStartedAt := yStartedAt p, nrReadyAt := yReadyAt p,
            nrQueueMs := yQueueMs p, nrTraceID := yTraceID p, nrSpanID := ySpanID p\<rparr>) st
      | AttemptCompleted \<Rightarrow>
          with_node_run runID e (\<lambda>nr. nr\<lparr>nrStatus := RunStatusSuccess, nrRowCount := yRowCount p,
            nrDurationMs := yDurationMs p, nrRowsPerSec := yRowsPerSec p\<rparr>) st
      | AttemptFailed \<Rightarrow>
          with_node_run runID e (\<lambda>nr. nr\<lparr>nrStatus := RunStatusFailed, nrDurationMs := yDurationMs p, nrError := yError p\<rparr>) st
      | AttemptSkipped \<Rightarrow>
          with_node_run runID e (\<lambda>nr. nr\<lparr>nrStatus := RunStatusSkipped, nrReadyAt := yReadyAt p, nrTraceID := yTraceID p\<rparr>) st
      | _ \<Rightarrow> st)"

definition replay :: "string \<Rightarrow> RunEvent list \<Rightarrow> proj" where
  "replay runID events = fold (project_event runID) events \<lparr>pRun = no_run runID, nodeRuns = [], order = []\<rparr>"

definition proj_rows :: "proj \<Rightarrow> NodeRun list" where
  "proj_rows st = map (\<lambda>key. case map_of (nodeRuns st) key of Some nr \<Rightarrow> nr | None \<Rightarrow> no_node_run) (order st)"

definition ProjectRun :: "string \<Rightarrow> RunEvent list \<Rightarrow> Run" where
  "ProjectRun runID events = (let st = replay runID events in (pRun st)\<lparr>NodeRuns := proj_rows st\<rparr>)"

section \<open>The writers\<close>

text \<open>What is durable of one run: its row, its node rows in the order of creation, and its log.\<close>

record live =
  runRow :: Run
  nodeRows :: "NodeRun list"
  events :: "RunEvent list"

definition run_event :: "RunEventType \<Rightarrow> RunEventPayload \<Rightarrow> int \<Rightarrow> RunEvent" where
  "run_event ty p when = \<lparr>eNodeID = [], eAttempt = None, EventType = ty, Payload = p, CreatedAt = when\<rparr>"

definition node_event :: "string \<Rightarrow> int \<Rightarrow> RunEventType \<Rightarrow> RunEventPayload \<Rightarrow> int \<Rightarrow> RunEvent" where
  "node_event n a ty p when = \<lparr>eNodeID = n, eAttempt = Some a, EventType = ty, Payload = p, CreatedAt = when\<rparr>"

definition appendEvent :: "RunEvent \<Rightarrow> live \<Rightarrow> live" where
  "appendEvent e l = l\<lparr>events := events l @ [e]\<rparr>"

definition UpdateNodeRun :: "NodeRun \<Rightarrow> live \<Rightarrow> live" where
  "UpdateNodeRun nr l = l\<lparr>nodeRows := map (\<lambda>x. if nrID x = nrID nr then nr else x) (nodeRows l)\<rparr>"

text \<open>A run created as running (\<^verbatim>\<open>startRun\<close>), as pending or as blocked.\<close>

definition startRun :: "string \<Rightarrow> string \<Rightarrow> params option \<Rightarrow> string \<Rightarrow> int \<Rightarrow> string \<Rightarrow> int \<Rightarrow> live" where
  "startRun runID pipelineID params traceID version resumed now =
     \<lparr>runRow = (no_run runID)\<lparr>rPipelineID := pipelineID, rStatus := RunStatusRunning, rParams := params, rStartedAt := Some now,
        rTraceID := traceID, rPipelineVersion := version, rResumedFromRunID := resumed\<rparr>,
      nodeRows = [],
      events = [run_event RunEventCreated (no_payload\<lparr>yStatus := RunStatusRunning, yPipelineID := pipelineID,
        yStartedAt := Some now, yTraceID := traceID, yParams := params, yPipelineVersion := version,
        yResumedFromRunID := resumed\<rparr>) now]\<rparr>"

definition acceptRun :: "string \<Rightarrow> string \<Rightarrow> params option \<Rightarrow> int \<Rightarrow> int \<Rightarrow> live" where
  "acceptRun runID pipelineID params version now =
     \<lparr>runRow = (no_run runID)\<lparr>rPipelineID := pipelineID, rStatus := RunStatusPending, rParams := params,
        rPipelineVersion := version\<rparr>,
      nodeRows = [],
      events = [run_event RunEventCreated (no_payload\<lparr>yStatus := RunStatusPending, yPipelineID := pipelineID,
        yParams := params, yPipelineVersion := version\<rparr>) now]\<rparr>"

definition blockRun :: "string \<Rightarrow> string \<Rightarrow> params option \<Rightarrow> int \<Rightarrow> string \<Rightarrow> int \<Rightarrow> live" where
  "blockRun runID pipelineID params version reason now =
     \<lparr>runRow = (no_run runID)\<lparr>rPipelineID := pipelineID, rStatus := RunStatusBlocked, rError := reason, rParams := params,
        rStartedAt := Some now, rFinishedAt := Some now, rPipelineVersion := version\<rparr>,
      nodeRows = [],
      events = [run_event RunEventCreated (no_payload\<lparr>yStatus := RunStatusBlocked, yPipelineID := pipelineID,
        yStartedAt := Some now, yFinishedAt := Some now, yError := reason, yParams := params, yPipelineVersion := version\<rparr>) now]\<rparr>"

definition publishRun :: "int \<Rightarrow> live \<Rightarrow> live" where
  "publishRun now = appendEvent (run_event RunEventQueued (no_payload\<lparr>yStatus := RunStatusPending\<rparr>) now)"

text \<open>A terminal status with its reason: the shape of \<^verbatim>\<open>failRun\<close>, \<^verbatim>\<open>failAcceptedRun\<close> and the success path.\<close>

definition finishRun :: "RunEventType \<Rightarrow> RunStatus \<Rightarrow> string \<Rightarrow> int \<Rightarrow> live \<Rightarrow> live" where
  "finishRun ty status msg now l =
     appendEvent (run_event ty (no_payload\<lparr>yStatus := status, yFinishedAt := Some now, yError := msg\<rparr>) now)
       (l\<lparr>runRow := (runRow l)\<lparr>rStatus := status, rFinishedAt := Some now, rError := msg\<rparr>\<rparr>)"

definition succeedRun :: "int \<Rightarrow> live \<Rightarrow> live" where
  "succeedRun now = finishRun RunEventTerminal RunStatusSuccess [] now"

definition finalizeCancelled :: "int \<Rightarrow> live \<Rightarrow> live" where
  "finalizeCancelled now = finishRun RunEventCancelled RunStatusCancelled ''cancelled'' now"

definition failRun :: "bool \<Rightarrow> string \<Rightarrow> int \<Rightarrow> live \<Rightarrow> live" where
  "failRun cancelled msg now = (if cancelled then finalizeCancelled now else finishRun RunEventTerminal RunStatusFailed msg now)"

definition failAcceptedRun :: "string \<Rightarrow> int \<Rightarrow> live \<Rightarrow> live" where
  "failAcceptedRun cause now = finishRun RunEventTerminal RunStatusFailed cause now"

text \<open>The compare-and-swap of a claim and of a cancel of a pending run.\<close>

definition claimRun :: "int \<Rightarrow> string \<Rightarrow> params option \<Rightarrow> live \<Rightarrow> bool \<times> live" where
  "claimRun startedAt traceID params l =
     (if rStatus (runRow l) = RunStatusPending
      then (True, appendEvent (run_event RunEventClaimed (no_payload\<lparr>yStatus := RunStatusRunning, yStartedAt := Some startedAt,
                yTraceID := traceID, yParams := params\<rparr>) startedAt)
              (l\<lparr>runRow := (runRow l)\<lparr>rStatus := RunStatusRunning, rStartedAt := Some startedAt, rTraceID := traceID\<rparr>\<rparr>))
      else (False, l))"

definition cancelPendingRun :: "int \<Rightarrow> live \<Rightarrow> bool \<times> live" where
  "cancelPendingRun now l =
     (if rStatus (runRow l) = RunStatusPending
      then (True, finishRun RunEventCancelled RunStatusCancelled ''cancelled by user'' now l)
      else (False, l))"

text \<open>
  The attempts of a node. The row is committed first; the event follows only if the attempt could be claimed. An attempt
  that is refused, or whose process dies in between, leaves a row that no event names.
\<close>

definition startAttempt :: "bool \<Rightarrow> string \<Rightarrow> int \<Rightarrow> string \<Rightarrow> int \<Rightarrow> int \<Rightarrow> int \<Rightarrow> string \<Rightarrow> live \<Rightarrow> live" where
  "startAttempt claimed node attempt nrid startTime readyAt queueMs spanID l =
     (let nr = no_node_run\<lparr>nrID := nrid, nrRunID := rID (runRow l), nrNodeID := node, nrStatus := RunStatusRunning,
            nrStartedAt := Some startTime, nrAttempt := attempt, nrReadyAt := Some readyAt, nrQueueMs := queueMs,
            nrTraceID := rTraceID (runRow l), nrSpanID := spanID\<rparr>;
          l1 = l\<lparr>nodeRows := nodeRows l @ [nr]\<rparr>
      in if claimed
         then appendEvent (node_event node attempt AttemptStarted (no_payload\<lparr>yStatus := RunStatusRunning, yNodeRunID := nrid,
                yStartedAt := nrStartedAt nr, yReadyAt := nrReadyAt nr, yQueueMs := nrQueueMs nr, yTraceID := nrTraceID nr,
                ySpanID := nrSpanID nr\<rparr>) startTime) l1
         else l1)"

definition completeAttempt :: "NodeRun \<Rightarrow> int \<Rightarrow> int \<Rightarrow> f64 \<Rightarrow> bool option \<Rightarrow> int \<Rightarrow> live \<Rightarrow> live" where
  "completeAttempt nr0 duration rowCount rowsPerSec decision now l =
     (let nr = nr0\<lparr>nrStatus := RunStatusSuccess, nrDurationMs := duration, nrRowCount := rowCount, nrRowsPerSec := rowsPerSec\<rparr>
      in appendEvent (node_event (nrNodeID nr) (nrAttempt nr) AttemptCompleted (no_payload\<lparr>yStatus := RunStatusSuccess,
             yNodeRunID := nrID nr, yRowCount := nrRowCount nr, yDurationMs := nrDurationMs nr, yRowsPerSec := nrRowsPerSec nr,
             yConditionResult := decision\<rparr>) now)
           (UpdateNodeRun nr l))"

definition failAttempt :: "NodeRun \<Rightarrow> int \<Rightarrow> string \<Rightarrow> int \<Rightarrow> live \<Rightarrow> live" where
  "failAttempt nr0 duration msg now l =
     (let nr = nr0\<lparr>nrStatus := RunStatusFailed, nrDurationMs := duration, nrError := msg\<rparr>
      in appendEvent (node_event (nrNodeID nr) (nrAttempt nr) AttemptFailed (no_payload\<lparr>yStatus := RunStatusFailed,
             yNodeRunID := nrID nr, yDurationMs := nrDurationMs nr, yError := nrError nr\<rparr>) now)
           (UpdateNodeRun nr l))"

definition scheduleRetry :: "string \<Rightarrow> int \<Rightarrow> string \<Rightarrow> int \<Rightarrow> int \<Rightarrow> live \<Rightarrow> live" where
  "scheduleRetry node attempt msg backoffMs now =
     appendEvent (node_event node attempt RetryScheduled (no_payload\<lparr>yError := msg, yBackoffMs := backoffMs\<rparr>) now)"

definition persistSkippedOutcome :: "string \<Rightarrow> string \<Rightarrow> int \<Rightarrow> bool \<Rightarrow> bool option \<Rightarrow> string \<Rightarrow> live \<Rightarrow> live" where
  "persistSkippedOutcome node nrid readyAt reused decision artifactRunID l =
     (let nr = no_node_run\<lparr>nrID := nrid, nrRunID := rID (runRow l), nrNodeID := node, nrStatus := RunStatusSkipped,
            nrAttempt := 0, nrReadyAt := Some readyAt, nrTraceID := rTraceID (runRow l)\<rparr>
      in appendEvent (node_event node 0 AttemptSkipped (no_payload\<lparr>yStatus := RunStatusSkipped, yNodeRunID := nrid,
             yReadyAt := nrReadyAt nr, yTraceID := nrTraceID nr, yConditionResult := decision, yReused := reused,
             yArtifactRunID := artifactRunID\<rparr>) readyAt)
           (l\<lparr>nodeRows := nodeRows l @ [nr]\<rparr>))"

text \<open>
  \<^verbatim>\<open>cancelLocalRun\<close> leaves the error of the row as it is and puts one into the event; parking and waking
  change the status of the row with events that the projection ignores.
\<close>

definition cancelLocalRun :: "int \<Rightarrow> live \<Rightarrow> live" where
  "cancelLocalRun now l =
     (if rStatus (runRow l) = RunStatusRunning
      then appendEvent (run_event RunEventCancelled (no_payload\<lparr>yStatus := RunStatusCancelled, yFinishedAt := Some now,
             yError := ''cancelled by user''\<rparr>) now)
             (l\<lparr>runRow := (runRow l)\<lparr>rStatus := RunStatusCancelled, rFinishedAt := Some now\<rparr>\<rparr>)
      else l)"

definition parkRun :: "string \<Rightarrow> string \<Rightarrow> int \<Rightarrow> live \<Rightarrow> live" where
  "parkRun node cond now l =
     appendEvent \<lparr>eNodeID = node, eAttempt = None, EventType = RunEventParked,
         Payload = no_payload\<lparr>yStatus := RunStatusWaiting, yError := ''waiting on '' @ cond\<rparr>, CreatedAt = now\<rparr>
       (l\<lparr>runRow := (runRow l)\<lparr>rStatus := RunStatusWaiting, rError := []\<rparr>\<rparr>)"

definition wakeRun :: "int \<Rightarrow> live \<Rightarrow> bool \<times> live" where
  "wakeRun now l =
     (if rStatus (runRow l) = RunStatusWaiting
      then (True, appendEvent (run_event RunEventWoken (no_payload\<lparr>yStatus := RunStatusRunning\<rparr>) now)
             (l\<lparr>runRow := (runRow l)\<lparr>rStatus := RunStatusRunning\<rparr>\<rparr>))
      else (False, l))"

definition timeoutParkedRun :: "string \<Rightarrow> string \<Rightarrow> int \<Rightarrow> live \<Rightarrow> bool \<times> live" where
  "timeoutParkedRun node msg now l =
     (if rStatus (runRow l) = RunStatusWaiting
      then (True, appendEvent \<lparr>eNodeID = node, eAttempt = None, EventType = RunEventTerminal,
               Payload = no_payload\<lparr>yStatus := RunStatusFailed, yFinishedAt := Some now, yError := msg\<rparr>, CreatedAt = now\<rparr>
             (l\<lparr>runRow := (runRow l)\<lparr>rStatus := RunStatusFailed, rFinishedAt := Some now, rError := msg\<rparr>\<rparr>))
      else (False, l))"

section \<open>Keys of attempts\<close>

definition row_id :: "NodeRun \<Rightarrow> string" where
  "row_id nr = nodeRunKey (nrNodeID nr) (Some (nrAttempt nr))"

lemma nul_not_in_show_int: "CHR 0x00 \<notin> set (show_int i)"
  using show_nat_digits[of "CHR 0x00"] by (auto simp: show_int_def)

lemma split_at_last:
  assumes "x \<notin> set s" "x \<notin> set t" "a @ x # s = b @ x # t"
  shows "a = b \<and> s = t"
proof -
  have "takeWhile (\<lambda>c. c \<noteq> x) (rev (a @ x # s)) = rev s" "takeWhile (\<lambda>c. c \<noteq> x) (rev (b @ x # t)) = rev t"
    using assms(1,2) takeWhile_append2[of "rev s" "\<lambda>c. c \<noteq> x" "x # rev a"] takeWhile_append2[of "rev t" "\<lambda>c. c \<noteq> x" "x # rev b"]
    by auto
  then have "s = t" using assms(3) by simp
  then show ?thesis using assms(3) by simp
qed

lemma nodeRunKey_inj [simp]: "nodeRunKey n a = nodeRunKey m b \<longleftrightarrow> n = m \<and> attempt_of a = attempt_of b"
  using split_at_last[OF nul_not_in_show_int nul_not_in_show_int, of n "attempt_of a" m "attempt_of b"]
  by (auto simp: nodeRunKey_def)

lemma attempt_of_Some [simp]: "attempt_of (Some a) = a"
  by (simp add: attempt_of_def)

section \<open>Replay reproduces the rows\<close>

text \<open>
  The steps of an execution. An attempt of a node is started or skipped once, under a new
  identifier; an outcome belongs to an attempt that was started.
\<close>

inductive step :: "live \<Rightarrow> live \<Rightarrow> bool" where
  publish: "step l (publishRun now l)"
| claim: "params = None \<or> params = rParams (runRow l) \<Longrightarrow> traceID \<noteq> [] \<Longrightarrow> step l (snd (claimRun startedAt traceID params l))"
| cancel_pending: "step l (snd (cancelPendingRun now l))"
| succeed: "step l (succeedRun now l)"
| fail_run: "step l (failRun cancelled msg now l)"
| fail_accepted: "step l (failAcceptedRun msg now l)"
| start: "node \<noteq> [] \<Longrightarrow> nrid \<noteq> [] \<Longrightarrow> nrid \<notin> nrID ` set (nodeRows l) \<Longrightarrow>
    nodeRunKey node (Some attempt) \<notin> row_id ` set (nodeRows l) \<Longrightarrow> step l (startAttempt True node attempt nrid t0 t1 q sp l)"
| complete: "nr \<in> set (nodeRows l) \<Longrightarrow> step l (completeAttempt nr dur cnt rps dec now l)"
| fail_attempt: "nr \<in> set (nodeRows l) \<Longrightarrow> step l (failAttempt nr dur msg now l)"
| retry: "step l (scheduleRetry node attempt msg ms now l)"
| skip: "node \<noteq> [] \<Longrightarrow> nrid \<noteq> [] \<Longrightarrow> nrid \<notin> nrID ` set (nodeRows l) \<Longrightarrow>
    nodeRunKey node (Some 0) \<notin> row_id ` set (nodeRows l) \<Longrightarrow> step l (persistSkippedOutcome node nrid t0 reused dec art l)"

definition created :: "live \<Rightarrow> bool" where
  "created l \<longleftrightarrow>
     (\<exists>runID p ps tr v res now. l = startRun runID p ps tr v res now) \<or>
     (\<exists>runID p ps v now. l = acceptRun runID p ps v now) \<or>
     (\<exists>runID p ps v reason now. l = blockRun runID p ps v reason now)"

definition row_inv :: "live \<Rightarrow> bool" where
  "row_inv l \<longleftrightarrow> NodeRuns (runRow l) = [] \<and> distinct (map row_id (nodeRows l)) \<and> distinct (map nrID (nodeRows l)) \<and>
     (\<forall>nr \<in> set (nodeRows l). nrNodeID nr \<noteq> [] \<and> nrID nr \<noteq> [])"

definition replays :: "live \<Rightarrow> bool" where
  "replays l \<longleftrightarrow> (let st = replay (rID (runRow l)) (events l) in
     pRun st = runRow l \<and> order st = map row_id (nodeRows l) \<and>
     map_of (nodeRuns st) = map_of (map (\<lambda>nr. (row_id nr, nr)) (nodeRows l)))"

lemma replay_snoc: "replay runID (es @ [e]) = project_event runID e (replay runID es)"
  by (simp add: replay_def)

lemma map_of_rows:
  "distinct (map row_id rows) \<Longrightarrow> nr \<in> set rows \<Longrightarrow> map_of (map (\<lambda>nr. (row_id nr, nr)) rows) (row_id nr) = Some nr"
  by (rule map_of_is_SomeI) (auto simp: comp_def)

lemma map_of_rows_None:
  "k \<notin> row_id ` set rows \<Longrightarrow> map_of (map (\<lambda>nr. (row_id nr, nr)) rows) k = None"
  by (auto simp: map_of_eq_None_iff)

lemma map_of_snoc_row:
  "row_id nr \<notin> row_id ` set rows \<Longrightarrow>
   map_of (map (\<lambda>nr. (row_id nr, nr)) (rows @ [nr])) = (map_of (map (\<lambda>nr. (row_id nr, nr)) rows))(row_id nr \<mapsto> nr)"
  by (auto simp: fun_eq_iff map_add_def map_of_rows_None split: option.split)

lemma replays_ProjectRun:
  assumes "replays l" "row_inv l"
  shows "ProjectRun (rID (runRow l)) (events l) = (runRow l)\<lparr>NodeRuns := nodeRows l\<rparr>"
proof -
  have "map ((\<lambda>key. case map_of (nodeRuns (replay (rID (runRow l)) (events l))) key of Some nr \<Rightarrow> nr | None \<Rightarrow> no_node_run) \<circ> row_id)
      (nodeRows l) = nodeRows l"
    using assms map_of_rows[of "nodeRows l"] by (intro map_idI) (auto simp: replays_def row_inv_def Let_def)
  then show ?thesis using assms(1) by (simp add: ProjectRun_def proj_rows_def replays_def Let_def)
qed

text \<open>The replay of a node event: the row is created at the end of the order, or updated in place.\<close>

lemma with_node_run_new:
  assumes "eNodeID e \<noteq> []" "map_of (nodeRuns st) (nodeRunKey (eNodeID e) (eAttempt e)) = None"
    and "yNodeRunID (Payload e) \<noteq> []"
  shows "with_node_run runID e f st = st\<lparr>order := order st @ [nodeRunKey (eNodeID e) (eAttempt e)],
      nodeRuns := mput (nodeRunKey (eNodeID e) (eAttempt e)) (f (no_node_run\<lparr>nrID := yNodeRunID (Payload e), nrRunID := runID,
        nrNodeID := eNodeID e, nrAttempt := attempt_of (eAttempt e)\<rparr>))
        (mput (nodeRunKey (eNodeID e) (eAttempt e)) (no_node_run\<lparr>nrID := yNodeRunID (Payload e), nrRunID := runID,
          nrNodeID := eNodeID e, nrAttempt := attempt_of (eAttempt e)\<rparr>) (nodeRuns st))\<rparr>"
  using assms by (simp add: with_node_run_def getOrCreateNodeRun_def Let_def no_node_run_def)

lemma with_node_run_old:
  assumes "eNodeID e \<noteq> []" "map_of (nodeRuns st) (nodeRunKey (eNodeID e) (eAttempt e)) = Some nr" "yNodeRunID (Payload e) = nrID nr"
  shows "with_node_run runID e f st = st\<lparr>nodeRuns := mput (nodeRunKey (eNodeID e) (eAttempt e)) (f nr) (nodeRuns st)\<rparr>"
  using assms by (simp add: with_node_run_def getOrCreateNodeRun_def Let_def)

lemma replays_run_event:
  assumes "replays l" "rID row' = rID (runRow l)" "NodeRuns row' = NodeRuns (runRow l)"
    and "\<And>st. pRun st = runRow l \<Longrightarrow> project_event (rID (runRow l)) e st = st\<lparr>pRun := row'\<rparr>"
  shows "replays (appendEvent e (l\<lparr>runRow := row'\<rparr>))"
  using assms by (simp add: replays_def Let_def appendEvent_def replay_snoc)

lemma replays_new_row:
  assumes "replays l" "row_id nr \<notin> row_id ` set (nodeRows l)" "eNodeID e = nrNodeID nr" "eAttempt e = Some (nrAttempt nr)"
    and "nrNodeID nr \<noteq> []" "yNodeRunID (Payload e) = nrID nr" "nrID nr \<noteq> []"
    and "\<And>st. project_event (rID (runRow l)) e st = with_node_run (rID (runRow l)) e f st"
    and "f (no_node_run\<lparr>nrID := nrID nr, nrRunID := rID (runRow l), nrNodeID := nrNodeID nr, nrAttempt := nrAttempt nr\<rparr>) = nr"
  shows "replays (appendEvent e (l\<lparr>nodeRows := nodeRows l @ [nr]\<rparr>))"
proof -
  let ?st = "replay (rID (runRow l)) (events l)"
  have st: "pRun ?st = runRow l" "order ?st = map row_id (nodeRows l)"
    "map_of (nodeRuns ?st) = map_of (map (\<lambda>nr. (row_id nr, nr)) (nodeRows l))" using assms(1) by (auto simp: replays_def Let_def)
  have "map_of (nodeRuns ?st) (nodeRunKey (eNodeID e) (eAttempt e)) = None"
    using map_of_rows_None[OF assms(2)] st(3) assms(3,4) by (simp add: row_id_def)
  from with_node_run_new[OF _ this] show ?thesis
    using st assms map_of_snoc_row[OF assms(2)]
    by (simp add: replays_def Let_def appendEvent_def replay_snoc row_id_def fun_eq_iff)
qed

lemma UpdateNodeRun_sel [simp]: "runRow (UpdateNodeRun nr l) = runRow l" "events (UpdateNodeRun nr l) = events l"
  by (simp_all add: UpdateNodeRun_def)

lemma map_update_row:
  assumes "distinct (map nrID rows)" "nr \<in> set rows"
  shows "map (\<lambda>x. if nrID x = nrID nr then nr' else x) rows = map (\<lambda>x. if x = nr then nr' else x) rows"
  using assms by (auto simp: distinct_map inj_on_def)

lemma map_of_update_row:
  assumes "distinct (map row_id rows)" "nr \<in> set rows" "row_id nr' = row_id nr"
  shows "map_of (map (\<lambda>nr. (row_id nr, nr)) (map (\<lambda>x. if x = nr then nr' else x) rows)) =
    (map_of (map (\<lambda>nr. (row_id nr, nr)) rows))(row_id nr \<mapsto> nr')"
  using assms
proof (induction rows)
  case (Cons x rows)
  show ?case
  proof (cases "x = nr")
    case True
    then have "nr \<notin> set rows" using Cons.prems(1) by auto
    then have "map (\<lambda>x. if x = nr then nr' else x) rows = rows" by (induction rows) auto
    then show ?thesis using True Cons.prems by (auto simp: fun_eq_iff)
  next
    case False
    then have "nr \<in> set rows" "row_id x \<noteq> row_id nr" using Cons.prems(1,2) by (auto simp: image_iff)
    then show ?thesis using Cons False by (auto simp: fun_eq_iff)
  qed
qed simp

lemma replays_old_row:
  assumes "replays l" "row_inv l" "nr \<in> set (nodeRows l)" "eNodeID e = nrNodeID nr" "eAttempt e = Some (nrAttempt nr)"
    and "yNodeRunID (Payload e) = nrID nr" "row_id nr' = row_id nr" "nrID nr' = nrID nr"
    and "\<And>st. project_event (rID (runRow l)) e st = with_node_run (rID (runRow l)) e f st" and "f nr = nr'"
  shows "replays (appendEvent e (UpdateNodeRun nr' l))"
proof -
  let ?st = "replay (rID (runRow l)) (events l)"
  have st: "pRun ?st = runRow l" "order ?st = map row_id (nodeRows l)"
    "map_of (nodeRuns ?st) = map_of (map (\<lambda>nr. (row_id nr, nr)) (nodeRows l))" using assms(1) by (auto simp: replays_def Let_def)
  have inv: "distinct (map row_id (nodeRows l))" "distinct (map nrID (nodeRows l))" "nrNodeID nr \<noteq> []"
    using assms(2,3) by (auto simp: row_inv_def)
  have "map_of (nodeRuns ?st) (nodeRunKey (eNodeID e) (eAttempt e)) = Some nr"
    using map_of_rows[OF inv(1) assms(3)] st(3) assms(4,5) by (simp add: row_id_def)
  from with_node_run_old[OF _ this] have w: "with_node_run (rID (runRow l)) e f ?st =
      ?st\<lparr>nodeRuns := mput (row_id nr) nr' (nodeRuns ?st)\<rparr>" using assms inv(3) by (simp add: row_id_def)
  have rows: "nodeRows (UpdateNodeRun nr' l) = map (\<lambda>x. if x = nr then nr' else x) (nodeRows l)"
    using map_update_row[OF inv(2) assms(3), of nr'] assms(8) by (simp add: UpdateNodeRun_def)
  have "map row_id (map (\<lambda>x. if x = nr then nr' else x) (nodeRows l)) = map row_id (nodeRows l)" using assms(7) by auto
  then show ?thesis
    using st w rows assms(9) map_of_update_row[OF inv(1) assms(3,7)]
    by (simp add: replays_def Let_def appendEvent_def replay_snoc del: map_map)
qed

lemma replays_finish:
  assumes "replays l" "ty = RunEventTerminal \<or> ty = RunEventCancelled \<or> ty = RunEventRecoveryFailed"
  shows "replays (finishRun ty status msg now l)"
  unfolding finishRun_def
  by (rule replays_run_event[OF assms(1)]) (use assms(2) in \<open>auto simp: run_event_def project_event_def no_payload_def\<close>)

lemma row_inv_finish: "row_inv l \<Longrightarrow> row_inv (finishRun ty status msg now l)"
  by (simp add: row_inv_def finishRun_def appendEvent_def)

lemma replays_ignored:
  assumes "replays l" "\<And>st. project_event (rID (runRow l)) e st = st"
  shows "replays (appendEvent e l)"
  using assms by (simp add: replays_def Let_def appendEvent_def replay_snoc)

lemma row_inv_append: "row_inv l \<Longrightarrow> row_inv (appendEvent e l)"
  by (simp add: row_inv_def appendEvent_def)

lemma row_inv_new:
  assumes "row_inv l" "row_id nr \<notin> row_id ` set (nodeRows l)" "nrID nr \<notin> nrID ` set (nodeRows l)" "nrNodeID nr \<noteq> []" "nrID nr \<noteq> []"
  shows "row_inv (appendEvent e (l\<lparr>nodeRows := nodeRows l @ [nr]\<rparr>))"
  using assms by (auto simp: row_inv_def appendEvent_def)

lemma row_inv_update:
  assumes "row_inv l" "nr \<in> set (nodeRows l)" "row_id nr' = row_id nr" "nrID nr' = nrID nr" "nrNodeID nr' = nrNodeID nr"
  shows "row_inv (appendEvent e (UpdateNodeRun nr' l))"
proof -
  have rows: "nodeRows (UpdateNodeRun nr' l) = map (\<lambda>x. if x = nr then nr' else x) (nodeRows l)"
    using map_update_row[of "nodeRows l" nr nr'] assms by (simp add: UpdateNodeRun_def row_inv_def)
  have "map row_id (nodeRows (UpdateNodeRun nr' l)) = map row_id (nodeRows l)"
    "map nrID (nodeRows (UpdateNodeRun nr' l)) = map nrID (nodeRows l)" unfolding rows using assms(3,4) by auto
  moreover have "\<forall>x \<in> set (nodeRows (UpdateNodeRun nr' l)). nrNodeID x \<noteq> [] \<and> nrID x \<noteq> []"
    using assms rows by (auto simp: row_inv_def)
  ultimately show ?thesis using assms(1) by (simp add: row_inv_def appendEvent_def del: map_map)
qed

lemma step_inv:
  assumes "step l l'" "replays l" "row_inv l"
  shows "replays l' \<and> row_inv l'"
  using assms
proof (induction rule: step.induct)
  case (publish l now)
  then show ?case
    by (simp add: publishRun_def row_inv_append replays_ignored project_event_def run_event_def)
next
  case (claim params l traceID startedAt)
  show ?case
  proof (cases "rStatus (runRow l) = RunStatusPending")
    case True
    have "replays (snd (claimRun startedAt traceID params l))"
      unfolding claimRun_def using True
      by (simp, intro replays_run_event[OF claim.prems(1)])
        (use claim.hyps in \<open>auto simp: run_event_def project_event_def no_payload_def Let_def\<close>)
    then show ?thesis using claim.prems(2) True by (simp add: claimRun_def row_inv_def appendEvent_def)
  next
    case False
    then show ?thesis using claim.prems by (simp add: claimRun_def)
  qed
next
  case (cancel_pending l now)
  then show ?case by (simp add: cancelPendingRun_def replays_finish row_inv_finish)
next
  case (succeed l now)
  then show ?case by (simp add: succeedRun_def replays_finish row_inv_finish)
next
  case (fail_run l cancelled msg now)
  then show ?case by (simp add: failRun_def finalizeCancelled_def replays_finish row_inv_finish)
next
  case (fail_accepted l msg now)
  then show ?case by (simp add: failAcceptedRun_def replays_finish row_inv_finish)
next
  case (start node nrid l attempt t0 t1 q sp)
  let ?nr = "no_node_run\<lparr>nrID := nrid, nrRunID := rID (runRow l), nrNodeID := node, nrStatus := RunStatusRunning,
     nrStartedAt := Some t0, nrAttempt := attempt, nrReadyAt := Some t1, nrQueueMs := q, nrTraceID := rTraceID (runRow l), nrSpanID := sp\<rparr>"
  have key: "row_id ?nr \<notin> row_id ` set (nodeRows l)" using start.hyps(4) by (simp add: row_id_def)
  have "replays (startAttempt True node attempt nrid t0 t1 q sp l)"
    unfolding startAttempt_def Let_def if_True
    by (rule replays_new_row[OF start.prems(1) key, where f = "\<lambda>nr. nr\<lparr>nrStatus := RunStatusRunning, nrStartedAt := Some t0,
          nrReadyAt := Some t1, nrQueueMs := q, nrTraceID := rTraceID (runRow l), nrSpanID := sp\<rparr>"])
      (use start.hyps(1,2) in \<open>auto simp: node_event_def project_event_def no_payload_def no_node_run_def\<close>)
  moreover have "row_inv (startAttempt True node attempt nrid t0 t1 q sp l)"
    unfolding startAttempt_def Let_def if_True by (rule row_inv_new[OF start.prems(2) key]) (use start.hyps in simp_all)
  ultimately show ?case ..
next
  case (complete nr l dur cnt rps dec now)
  let ?nr = "nr\<lparr>nrStatus := RunStatusSuccess, nrDurationMs := dur, nrRowCount := cnt, nrRowsPerSec := rps\<rparr>"
  have "replays (completeAttempt nr dur cnt rps dec now l)"
    unfolding completeAttempt_def Let_def
    by (rule replays_old_row[OF complete.prems complete.hyps, where f = "\<lambda>nr. nr\<lparr>nrStatus := RunStatusSuccess, nrRowCount := cnt,
          nrDurationMs := dur, nrRowsPerSec := rps\<rparr>"])
      (auto simp: node_event_def project_event_def no_payload_def row_id_def)
  moreover have "row_inv (completeAttempt nr dur cnt rps dec now l)"
    unfolding completeAttempt_def Let_def by (rule row_inv_update[OF complete.prems(2) complete.hyps]) (simp_all add: row_id_def)
  ultimately show ?case ..
next
  case (fail_attempt nr l dur msg now)
  have "replays (failAttempt nr dur msg now l)"
    unfolding failAttempt_def Let_def
    by (rule replays_old_row[OF fail_attempt.prems fail_attempt.hyps, where f = "\<lambda>nr. nr\<lparr>nrStatus := RunStatusFailed,
          nrDurationMs := dur, nrError := msg\<rparr>"])
      (auto simp: node_event_def project_event_def no_payload_def row_id_def)
  moreover have "row_inv (failAttempt nr dur msg now l)"
    unfolding failAttempt_def Let_def by (rule row_inv_update[OF fail_attempt.prems(2) fail_attempt.hyps]) (simp_all add: row_id_def)
  ultimately show ?case ..
next
  case (retry l node attempt msg ms now)
  then show ?case
    by (simp add: scheduleRetry_def row_inv_append replays_ignored project_event_def node_event_def)
next
  case (skip node nrid l t0 reused dec art)
  let ?nr = "no_node_run\<lparr>nrID := nrid, nrRunID := rID (runRow l), nrNodeID := node, nrStatus := RunStatusSkipped,
     nrAttempt := 0, nrReadyAt := Some t0, nrTraceID := rTraceID (runRow l)\<rparr>"
  have key: "row_id ?nr \<notin> row_id ` set (nodeRows l)" using skip.hyps(4) by (simp add: row_id_def)
  have "replays (persistSkippedOutcome node nrid t0 reused dec art l)"
    unfolding persistSkippedOutcome_def Let_def
    by (rule replays_new_row[OF skip.prems(1) key, where f = "\<lambda>nr. nr\<lparr>nrStatus := RunStatusSkipped, nrReadyAt := Some t0,
          nrTraceID := rTraceID (runRow l)\<rparr>"])
      (use skip.hyps(1,2) in \<open>auto simp: node_event_def project_event_def no_payload_def no_node_run_def\<close>)
  moreover have "row_inv (persistSkippedOutcome node nrid t0 reused dec art l)"
    unfolding persistSkippedOutcome_def Let_def by (rule row_inv_new[OF skip.prems(2) key]) (use skip.hyps in simp_all)
  ultimately show ?case ..
qed

lemma created_inv: "created l \<Longrightarrow> replays l \<and> row_inv l"
  by (auto simp: created_def startRun_def acceptRun_def blockRun_def replays_def row_inv_def replay_def run_event_def
      project_event_def no_run_def no_payload_def fun_eq_iff)

lemma steps_inv: "step\<^sup>*\<^sup>* l l' \<Longrightarrow> created l \<Longrightarrow> replays l' \<and> row_inv l'"
  by (induction rule: rtranclp_induct) (use created_inv step_inv in blast)+

section \<open>Every writer\<close>

text \<open>
  All writers of a run, recovery apart: rows of attempts that could not be claimed, parked runs and the cancel of a
  running run are included, and events that only take notes. An attempt is announced once, and an outcome belongs to an
  attempt that was announced.
\<close>

definition named :: "RunEvent list \<Rightarrow> NodeRun \<Rightarrow> bool" where
  "named es nr \<longleftrightarrow> list_ex (\<lambda>e. yNodeRunID (Payload e) = nrID nr) es"

definition announced :: "live \<Rightarrow> NodeRun list" where
  "announced l = filter (named (events l)) (nodeRows l)"

inductive writes :: "live \<Rightarrow> live \<Rightarrow> bool" where
  publish: "writes l (publishRun now l)"
| claim: "params = None \<or> params = rParams (runRow l) \<Longrightarrow> traceID \<noteq> [] \<Longrightarrow> writes l (snd (claimRun startedAt traceID params l))"
| cancel_pending: "writes l (snd (cancelPendingRun now l))"
| cancel_local: "writes l (cancelLocalRun now l)"
| succeed: "writes l (succeedRun now l)"
| fail_run: "writes l (failRun cancelled msg now l)"
| fail_accepted: "writes l (failAcceptedRun msg now l)"
| start: "node \<noteq> [] \<Longrightarrow> nrid \<noteq> [] \<Longrightarrow> nrid \<notin> nrID ` set (nodeRows l) \<Longrightarrow>
    (claimed \<Longrightarrow> nodeRunKey node (Some attempt) \<notin> row_id ` set (announced l)) \<Longrightarrow>
    writes l (startAttempt claimed node attempt nrid t0 t1 q sp l)"
| complete: "nr \<in> set (announced l) \<Longrightarrow> writes l (completeAttempt nr dur cnt rps dec now l)"
| fail_attempt: "nr \<in> set (announced l) \<Longrightarrow> writes l (failAttempt nr dur msg now l)"
| retry: "writes l (scheduleRetry node attempt msg ms now l)"
| skip: "node \<noteq> [] \<Longrightarrow> nrid \<noteq> [] \<Longrightarrow> nrid \<notin> nrID ` set (nodeRows l) \<Longrightarrow>
    nodeRunKey node (Some 0) \<notin> row_id ` set (announced l) \<Longrightarrow> writes l (persistSkippedOutcome node nrid t0 reused dec art l)"
| park: "rStatus (runRow l) = RunStatusRunning \<Longrightarrow> writes l (parkRun node cond now l)"
| wake: "writes l (snd (wakeRun now l))"
| timeout: "writes l (snd (timeoutParkedRun node msg now l))"
| remark: "EventType e \<in> {RunEventLineageIncomplete, AttemptQuery, RunEventResumedFromNode} \<Longrightarrow> yNodeRunID (Payload e) = [] \<Longrightarrow>
    writes l (appendEvent e l)"

text \<open>What the log shows of a run: a parked run is shown as running, with the error that was last logged.\<close>

definition shown :: "RunStatus \<Rightarrow> RunStatus" where
  "shown s = (if s = RunStatusWaiting then RunStatusRunning else s)"

definition logged_view :: "live \<Rightarrow> live" where
  "logged_view l = l\<lparr>runRow := (runRow l)\<lparr>rStatus := shown (rStatus (runRow l)),
       rError := rError (pRun (replay (rID (runRow l)) (events l)))\<rparr>, nodeRows := announced l\<rparr>"

definition ids_inv :: "live \<Rightarrow> bool" where
  "ids_inv l \<longleftrightarrow> distinct (map nrID (nodeRows l)) \<and> (\<forall>nr \<in> set (nodeRows l). nrID nr \<noteq> []) \<and>
     (\<forall>e \<in> set (events l). yNodeRunID (Payload e) \<in> insert [] (nrID ` set (nodeRows l)))"

lemma logged_view_sel [simp]:
  "events (logged_view l) = events l" "nodeRows (logged_view l) = announced l" "rID (runRow (logged_view l)) = rID (runRow l)"
  "rParams (runRow (logged_view l)) = rParams (runRow l)" "rTraceID (runRow (logged_view l)) = rTraceID (runRow l)"
  "rStatus (runRow (logged_view l)) = shown (rStatus (runRow l))"
  by (simp_all add: logged_view_def)

lemma shown_simps [simp]: "shown s = RunStatusPending \<longleftrightarrow> s = RunStatusPending" "s \<noteq> RunStatusWaiting \<Longrightarrow> shown s = s"
  "shown RunStatusWaiting = RunStatusRunning"
  by (auto simp: shown_def)

text \<open>An event that names no row, or only rows that are named already, announces nothing.\<close>

lemma announced_append:
  assumes "\<forall>nr \<in> set (nodeRows l). yNodeRunID (Payload e) = nrID nr \<longrightarrow> named (events l) nr" "nodeRows l' = nodeRows l" "events l' = events l @ [e]"
  shows "announced l' = announced l"
  using assms by (auto simp: announced_def named_def intro!: filter_cong)

lemma announced_unnamed: "ids_inv l \<Longrightarrow> yNodeRunID (Payload e) = [] \<Longrightarrow> nodeRows l' = nodeRows l \<Longrightarrow> events l' = events l @ [e] \<Longrightarrow> announced l' = announced l"
  by (rule announced_append[of l e]) (auto simp: ids_inv_def)
text \<open>Each writer does to the view what it does to the run.\<close>

lemma view_ignored:
  assumes "ids_inv l" "yNodeRunID (Payload e) = []" "\<And>st. project_event (rID (runRow l)) e st = st" "shown s = shown (rStatus (runRow l))"
  shows "logged_view (appendEvent e (l\<lparr>runRow := (runRow l)\<lparr>rStatus := s, rError := er\<rparr>\<rparr>)) = appendEvent e (logged_view l)"
proof -
  let ?l = "appendEvent e (l\<lparr>runRow := (runRow l)\<lparr>rStatus := s, rError := er\<rparr>\<rparr>)"
  have "announced ?l = announced l" by (rule announced_unnamed[OF assms(1,2)]) (simp_all add: appendEvent_def)
  then show ?thesis using assms(3,4) by (simp add: logged_view_def appendEvent_def replay_snoc)
qed

lemma view_note:
  assumes "ids_inv l" "yNodeRunID (Payload e) = []" "\<And>st. project_event (rID (runRow l)) e st = st"
  shows "logged_view (appendEvent e l) = appendEvent e (logged_view l)"
  using view_ignored[OF assms refl, of "rError (runRow l)"] by simp

lemma view_ends:
  assumes "ids_inv l" "yNodeRunID (Payload e) = []" "status \<noteq> RunStatusWaiting"
    and "\<And>st. project_event (rID (runRow l)) e st = st\<lparr>pRun := (pRun st)\<lparr>rStatus := status, rFinishedAt := at', rError := msg\<rparr>\<rparr>"
  shows "logged_view (appendEvent e (l\<lparr>runRow := (runRow l)\<lparr>rStatus := status, rFinishedAt := at', rError := er\<rparr>\<rparr>)) =
    appendEvent e ((logged_view l)\<lparr>runRow := (runRow (logged_view l))\<lparr>rStatus := status, rFinishedAt := at', rError := msg\<rparr>\<rparr>)"
proof -
  let ?l = "appendEvent e (l\<lparr>runRow := (runRow l)\<lparr>rStatus := status, rFinishedAt := at', rError := er\<rparr>\<rparr>)"
  have "announced ?l = announced l" by (rule announced_unnamed[OF assms(1,2)]) (simp_all add: appendEvent_def)
  then show ?thesis using assms(3,4) by (simp add: logged_view_def appendEvent_def replay_snoc)
qed

lemma view_finish:
  assumes "ids_inv l" "ty = RunEventTerminal \<or> ty = RunEventCancelled" "status \<noteq> RunStatusWaiting"
  shows "logged_view (finishRun ty status msg now l) = finishRun ty status msg now (logged_view l)"
  unfolding finishRun_def
  by (rule view_ends[OF assms(1) _ assms(3)]) (use assms(2) in \<open>auto simp: run_event_def no_payload_def project_event_def\<close>)

lemma view_claim:
  assumes "ids_inv l"
  shows "logged_view (snd (claimRun startedAt traceID params l)) = snd (claimRun startedAt traceID params (logged_view l))"
proof (cases "rStatus (runRow l) = RunStatusPending")
  case True
  let ?l = "snd (claimRun startedAt traceID params l)"
  have "announced ?l = announced l"
    by (rule announced_unnamed[OF assms]) (auto simp: claimRun_def True appendEvent_def run_event_def no_payload_def)
  then show ?thesis using True
    by (simp add: claimRun_def logged_view_def appendEvent_def replay_snoc project_event_def run_event_def no_payload_def Let_def)
qed (simp add: claimRun_def)

lemma announced_new:
  assumes "ids_inv l" "nrID nr \<notin> nrID ` set (nodeRows l)" "nrID nr \<noteq> []"
  shows "yNodeRunID (Payload e) = nrID nr \<Longrightarrow> announced (appendEvent e (l\<lparr>nodeRows := nodeRows l @ [nr]\<rparr>)) = announced l @ [nr]"
    and "announced (l\<lparr>nodeRows := nodeRows l @ [nr]\<rparr>) = announced l"
proof -
  show "announced (l\<lparr>nodeRows := nodeRows l @ [nr]\<rparr>) = announced l"
  proof -
    have "\<not> named (events l) nr" using assms unfolding named_def ids_inv_def list_ex_iff by (metis insertE)
    then show ?thesis by (simp add: announced_def)
  qed
  assume "yNodeRunID (Payload e) = nrID nr"
  then show "announced (appendEvent e (l\<lparr>nodeRows := nodeRows l @ [nr]\<rparr>)) = announced l @ [nr]"
    using assms(2) by (auto simp: announced_def named_def appendEvent_def image_iff intro!: filter_cong)
qed

lemma view_new_row:
  assumes "ids_inv l" "nrID nr \<notin> nrID ` set (nodeRows l)" "nrID nr \<noteq> []" "yNodeRunID (Payload e) = nrID nr"
    and "\<And>st. pRun (project_event (rID (runRow l)) e st) = pRun st"
  shows "logged_view (appendEvent e (l\<lparr>nodeRows := nodeRows l @ [nr]\<rparr>)) =
    appendEvent e ((logged_view l)\<lparr>nodeRows := nodeRows (logged_view l) @ [nr]\<rparr>)"
  using announced_new(1)[OF assms(1-3), of e] assms(4,5) by (simp add: logged_view_def appendEvent_def replay_snoc)

lemma announced_update:
  assumes "nr \<in> set (announced l)" "nrID nr' = nrID nr" "yNodeRunID (Payload e) = nrID nr"
  shows "announced (appendEvent e (UpdateNodeRun nr' l)) = map (\<lambda>x. if nrID x = nrID nr' then nr' else x) (announced l)"
proof -
  have "named (events l @ [e]) (if nrID x = nrID nr' then nr' else x) = named (events l) x" for x
    using assms by (auto simp: named_def announced_def)
  then show ?thesis by (simp add: announced_def appendEvent_def UpdateNodeRun_def filter_map comp_def)
qed

lemma view_update:
  assumes "nr \<in> set (announced l)" "nrID nr' = nrID nr" "yNodeRunID (Payload e) = nrID nr"
    and "\<And>st. pRun (project_event (rID (runRow l)) e st) = pRun st"
  shows "logged_view (appendEvent e (UpdateNodeRun nr' l)) = appendEvent e (UpdateNodeRun nr' (logged_view l))"
  using announced_update[OF assms(1-3)] assms(4) by (simp add: logged_view_def appendEvent_def replay_snoc UpdateNodeRun_def)

lemma node_event_keeps_run: "eNodeID e \<noteq> [] \<Longrightarrow> EventType e \<in> {AttemptStarted, AttemptCompleted, AttemptFailed, AttemptSkipped} \<Longrightarrow>
    pRun (project_event runID e st) = pRun st"
  by (auto simp: project_event_def with_node_run_def getOrCreateNodeRun_def Let_def split: option.split)

definition view_inv :: "live \<Rightarrow> bool" where
  "view_inv l \<longleftrightarrow> replays (logged_view l) \<and> row_inv (logged_view l) \<and> ids_inv l"

lemma view_step: "step (logged_view l) (logged_view l') \<Longrightarrow> view_inv l \<Longrightarrow> ids_inv l' \<Longrightarrow> view_inv l'"
  using step_inv by (simp add: view_inv_def)

lemma ids_append: "ids_inv l \<Longrightarrow> nodeRows l' = nodeRows l \<Longrightarrow> events l' = events l @ [e] \<Longrightarrow>
    yNodeRunID (Payload e) \<in> insert [] (nrID ` set (nodeRows l)) \<Longrightarrow> ids_inv l'"
  by (auto simp: ids_inv_def)

lemma ids_update: "ids_inv l \<Longrightarrow> nr \<in> set (announced l) \<Longrightarrow> nrID nr' = nrID nr \<Longrightarrow> yNodeRunID (Payload e) = nrID nr \<Longrightarrow>
    ids_inv (appendEvent e (UpdateNodeRun nr' l))"
proof -
  assume a: "ids_inv l" "nr \<in> set (announced l)" "nrID nr' = nrID nr" "yNodeRunID (Payload e) = nrID nr"
  have ids: "map nrID (nodeRows (UpdateNodeRun nr' l)) = map nrID (nodeRows l)" by (simp add: UpdateNodeRun_def)
  then have "nrID ` set (nodeRows (UpdateNodeRun nr' l)) = nrID ` set (nodeRows l)" by (metis set_map)
  moreover have "nr \<in> set (nodeRows l)" using a(2) by (simp add: announced_def)
  moreover have "\<forall>x \<in> set (nodeRows (UpdateNodeRun nr' l)). nrID x \<noteq> []"
    using a(1) calculation(1) unfolding ids_inv_def by (metis image_iff)
  ultimately show ?thesis using a ids by (auto simp: ids_inv_def appendEvent_def)
qed

lemma ids_new: "ids_inv l \<Longrightarrow> nrID nr \<notin> nrID ` set (nodeRows l) \<Longrightarrow> nrID nr \<noteq> [] \<Longrightarrow> ids_inv (l\<lparr>nodeRows := nodeRows l @ [nr]\<rparr>)"
  by (auto simp: ids_inv_def)

lemma ids_finish: "ids_inv l \<Longrightarrow> ids_inv (finishRun ty status msg now l)"
  by (erule ids_append) (auto simp: finishRun_def appendEvent_def run_event_def no_payload_def)

lemma announced_sub: "set (announced l) \<subseteq> set (nodeRows l)"
  by (auto simp: announced_def)

lemma view_inv_note:
  assumes "view_inv l" "yNodeRunID (Payload e) = []" "\<And>st. project_event (rID (runRow l)) e st = st" "shown s = shown (rStatus (runRow l))"
  shows "view_inv (appendEvent e (l\<lparr>runRow := (runRow l)\<lparr>rStatus := s, rError := er\<rparr>\<rparr>))"
proof -
  have ids: "ids_inv l" using assms(1) by (simp add: view_inv_def)
  then have "ids_inv (appendEvent e (l\<lparr>runRow := (runRow l)\<lparr>rStatus := s, rError := er\<rparr>\<rparr>))"
    by (rule ids_append[where e = e]) (simp_all add: appendEvent_def assms(2))
  then show ?thesis using assms(1,3) view_ignored[OF ids assms(2-4)] by (simp add: view_inv_def replays_ignored row_inv_append)
qed

lemma view_inv_finish:
  "view_inv l \<Longrightarrow> ty = RunEventTerminal \<or> ty = RunEventCancelled \<Longrightarrow> status \<noteq> RunStatusWaiting \<Longrightarrow> view_inv (finishRun ty status msg now l)"
  using view_finish[of l ty status msg now] replays_finish[of "logged_view l" ty status msg now] row_inv_finish ids_finish
  unfolding view_inv_def by auto

lemma view_inv_local:
  assumes "view_inv l"
  shows "view_inv (cancelLocalRun now l)"
proof (cases "rStatus (runRow l) = RunStatusRunning")
  case True
  let ?l = "cancelLocalRun now l"
  have ids: "ids_inv l" using assms by (simp add: view_inv_def)
  then have "ids_inv ?l" by (rule ids_append) (auto simp: cancelLocalRun_def True appendEvent_def run_event_def no_payload_def)
  moreover have "logged_view ?l = finishRun RunEventCancelled RunStatusCancelled ''cancelled by user'' now (logged_view l)"
    using view_ends[OF ids, where e = "run_event RunEventCancelled (no_payload\<lparr>yStatus := RunStatusCancelled, yFinishedAt := Some now,
        yError := ''cancelled by user''\<rparr>) now" and status = RunStatusCancelled and at' = "Some now" and msg = "''cancelled by user''"
        and er = "rError (runRow l)"] True
    by (simp add: cancelLocalRun_def finishRun_def run_event_def no_payload_def project_event_def)
  ultimately show ?thesis using assms by (simp add: view_inv_def replays_finish row_inv_finish)
qed (use assms in \<open>simp add: cancelLocalRun_def\<close>)

lemma view_inv_timeout:
  assumes "view_inv l"
  shows "view_inv (snd (timeoutParkedRun node msg now l))"
proof (cases "rStatus (runRow l) = RunStatusWaiting")
  case True
  let ?l = "snd (timeoutParkedRun node msg now l)"
  let ?e = "\<lparr>eNodeID = node, eAttempt = None, EventType = RunEventTerminal,
      Payload = no_payload\<lparr>yStatus := RunStatusFailed, yFinishedAt := Some now, yError := msg\<rparr>, CreatedAt = now\<rparr>"
  let ?row = "(runRow (logged_view l))\<lparr>rStatus := RunStatusFailed, rFinishedAt := Some now, rError := msg\<rparr>"
  have ids: "ids_inv l" using assms by (simp add: view_inv_def)
  then have "ids_inv ?l" by (rule ids_append) (auto simp: timeoutParkedRun_def True appendEvent_def no_payload_def)
  moreover have view: "logged_view ?l = appendEvent ?e ((logged_view l)\<lparr>runRow := ?row\<rparr>)"
    using view_ends[OF ids, where e = ?e and status = RunStatusFailed and at' = "Some now" and msg = msg and er = msg] True
    by (simp add: timeoutParkedRun_def no_payload_def project_event_def)
  moreover have "replays (appendEvent ?e ((logged_view l)\<lparr>runRow := ?row\<rparr>))"
    by (rule replays_run_event) (use assms in \<open>auto simp: view_inv_def project_event_def no_payload_def\<close>)
  ultimately show ?thesis using assms by (simp add: view_inv_def row_inv_def appendEvent_def)
qed (use assms in \<open>simp add: timeoutParkedRun_def\<close>)

lemma view_inv_new:
  assumes "view_inv l" "step (logged_view l) (appendEvent e ((logged_view l)\<lparr>nodeRows := nodeRows (logged_view l) @ [nr]\<rparr>))"
    and "nrID nr \<notin> nrID ` set (nodeRows l)" "nrID nr \<noteq> []" "yNodeRunID (Payload e) = nrID nr" "eNodeID e \<noteq> []"
    and "EventType e \<in> {AttemptStarted, AttemptSkipped}"
  shows "view_inv (appendEvent e (l\<lparr>nodeRows := nodeRows l @ [nr]\<rparr>))"
proof -
  have ids: "ids_inv l" using assms(1) by (simp add: view_inv_def)
  have "logged_view (appendEvent e (l\<lparr>nodeRows := nodeRows l @ [nr]\<rparr>)) = appendEvent e ((logged_view l)\<lparr>nodeRows := nodeRows (logged_view l) @ [nr]\<rparr>)"
    by (rule view_new_row[OF ids assms(3,4,5)]) (use assms(6,7) in \<open>auto intro!: node_event_keeps_run\<close>)
  moreover have "ids_inv (appendEvent e (l\<lparr>nodeRows := nodeRows l @ [nr]\<rparr>))"
    by (rule ids_append[OF ids_new[OF ids assms(3,4)], of _ e]) (simp_all add: appendEvent_def assms(5))
  ultimately show ?thesis using view_step assms(1,2) by metis
qed

lemma view_inv_update:
  assumes "view_inv l" "step (logged_view l) (appendEvent e (UpdateNodeRun nr' (logged_view l)))"
    and "nr \<in> set (announced l)" "nrID nr' = nrID nr" "yNodeRunID (Payload e) = nrID nr" "eNodeID e = nrNodeID nr"
    and "EventType e \<in> {AttemptCompleted, AttemptFailed}"
  shows "view_inv (appendEvent e (UpdateNodeRun nr' l))"
proof -
  have "eNodeID e \<noteq> []" using assms(1,3,6) by (auto simp: view_inv_def row_inv_def)
  then have "logged_view (appendEvent e (UpdateNodeRun nr' l)) = appendEvent e (UpdateNodeRun nr' (logged_view l))"
    by (intro view_update[OF assms(3-5)]) (use assms(7) in \<open>auto intro!: node_event_keeps_run\<close>)
  moreover have "ids_inv (appendEvent e (UpdateNodeRun nr' l))" using ids_update[OF _ assms(3-5)] assms(1) by (simp add: view_inv_def)
  ultimately show ?thesis using view_step assms(1,2) by metis
qed

lemma writes_inv:
  assumes "writes l l'" "view_inv l"
  shows "view_inv l'"
  using assms
proof (induction rule: writes.induct)
  case (publish l now)
  then show ?case
    using view_inv_note[of l "run_event RunEventQueued (no_payload\<lparr>yStatus := RunStatusPending\<rparr>) now" "rStatus (runRow l)" "rError (runRow l)"]
    by (simp add: publishRun_def project_event_def run_event_def no_payload_def)
next
  case (claim params l traceID startedAt)
  have ids: "ids_inv l" using claim.prems by (simp add: view_inv_def)
  have "step (logged_view l) (snd (claimRun startedAt traceID params (logged_view l)))" by (rule step.claim) (use claim.hyps in simp_all)
  moreover have "ids_inv (snd (claimRun startedAt traceID params l))"
    using ids by (auto simp: claimRun_def appendEvent_def run_event_def no_payload_def ids_inv_def)
  ultimately show ?case using view_step claim.prems view_claim[OF ids] by metis
next
  case (cancel_pending l now)
  then show ?case by (simp add: cancelPendingRun_def view_inv_finish)
next
  case (cancel_local l now)
  then show ?case by (rule view_inv_local)
next
  case (succeed l now)
  then show ?case by (simp add: succeedRun_def view_inv_finish)
next
  case (fail_run l cancelled msg now)
  then show ?case by (simp add: failRun_def finalizeCancelled_def view_inv_finish)
next
  case (fail_accepted l msg now)
  then show ?case by (simp add: failAcceptedRun_def view_inv_finish)
next
  case (start node nrid l claimed attempt t0 t1 q sp)
  show ?case
  proof (cases claimed)
    case True
    have "step (logged_view l) (startAttempt True node attempt nrid t0 t1 q sp (logged_view l))"
      by (rule step.start) (use start.hyps True announced_sub[of l] in auto)
    moreover have "claimed = True" using True by simp
    ultimately show ?thesis unfolding startAttempt_def Let_def
      by (hypsubst, unfold if_True, intro view_inv_new) (use start.hyps start.prems in \<open>auto simp: node_event_def no_payload_def\<close>)
  next
    case False
    let ?nr = "no_node_run\<lparr>nrID := nrid, nrRunID := rID (runRow l), nrNodeID := node, nrStatus := RunStatusRunning,
      nrStartedAt := Some t0, nrAttempt := attempt, nrReadyAt := Some t1, nrQueueMs := q, nrTraceID := rTraceID (runRow l), nrSpanID := sp\<rparr>"
    have ids: "ids_inv l" using start.prems by (simp add: view_inv_def)
    have "announced (l\<lparr>nodeRows := nodeRows l @ [?nr]\<rparr>) = announced l" by (rule announced_new(2)[OF ids]) (use start.hyps in simp_all)
    moreover have "ids_inv (l\<lparr>nodeRows := nodeRows l @ [?nr]\<rparr>)" by (rule ids_new[OF ids]) (use start.hyps in simp_all)
    ultimately show ?thesis using start.prems False by (simp add: startAttempt_def view_inv_def logged_view_def)
  qed
next
  case (complete nr l dur cnt rps dec now)
  have "step (logged_view l) (completeAttempt nr dur cnt rps dec now (logged_view l))" by (rule step.complete) (use complete.hyps in simp)
  then show ?case using complete unfolding completeAttempt_def Let_def by (intro view_inv_update) (auto simp: node_event_def no_payload_def)
next
  case (fail_attempt nr l dur msg now)
  have "step (logged_view l) (failAttempt nr dur msg now (logged_view l))" by (rule step.fail_attempt) (use fail_attempt.hyps in simp)
  then show ?case using fail_attempt unfolding failAttempt_def Let_def by (intro view_inv_update) (auto simp: node_event_def no_payload_def)
next
  case (retry l node attempt msg ms now)
  then show ?case
    using view_inv_note[of l "node_event node attempt RetryScheduled (no_payload\<lparr>yError := msg, yBackoffMs := ms\<rparr>) now" "rStatus (runRow l)" "rError (runRow l)"]
    by (simp add: scheduleRetry_def project_event_def node_event_def no_payload_def)
next
  case (skip node nrid l t0 reused dec art)
  have "step (logged_view l) (persistSkippedOutcome node nrid t0 reused dec art (logged_view l))"
    by (rule step.skip) (use skip.hyps announced_sub[of l] in auto)
  then show ?case using skip.hyps skip.prems unfolding persistSkippedOutcome_def Let_def
    by (intro view_inv_new) (auto simp: node_event_def no_payload_def)
next
  case (park l node cond now)
  then show ?case unfolding parkRun_def
    by (intro view_inv_note) (simp_all add: no_payload_def project_event_def shown_def)
next
  case (wake l now)
  then show ?case
    using view_inv_note[of l "run_event RunEventWoken (no_payload\<lparr>yStatus := RunStatusRunning\<rparr>) now" RunStatusRunning "rError (runRow l)"]
    by (simp add: wakeRun_def project_event_def run_event_def no_payload_def)
next
  case (timeout l node msg now)
  then show ?case by (rule view_inv_timeout)
next
  case (remark e l)
  then have "view_inv (appendEvent e (l\<lparr>runRow := (runRow l)\<lparr>rStatus := rStatus (runRow l), rError := rError (runRow l)\<rparr>\<rparr>))"
    by (intro view_inv_note) (auto simp: project_event_def Let_def)
  then show ?case by simp
qed

lemma created_view: "created l \<Longrightarrow> view_inv l"
  by (frule created_inv)
    (auto simp: created_def startRun_def acceptRun_def blockRun_def view_inv_def logged_view_def ids_inv_def announced_def replays_def
      row_inv_def replay_def run_event_def project_event_def no_run_def no_payload_def Let_def)

lemma writes_star_inv: "writes\<^sup>*\<^sup>* l l' \<Longrightarrow> created l \<Longrightarrow> view_inv l'"
  by (induction rule: rtranclp_induct) (use created_view writes_inv in blast)+


definition demo_start :: live where
  "demo_start = startRun ''r1'' ''p1'' None ''t1'' 1 [] 10"

definition demo_attempt :: live where
  "demo_attempt = startAttempt True ''n1'' 0 ''nr1'' 20 15 5 ''s1'' demo_start"

definition demo_done :: live where
  "demo_done = completeAttempt (hd (nodeRows demo_attempt)) 7 3 (Fin 4) None 27 demo_attempt"

definition demo_orphan :: live where
  "demo_orphan = startAttempt False ''n2'' 0 ''nr2'' 28 27 1 ''s2'' demo_done"

lemma demo_writes: "created demo_start" "writes\<^sup>*\<^sup>* demo_start demo_done" "writes demo_done demo_orphan"
proof -
  show "created demo_start" unfolding created_def demo_start_def by blast
  have "writes demo_start demo_attempt"
    unfolding demo_attempt_def by (rule writes.start) (simp_all add: demo_start_def startRun_def announced_def)
  moreover have "writes demo_attempt demo_done"
    unfolding demo_done_def by (rule writes.complete) code_simp
  ultimately show "writes\<^sup>*\<^sup>* demo_start demo_done" by (meson r_into_rtranclp rtranclp_trans)
  have "''nr2'' \<notin> nrID ` set (nodeRows demo_done)" by code_simp
  then show "writes demo_done demo_orphan" unfolding demo_orphan_def by (intro writes.start) simp_all
qed

lemma demo_steps: "step\<^sup>*\<^sup>* demo_start demo_done"
proof -
  have "step demo_start demo_attempt"
    unfolding demo_attempt_def by (rule step.start) (simp_all add: demo_start_def startRun_def)
  moreover have "step demo_attempt demo_done"
    unfolding demo_done_def by (rule step.complete) (simp add: demo_attempt_def startAttempt_def Let_def demo_start_def startRun_def appendEvent_def)
  ultimately show ?thesis by (meson r_into_rtranclp rtranclp_trans)
qed


section \<open>Writers that the projection reads differently\<close>

lemma replay_snoc2: "replay r (es @ [a, b]) = project_event r b (project_event r a (replay r es))"
  by (simp add: replay_def)

lemma park_wake_replays:
  assumes "replays l" "rStatus (runRow l) = RunStatusRunning" "rError (runRow l) = []"
  shows "fst (wakeRun t2 (parkRun node cond t1 l))" "replays (snd (wakeRun t2 (parkRun node cond t1 l)))"
  using assms by (cases "runRow l"; simp add: wakeRun_def parkRun_def appendEvent_def run_event_def replays_def Let_def replay_snoc2
      project_event_def)+

lemma park_timeout_replays:
  assumes "replays l" "rStatus (runRow l) = RunStatusRunning"
  shows "replays (snd (timeoutParkedRun node msg t2 (parkRun node cond t1 l)))"
  using assms by (simp add: timeoutParkedRun_def parkRun_def appendEvent_def replays_def Let_def replay_snoc2 project_event_def no_payload_def)

lemma local_cancel_differs:
  assumes "replays l" "rStatus (runRow l) = RunStatusRunning" "rError (runRow l) \<noteq> ''cancelled by user''"
  shows "rError (ProjectRun (rID (runRow (cancelLocalRun now l))) (events (cancelLocalRun now l))) \<noteq> rError (runRow (cancelLocalRun now l))"
  using assms by (simp add: cancelLocalRun_def ProjectRun_def appendEvent_def run_event_def replays_def Let_def replay_snoc
      project_event_def no_payload_def)

text \<open>
  A woken run executes again on the same row, and a node that had succeeded is recorded a second time as attempt 0, now as
  skipped. The projection merges the two rows into one, with the identifier of the second and the row count of the first.
\<close>

lemma woken_skip_merges:
  "let l = persistSkippedOutcome ''n1'' ''nr9'' 40 True None ''r1'' (snd (wakeRun 39 (parkRun ''w'' ''time'' 30 demo_done)))
   in map nrID (nodeRows l) = [''nr1'', ''nr9''] \<and> map nrRowCount (nodeRows l) = [3, 0] \<and>
      map nrID (NodeRuns (ProjectRun ''r1'' (events l))) = [''nr9''] \<and> map nrRowCount (NodeRuns (ProjectRun ''r1'' (events l))) = [3]"
  by code_simp

end
