(* ===== verification/Exec_Lease.thy ===== *)
theory Exec_Lease
  imports Go_Prelude
begin

text \<open>
  The durable claim and lease record of one attempt: the contract \<^verbatim>\<open>ExecutionAttemptStore\<close> of
  \<^verbatim>\<open>src/store/store.go\<close> as a locale, with what its clients rely on proved once, and the table that
  \<^verbatim>\<open>src/store/sqlite.go\<close> keeps, which implements it. A statement is one atomic update of the table;
  an instant is a number of nanoseconds, and the clock is an argument. A database error is not
  modelled: it leaves the table as it was.
\<close>

section \<open>Records\<close>

datatype AttemptStatus =
    AttemptStatusQueued | AttemptStatusClaimed | AttemptStatusStarted | AttemptStatusCompleted | AttemptStatusFailed

record ExecutionAttempt =
  aStatus :: AttemptStatus
  ClaimedBy :: string
  LeaseExpiresAt :: "int option"
  FencingGeneration :: int
  IdempotencyKey :: string
  aError :: string

text \<open>The primary key: run, node, instance and attempt number.\<close>

type_synonym akey = "string \<times> string \<times> string \<times> int"

definition settled :: "ExecutionAttempt \<Rightarrow> bool" where
  "settled r \<longleftrightarrow> aStatus r = AttemptStatusCompleted \<or> aStatus r = AttemptStatusFailed"

definition claimable :: "int \<Rightarrow> ExecutionAttempt \<Rightarrow> bool" where
  "claimable now r \<longleftrightarrow> \<not> settled r \<and>
     (aStatus r = AttemptStatusQueued \<or> (case LeaseExpiresAt r of None \<Rightarrow> True | Some e \<Rightarrow> e < now))"

definition holds :: "string \<Rightarrow> int \<Rightarrow> ExecutionAttempt \<Rightarrow> bool" where
  "holds who g r \<longleftrightarrow> ClaimedBy r = who \<and> FencingGeneration r = g \<and>
     (aStatus r = AttemptStatusClaimed \<or> aStatus r = AttemptStatusStarted)"

datatype settle_result = Settled | FencingMismatch | NoAttempt

section \<open>The contract\<close>

locale attempt_store =
  fixes row :: "'s \<Rightarrow> akey \<Rightarrow> ExecutionAttempt option"
    and create :: "akey \<Rightarrow> string \<Rightarrow> 's \<Rightarrow> 's"
    and claim :: "akey \<Rightarrow> string \<Rightarrow> int \<Rightarrow> int \<Rightarrow> 's \<Rightarrow> int option \<times> 's"
    and renew :: "akey \<Rightarrow> string \<Rightarrow> int \<Rightarrow> int \<Rightarrow> int \<Rightarrow> 's \<Rightarrow> bool \<times> 's"
    and ack :: "akey \<Rightarrow> string \<Rightarrow> int \<Rightarrow> 's \<Rightarrow> settle_result \<times> 's"
    and settle :: "akey \<Rightarrow> int \<Rightarrow> AttemptStatus \<Rightarrow> string \<Rightarrow> 's \<Rightarrow> settle_result \<times> 's"
  assumes create_row:
    "row (create k idem s) j =
       (if j = k \<and> row s k = None
        then Some \<lparr>aStatus = AttemptStatusQueued, ClaimedBy = [], LeaseExpiresAt = None, FencingGeneration = 0,
          IdempotencyKey = idem, aError = []\<rparr>
        else row s j)"
    and claim_some:
    "claim k who dur now s = (Some g, s') \<Longrightarrow>
       \<exists>r. row s k = Some r \<and> claimable now r \<and> g = FencingGeneration r + 1 \<and>
         row s' = (row s)(k \<mapsto> r\<lparr>aStatus := AttemptStatusClaimed, ClaimedBy := who, LeaseExpiresAt := Some (now + dur),
           FencingGeneration := g\<rparr>)"
    and claim_none: "claim k who dur now s = (None, s') \<Longrightarrow> row s' = row s \<and> (\<forall>r. row s k = Some r \<longrightarrow> \<not> claimable now r)"
    and renew_row:
    "renew k who g dur now s = (b, s') \<Longrightarrow>
       b = (\<exists>r. row s k = Some r \<and> holds who g r) \<and>
       row s' = (\<lambda>j. if j = k \<and> b then map_option (\<lambda>r. r\<lparr>LeaseExpiresAt := Some (now + dur)\<rparr>) (row s k) else row s j)"
    and ack_row:
    "ack k who g s = (res, s') \<Longrightarrow>
       (res = Settled \<longleftrightarrow> (\<exists>r. row s k = Some r \<and> holds who g r)) \<and>
       row s' = (\<lambda>j. if j = k \<and> res = Settled then map_option (\<lambda>r. r\<lparr>aStatus := AttemptStatusStarted\<rparr>) (row s k) else row s j)"
    and settle_row:
    "settle k g st msg s = (res, s') \<Longrightarrow>
       (case row s k of
          Some r \<Rightarrow>
            if FencingGeneration r = g \<and> \<not> settled r
            then res = Settled \<and> row s' = (row s)(k \<mapsto> r\<lparr>aStatus := st, aError := msg\<rparr>)
            else row s' = row s \<and> (res = Settled \<longleftrightarrow> aStatus r = st)
        | None \<Rightarrow> row s' = row s \<and> res = NoAttempt)"
begin

text \<open>One call of any client, and what holds of a row from a claim on.\<close>

inductive call :: "'s \<Rightarrow> 's \<Rightarrow> bool" where
  "call s (create k idem s)"
| "claim k who dur now s = (g, s') \<Longrightarrow> call s s'"
| "renew k who g dur now s = (b, s') \<Longrightarrow> call s s'"
| "ack k who g s = (res, s') \<Longrightarrow> call s s'"
| "settle k g st msg s = (res, s') \<Longrightarrow> st = AttemptStatusCompleted \<or> st = AttemptStatusFailed \<Longrightarrow> call s s'"

definition taken :: "akey \<Rightarrow> int \<Rightarrow> 's \<Rightarrow> bool" where
  "taken k g s \<longleftrightarrow> (\<exists>r e. row s k = Some r \<and> FencingGeneration r \<ge> g \<and> aStatus r \<noteq> AttemptStatusQueued \<and> LeaseExpiresAt r = Some e)"

lemma claim_taken: "claim k who dur now s = (Some g, s') \<Longrightarrow> taken k g s'"
  using claim_some[of k who dur now s g s'] by (auto simp: taken_def)

lemma call_taken:
  assumes "call s s'" "taken k g s"
  shows "taken k g s'"
  using assms
proof (induction rule: call.induct)
  case (2 k' who dur now s g' s')
  then show ?case
    by (cases g') (auto simp: taken_def dest!: claim_some claim_none)
next
  case (3 k' who g' dur now s b s')
  then show ?case using renew_row[OF 3(1)] by (auto simp: taken_def)
next
  case (4 k' who g' s res s')
  then show ?case using ack_row[OF 4(1)] by (auto simp: taken_def)
next
  case (5 k' g' st msg s res s')
  then show ?case using settle_row[OF 5(1)] by (auto simp: taken_def split: option.splits if_splits)
qed (auto simp: taken_def create_row)

lemma calls_taken: "call\<^sup>*\<^sup>* s s' \<Longrightarrow> taken k g s \<Longrightarrow> taken k g s'"
  by (induction rule: rtranclp_induct) (auto intro: call_taken)

text \<open>A later claim needs a lapsed lease, has a higher generation and fences the earlier one off.\<close>

lemma fencing:
  assumes "claim k who dur now s = (Some g, s1)" "call\<^sup>*\<^sup>* s1 s2" "claim k who' dur' now' s2 = (Some g', s3)" "call\<^sup>*\<^sup>* s3 s4"
  shows "g < g'" "\<exists>r e. row s2 k = Some r \<and> LeaseExpiresAt r = Some e \<and> e < now'"
    "fst (renew k who g d t s4) = False" "row (snd (renew k who g d t s4)) = row s4"
    "fst (ack k who g s4) \<noteq> Settled" "row (snd (ack k who g s4)) = row s4"
    "row (snd (settle k g st msg s4)) = row s4"
proof -
  obtain r e where r: "row s2 k = Some r" "FencingGeneration r \<ge> g" "aStatus r \<noteq> AttemptStatusQueued" "LeaseExpiresAt r = Some e"
    using calls_taken[OF assms(2) claim_taken[OF assms(1)]] by (auto simp: taken_def)
  show gg: "g < g'" and "\<exists>r e. row s2 k = Some r \<and> LeaseExpiresAt r = Some e \<and> e < now'"
    using claim_some[OF assms(3)] r by (auto simp: claimable_def)
  obtain q where q: "row s4 k = Some q" "FencingGeneration q > g"
    using calls_taken[OF assms(4) claim_taken[OF assms(3)]] gg by (auto simp: taken_def)
  then have h: "\<not> holds who g q" by (simp add: holds_def)
  obtain b sr where "renew k who g d t s4 = (b, sr)" by fastforce
  then show "fst (renew k who g d t s4) = False" "row (snd (renew k who g d t s4)) = row s4"
    using renew_row[of k who g d t s4 b sr] q(1) h by (auto simp: fun_eq_iff)
  obtain c sa where "ack k who g s4 = (c, sa)" by fastforce
  then show "fst (ack k who g s4) \<noteq> Settled" "row (snd (ack k who g s4)) = row s4"
    using ack_row[of k who g s4 c sa] q(1) h by (auto simp: fun_eq_iff)
  obtain u ss where "settle k g st msg s4 = (u, ss)" by fastforce
  then show "row (snd (settle k g st msg s4)) = row s4"
    using settle_row[of k g st msg s4 u ss] q by auto
qed

lemma call_settled:
  assumes "call s s'" "row s k = Some r" "settled r"
  shows "row s' k = Some r"
  using assms
proof (induction rule: call.induct)
  case (2 k' who dur now s g' s')
  then show ?case by (cases g') (auto simp: claimable_def dest!: claim_some claim_none)
next
  case (3 k' who g' dur now s b s')
  then show ?case using renew_row[OF 3(1)] by (auto simp: holds_def settled_def)
next
  case (4 k' who g' s res s')
  then show ?case using ack_row[OF 4(1)] by (auto simp: holds_def settled_def)
next
  case (5 k' g' st msg s res s')
  then show ?case using settle_row[OF 5(1)] by (auto split: option.splits if_splits)
qed (auto simp: create_row)

text \<open>A settled attempt stays as it is and cannot be claimed, whatever is called on the store.\<close>

lemma settled_final:
  assumes "call\<^sup>*\<^sup>* s s'" "row s k = Some r" "settled r"
  shows "row s' k = Some r" "fst (claim k who dur now s') = None"
proof -
  show row: "row s' k = Some r"
    using assms(1) by (induction rule: rtranclp_induct) (use assms(2,3) in \<open>auto intro: call_settled\<close>)
  show "fst (claim k who dur now s') = None"
    using claim_some[of k who dur now s'] row assms(3) by (cases "claim k who dur now s'") (fastforce simp: claimable_def)
qed

end

section \<open>The table\<close>

type_synonym attempts = "(akey \<times> ExecutionAttempt) list"

definition CreateExecutionAttemptTx :: "akey \<Rightarrow> string \<Rightarrow> attempts \<Rightarrow> attempts" where
  "CreateExecutionAttemptTx k idem t =
     (case map_of t k of
        Some _ \<Rightarrow> t
      | None \<Rightarrow> mput k \<lparr>aStatus = AttemptStatusQueued, ClaimedBy = [], LeaseExpiresAt = None, FencingGeneration = 0,
                  IdempotencyKey = idem, aError = []\<rparr> t)"

definition ClaimAttempt :: "akey \<Rightarrow> string \<Rightarrow> int \<Rightarrow> int \<Rightarrow> attempts \<Rightarrow> int option \<times> attempts" where
  "ClaimAttempt k who dur now t =
     (case map_of t k of
        Some r \<Rightarrow>
          if aStatus r \<notin> {AttemptStatusCompleted, AttemptStatusFailed} \<and>
             (aStatus r = AttemptStatusQueued \<or> LeaseExpiresAt r = None \<or> the (LeaseExpiresAt r) < now)
          then (Some (FencingGeneration r + 1),
                mput k (r\<lparr>aStatus := AttemptStatusClaimed, ClaimedBy := who, LeaseExpiresAt := Some (now + dur),
                  FencingGeneration := FencingGeneration r + 1\<rparr>) t)
          else (None, t)
      | None \<Rightarrow> (None, t))"

definition RenewLease :: "akey \<Rightarrow> string \<Rightarrow> int \<Rightarrow> int \<Rightarrow> int \<Rightarrow> attempts \<Rightarrow> bool \<times> attempts" where
  "RenewLease k who g dur now t =
     (case map_of t k of
        Some r \<Rightarrow>
          if ClaimedBy r = who \<and> FencingGeneration r = g \<and> aStatus r \<in> {AttemptStatusClaimed, AttemptStatusStarted}
          then (True, mput k (r\<lparr>LeaseExpiresAt := Some (now + dur)\<rparr>) t)
          else (False, t)
      | None \<Rightarrow> (False, t))"

definition AckAttempt :: "akey \<Rightarrow> string \<Rightarrow> int \<Rightarrow> attempts \<Rightarrow> settle_result \<times> attempts" where
  "AckAttempt k who g t =
     (case map_of t k of
        Some r \<Rightarrow>
          if ClaimedBy r = who \<and> FencingGeneration r = g \<and> aStatus r \<in> {AttemptStatusClaimed, AttemptStatusStarted}
          then (Settled, mput k (r\<lparr>aStatus := AttemptStatusStarted\<rparr>) t)
          else if aStatus r = AttemptStatusStarted \<and> ClaimedBy r = who \<and> FencingGeneration r = g then (Settled, t)
          else (FencingMismatch, t)
      | None \<Rightarrow> (NoAttempt, t))"

definition sqliteSettleAttempt :: "akey \<Rightarrow> int \<Rightarrow> AttemptStatus \<Rightarrow> string \<Rightarrow> attempts \<Rightarrow> settle_result \<times> attempts" where
  "sqliteSettleAttempt k g toStatus msg t =
     (case map_of t k of
        Some r \<Rightarrow>
          if FencingGeneration r = g \<and> aStatus r \<notin> {AttemptStatusCompleted, AttemptStatusFailed}
          then (Settled, mput k (r\<lparr>aStatus := toStatus, aError := msg\<rparr>) t)
          else if aStatus r = toStatus then (Settled, t)
          else (FencingMismatch, t)
      | None \<Rightarrow> (NoAttempt, t))"

definition CompleteAttempt :: "akey \<Rightarrow> int \<Rightarrow> attempts \<Rightarrow> settle_result \<times> attempts" where
  "CompleteAttempt k g = sqliteSettleAttempt k g AttemptStatusCompleted []"

definition FailAttempt :: "akey \<Rightarrow> int \<Rightarrow> string \<Rightarrow> attempts \<Rightarrow> settle_result \<times> attempts" where
  "FailAttempt k g msg = sqliteSettleAttempt k g AttemptStatusFailed msg"

definition ListExecutionAttemptsByRun :: "string \<Rightarrow> attempts \<Rightarrow> attempts" where
  "ListExecutionAttemptsByRun run t = filter (\<lambda>((r, _), _). r = run) t"

interpretation sqlite: attempt_store map_of CreateExecutionAttemptTx ClaimAttempt RenewLease AckAttempt sqliteSettleAttempt
proof unfold_locales
  fix k who dur now s g s'
  assume "ClaimAttempt k who dur now s = (Some g, s')"
  then show "\<exists>r. map_of s k = Some r \<and> claimable now r \<and> g = FencingGeneration r + 1 \<and>
      map_of s' = (map_of s)(k \<mapsto> r\<lparr>aStatus := AttemptStatusClaimed, ClaimedBy := who, LeaseExpiresAt := Some (now + dur),
        FencingGeneration := g\<rparr>)"
    by (auto simp: ClaimAttempt_def claimable_def settled_def split: option.splits if_splits)
next
  fix k who dur now s s'
  assume "ClaimAttempt k who dur now s = (None, s')"
  then show "map_of s' = map_of s \<and> (\<forall>r. map_of s k = Some r \<longrightarrow> \<not> claimable now r)"
    by (auto simp: ClaimAttempt_def claimable_def settled_def split: option.splits if_splits)
qed (auto simp: CreateExecutionAttemptTx_def RenewLease_def AckAttempt_def sqliteSettleAttempt_def holds_def settled_def fun_eq_iff
    split: option.splits if_splits)

section \<open>Histories\<close>

text \<open>Any calls of any clients, in any order.\<close>

datatype attempt_op =
    Create akey string
  | Claim akey string int int
  | Renew akey string int int int
  | Ack akey string int
  | Complete akey int
  | Fail akey int string

fun exec_op :: "attempt_op \<Rightarrow> attempts \<Rightarrow> attempts" where
  "exec_op (Create k idem) t = CreateExecutionAttemptTx k idem t"
| "exec_op (Claim k who dur now) t = snd (ClaimAttempt k who dur now t)"
| "exec_op (Renew k who g dur now) t = snd (RenewLease k who g dur now t)"
| "exec_op (Ack k who g) t = snd (AckAttempt k who g t)"
| "exec_op (Complete k g) t = snd (CompleteAttempt k g t)"
| "exec_op (Fail k g msg) t = snd (FailAttempt k g msg t)"

lemma exec_op_call: "sqlite.call t (exec_op op t)"
  by (cases op) (auto simp: CompleteAttempt_def FailAttempt_def intro: sqlite.call.intros surjective_pairing)

lemma exec_ops_calls: "sqlite.call\<^sup>*\<^sup>* t (fold exec_op ops t)"
proof (induction ops arbitrary: t)
  case (Cons op ops)
  then show ?case using exec_op_call[of t op] by (simp add: converse_rtranclp_into_rtranclp)
qed simp

text \<open>
  C5. A worker that lost its lease can do no harm. When an attempt that was claimed with
  generation \<open>g\<close> is claimed again, the first lease had lapsed by then and the new generation is
  higher; from then on, whatever is called on the store in whatever order, the first worker can
  neither renew its lease nor acknowledge, and its reports of success or failure change nothing.
\<close>

theorem lease_fencing:
  assumes "ClaimAttempt k who dur now t = (Some g, t1)"
    and "ClaimAttempt k who' dur' now' (fold exec_op ops t1) = (Some g', t2)"
    and "t3 = fold exec_op ops' t2"
  shows "g < g' \<and> (\<exists>r e. map_of (fold exec_op ops t1) k = Some r \<and> LeaseExpiresAt r = Some e \<and> e < now') \<and>
    fst (RenewLease k who g d i t3) = False \<and> map_of (snd (RenewLease k who g d i t3)) = map_of t3 \<and>
    fst (AckAttempt k who g t3) \<noteq> Settled \<and> map_of (snd (AckAttempt k who g t3)) = map_of t3 \<and>
    map_of (snd (CompleteAttempt k g t3)) = map_of t3 \<and> map_of (snd (FailAttempt k g msg t3)) = map_of t3"
  using sqlite.fencing[OF assms(1) exec_ops_calls assms(2) exec_ops_calls] unfolding assms(3) CompleteAttempt_def FailAttempt_def
  by (intro conjI)

definition demo_key :: akey where "demo_key = (''r'', ''n'', [], 0)"

definition demo_table :: attempts where
  "demo_table = CreateExecutionAttemptTx demo_key ''idem'' []"

theorem lease_fencing_witness:
  "fst (RenewLease demo_key ''w1'' 1 15 21 (snd (ClaimAttempt demo_key ''w2'' 15 20 (snd (ClaimAttempt demo_key ''w1'' 15 0 demo_table))))) = False"
proof -
  have c1: "ClaimAttempt demo_key ''w1'' 15 0 demo_table = (Some 1, snd (ClaimAttempt demo_key ''w1'' 15 0 demo_table))"
    by (simp add: ClaimAttempt_def demo_table_def CreateExecutionAttemptTx_def)
  have c2: "ClaimAttempt demo_key ''w2'' 15 20 (fold exec_op [] (snd (ClaimAttempt demo_key ''w1'' 15 0 demo_table))) =
      (Some 2, snd (ClaimAttempt demo_key ''w2'' 15 20 (snd (ClaimAttempt demo_key ''w1'' 15 0 demo_table))))"
    by (simp add: ClaimAttempt_def demo_table_def CreateExecutionAttemptTx_def)
  show ?thesis using lease_fencing[OF c1 c2, of _ "[]" 15 21] by simp
qed

text \<open>
  A settled attempt is final: once it is completed or failed, its record never changes again
  and no claim of it succeeds, also after the same attempt is created anew, since creation leaves
  an existing record alone.
\<close>

lemma settled_attempt_final:
  assumes "map_of t k = Some r" and "settled r"
  shows "map_of (fold exec_op ops t) k = Some r \<and> fst (ClaimAttempt k who dur now (fold exec_op ops t)) = None"
  using sqlite.settled_final[OF exec_ops_calls assms] by blast

lemma settled_attempt_final_witness:
  "fst (ClaimAttempt demo_key ''w2'' 15 99 (fold exec_op [Create demo_key ''again'']
     (snd (FailAttempt demo_key 1 ''lease expired'' (snd (ClaimAttempt demo_key ''w1'' 15 0 demo_table)))))) = None"
proof -
  let ?t = "snd (FailAttempt demo_key 1 ''lease expired'' (snd (ClaimAttempt demo_key ''w1'' 15 0 demo_table)))"
  have "map_of ?t demo_key = Some \<lparr>aStatus = AttemptStatusFailed, ClaimedBy = ''w1'', LeaseExpiresAt = Some 15,
      FencingGeneration = 1, IdempotencyKey = ''idem'', aError = ''lease expired''\<rparr>"
    by (simp add: FailAttempt_def sqliteSettleAttempt_def ClaimAttempt_def demo_table_def CreateExecutionAttemptTx_def)
  from settled_attempt_final[OF this] show ?thesis by (simp add: settled_def del: fold.simps)
qed

end
