(* ===== verification/Run_Recovery.thy ===== *)
theory Run_Recovery
  imports Run_Events Exec_Lease Pipe_Model
begin

text \<open>
  Recovery of interrupted runs: \<^verbatim>\<open>src/engine/recovery.go\<close> and \<^verbatim>\<open>src/engine/recovery_requeue.go\<close>. The
  state of one run is its row, node rows and log (theory \<open>Run_Events\<close>), its attempts' leases
  (theory \<open>Exec_Lease\<close>), the jobs that recovery put on the queue, and the engine's counters. The
  record \<open>renv\<close> holds what recovery asks of its surroundings: the clock, the settings, the runs
  that this process executes, the hook for other executors, the queue, the pipeline store, and
  which store calls fail. The clock is read once for a pass; that an event is appended is taken
  for granted, as the code only logs a failure there. Log messages and spans are left out.
\<close>

section \<open>State and surroundings\<close>

record RunJob =
  jID :: string
  jPipelineID :: string
  jRunID :: string
  jOrgID :: string
  jParams :: "params option"
  RequiredCapabilities :: "string list"
  EnqueuedAt :: int
  jIdempotencyKey :: string

record counters =
  RunsRecovered :: nat
  RunsRecoveryFailed :: nat
  RunsRecoveryRequeued :: nat
  cRunsFailed :: nat
  RunsSucceeded :: nat
  EventsReplayed :: nat

record rstate =
  lv :: live
  cancelRequested :: bool
  rOrgID :: string
  leases :: attempts
  jobs :: "RunJob list"
  ctr :: counters

record renv =
  clock :: int
  activeRuns :: "string set"
  RecoveryMinRunAge :: int
  ExternalRunClaim :: "(string \<Rightarrow> bool option) option"
  hasAttemptStore :: bool
  RecoveryTransitionGracePeriod :: int
  JobQueue :: "(RunJob \<Rightarrow> bool) option"
  GetPipeline :: "string \<Rightarrow> string + VPipeline"
  GetPipelineVersion :: "string \<Rightarrow> int \<Rightarrow> string + string"
  decodeSnapshot :: "string \<Rightarrow> string + VPipeline"
  attemptsErr :: "string option"
  eventsErr :: "string option"
  updateErr :: "string option"

datatype recoveryOutcome =
  recoveryOutcomeDeferred | recoveryOutcomeReconciled | recoveryOutcomeRequeued | recoveryOutcomeFailed

abbreviation the_run :: "rstate \<Rightarrow> Run_Events.Run" where
  "the_run s \<equiv> runRow (lv s)"

definition log_event :: "RunEventType \<Rightarrow> RunEventPayload \<Rightarrow> int \<Rightarrow> rstate \<Rightarrow> rstate" where
  "log_event ty p now s = s\<lparr>lv := appendEvent (run_event ty p now) (lv s)\<rparr>"

text \<open>\<^verbatim>\<open>UpdateRun\<close> writes these six columns of the row.\<close>

definition UpdateRun :: "Run_Events.Run \<Rightarrow> live \<Rightarrow> live" where
  "UpdateRun r l = l\<lparr>runRow := (runRow l)\<lparr>rStatus := rStatus r, rStartedAt := rStartedAt r, rFinishedAt := rFinishedAt r,
     rTraceID := rTraceID r, rError := rError r, rParams := rParams r\<rparr>\<rparr>"

section \<open>What the log and the leases say\<close>

definition externalClaimHeld :: "renv \<Rightarrow> string \<Rightarrow> bool" where
  "externalClaimHeld env runID =
     (case ExternalRunClaim env of
        None \<Rightarrow> False
      | Some fn \<Rightarrow> (case fn runID of Some held \<Rightarrow> held | None \<Rightarrow> True))"

fun last_genuine :: "RunEvent list \<Rightarrow> int option" where
  "last_genuine [] = None"
| "last_genuine (e # older) =
     (if EventType e \<in> {RunEventRecoveryStarted, RunEventRecoveryCompleted, RunEventRecoveryFailed}
      then last_genuine older else Some (CreatedAt e))"

definition lastGenuineActivity :: "RunEvent list \<Rightarrow> int option" where
  "lastGenuineActivity es = last_genuine (rev es)"

definition isTerminalAttemptStatus :: "AttemptStatus \<Rightarrow> bool" where
  "isTerminalAttemptStatus s \<longleftrightarrow> s = AttemptStatusCompleted \<or> s = AttemptStatusFailed"

definition live_lease :: "int \<Rightarrow> ExecutionAttempt \<Rightarrow> bool" where
  "live_lease now a \<longleftrightarrow> \<not> isTerminalAttemptStatus (aStatus a) \<and> (case LeaseExpiresAt a of None \<Rightarrow> False | Some e \<Rightarrow> now < e)"

definition expired_lease :: "int \<Rightarrow> ExecutionAttempt \<Rightarrow> bool" where
  "expired_lease now a \<longleftrightarrow> \<not> isTerminalAttemptStatus (aStatus a) \<and> (case LeaseExpiresAt a of None \<Rightarrow> False | Some e \<Rightarrow> e \<le> now)"

definition reclaim_reason :: string where
  "reclaim_reason = ''startup recovery: lease expired, reclaiming''"

definition reclaim :: "akey \<times> ExecutionAttempt \<Rightarrow> nat \<times> attempts \<Rightarrow> nat \<times> attempts" where
  "reclaim a acc =
     (case FailAttempt (fst a) (FencingGeneration (snd a)) reclaim_reason (snd acc) of
        (Settled, t) \<Rightarrow> (fst acc + 1, t)
      | (_, t) \<Rightarrow> (fst acc, t))"

definition reconcileExecutionAttempts :: "int \<Rightarrow> string \<Rightarrow> attempts \<Rightarrow> bool \<times> nat \<times> attempts" where
  "reconcileExecutionAttempts now runID t =
     (let rows = ListExecutionAttemptsByRun runID t in
      if \<exists>a \<in> set rows. live_lease now (snd a) then (True, 0, t)
      else (False, fold reclaim (filter (\<lambda>a. expired_lease now (snd a)) rows) (0, t)))"

definition latest_step :: "NodeRun \<Rightarrow> (string \<times> NodeRun) list \<Rightarrow> (string \<times> NodeRun) list" where
  "latest_step nr latest =
     (case map_of latest (nrNodeID nr) of
        None \<Rightarrow> mput (nrNodeID nr) nr latest
      | Some old \<Rightarrow> if nrAttempt nr > nrAttempt old then mput (nrNodeID nr) nr latest else latest)"

definition latestNodeOutcome :: "NodeRun list \<Rightarrow> (string \<times> NodeRun) list" where
  "latestNodeOutcome nrs = fold latest_step nrs []"

definition resolvePipelineForRun :: "renv \<Rightarrow> string \<Rightarrow> int \<Rightarrow> string + VPipeline" where
  "resolvePipelineForRun env pipelineID version =
     (if version \<le> 0 then GetPipeline env pipelineID
      else case GetPipelineVersion env pipelineID version of
        Inl err \<Rightarrow> Inl (''get pipeline version '' @ show_int version @ '' for '' @ pipelineID @ '': '' @ err)
      | Inr snapshot \<Rightarrow>
          (case decodeSnapshot env snapshot of
             Inl err \<Rightarrow> Inl (''decode pipeline version '' @ show_int version @ '' snapshot for '' @ pipelineID @ '': '' @ err)
           | Inr pipe \<Rightarrow> Inr pipe))"

section \<open>The verdict on the nodes\<close>

record verdict =
  failedNode :: "NodeRun option"
  ambiguousNode :: string
  ambiguousNodeRun :: "NodeRun option"
  neverStartedNode :: string
  allSuccess :: bool

definition judge_node :: "(string \<times> NodeRun) list \<Rightarrow> VNode \<Rightarrow> verdict \<Rightarrow> verdict" where
  "judge_node latest n v =
     (case map_of latest (nID n) of
        None \<Rightarrow> v\<lparr>allSuccess := False, neverStartedNode := (if neverStartedNode v = [] then nID n else neverStartedNode v)\<rparr>
      | Some nr \<Rightarrow>
          if nrStatus nr \<in> {RunStatusSuccess, RunStatusSkipped} then v
          else if nrStatus nr = RunStatusFailed
          then v\<lparr>allSuccess := False, failedNode := (if failedNode v = None then Some nr else failedNode v)\<rparr>
          else if ambiguousNode v = []
          then v\<lparr>allSuccess := False, ambiguousNode := nID n @ '' (attempt in progress when the process died)'',
                 ambiguousNodeRun := Some nr\<rparr>
          else v\<lparr>allSuccess := False\<rparr>)"

definition judge :: "VPipeline \<Rightarrow> (string \<times> NodeRun) list \<Rightarrow> verdict" where
  "judge pipe latest = fold (judge_node latest) (Nodes pipe)
     \<lparr>failedNode = None, ambiguousNode = [], ambiguousNodeRun = None, neverStartedNode = [], allSuccess = True\<rparr>"

definition interrupt_reason :: "verdict \<Rightarrow> string" where
  "interrupt_reason v =
     ''run was interrupted mid-execution and cannot be safely resumed from process-local state ('' @
     (if ambiguousNode v \<noteq> [] then ambiguousNode v else neverStartedNode v @ '' never started'') @ '')''"

section \<open>Putting a run back on the queue\<close>

definition requeueSafeNodeTypes :: "string list" where
  "requeueSafeNodeTypes = [''source_file'', ''source_db'', ''transform'', ''project'', ''aggregate'', ''filter'', ''quality_check'',
     ''contract_gate'', ''sql_generate'', ''join'', ''condition'', ''union'', ''dataset_map'', ''dataset_filter'']"

definition nodeCannotWriteExternally :: "VNode \<Rightarrow> bool" where
  "nodeCannotWriteExternally n \<longleftrightarrow> ''sink'' \<notin> set (Capabilities n) \<and> nType n \<in> set requeueSafeNodeTypes"

definition nodes_by_id :: "VPipeline \<Rightarrow> (string \<times> VNode) list" where
  "nodes_by_id pipe = fold (\<lambda>n. mput (nID n) n) (Nodes pipe) []"

definition interruptedRunIsSafeToRequeue :: "VPipeline \<Rightarrow> (string \<times> NodeRun) list \<Rightarrow> bool" where
  "interruptedRunIsSafeToRequeue pipe latest \<longleftrightarrow>
     (\<forall>(nodeID, nr) \<in> set latest. nrStatus nr = RunStatusSkipped \<or>
        (case map_of (nodes_by_id pipe) nodeID of None \<Rightarrow> False | Some n \<Rightarrow> nodeCannotWriteExternally n))"

definition countPriorRequeues :: "RunEvent list \<Rightarrow> nat" where
  "countPriorRequeues es = length (filter (\<lambda>e. EventType e = RunEventRecoveryRequeued) es)"

definition maxRecoveryRequeues :: nat where "maxRecoveryRequeues = 3"

definition requeue_msg :: "string \<Rightarrow> string" where
  "requeue_msg reason = ''recovery: '' @ reason @
     ''; nothing it reached could have written outside Brokoli, so it was put back on the queue''"

definition requeue_job :: "renv \<Rightarrow> rstate \<Rightarrow> RunJob" where
  "requeue_job env s =
     \<lparr>jID = rID (the_run s), jPipelineID = rPipelineID (the_run s), jRunID = rID (the_run s), jOrgID = rOrgID s,
      jParams = (case rParams (the_run s) of Some (p # ps) \<Rightarrow> Some (p # ps) | _ \<Rightarrow> None),
      RequiredCapabilities = [], EnqueuedAt = clock env, jIdempotencyKey = rID (the_run s)\<rparr>"

definition tryRequeueInterruptedRun ::
  "renv \<Rightarrow> VPipeline \<Rightarrow> (string \<times> NodeRun) list \<Rightarrow> RunEvent list \<Rightarrow> string \<Rightarrow> rstate \<Rightarrow> (string + bool) \<times> rstate" where
  "tryRequeueInterruptedRun env pipe latest es reason s =
     (case JobQueue env of
        None \<Rightarrow> (Inr False, s)
      | Some enqueue \<Rightarrow>
          if cancelRequested s then (Inr False, s)
          else if countPriorRequeues es \<ge> maxRecoveryRequeues then (Inr False, s)
          else if \<not> interruptedRunIsSafeToRequeue pipe latest then (Inr False, s)
          else case updateErr env of
            Some err \<Rightarrow> (Inl (''persist re-queued run: '' @ err), s)
          | None \<Rightarrow>
              let run = (the_run s)\<lparr>rStatus := RunStatusPending, rStartedAt := None, rFinishedAt := None,
                          rError := requeue_msg reason\<rparr>;
                  s1 = s\<lparr>lv := UpdateRun run (lv s)\<rparr>;
                  s2 = log_event RunEventRecoveryRequeued (no_payload\<lparr>yStatus := RunStatusPending, yError := requeue_msg reason\<rparr>)
                         (clock env) s1;
                  job = requeue_job env s2
              in (Inr True, s2\<lparr>jobs := (if enqueue job then jobs s2 @ [job] else jobs s2),
                    ctr := (ctr s2)\<lparr>RunsRecoveryRequeued := RunsRecoveryRequeued (ctr s2) + 1\<rparr>\<rparr>))"

section \<open>Closing a run\<close>

definition bump_finished :: "RunStatus \<Rightarrow> counters \<Rightarrow> counters" where
  "bump_finished status c =
     (if status = RunStatusFailed then c\<lparr>RunsRecovered := RunsRecovered c + 1, cRunsFailed := cRunsFailed c + 1\<rparr>
      else c\<lparr>RunsRecovered := RunsRecovered c + 1, RunsSucceeded := RunsSucceeded c + 1\<rparr>)"

definition finalizeRecoveredRun ::
  "renv \<Rightarrow> RunStatus \<Rightarrow> string \<Rightarrow> rstate \<Rightarrow> (recoveryOutcome \<times> string option) \<times> rstate" where
  "finalizeRecoveredRun env status errMsg s =
     (case updateErr env of
        Some err \<Rightarrow> ((recoveryOutcomeDeferred, Some (''persist recovered run: '' @ err)), s)
      | None \<Rightarrow>
          let run = (the_run s)\<lparr>rStatus := status, rFinishedAt := Some (clock env), rError := errMsg\<rparr>;
              s1 = s\<lparr>lv := UpdateRun run (lv s)\<rparr>;
              s2 = log_event RunEventTerminal (no_payload\<lparr>yStatus := status, yFinishedAt := rFinishedAt run, yError := errMsg\<rparr>)
                     (clock env) s1;
              s3 = log_event RunEventRecoveryCompleted no_payload (clock env) s2
          in ((recoveryOutcomeReconciled, None), s3\<lparr>ctr := bump_finished status (ctr s3)\<rparr>))"

definition markRecoveryFailed :: "renv \<Rightarrow> string \<Rightarrow> rstate \<Rightarrow> (recoveryOutcome \<times> string option) \<times> rstate" where
  "markRecoveryFailed env reason s =
     (if cancelRequested s then
        let errMsg = ''recovery: cancellation was requested before the owning process died ('' @ reason @ '')'';
            run = (the_run s)\<lparr>rStatus := RunStatusCancelled, rFinishedAt := Some (clock env), rError := errMsg\<rparr>
        in (case updateErr env of
              Some err \<Rightarrow> ((recoveryOutcomeDeferred, Some (''persist recovery-cancelled run: '' @ err)), s)
            | None \<Rightarrow>
                let s1 = s\<lparr>lv := UpdateRun run (lv s)\<rparr>;
                    s2 = log_event RunEventCancelled (no_payload\<lparr>yStatus := RunStatusCancelled, yFinishedAt := rFinishedAt run,
                           yError := errMsg\<rparr>) (clock env) s1;
                    s3 = log_event RunEventRecoveryCompleted no_payload (clock env) s2
                in ((recoveryOutcomeReconciled, None), s3\<lparr>ctr := (ctr s3)\<lparr>RunsRecovered := RunsRecovered (ctr s3) + 1\<rparr>\<rparr>))
      else
        let errMsg = ''recovery: '' @ reason;
            run = (the_run s)\<lparr>rStatus := RunStatusFailed, rFinishedAt := Some (clock env), rError := errMsg\<rparr>
        in (case updateErr env of
              Some err \<Rightarrow> ((recoveryOutcomeDeferred, Some (''persist recovery-failed run: '' @ err)), s)
            | None \<Rightarrow>
                let s1 = s\<lparr>lv := UpdateRun run (lv s)\<rparr>;
                    s2 = log_event RunEventRecoveryFailed (no_payload\<lparr>yStatus := RunStatusFailed, yFinishedAt := rFinishedAt run,
                           yError := errMsg\<rparr>) (clock env) s1
                in ((recoveryOutcomeFailed, None),
                    s2\<lparr>ctr := (ctr s2)\<lparr>RunsRecoveryFailed := RunsRecoveryFailed (ctr s2) + 1, cRunsFailed := cRunsFailed (ctr s2) + 1\<rparr>\<rparr>)))"

definition closeDanglingNodeRun :: "NodeRun \<Rightarrow> string \<Rightarrow> int \<Rightarrow> live \<Rightarrow> live" where
  "closeDanglingNodeRun nr0 reason now l =
     (let nr = nr0\<lparr>nrStatus := RunStatusFailed, nrError := reason\<rparr>
      in appendEvent (node_event (nrNodeID nr) (nrAttempt nr) AttemptFailed (no_payload\<lparr>yStatus := RunStatusFailed,
             yNodeRunID := nrID nr, yDurationMs := nrDurationMs nr, yError := reason\<rparr>) now)
           (UpdateNodeRun nr l))"

section \<open>One run\<close>

text \<open>The default branch of the verdict: wait, put the run back, or close it.\<close>

definition resolve_interrupted ::
  "renv \<Rightarrow> VPipeline \<Rightarrow> (string \<times> NodeRun) list \<Rightarrow> RunEvent list \<Rightarrow> verdict \<Rightarrow> rstate \<Rightarrow> (recoveryOutcome \<times> string option) \<times> rstate" where
  "resolve_interrupted env pipe latest es v s =
     (if (case lastGenuineActivity es of Some t \<Rightarrow> clock env - t < RecoveryTransitionGracePeriod env | None \<Rightarrow> False)
      then ((recoveryOutcomeDeferred, None), s)
      else case tryRequeueInterruptedRun env pipe latest es (interrupt_reason v) s of
        (Inl err, s') \<Rightarrow> ((recoveryOutcomeDeferred, Some err), s')
      | (Inr True, s') \<Rightarrow> ((recoveryOutcomeRequeued, None), s')
      | (Inr False, s') \<Rightarrow>
          markRecoveryFailed env (interrupt_reason v)
            (case ambiguousNodeRun v of
               Some nr \<Rightarrow> s'\<lparr>lv := closeDanglingNodeRun nr (interrupt_reason v) (clock env) (lv s')\<rparr>
             | None \<Rightarrow> s'))"

definition resolve_projected :: "renv \<Rightarrow> RunEvent list \<Rightarrow> rstate \<Rightarrow> (recoveryOutcome \<times> string option) \<times> rstate" where
  "resolve_projected env es s =
     (let projected = ProjectRun (rID (the_run s)) es in
      if isTerminalRunStatus (rStatus projected) then
        (case updateErr env of
           Some err \<Rightarrow> ((recoveryOutcomeDeferred, Some (''sync stale snapshot to already-terminal projection: '' @ err)), s)
         | None \<Rightarrow>
             let s1 = log_event RunEventRecoveryCompleted no_payload (clock env) (s\<lparr>lv := UpdateRun projected (lv s)\<rparr>)
             in ((recoveryOutcomeReconciled, None), s1\<lparr>ctr := (ctr s1)\<lparr>RunsRecovered := RunsRecovered (ctr s1) + 1\<rparr>\<rparr>))
      else if rStatus projected = RunStatusPending then ((recoveryOutcomeDeferred, None), s)
      else case resolvePipelineForRun env (rPipelineID (the_run s)) (rPipelineVersion (the_run s)) of
        Inl err \<Rightarrow> markRecoveryFailed env (''cannot resolve pipeline definition (version '' @
                     show_int (rPipelineVersion (the_run s)) @ ''): '' @ err) s
      | Inr pipe \<Rightarrow>
          let latest = latestNodeOutcome (NodeRuns projected); v = judge pipe latest in
          if allSuccess v then finalizeRecoveredRun env RunStatusSuccess [] s
          else case (ambiguousNode v, failedNode v) of
            ([], Some nr) \<Rightarrow> finalizeRecoveredRun env RunStatusFailed (nrError nr) s
          | _ \<Rightarrow> resolve_interrupted env pipe latest es v s)"

definition too_young :: "renv \<Rightarrow> Run_Events.Run \<Rightarrow> bool" where
  "too_young env run \<longleftrightarrow>
     (case rStartedAt run of
        Some t \<Rightarrow> RecoveryMinRunAge env > 0 \<and> clock env - t < RecoveryMinRunAge env
      | None \<Rightarrow> False)"

definition recoverRun :: "renv \<Rightarrow> rstate \<Rightarrow> (recoveryOutcome \<times> nat \<times> string option) \<times> rstate" where
  "recoverRun env s =
     (if rID (the_run s) \<in> activeRuns env \<or> too_young env (the_run s) \<or> externalClaimHeld env (rID (the_run s))
      then ((recoveryOutcomeDeferred, 0, None), s)
      else
        let s1 = log_event RunEventRecoveryStarted no_payload (clock env) s;
            (liveLease, reclaimed, t) =
              (if hasAttemptStore env \<and> attemptsErr env = None
               then reconcileExecutionAttempts (clock env) (rID (the_run s)) (leases s1) else (False, 0, leases s1));
            s2 = s1\<lparr>leases := t\<rparr>
        in if hasAttemptStore env \<and> attemptsErr env \<noteq> None
           then ((recoveryOutcomeDeferred, 0, Some (''reconcile execution attempts: '' @ the (attemptsErr env))), s1)
           else if liveLease then ((recoveryOutcomeDeferred, reclaimed, None), s2)
           else case eventsErr env of
             Some err \<Rightarrow> ((recoveryOutcomeDeferred, reclaimed, Some (''list events: '' @ err)), s2)
           | None \<Rightarrow>
               let es = events (lv s2);
                   s3 = s2\<lparr>ctr := (ctr s2)\<lparr>EventsReplayed := EventsReplayed (ctr s2) + length es\<rparr>\<rparr>;
                   ((outcome, err), s4) = resolve_projected env es s3
               in ((outcome, reclaimed, err), s4))"

section \<open>The latest outcome of a node\<close>

definition latest_of :: "NodeRun list \<Rightarrow> string \<Rightarrow> NodeRun option \<Rightarrow> bool" where
  "latest_of nrs n r \<longleftrightarrow>
     (case r of
        None \<Rightarrow> \<forall>x \<in> set nrs. nrNodeID x \<noteq> n
      | Some nr \<Rightarrow> nr \<in> set nrs \<and> nrNodeID nr = n \<and> (\<forall>x \<in> set nrs. nrNodeID x = n \<longrightarrow> nrAttempt x \<le> nrAttempt nr))"

lemma latest_step_of:
  assumes "\<And>n. latest_of nrs n (map_of latest n)"
  shows "latest_of (nrs @ [nr]) n (map_of (latest_step nr latest) n)"
  using assms[of n] assms[of "nrNodeID nr"]
  by (auto simp: latest_step_def latest_of_def split: option.splits if_splits) (metis le_less_trans less_imp_le)

lemma latestNodeOutcome_latest: "latest_of nrs n (map_of (latestNodeOutcome nrs) n)"
proof (induction nrs arbitrary: n rule: rev_induct)
  case (snoc x xs)
  from latest_step_of[OF snoc] show ?case by (simp add: latestNodeOutcome_def)
qed (simp add: latestNodeOutcome_def latest_of_def)

section \<open>The verdict\<close>

lemma judge_allSuccess_fold:
  "allSuccess (fold (judge_node latest) ns v) \<longleftrightarrow>
     allSuccess v \<and> (\<forall>n \<in> set ns. \<exists>nr. map_of latest (nID n) = Some nr \<and> nrStatus nr \<in> {RunStatusSuccess, RunStatusSkipped})"
  by (induction ns arbitrary: v) (auto simp: judge_node_def split: option.splits)

lemma judge_allSuccess:
  "allSuccess (judge pipe latest) \<longleftrightarrow>
     (\<forall>n \<in> set (Nodes pipe). \<exists>nr. map_of latest (nID n) = Some nr \<and> nrStatus nr \<in> {RunStatusSuccess, RunStatusSkipped})"
  by (simp add: judge_def judge_allSuccess_fold)

definition verdict_ok :: "(string \<times> NodeRun) list \<Rightarrow> VNode list \<Rightarrow> verdict \<Rightarrow> bool" where
  "verdict_ok latest ns v \<longleftrightarrow>
     (\<forall>nr. failedNode v = Some nr \<longrightarrow> (\<exists>n \<in> set ns. map_of latest (nID n) = Some nr \<and> nrStatus nr = RunStatusFailed)) \<and>
     (\<forall>nr. ambiguousNodeRun v = Some nr \<longrightarrow> (\<exists>n \<in> set ns. map_of latest (nID n) = Some nr \<and>
        nrStatus nr \<notin> {RunStatusSuccess, RunStatusSkipped, RunStatusFailed})) \<and>
     (ambiguousNode v = [] \<longleftrightarrow> ambiguousNodeRun v = None) \<and>
     (ambiguousNode v = [] \<longrightarrow> (\<forall>n \<in> set ns. \<forall>nr. map_of latest (nID n) = Some nr \<longrightarrow>
        nrStatus nr \<in> {RunStatusSuccess, RunStatusSkipped, RunStatusFailed}))"

lemma judge_node_ok: "verdict_ok latest ns v \<Longrightarrow> verdict_ok latest (ns @ [n]) (judge_node latest n v)"
  by (cases "map_of latest (nID n)") (auto simp: verdict_ok_def judge_node_def)

lemma judge_ok: "verdict_ok latest (Nodes pipe) (judge pipe latest)"
proof -
  have "verdict_ok latest ns (fold (judge_node latest) ns
      \<lparr>failedNode = None, ambiguousNode = [], ambiguousNodeRun = None, neverStartedNode = [], allSuccess = True\<rparr>)" for ns
    by (induction ns rule: rev_induct) (simp_all add: judge_node_ok, simp add: verdict_ok_def)
  then show ?thesis by (simp add: judge_def)
qed

section \<open>The effect of each branch\<close>

lemma log_event_sel [simp]:
  "leases (log_event ty p now s) = leases s" "jobs (log_event ty p now s) = jobs s" "ctr (log_event ty p now s) = ctr s"
  "cancelRequested (log_event ty p now s) = cancelRequested s" "rOrgID (log_event ty p now s) = rOrgID s"
  "lv (log_event ty p now s) = appendEvent (run_event ty p now) (lv s)"
  by (simp_all add: log_event_def)

lemma appendEvent_sel [simp]:
  "runRow (appendEvent e l) = runRow l" "nodeRows (appendEvent e l) = nodeRows l" "events (appendEvent e l) = events l @ [e]"
  by (simp_all add: appendEvent_def)

lemma UpdateRun_row:
  "UpdateRun ((runRow l)\<lparr>rStatus := a, rFinishedAt := b, rError := c\<rparr>) l = l\<lparr>runRow := (runRow l)\<lparr>rStatus := a, rFinishedAt := b, rError := c\<rparr>\<rparr>"
  "UpdateRun ((runRow l)\<lparr>rStatus := a, rStartedAt := d, rFinishedAt := b, rError := c\<rparr>) l =
     l\<lparr>runRow := (runRow l)\<lparr>rStatus := a, rStartedAt := d, rFinishedAt := b, rError := c\<rparr>\<rparr>"
  by (cases "runRow l"; simp add: UpdateRun_def)+

abbreviation completed :: "int \<Rightarrow> live \<Rightarrow> live" where
  "completed now \<equiv> appendEvent (run_event RunEventRecoveryCompleted no_payload now)"

abbreviation rest_same :: "rstate \<Rightarrow> rstate \<Rightarrow> bool" where
  "rest_same s s' \<equiv> leases s' = leases s \<and> jobs s' = jobs s \<and> cancelRequested s' = cancelRequested s \<and> rOrgID s' = rOrgID s"

lemma finalize_effect:
  assumes "finalizeRecoveredRun env status msg s = ((out, err), s')"
  shows "rest_same s s' \<and>
     (updateErr env = None \<and> out = recoveryOutcomeReconciled \<and> err = None \<and>
        lv s' = completed (clock env) (finishRun RunEventTerminal status msg (clock env) (lv s)) \<or>
      updateErr env \<noteq> None \<and> out = recoveryOutcomeDeferred \<and> err \<noteq> None \<and> s' = s)"
  using assms by (auto simp: finalizeRecoveredRun_def Let_def UpdateRun_row finishRun_def split: option.splits)

lemma mark_effect:
  assumes "markRecoveryFailed env reason s = ((out, err), s')"
  shows "rest_same s s' \<and>
     (updateErr env = None \<and> err = None \<and>
        (cancelRequested s \<and> out = recoveryOutcomeReconciled \<and>
           lv s' = completed (clock env) (finishRun RunEventCancelled RunStatusCancelled
             (''recovery: cancellation was requested before the owning process died ('' @ reason @ '')'') (clock env) (lv s)) \<or>
         \<not> cancelRequested s \<and> out = recoveryOutcomeFailed \<and>
           lv s' = finishRun RunEventRecoveryFailed RunStatusFailed (''recovery: '' @ reason) (clock env) (lv s)) \<or>
      updateErr env \<noteq> None \<and> out = recoveryOutcomeDeferred \<and> err \<noteq> None \<and> s' = s)"
  using assms by (auto simp: markRecoveryFailed_def Let_def UpdateRun_row finishRun_def split: option.splits if_splits)

definition requeued :: "string \<Rightarrow> int \<Rightarrow> live \<Rightarrow> live" where
  "requeued msg now l =
     appendEvent (run_event RunEventRecoveryRequeued (no_payload\<lparr>yStatus := RunStatusPending, yError := msg\<rparr>) now)
       (l\<lparr>runRow := (runRow l)\<lparr>rStatus := RunStatusPending, rStartedAt := None, rFinishedAt := None, rError := msg\<rparr>\<rparr>)"

lemma requeue_job_state [simp]: "requeue_job env (s\<lparr>jobs := a, ctr := b\<rparr>) = requeue_job env s"
  by (simp add: requeue_job_def)

lemma requeue_effect:
  assumes "tryRequeueInterruptedRun env pipe latest es reason s = (r, s')"
  shows "leases s' = leases s \<and> cancelRequested s' = cancelRequested s \<and> rOrgID s' = rOrgID s \<and>
     (r = Inr True \<and> \<not> cancelRequested s \<and> countPriorRequeues es < maxRecoveryRequeues \<and>
        interruptedRunIsSafeToRequeue pipe latest \<and> lv s' = requeued (requeue_msg reason) (clock env) (lv s) \<and>
        (\<exists>enqueue. JobQueue env = Some enqueue \<and>
           jobs s' = jobs s @ (if enqueue (requeue_job env s') then [requeue_job env s'] else [])) \<or>
      (r = Inr False \<or> (\<exists>e. r = Inl e)) \<and> s' = s)"
proof (cases "JobQueue env = None \<or> cancelRequested s \<or> countPriorRequeues es \<ge> maxRecoveryRequeues \<or>
    \<not> interruptedRunIsSafeToRequeue pipe latest \<or> updateErr env \<noteq> None")
  case True
  then have "s' = s \<and> (r = Inr False \<or> (\<exists>e. r = Inl e))"
    using assms by (auto simp: tryRequeueInterruptedRun_def split: option.splits if_splits)
  then show ?thesis by blast
next
  case False
  then obtain enqueue where q: "JobQueue env = Some enqueue" by auto
  let ?s = "log_event RunEventRecoveryRequeued (no_payload\<lparr>yStatus := RunStatusPending, yError := requeue_msg reason\<rparr>) (clock env)
    (s\<lparr>lv := UpdateRun ((the_run s)\<lparr>rStatus := RunStatusPending, rStartedAt := None, rFinishedAt := None,
       rError := requeue_msg reason\<rparr>) (lv s)\<rparr>)"
  have r: "r = Inr True" and s': "s' = ?s\<lparr>jobs := (if enqueue (requeue_job env ?s) then jobs ?s @ [requeue_job env ?s] else jobs ?s),
      ctr := (ctr ?s)\<lparr>RunsRecoveryRequeued := RunsRecoveryRequeued (ctr ?s) + 1\<rparr>\<rparr>"
    using assms False by (simp_all add: tryRequeueInterruptedRun_def q Let_def)
  have "requeue_job env s' = requeue_job env ?s" unfolding s' by simp
  moreover have "lv s' = requeued (requeue_msg reason) (clock env) (lv s)" by (simp add: s' UpdateRun_row requeued_def)
  moreover have "jobs s' = jobs s @ (if enqueue (requeue_job env ?s) then [requeue_job env ?s] else [])" by (simp add: s')
  ultimately show ?thesis using False r q by (simp add: s' not_le)
qed

lemma interrupted_cases:
  assumes "resolve_interrupted env pipe latest es v s = ((out, err), s')"
  obtains (wait) "out = recoveryOutcomeDeferred" "lv s' = lv s" "rest_same s s'"
  | (requeue) msg where "out = recoveryOutcomeRequeued" "lv s' = requeued msg (clock env) (lv s)" "leases s' = leases s"
      "\<not> cancelRequested s" "countPriorRequeues es < maxRecoveryRequeues" "interruptedRunIsSafeToRequeue pipe latest"
      "\<exists>enqueue. JobQueue env = Some enqueue \<and> jobs s' = jobs s @ (if enqueue (requeue_job env s') then [requeue_job env s'] else [])"
  | (close) s0 msg where "markRecoveryFailed env msg s0 = ((out, err), s')" "rest_same s s0"
      "lv s0 = (case ambiguousNodeRun v of Some nr \<Rightarrow> closeDanglingNodeRun nr msg (clock env) (lv s) | None \<Rightarrow> lv s)"
proof (cases "case lastGenuineActivity es of Some t \<Rightarrow> clock env - t < RecoveryTransitionGracePeriod env | None \<Rightarrow> False")
  case True
  then show ?thesis using assms wait by (simp add: resolve_interrupted_def)
next
  case False
  obtain r s1 where t: "tryRequeueInterruptedRun env pipe latest es (interrupt_reason v) s = (r, s1)" by fastforce
  note eff = requeue_effect[OF t]
  show ?thesis
  proof (cases r)
    case (Inl e)
    then have "s1 = s" using eff by auto
    then show ?thesis using assms wait Inl False by (simp add: resolve_interrupted_def t)
  next
    case (Inr b)
    show ?thesis
    proof (cases b)
      case True
      then have "out = recoveryOutcomeRequeued" "s' = s1"
        using assms False Inr by (simp_all add: resolve_interrupted_def t)
      then show ?thesis using requeue[of "requeue_msg (interrupt_reason v)"] eff Inr True by auto
    next
      case f: False
      then have "s1 = s" using eff Inr by auto
      then have "markRecoveryFailed env (interrupt_reason v)
         (case ambiguousNodeRun v of
               Some nr \<Rightarrow> s\<lparr>lv := closeDanglingNodeRun nr (interrupt_reason v) (clock env) (lv s)\<rparr>
             | None \<Rightarrow> s) = ((out, err), s')"
        using assms False f Inr by (simp add: resolve_interrupted_def t)
      then show ?thesis by (rule close) (auto split: option.split)
    qed
  qed
qed

lemma projected_cases:
  assumes "resolve_projected env es s = ((out, err), s')"
  defines "projected \<equiv> ProjectRun (rID (the_run s)) es"
  obtains (wait) "out = recoveryOutcomeDeferred" "lv s' = lv s" "rest_same s s'"
  | (sync) "out = recoveryOutcomeReconciled" "isTerminalRunStatus (rStatus projected)" "rest_same s s'"
      "lv s' = completed (clock env) (UpdateRun projected (lv s))"
  | (unresolved) msg where "\<not> isTerminalRunStatus (rStatus projected)" "markRecoveryFailed env msg s = ((out, err), s')"
  | (judged) pipe v where "\<not> isTerminalRunStatus (rStatus projected)" "rStatus projected \<noteq> RunStatusPending"
      "resolvePipelineForRun env (rPipelineID (the_run s)) (rPipelineVersion (the_run s)) = Inr pipe"
      "v = judge pipe (latestNodeOutcome (NodeRuns projected))"
      "allSuccess v \<and> finalizeRecoveredRun env RunStatusSuccess [] s = ((out, err), s') \<or>
       \<not> allSuccess v \<and> ambiguousNode v = [] \<and>
         (\<exists>nr. failedNode v = Some nr \<and> finalizeRecoveredRun env RunStatusFailed (nrError nr) s = ((out, err), s')) \<or>
       \<not> allSuccess v \<and> (ambiguousNode v \<noteq> [] \<or> failedNode v = None) \<and>
         resolve_interrupted env pipe (latestNodeOutcome (NodeRuns projected)) es v s = ((out, err), s')"
proof (cases "isTerminalRunStatus (rStatus projected)")
  case True
  show ?thesis
  proof (cases "updateErr env")
    case None
    then show ?thesis using sync assms True by (simp add: resolve_projected_def Let_def) auto
  next
    case (Some e)
    then show ?thesis using wait assms True by (simp add: resolve_projected_def Let_def)
  qed
next
  case live: False
  show ?thesis
  proof (cases "rStatus projected = RunStatusPending")
    case True
    then show ?thesis using wait assms live by (simp add: resolve_projected_def Let_def)
  next
    case False
    show ?thesis
    proof (cases "resolvePipelineForRun env (rPipelineID (the_run s)) (rPipelineVersion (the_run s))")
      case (Inl e)
      then show ?thesis using unresolved[OF live] assms live False by (simp add: resolve_projected_def Let_def)
    next
      case (Inr pipe)
      then show ?thesis using assms live False
        by (intro judged[OF live False Inr refl])
          (auto simp: resolve_projected_def Let_def split: if_splits list.splits option.splits)
    qed
  qed
qed

abbreviation started :: "int \<Rightarrow> live \<Rightarrow> live" where
  "started now \<equiv> appendEvent (run_event RunEventRecoveryStarted no_payload now)"

text \<open>Somebody else may own the run: one of the reasons for which recovery leaves it alone.\<close>

definition owned :: "renv \<Rightarrow> rstate \<Rightarrow> bool" where
  "owned env s \<longleftrightarrow>
     rID (the_run s) \<in> activeRuns env \<or> too_young env (the_run s) \<or> externalClaimHeld env (rID (the_run s)) \<or>
     hasAttemptStore env \<and> attemptsErr env = None \<and>
       (\<exists>k a. ((rID (the_run s), k), a) \<in> set (leases s) \<and> live_lease (clock env) a)"

lemma reconcile_live:
  "fst (reconcileExecutionAttempts now runID t) \<longleftrightarrow> (\<exists>k a. ((runID, k), a) \<in> set t \<and> live_lease now a)"
  by (force simp: reconcileExecutionAttempts_def Let_def ListExecutionAttemptsByRun_def)

lemma reconcile_live_same:
  "fst (reconcileExecutionAttempts now runID t) \<Longrightarrow> snd (reconcileExecutionAttempts now runID t) = (0, t)"
  by (auto simp: reconcileExecutionAttempts_def Let_def split: if_splits)

definition reclaimed_leases :: "renv \<Rightarrow> rstate \<Rightarrow> attempts" where
  "reclaimed_leases env s =
     (if hasAttemptStore env then snd (snd (reconcileExecutionAttempts (clock env) (rID (the_run s)) (leases s))) else leases s)"

lemma recover_owned:
  assumes "owned env s"
  shows "fst (fst (recoverRun env s)) = recoveryOutcomeDeferred \<and> rest_same s (snd (recoverRun env s)) \<and>
    (lv (snd (recoverRun env s)) = lv s \<or> lv (snd (recoverRun env s)) = started (clock env) (lv s))"
proof (cases "rID (the_run s) \<in> activeRuns env \<or> too_young env (the_run s) \<or> externalClaimHeld env (rID (the_run s))")
  case True
  then show ?thesis by (simp add: recoverRun_def)
next
  case False
  then have l: "hasAttemptStore env" "attemptsErr env = None" "fst (reconcileExecutionAttempts (clock env) (rID (the_run s)) (leases s))"
    using assms by (auto simp: owned_def reconcile_live)
  then have "reconcileExecutionAttempts (clock env) (rID (the_run s)) (leases s) = (True, 0, leases s)"
    using reconcile_live_same[OF l(3)] by (simp add: prod_eq_iff)
  then show ?thesis using False l by (simp add: recoverRun_def Let_def)
qed

lemma recover_cases:
  assumes "recoverRun env s = ((out, n, err), s')"
  obtains (left) "out = recoveryOutcomeDeferred" "lv s' = lv s \<or> lv s' = started (clock env) (lv s)" "jobs s' = jobs s"
      "cancelRequested s' = cancelRequested s"
  | (judged) s3 where "\<not> owned env s" "resolve_projected env (events (lv s3)) s3 = ((out, err), s')"
      "lv s3 = started (clock env) (lv s)" "leases s3 = reclaimed_leases env s" "jobs s3 = jobs s"
      "cancelRequested s3 = cancelRequested s" "rOrgID s3 = rOrgID s"
proof (cases "owned env s")
  case True
  then show ?thesis using recover_owned[OF True] assms left by auto
next
  case free: False
  then have g: "\<not> (rID (the_run s) \<in> activeRuns env \<or> too_young env (the_run s) \<or> externalClaimHeld env (rID (the_run s)))"
    by (auto simp: owned_def)
  obtain b m t where r: "(if hasAttemptStore env \<and> attemptsErr env = None
      then reconcileExecutionAttempts (clock env) (rID (the_run s)) (leases s) else (False, 0, leases s)) = (b, m, t)"
    by (cases "if hasAttemptStore env \<and> attemptsErr env = None
      then reconcileExecutionAttempts (clock env) (rID (the_run s)) (leases s) else (False, 0, leases s)") auto
  show ?thesis
  proof (cases "hasAttemptStore env \<and> attemptsErr env \<noteq> None \<or> eventsErr env \<noteq> None")
    case True
    then show ?thesis using assms g r by (intro left) (auto simp: recoverRun_def Let_def split: if_splits option.splits)
  next
    case False
    have b: "\<not> b"
      using free r False reconcile_live[of "clock env" "rID (the_run s)" "leases s"] by (fastforce simp: owned_def split: if_splits)
    have t: "t = reclaimed_leases env s" using r False by (auto simp: reclaimed_leases_def split: if_splits)
    let ?s1 = "log_event RunEventRecoveryStarted no_payload (clock env) s"
    let ?s3 = "?s1\<lparr>leases := t, ctr := (ctr ?s1)\<lparr>EventsReplayed := EventsReplayed (ctr ?s1) + length (events (lv ?s1))\<rparr>\<rparr>"
    have "resolve_projected env (events (lv ?s3)) ?s3 = ((out, err), s')"
    proof (cases "hasAttemptStore env")
      case True
      then have "reconcileExecutionAttempts (clock env) (rID (the_run s)) (leases s) = (b, m, t)" using r False by simp
      then show ?thesis using assms g b False True by (simp add: recoverRun_def Let_def split: prod.splits)
    next
      case no: False
      then show ?thesis using assms g r False no by (simp add: recoverRun_def Let_def split: prod.splits)
    qed
    from judged[OF free this] t show ?thesis by simp
  qed
qed

section \<open>Recovery leaves the work of others alone\<close>

lemma ProjectRun_ignored:
  assumes "\<And>st. project_event runID e st = st"
  shows "ProjectRun runID (es @ [e]) = ProjectRun runID es"
  using assms by (simp add: ProjectRun_def replay_snoc)

lemma started_ignored: "project_event runID (run_event RunEventRecoveryStarted p now) st = st"
  by (simp add: project_event_def run_event_def)

lemma completed_ignored: "project_event runID (run_event RunEventRecoveryCompleted p now) st = st"
  by (simp add: project_event_def run_event_def)

text \<open>
  C6. Recovery never takes over a run that somebody may own: when this process executes it, when
  it started too recently, when another executor holds a claim (or the check for one panics), or
  when any of its attempts has a lease that has not lapsed, the run is deferred, with its row, its
  node rows, its leases, the queue and the state that its log stands for unchanged.
\<close>

theorem recovery_defers_to_owner:
  assumes "owned env s" and "recoverRun env s = ((out, n, err), s')"
  shows "out = recoveryOutcomeDeferred \<and> the_run s' = the_run s \<and> nodeRows (lv s') = nodeRows (lv s) \<and> leases s' = leases s \<and>
    jobs s' = jobs s \<and> ProjectRun (rID (the_run s')) (events (lv s')) = ProjectRun (rID (the_run s)) (events (lv s))"
proof -
  have "out = recoveryOutcomeDeferred" "rest_same s s'" and lv: "lv s' = lv s \<or> lv s' = started (clock env) (lv s)"
    using recover_owned[OF assms(1)] assms(2) by simp_all
  moreover have "the_run s' = the_run s" "nodeRows (lv s') = nodeRows (lv s)" using lv by auto
  moreover have "ProjectRun (rID (the_run s')) (events (lv s')) = ProjectRun (rID (the_run s)) (events (lv s))"
    using lv ProjectRun_ignored[OF started_ignored] by auto
  ultimately show ?thesis by blast
qed

definition demo_env :: renv where
  "demo_env = \<lparr>clock = 100, activeRuns = {}, RecoveryMinRunAge = 30, ExternalRunClaim = None, hasAttemptStore = True,
     RecoveryTransitionGracePeriod = 20, JobQueue = Some (\<lambda>_. True), GetPipeline = (\<lambda>_. Inl ''none''),
     GetPipelineVersion = (\<lambda>_ _. Inr ''snapshot''),
     decodeSnapshot = (\<lambda>_. Inr \<lparr>pID = ''p1'', IRVersion = [], pName = ''p'', Description = [],
       Nodes = [zeroVNode\<lparr>nID := ''n1'', nType := ''transform''\<rparr>], Edges = [], Schedule = [], ScheduleTimezone = [],
       SLADeadline = [], SLATimezone = [], pDependsOn = [], pDependencyRules = []\<rparr>),
     attemptsErr = None, eventsErr = None, updateErr = None\<rparr>"

definition demo_lease :: "int \<Rightarrow> attempts" where
  "demo_lease until = [((''r1'', ''n1'', [], 0), \<lparr>aStatus = AttemptStatusClaimed, ClaimedBy = ''w1'', LeaseExpiresAt = Some until,
     FencingGeneration = 1, IdempotencyKey = ''k'', aError = []\<rparr>)]"

definition demo_state :: "live \<Rightarrow> int \<Rightarrow> rstate" where
  "demo_state l until = \<lparr>lv = l, cancelRequested = False, rOrgID = ''org'', leases = demo_lease until, jobs = [],
     ctr = \<lparr>RunsRecovered = 0, RunsRecoveryFailed = 0, RunsRecoveryRequeued = 0, cRunsFailed = 0, RunsSucceeded = 0, EventsReplayed = 0\<rparr>\<rparr>"

lemma demo_live [simp]: "lv (demo_state l u) = l" "leases (demo_state l u) = demo_lease u" "cancelRequested (demo_state l u) = False"
  by (simp_all add: demo_state_def)

theorem recovery_defers_to_owner_witness:
  "fst (fst (recoverRun demo_env (demo_state demo_attempt 105))) = recoveryOutcomeDeferred \<and>
   the_run (snd (recoverRun demo_env (demo_state demo_attempt 105))) = runRow demo_attempt"
proof -
  have "rID (runRow demo_attempt) = ''r1''"
    by (simp add: demo_attempt_def startAttempt_def Let_def appendEvent_def demo_start_def startRun_def no_run_def)
  then have "owned demo_env (demo_state demo_attempt 105)"
    by (simp add: owned_def demo_env_def demo_lease_def live_lease_def isTerminalAttemptStatus_def)
  from recovery_defers_to_owner[OF this] show ?thesis
    by (cases "recoverRun demo_env (demo_state demo_attempt 105)") auto
qed

section \<open>The outcome and the row\<close>

lemma finishRun_sel [simp]:
  "runRow (finishRun ty status msg now l) = (runRow l)\<lparr>rStatus := status, rFinishedAt := Some now, rError := msg\<rparr>"
  "nodeRows (finishRun ty status msg now l) = nodeRows l"
  by (simp_all add: finishRun_def)

lemma requeued_sel [simp]:
  "runRow (requeued msg now l) = (runRow l)\<lparr>rStatus := RunStatusPending, rStartedAt := None, rFinishedAt := None, rError := msg\<rparr>"
  "nodeRows (requeued msg now l) = nodeRows l"
  by (simp_all add: requeued_def)

lemma closeDangling_row [simp]: "runRow (closeDanglingNodeRun nr reason now l) = runRow l"
  by (simp add: closeDanglingNodeRun_def Let_def)

definition outcome_ok :: "recoveryOutcome \<Rightarrow> string option \<Rightarrow> Run_Events.Run \<Rightarrow> Run_Events.Run \<Rightarrow> bool" where
  "outcome_ok out err run run' \<longleftrightarrow>
     (case out of
        recoveryOutcomeDeferred \<Rightarrow> run' = run
      | recoveryOutcomeReconciled \<Rightarrow> err = None \<and> isTerminalRunStatus (rStatus run')
      | recoveryOutcomeRequeued \<Rightarrow> err = None \<and> rStatus run' = RunStatusPending \<and> rStartedAt run' = None \<and> rFinishedAt run' = None
      | recoveryOutcomeFailed \<Rightarrow> err = None \<and> rStatus run' = RunStatusFailed)"

lemma finalize_outcome:
  "finalizeRecoveredRun env status msg s = ((out, err), s') \<Longrightarrow> isTerminalRunStatus status \<Longrightarrow> outcome_ok out err (the_run s) (the_run s')"
  using finalize_effect[of env status msg s out err s'] by (auto simp: outcome_ok_def)

lemma mark_outcome: "markRecoveryFailed env msg s = ((out, err), s') \<Longrightarrow> outcome_ok out err (the_run s) (the_run s')"
  using mark_effect[of env msg s out err s'] by (auto simp: outcome_ok_def isTerminalRunStatus_def)

lemma interrupted_outcome:
  assumes "resolve_interrupted env pipe latest es v s = ((out, err), s')"
  shows "outcome_ok out err (the_run s) (the_run s')"
proof -
  have err: "out = recoveryOutcomeRequeued \<Longrightarrow> err = None"
    using assms by (auto simp: resolve_interrupted_def split: prod.splits sum.splits bool.splits if_splits dest!: mark_effect)
  from assms show ?thesis
  proof (cases rule: interrupted_cases)
    case (close s0 msg)
    then have "the_run s0 = the_run s" by (simp split: option.splits)
    then show ?thesis using mark_outcome[OF close(1)] by simp
  qed (use err in \<open>auto simp: outcome_ok_def\<close>)
qed

lemma projected_outcome:
  assumes "resolve_projected env es s = ((out, err), s')"
  shows "outcome_ok out err (the_run s) (the_run s')"
  using assms
proof (cases rule: projected_cases)
  case sync
  moreover have "err = None"
    using assms sync(1,2) by (auto simp: resolve_projected_def Let_def split: option.splits)
  ultimately show ?thesis by (auto simp: outcome_ok_def UpdateRun_def)
next
  case (judged pipe v)
  have t: "isTerminalRunStatus RunStatusSuccess" "isTerminalRunStatus RunStatusFailed" by (simp_all add: isTerminalRunStatus_def)
  from judged(5) show ?thesis by (elim disjE conjE exE) (erule finalize_outcome[OF _ t(1)] finalize_outcome[OF _ t(2)] interrupted_outcome)+
qed (auto simp: outcome_ok_def dest: mark_outcome)

text \<open>
  What recovery reports is what it did. A run reported as reconciled has a terminal status; one
  reported as failed is failed; one reported as put back is pending with its times cleared; a
  deferred run's row is exactly as it was; and an error is only ever reported with a deferral.
\<close>

lemma recovery_outcome_matches_row:
  assumes "recoverRun env s = ((out, n, err), s')"
  shows "outcome_ok out err (the_run s) (the_run s')"
  using assms
proof (cases rule: recover_cases)
  case (judged s3)
  then show ?thesis using projected_outcome[OF judged(2)] by simp
qed (auto simp: outcome_ok_def)

lemma demo_requeued:
  "fst (recoverRun demo_env (demo_state demo_attempt 50)) = (recoveryOutcomeRequeued, 1, None)"
  by code_simp

lemma recovery_outcome_matches_row_witness:
  "rStatus (the_run (snd (recoverRun demo_env (demo_state demo_attempt 50)))) = RunStatusPending"
proof -
  have "recoverRun demo_env (demo_state demo_attempt 50) =
      ((recoveryOutcomeRequeued, 1, None), snd (recoverRun demo_env (demo_state demo_attempt 50)))"
    using demo_requeued by (simp add: prod_eq_iff)
  from recovery_outcome_matches_row[OF this] show ?thesis by (simp add: outcome_ok_def)
qed

section \<open>Log and rows after recovery\<close>

lemma closeDangling_failAttempt: "closeDanglingNodeRun nr reason now l = failAttempt nr (nrDurationMs nr) reason now l"
  by (cases nr) (simp add: closeDanglingNodeRun_def failAttempt_def Let_def)

definition agree :: "live \<Rightarrow> bool" where "agree l \<longleftrightarrow> replays l \<and> row_inv l"

lemma agree_step: "step l l' \<Longrightarrow> agree l \<Longrightarrow> agree l'"
  using step_inv by (auto simp: agree_def)

lemma agree_ignored: "(\<And>st. project_event (rID (runRow l)) e st = st) \<Longrightarrow> agree l \<Longrightarrow> agree (appendEvent e l)"
  by (simp add: agree_def replays_ignored row_inv_append)

lemma agree_finish:
  "ty = RunEventTerminal \<or> ty = RunEventCancelled \<or> ty = RunEventRecoveryFailed \<Longrightarrow> agree l \<Longrightarrow> agree (finishRun ty status msg now l)"
  by (simp add: agree_def replays_finish row_inv_finish)

lemma agree_requeued: "agree l \<Longrightarrow> agree (requeued msg now l)"
  unfolding agree_def
proof (intro conjI)
  assume a: "replays l \<and> row_inv l"
  then show "replays (requeued msg now l)"
    unfolding requeued_def by (intro replays_run_event) (auto simp: run_event_def project_event_def no_payload_def)
  show "row_inv (requeued msg now l)" using a by (simp add: row_inv_def)
qed

lemma agree_close: "nr \<in> set (nodeRows l) \<Longrightarrow> agree l \<Longrightarrow> agree (closeDanglingNodeRun nr reason now l)"
  unfolding closeDangling_failAttempt by (rule agree_step[OF step.fail_attempt])

lemma agree_projected: "agree l \<Longrightarrow> ProjectRun (rID (runRow l)) (events l) = (runRow l)\<lparr>NodeRuns := nodeRows l\<rparr>"
  by (simp add: agree_def replays_ProjectRun)

lemma UpdateRun_self: "UpdateRun ((runRow l)\<lparr>NodeRuns := x\<rparr>) l = l"
  by (cases l; cases "runRow l") (simp add: UpdateRun_def)

lemma agree_sync: "agree l \<Longrightarrow> UpdateRun (ProjectRun (rID (runRow l)) (events l)) l = l"
  by (simp add: agree_projected UpdateRun_self)

lemma mark_agree: "markRecoveryFailed env msg s = ((out, err), s') \<Longrightarrow> agree (lv s) \<Longrightarrow> agree (lv s')"
  by (drule mark_effect) (auto intro!: agree_ignored completed_ignored agree_finish)

lemma finalize_agree: "finalizeRecoveredRun env status msg s = ((out, err), s') \<Longrightarrow> agree (lv s) \<Longrightarrow> agree (lv s')"
  by (drule finalize_effect) (auto intro!: agree_ignored completed_ignored agree_finish)

lemma ambiguous_row:
  assumes "ambiguousNodeRun (judge pipe (latestNodeOutcome nrs)) = Some nr"
  shows "nr \<in> set nrs"
proof -
  obtain n where "map_of (latestNodeOutcome nrs) n = Some nr" using judge_ok assms by (fastforce simp: verdict_ok_def)
  then show ?thesis using latestNodeOutcome_latest[of nrs n] by (simp add: latest_of_def)
qed

lemma projected_agree:
  assumes "resolve_projected env (events (lv s)) s = ((out, err), s')" "agree (lv s)"
  shows "agree (lv s')"
  using assms(1)
proof (cases rule: projected_cases)
  case (judged pipe v)
  from judged(5) consider (fin) status msg where "finalizeRecoveredRun env status msg s = ((out, err), s')"
    | (int) latest where "resolve_interrupted env pipe latest (events (lv s)) v s = ((out, err), s')" by blast
  then show ?thesis
  proof cases
    case int
    then show ?thesis
    proof (cases rule: interrupted_cases)
      case (close s0 msg)
      have "nr \<in> set (nodeRows (lv s))" if "ambiguousNodeRun v = Some nr" for nr
        using ambiguous_row that judged(4) agree_projected[OF assms(2)] by auto
      then have "agree (lv s0)" using close(3) assms(2) agree_close by (auto split: option.splits)
      then show ?thesis using mark_agree[OF close(1)] by simp
    qed (use assms(2) in \<open>auto intro: agree_requeued\<close>)
  qed (use finalize_agree assms(2) in blast)
next
  case sync
  then show ?thesis using agree_sync[OF assms(2)] by (simp add: agree_ignored completed_ignored assms(2))
qed (use assms(2) mark_agree in auto)

lemma recover_agree:
  assumes "agree (lv s)"
  shows "agree (lv (snd (recoverRun env s)))"
proof -
  obtain out n err s' where r: "recoverRun env s = ((out, n, err), s')" by (metis surj_pair)
  then show ?thesis
  proof (cases rule: recover_cases)
    case left
    then show ?thesis using r assms agree_ignored[OF started_ignored] by auto
  next
    case (judged s3)
    then show ?thesis using projected_agree[OF judged(2)] r assms agree_ignored[OF started_ignored] by auto
  qed
qed

section \<open>The verdict is what the attempts say\<close>

text \<open>The last attempt of a node among the rows of the run.\<close>

definition last_attempt :: "live \<Rightarrow> string \<Rightarrow> NodeRun \<Rightarrow> bool" where
  "last_attempt l n nr \<longleftrightarrow> nr \<in> set (nodeRows l) \<and> nrNodeID nr = n \<and> (\<forall>x \<in> set (nodeRows l). nrNodeID x = n \<longrightarrow> nrAttempt x \<le> nrAttempt nr)"

lemma latest_last_attempt: "map_of (latestNodeOutcome (nodeRows l)) n = Some nr \<Longrightarrow> last_attempt l n nr"
  using latestNodeOutcome_latest[of "nodeRows l" n] by (simp add: latest_of_def last_attempt_def)

lemma finalize_status:
  "finalizeRecoveredRun env status msg s = ((recoveryOutcomeReconciled, err), s') \<Longrightarrow>
     rStatus (the_run s') = status \<and> rError (the_run s') = msg"
  using finalize_effect[of env status msg s recoveryOutcomeReconciled err s'] by auto

lemma interrupted_reconciled:
  assumes "resolve_interrupted env pipe latest es v s = ((recoveryOutcomeReconciled, err), s')"
  shows "rStatus (the_run s') = RunStatusCancelled \<and> cancelRequested s"
  using assms by (cases rule: interrupted_cases) (auto dest!: mark_effect)

lemma projected_verdict:
  assumes "resolve_projected env (events (lv s)) s = ((recoveryOutcomeReconciled, err), s')" "agree (lv s)"
    and "\<not> isTerminalRunStatus (rStatus (the_run s))"
  shows "rStatus (the_run s') = RunStatusCancelled \<and> cancelRequested s \<or>
    (\<exists>pipe. resolvePipelineForRun env (rPipelineID (the_run s)) (rPipelineVersion (the_run s)) = Inr pipe \<and>
       (rStatus (the_run s') = RunStatusSuccess \<and>
          (\<forall>n \<in> set (Nodes pipe). \<exists>nr. last_attempt (lv s) (nID n) nr \<and> nrStatus nr \<in> {RunStatusSuccess, RunStatusSkipped}) \<or>
        rStatus (the_run s') = RunStatusFailed \<and>
          (\<exists>n \<in> set (Nodes pipe). \<exists>nr. last_attempt (lv s) (nID n) nr \<and> nrStatus nr = RunStatusFailed \<and>
             nrError nr = rError (the_run s')) \<and>
          (\<forall>n \<in> set (Nodes pipe). \<forall>nr. map_of (latestNodeOutcome (nodeRows (lv s))) (nID n) = Some nr \<longrightarrow>
             nrStatus nr \<in> {RunStatusSuccess, RunStatusSkipped, RunStatusFailed})))"
  using assms(1)
proof (cases rule: projected_cases)
  case sync
  then show ?thesis using assms(3) agree_projected[OF assms(2)] by simp
next
  case (unresolved msg)
  then show ?thesis by (auto dest!: mark_effect)
next
  case (judged pipe v)
  have v: "v = judge pipe (latestNodeOutcome (nodeRows (lv s)))" using judged(4) agree_projected[OF assms(2)] by simp
  from judged(5) show ?thesis
  proof (elim disjE conjE exE)
    assume "allSuccess v" "finalizeRecoveredRun env RunStatusSuccess [] s = ((recoveryOutcomeReconciled, err), s')"
    then show ?thesis using judged(3) finalize_status v latest_last_attempt by (fastforce simp: judge_allSuccess)
  next
    fix nr
    assume a: "ambiguousNode v = []" "failedNode v = Some nr"
      "finalizeRecoveredRun env RunStatusFailed (nrError nr) s = ((recoveryOutcomeReconciled, err), s')"
    have ok: "verdict_ok (latestNodeOutcome (nodeRows (lv s))) (Nodes pipe) v" unfolding v by (rule judge_ok)
    then obtain n where "n \<in> set (Nodes pipe)" "last_attempt (lv s) (nID n) nr" "nrStatus nr = RunStatusFailed"
      using a(2) latest_last_attempt by (fastforce simp: verdict_ok_def)
    moreover have "\<forall>n \<in> set (Nodes pipe). \<forall>nr. map_of (latestNodeOutcome (nodeRows (lv s))) (nID n) = Some nr \<longrightarrow>
        nrStatus nr \<in> {RunStatusSuccess, RunStatusSkipped, RunStatusFailed}" using ok a(1) unfolding verdict_ok_def by blast
    ultimately show ?thesis
      using judged(3) conjunct1[OF finalize_status[OF a(3)]] conjunct2[OF finalize_status[OF a(3)], symmetric] by blast
  qed (drule interrupted_reconciled, blast)+
qed simp

text \<open>
  C1. Recovery never makes up an outcome. When it reconciles a run that has not ended, whose log
  and rows agree, then the run is a success only if the last attempt of every node of its pipeline
  was a success or a skip, and failed only if no node was in flight and the last attempt of some
  node failed, with the error that the run then carries; otherwise it is cancelled, and a cancel had been requested.
\<close>

theorem recovery_verdict_sound:
  assumes "recoverRun env s = ((recoveryOutcomeReconciled, n, err), s')" and "agree (lv s)"
    and "\<not> isTerminalRunStatus (rStatus (the_run s))"
  shows "rStatus (the_run s') = RunStatusCancelled \<and> cancelRequested s \<or>
    (\<exists>pipe. resolvePipelineForRun env (rPipelineID (the_run s)) (rPipelineVersion (the_run s)) = Inr pipe \<and>
       (rStatus (the_run s') = RunStatusSuccess \<and>
          (\<forall>n \<in> set (Nodes pipe). \<exists>nr. last_attempt (lv s) (nID n) nr \<and> nrStatus nr \<in> {RunStatusSuccess, RunStatusSkipped}) \<or>
        rStatus (the_run s') = RunStatusFailed \<and>
          (\<exists>n \<in> set (Nodes pipe). \<exists>nr. last_attempt (lv s) (nID n) nr \<and> nrStatus nr = RunStatusFailed \<and>
             nrError nr = rError (the_run s')) \<and>
          (\<forall>n \<in> set (Nodes pipe). \<forall>nr. map_of (latestNodeOutcome (nodeRows (lv s))) (nID n) = Some nr \<longrightarrow>
             nrStatus nr \<in> {RunStatusSuccess, RunStatusSkipped, RunStatusFailed})))"
  using assms(1)
proof (cases rule: recover_cases)
  case (judged s3)
  have rows: "runRow (lv s3) = runRow (lv s)" "nodeRows (lv s3) = nodeRows (lv s)" using judged(3) by auto
  have "agree (lv s3)" using agree_ignored[OF started_ignored assms(2)] judged(3) by simp
  from projected_verdict[OF judged(2) this] show ?thesis using assms(3) unfolding last_attempt_def rows judged(6) by simp
qed simp

lemma demo_done_agree: "agree demo_done"
proof -
  have "created demo_start" unfolding created_def demo_start_def by blast
  then have "agree demo_start" using created_inv by (simp add: agree_def)
  then have "agree demo_attempt"
    unfolding demo_attempt_def by (rule agree_step[rotated], intro step.start) (simp_all add: demo_start_def startRun_def)
  then show ?thesis unfolding demo_done_def
    by (rule agree_step[rotated], intro step.complete) (simp add: demo_attempt_def startAttempt_def Let_def demo_start_def startRun_def)
qed

lemma demo_reconciled:
  "fst (recoverRun demo_env (demo_state demo_done 50)) = (recoveryOutcomeReconciled, 1, None)"
  "rStatus (the_run (snd (recoverRun demo_env (demo_state demo_done 50)))) = RunStatusSuccess"
  "isTerminalRunStatus (rStatus (runRow demo_done)) = False"
  by code_simp+

theorem recovery_verdict_sound_witness:
  "\<exists>nr. last_attempt demo_done ''n1'' nr \<and> nrStatus nr \<in> {RunStatusSuccess, RunStatusSkipped}"
proof -
  have "recoverRun demo_env (demo_state demo_done 50) =
      ((recoveryOutcomeReconciled, 1, None), snd (recoverRun demo_env (demo_state demo_done 50)))"
    using demo_reconciled(1) by (simp add: prod_eq_iff)
  moreover have "agree (lv (demo_state demo_done 50))" using demo_done_agree by simp
  moreover have "\<not> isTerminalRunStatus (rStatus (the_run (demo_state demo_done 50)))" using demo_reconciled(3) by simp
  moreover have "rPipelineVersion (runRow demo_done) = 1" by code_simp
  ultimately show ?thesis
    using recovery_verdict_sound[of demo_env "demo_state demo_done 50"] demo_reconciled(2)
    by (fastforce simp: demo_env_def resolvePipelineForRun_def)
qed

section \<open>Histories with interruptions\<close>

text \<open>
  The life of a run: anything that any writer does, with no condition on when it does it (so also a second execution
  that starts the same attempts again), requests to cancel the run, changes of its leases, and recovery at any time, in
  whatever surroundings.
\<close>

inductive writer :: "live \<Rightarrow> live \<Rightarrow> bool" where
  "writer l (publishRun now l)"
| "writer l (snd (claimRun startedAt traceID params l))"
| "writer l (snd (cancelPendingRun now l))"
| "writer l (cancelLocalRun now l)"
| "writer l (succeedRun now l)"
| "writer l (failRun cancelled msg now l)"
| "writer l (failAcceptedRun msg now l)"
| "writer l (startAttempt claimed node attempt nrid t0 t1 q sp l)"
| "writer l (completeAttempt nr dur cnt rps dec now l)"
| "writer l (failAttempt nr dur msg now l)"
| "writer l (scheduleRetry node attempt msg ms now l)"
| "writer l (persistSkippedOutcome node nrid t0 reused dec art l)"
| "writer l (parkRun node cond now l)"
| "writer l (snd (wakeRun now l))"
| "writer l (snd (timeoutParkedRun node msg now l))"

inductive lives :: "rstate \<Rightarrow> rstate \<Rightarrow> bool" where
  executes: "writer (lv s) l \<Longrightarrow> lives s (s\<lparr>lv := l\<rparr>)"
| leased: "lives s (s\<lparr>leases := t\<rparr>)"
| intends_cancel: "lives s (s\<lparr>cancelRequested := True\<rparr>)"
| recovers: "lives s (snd (recoverRun env s))"

inductive_cases writerE: "writer l l'"

lemma count_snoc [simp]:
  "countPriorRequeues (es @ [e]) = countPriorRequeues es + (if EventType e = RunEventRecoveryRequeued then 1 else 0)"
  by (simp add: countPriorRequeues_def)

lemma event_types [simp]: "EventType (run_event ty p t) = ty" "EventType (node_event n a ty p t) = ty"
  by (simp_all add: run_event_def node_event_def)

lemma finishRun_count: "ty \<noteq> RunEventRecoveryRequeued \<Longrightarrow> countPriorRequeues (events (finishRun ty st msg now l)) = countPriorRequeues (events l)"
  by (simp add: finishRun_def)

lemma writer_count: "writer l l' \<Longrightarrow> countPriorRequeues (events l') = countPriorRequeues (events l)"
  by (erule writerE)
    (simp_all add: publishRun_def claimRun_def cancelPendingRun_def cancelLocalRun_def succeedRun_def failRun_def finalizeCancelled_def
      failAcceptedRun_def startAttempt_def completeAttempt_def failAttempt_def scheduleRetry_def persistSkippedOutcome_def parkRun_def
      wakeRun_def timeoutParkedRun_def Let_def finishRun_count)

lemma mark_count: "markRecoveryFailed env msg s = ((out, err), s') \<Longrightarrow> countPriorRequeues (events (lv s')) = countPriorRequeues (events (lv s))"
  by (drule mark_effect) (auto simp: finishRun_count)

lemma finalize_count:
  "finalizeRecoveredRun env st msg s = ((out, err), s') \<Longrightarrow> countPriorRequeues (events (lv s')) = countPriorRequeues (events (lv s))"
  by (drule finalize_effect) (auto simp: finishRun_count)

lemma closeDangling_count: "countPriorRequeues (events (closeDanglingNodeRun nr reason now l)) = countPriorRequeues (events l)"
  by (simp add: closeDanglingNodeRun_def Let_def)

lemma interrupted_count:
  assumes "resolve_interrupted env pipe latest (events (lv s)) v s = ((out, err), s')"
    and "countPriorRequeues (events (lv s)) \<le> maxRecoveryRequeues"
  shows "countPriorRequeues (events (lv s')) \<le> maxRecoveryRequeues"
  using assms(1)
proof (cases rule: interrupted_cases)
  case (requeue msg)
  then show ?thesis using assms(2) by (simp add: requeued_def)
next
  case (close s0 msg)
  then show ?thesis using mark_count[OF close(1)] assms(2) by (simp add: closeDangling_count split: option.splits)
qed (use assms(2) in simp)

lemma projected_count:
  assumes "resolve_projected env (events (lv s)) s = ((out, err), s')" "countPriorRequeues (events (lv s)) \<le> maxRecoveryRequeues"
  shows "countPriorRequeues (events (lv s')) \<le> maxRecoveryRequeues"
  using assms(1)
proof (cases rule: projected_cases)
  case (judged pipe v)
  then show ?thesis using finalize_count interrupted_count assms(2) by (metis (no_types, lifting))
next
  case sync
  then show ?thesis using assms(2) by (simp add: UpdateRun_def)
qed (use assms(2) mark_count in fastforce)+

lemma recover_count:
  assumes "countPriorRequeues (events (lv s)) \<le> maxRecoveryRequeues"
  shows "countPriorRequeues (events (lv (snd (recoverRun env s)))) \<le> maxRecoveryRequeues"
proof -
  obtain out n err s' where r: "recoverRun env s = ((out, n, err), s')" by (metis surj_pair)
  then show ?thesis
  proof (cases rule: recover_cases)
    case (judged s3)
    then show ?thesis using projected_count[OF judged(2)] r assms by simp
  qed (use r assms in auto)
qed

lemma lives_bound:
  assumes "lives s s'" "countPriorRequeues (events (lv s)) \<le> maxRecoveryRequeues"
  shows "countPriorRequeues (events (lv s')) \<le> maxRecoveryRequeues"
  using assms
proof (induction rule: lives.induct)
  case (executes s l)
  then show ?case using writer_count by simp
next
  case (recovers s env)
  then show ?case using recover_count by blast
qed simp_all

lemma lives_star_bound:
  assumes "lives\<^sup>*\<^sup>* s s'" "created (lv s)"
  shows "countPriorRequeues (events (lv s')) \<le> maxRecoveryRequeues"
  using assms(1)
proof (induction rule: rtranclp_induct)
  case base
  show ?case using assms(2) by (auto simp: created_def startRun_def acceptRun_def blockRun_def countPriorRequeues_def)
next
  case (step y z)
  then show ?case using lives_bound by blast
qed

text \<open>A recovery that decides, and does not put the run back, leaves it in a terminal status.\<close>

lemma terminal_simps [simp]:
  "isTerminalRunStatus RunStatusSuccess" "isTerminalRunStatus RunStatusFailed" "isTerminalRunStatus RunStatusCancelled"
  by (simp_all add: isTerminalRunStatus_def)

lemma mark_terminal: "markRecoveryFailed env msg s = ((out, err), s') \<Longrightarrow> out \<noteq> recoveryOutcomeDeferred \<Longrightarrow>
    rStatus (the_run s') = (if cancelRequested s then RunStatusCancelled else RunStatusFailed)"
  by (drule mark_effect) auto

lemma interrupted_closed:
  assumes "resolve_interrupted env pipe latest es v s = ((out, err), s')" "out \<notin> {recoveryOutcomeDeferred, recoveryOutcomeRequeued}"
  shows "rStatus (the_run s') = (if cancelRequested s then RunStatusCancelled else RunStatusFailed)"
  using assms(1)
proof (cases rule: interrupted_cases)
  case (close s0 msg)
  then show ?thesis using mark_terminal[OF close(1)] assms(2) by simp
qed (use assms(2) in simp_all)

lemma projected_terminal:
  assumes "resolve_projected env es s = ((out, err), s')" "out \<notin> {recoveryOutcomeDeferred, recoveryOutcomeRequeued}"
  shows "isTerminalRunStatus (rStatus (the_run s'))"
  using assms(1)
proof (cases rule: projected_cases)
  case sync
  then show ?thesis by (simp add: UpdateRun_def)
next
  case (unresolved msg)
  then show ?thesis using mark_terminal[OF unresolved(2)] assms(2) by simp
next
  case (judged pipe v)
  from judged(5) show ?thesis
  proof (elim disjE conjE exE)
    assume "finalizeRecoveredRun env RunStatusSuccess [] s = ((out, err), s')"
    then show ?thesis using finalize_effect assms(2) by fastforce
  next
    fix nr
    assume "finalizeRecoveredRun env RunStatusFailed (nrError nr) s = ((out, err), s')"
    then show ?thesis using finalize_effect assms(2) by fastforce
  qed (drule interrupted_closed[OF _ assms(2)], simp)+
qed (use assms(2) in simp)

lemma projected_full:
  assumes "resolve_projected env es s = ((out, err), s')" "maxRecoveryRequeues \<le> countPriorRequeues es"
  shows "out \<noteq> recoveryOutcomeRequeued"
  using assms(1)
proof (cases rule: projected_cases)
  case (unresolved msg)
  then show ?thesis by (auto dest!: mark_effect)
next
  case (judged pipe v)
  from judged(5) show ?thesis
  proof (elim disjE conjE exE)
    assume "finalizeRecoveredRun env RunStatusSuccess [] s = ((out, err), s')"
    then show ?thesis using finalize_effect by fastforce
  next
    fix nr
    assume "finalizeRecoveredRun env RunStatusFailed (nrError nr) s = ((out, err), s')"
    then show ?thesis using finalize_effect by fastforce
  next
    assume r: "resolve_interrupted env pipe (latestNodeOutcome (NodeRuns (ProjectRun (rID (the_run s)) es))) es v s = ((out, err), s')"
    then show ?thesis using assms(2) by (cases rule: interrupted_cases) (auto dest!: mark_effect)
  next
    assume r: "resolve_interrupted env pipe (latestNodeOutcome (NodeRuns (ProjectRun (rID (the_run s)) es))) es v s = ((out, err), s')"
    then show ?thesis using assms(2) by (cases rule: interrupted_cases) (auto dest!: mark_effect)
  qed
qed simp_all

lemma recover_full:
  assumes "recoverRun env s = ((out, n, err), s')" "countPriorRequeues (events (lv s)) = maxRecoveryRequeues" "out \<noteq> recoveryOutcomeDeferred"
  shows "isTerminalRunStatus (rStatus (the_run s'))"
  using assms(1)
proof (cases rule: recover_cases)
  case (judged s3)
  then have "out \<noteq> recoveryOutcomeRequeued" using projected_full[OF judged(2)] assms(2) by simp
  then show ?thesis using projected_terminal[OF judged(2)] assms(3) by simp
qed (use assms(3) in simp)


definition demo_lost :: rstate where
  "demo_lost = (demo_state demo_start 50)\<lparr>lv := demo_attempt\<rparr>"


section \<open>Putting a run back is safe\<close>

definition proj_inv :: "proj \<Rightarrow> bool" where
  "proj_inv st \<longleftrightarrow>
     (\<forall>k \<in> set (order st). map_of (nodeRuns st) k \<noteq> None) \<and>
     (\<forall>k nr. map_of (nodeRuns st) k = Some nr \<longrightarrow> k \<in> set (order st) \<and> (\<exists>a. k = nodeRunKey (nrNodeID nr) a))"

lemma getOrCreate_inv:
  assumes "proj_inv st" "getOrCreateNodeRun runID e st = (nr, st')"
  shows "proj_inv st' \<and> set (order st) \<subseteq> set (order st') \<and> nodeRunKey (eNodeID e) (eAttempt e) \<in> set (order st') \<and> nrNodeID nr = eNodeID e"
proof (cases "map_of (nodeRuns st) (nodeRunKey (eNodeID e) (eAttempt e))")
  case None
  let ?nr = "no_node_run\<lparr>nrID := yNodeRunID (Payload e), nrRunID := runID, nrNodeID := eNodeID e, nrAttempt := attempt_of (eAttempt e)\<rparr>"
  have st': "st' = st\<lparr>nodeRuns := mput (nodeRunKey (eNodeID e) (eAttempt e)) ?nr (nodeRuns st),
      order := order st @ [nodeRunKey (eNodeID e) (eAttempt e)]\<rparr>" and nr: "nrNodeID nr = eNodeID e"
    using assms(2) None by (auto simp: getOrCreateNodeRun_def Let_def)
  show ?thesis using assms(1) nr unfolding st' proj_inv_def by (auto split: if_splits)
next
  case (Some old)
  then have st: "st' = st" "nrNodeID nr = nrNodeID old" using assms(2) by (auto simp: getOrCreateNodeRun_def Let_def split: if_splits)
  have "nodeRunKey (eNodeID e) (eAttempt e) \<in> set (order st)" "\<exists>a. nodeRunKey (eNodeID e) (eAttempt e) = nodeRunKey (nrNodeID old) a"
    using assms(1) Some unfolding proj_inv_def by blast+
  then show ?thesis using assms(1) st by auto
qed

lemma with_node_run_inv:
  assumes "proj_inv st" "\<And>nr. nrNodeID (f nr) = nrNodeID nr"
  shows "proj_inv (with_node_run runID e f st) \<and> set (order st) \<subseteq> set (order (with_node_run runID e f st)) \<and>
    (eNodeID e \<noteq> [] \<longrightarrow> nodeRunKey (eNodeID e) (eAttempt e) \<in> set (order (with_node_run runID e f st)))"
proof (cases "eNodeID e = []")
  case False
  obtain nr st' where g: "getOrCreateNodeRun runID e st = (nr, st')" by fastforce
  note i = getOrCreate_inv[OF assms(1) g]
  then have "proj_inv (st'\<lparr>nodeRuns := mput (nodeRunKey (eNodeID e) (eAttempt e)) (f nr) (nodeRuns st')\<rparr>)"
    using assms(2) unfolding proj_inv_def by (auto split: if_splits)
  then show ?thesis using False i by (simp add: with_node_run_def g)
qed (use assms(1) in \<open>simp add: with_node_run_def\<close>)

lemma project_event_inv:
  assumes "proj_inv st"
  shows "proj_inv (project_event runID e st) \<and> set (order st) \<subseteq> set (order (project_event runID e st)) \<and>
    (EventType e = AttemptStarted \<and> eNodeID e \<noteq> [] \<longrightarrow> nodeRunKey (eNodeID e) (eAttempt e) \<in> set (order (project_event runID e st)))"
proof (cases "EventType e \<in> {AttemptStarted, AttemptCompleted, AttemptFailed, AttemptSkipped}")
  case True
  then have "\<exists>f. project_event runID e st = with_node_run runID e f st \<and> (\<forall>nr. nrNodeID (f nr) = nrNodeID nr)"
    unfolding project_event_def Let_def by (elim insertE emptyE; simp only: RunEventType.case) (rule exI, rule conjI, rule refl, simp)+
  then show ?thesis using with_node_run_inv[OF assms, of _ runID e] by force
next
  case False
  then have "order (project_event runID e st) = order st" "nodeRuns (project_event runID e st) = nodeRuns st"
    by (cases "EventType e"; simp add: project_event_def Let_def)+
  then show ?thesis using assms False by (simp add: proj_inv_def)
qed

lemma replay_started:
  "proj_inv (replay runID es) \<and>
   (\<forall>e \<in> set es. EventType e = AttemptStarted \<and> eNodeID e \<noteq> [] \<longrightarrow> nodeRunKey (eNodeID e) (eAttempt e) \<in> set (order (replay runID es)))"
proof (induction es rule: rev_induct)
  case Nil
  then show ?case by (simp add: replay_def proj_inv_def)
next
  case (snoc x es)
  then have "proj_inv (replay runID es)" by blast
  from project_event_inv[OF this, of runID x] snoc show ?case unfolding replay_snoc by auto
qed

lemma started_has_row:
  assumes "e \<in> set es" "EventType e = AttemptStarted" "eNodeID e \<noteq> []"
  shows "\<exists>nr \<in> set (NodeRuns (ProjectRun runID es)). nrNodeID nr = eNodeID e"
proof -
  let ?st = "replay runID es" and ?k = "nodeRunKey (eNodeID e) (eAttempt e)"
  have k: "?k \<in> set (order ?st)" and inv: "proj_inv ?st" using replay_started assms by blast+
  then obtain nr where nr: "map_of (nodeRuns ?st) ?k = Some nr" unfolding proj_inv_def by blast
  then have "nrNodeID nr = eNodeID e" using inv unfolding proj_inv_def by (metis nodeRunKey_inj)
  moreover have "nr \<in> set (proj_rows ?st)" using k nr by (force simp: proj_rows_def)
  ultimately show ?thesis by (auto simp: ProjectRun_def Let_def)
qed

lemma nodes_by_id_in: "map_of (nodes_by_id pipe) k = Some n \<Longrightarrow> n \<in> set (Nodes pipe) \<and> nID n = k"
proof -
  have "map_of (fold (\<lambda>n. mput (nID n) n) ns []) k = Some n \<Longrightarrow> n \<in> set ns \<and> nID n = k" for ns
    by (induction ns rule: rev_induct) (auto split: if_splits)
  then show "map_of (nodes_by_id pipe) k = Some n \<Longrightarrow> n \<in> set (Nodes pipe) \<and> nID n = k" by (simp add: nodes_by_id_def)
qed

lemma safe_started:
  assumes "interruptedRunIsSafeToRequeue pipe (latestNodeOutcome nrs)" "\<exists>nr \<in> set nrs. nrNodeID nr = k"
  shows "(\<exists>n \<in> set (Nodes pipe). nID n = k \<and> nodeCannotWriteExternally n) \<or>
    (\<exists>nr. latest_of nrs k (Some nr) \<and> nrStatus nr = RunStatusSkipped)"
proof -
  obtain nr where nr: "map_of (latestNodeOutcome nrs) k = Some nr"
    using latestNodeOutcome_latest[of nrs k] assms(2) by (cases "map_of (latestNodeOutcome nrs) k") (auto simp: latest_of_def)
  then have l: "latest_of nrs k (Some nr)" using latestNodeOutcome_latest[of nrs k] by simp
  have "(k, nr) \<in> set (latestNodeOutcome nrs)" using nr by (rule map_of_SomeD)
  then have "nrStatus nr = RunStatusSkipped \<or> (case map_of (nodes_by_id pipe) k of None \<Rightarrow> False | Some n \<Rightarrow> nodeCannotWriteExternally n)"
    using assms(1) unfolding interruptedRunIsSafeToRequeue_def by blast
  then show ?thesis using l nodes_by_id_in by (auto split: option.splits)
qed

lemma recover_requeued:
  assumes "recoverRun env s = ((recoveryOutcomeRequeued, n, err), s')"
  obtains pipe where "resolvePipelineForRun env (rPipelineID (the_run s)) (rPipelineVersion (the_run s)) = Inr pipe"
    "interruptedRunIsSafeToRequeue pipe (latestNodeOutcome (NodeRuns (ProjectRun (rID (the_run s)) (events (lv s)))))"
    "\<not> cancelRequested s" "countPriorRequeues (events (lv s)) < maxRecoveryRequeues" "leases s' = reclaimed_leases env s"
    "\<not> owned env s"
    "\<exists>enqueue. JobQueue env = Some enqueue \<and> jobs s' = jobs s @ (if enqueue (requeue_job env s') then [requeue_job env s'] else [])"
  using assms
proof (cases rule: recover_cases)
  case (judged s3)
  have row: "the_run s3 = the_run s" and ev: "events (lv s3) = events (lv s) @ [run_event RunEventRecoveryStarted no_payload (clock env)]"
    using judged(3) by auto
  have pr: "ProjectRun (rID (the_run s)) (events (lv s3)) = ProjectRun (rID (the_run s)) (events (lv s))"
    unfolding ev by (rule ProjectRun_ignored[OF started_ignored])
  from judged(2) show ?thesis
  proof (cases rule: projected_cases)
    case (unresolved msg)
    then show ?thesis by (auto dest!: mark_effect)
  next
    case j: (judged pipe v)
    then have "resolve_interrupted env pipe (latestNodeOutcome (NodeRuns (ProjectRun (rID (the_run s)) (events (lv s)))))
        (events (lv s3)) v s3 = ((recoveryOutcomeRequeued, err), s')"
      using row pr by (auto dest!: finalize_effect)
    then show ?thesis
    proof (cases rule: interrupted_cases)
      case (requeue msg)
      then show ?thesis using that[of pipe] j(3) row judged(1,4-6) ev by simp
    qed (auto dest!: mark_effect)
  qed simp_all
qed simp

text \<open>
  C2. A run goes back on the queue only when nothing can be written twice: every node that ever
  started in its log is in the run's pipeline version, of a type that cannot write outside
  Brokoli and without the sink capability, or its last attempt was skipped. Nobody had asked to
  cancel the run, it had been put back fewer than three times, there is a queue, and the job for
  it names the same run.
\<close>

theorem requeue_is_safe:
  assumes "recoverRun env s = ((recoveryOutcomeRequeued, n, err), s')"
  shows "\<not> cancelRequested s \<and> countPriorRequeues (events (lv s)) < 3 \<and>
    (\<exists>pipe. resolvePipelineForRun env (rPipelineID (the_run s)) (rPipelineVersion (the_run s)) = Inr pipe \<and>
       (\<forall>e \<in> set (events (lv s)). EventType e = AttemptStarted \<and> eNodeID e \<noteq> [] \<longrightarrow>
          (\<exists>n \<in> set (Nodes pipe). nID n = eNodeID e \<and> nodeCannotWriteExternally n) \<or>
          (\<exists>nr. latest_of (NodeRuns (ProjectRun (rID (the_run s)) (events (lv s)))) (eNodeID e) (Some nr) \<and>
             nrStatus nr = RunStatusSkipped))) \<and>
    (\<exists>enqueue. JobQueue env = Some enqueue \<and>
       jobs s' = jobs s @ (if enqueue (requeue_job env s') then [requeue_job env s'] else []))"
proof -
  from assms obtain pipe where p: "resolvePipelineForRun env (rPipelineID (the_run s)) (rPipelineVersion (the_run s)) = Inr pipe"
    "interruptedRunIsSafeToRequeue pipe (latestNodeOutcome (NodeRuns (ProjectRun (rID (the_run s)) (events (lv s)))))"
    "\<not> cancelRequested s" "countPriorRequeues (events (lv s)) < maxRecoveryRequeues"
    "\<exists>enqueue. JobQueue env = Some enqueue \<and> jobs s' = jobs s @ (if enqueue (requeue_job env s') then [requeue_job env s'] else [])"
    by (rule recover_requeued) blast
  then show ?thesis
    using safe_started[OF p(2) started_has_row] unfolding maxRecoveryRequeues_def by blast
qed

theorem requeue_is_safe_witness:
  "map jRunID (jobs (snd (recoverRun demo_env (demo_state demo_attempt 50)))) = [''r1''] \<and>
   countPriorRequeues (events demo_attempt) < 3"
proof -
  have "recoverRun demo_env (demo_state demo_attempt 50) =
      ((recoveryOutcomeRequeued, 1, None), snd (recoverRun demo_env (demo_state demo_attempt 50)))"
    using demo_requeued by (simp add: prod_eq_iff)
  moreover have "map jRunID (jobs (snd (recoverRun demo_env (demo_state demo_attempt 50)))) = [''r1'']" by code_simp
  ultimately show ?thesis using requeue_is_safe[of demo_env "demo_state demo_attempt 50"] by simp
qed

section \<open>What a run that was put back meets\<close>

lemma reclaim_row:
  "map_of (snd (reclaim x acc)) k =
     (case map_of (snd acc) k of
        Some r \<Rightarrow> if k = fst x \<and> FencingGeneration r = FencingGeneration (snd x) \<and> \<not> settled r
                  then Some (r\<lparr>aStatus := AttemptStatusFailed, aError := reclaim_reason\<rparr>) else Some r
      | None \<Rightarrow> None)"
  by (auto simp: reclaim_def FailAttempt_def sqliteSettleAttempt_def settled_def split: option.splits settle_result.splits)

lemma reclaim_settles:
  assumes "map_of (snd acc) k = Some r" "settled r \<or> (k, r) \<in> set xs"
  shows "\<exists>r'. map_of (snd (fold reclaim xs acc)) k = Some r' \<and> settled r'"
  using assms
proof (induction xs arbitrary: acc r)
  case (Cons x xs)
  have "\<exists>r1. map_of (snd (reclaim x acc)) k = Some r1 \<and> (settled r1 \<or> (k, r1) \<in> set xs)"
  proof (cases "k = fst x \<and> FencingGeneration r = FencingGeneration (snd x) \<and> \<not> settled r")
    case True
    then show ?thesis using Cons.prems(1) by (simp add: reclaim_row settled_def)
  next
    case False
    then show ?thesis using Cons.prems by (auto simp: reclaim_row)
  qed
  then show ?case using Cons.IH[of "reclaim x acc"] by auto
qed simp

lemma reclaimed_settled:
  assumes "hasAttemptStore env" "attemptsErr env = None" "\<not> owned env s"
    and "map_of (leases s) k = Some r" "fst k = rID (the_run s)" "settled r \<or> LeaseExpiresAt r \<noteq> None"
  shows "\<exists>r'. map_of (reclaimed_leases env s) k = Some r' \<and> settled r'"
proof -
  let ?rows = "ListExecutionAttemptsByRun (rID (the_run s)) (leases s)"
  have mem: "(k, r) \<in> set (leases s)" using assms(4) by (rule map_of_SomeD)
  then have rows: "(k, r) \<in> set ?rows" using assms(5) by (cases k) (auto simp: ListExecutionAttemptsByRun_def)
  have no: "\<not> fst (reconcileExecutionAttempts (clock env) (rID (the_run s)) (leases s))"
    using assms(1-3) by (auto simp: owned_def reconcile_live)
  then have "\<not> live_lease (clock env) r" using mem assms(5) by (cases k) (auto simp: reconcile_live)
  then have "settled r \<or> (k, r) \<in> set (filter (\<lambda>a. expired_lease (clock env) (snd a)) ?rows)"
    using assms(6) rows by (auto simp: live_lease_def expired_lease_def isTerminalAttemptStatus_def settled_def split: option.splits)
  moreover have "reclaimed_leases env s = snd (fold reclaim (filter (\<lambda>a. expired_lease (clock env) (snd a)) ?rows) (0, leases s))"
    using no assms(1) by (auto simp: reclaimed_leases_def reconcileExecutionAttempts_def Let_def split: if_splits)
  ultimately show ?thesis using reclaim_settles[of "(0, leases s)" k r] assms(4) by simp
qed

text \<open>
  C8. A run that was put back cannot get past an attempt it had already begun. Recovery settles
  every attempt of the run that was ever claimed (its lease has lapsed) and leaves settled ones; the
  attempts are numbered from zero again when the run executes again, creating an attempt leaves an
  existing record alone, and a settled record is never claimable: the claim of that attempt fails
  whatever is called in between.
\<close>

theorem requeued_attempt_unclaimable:
  assumes "recoverRun env s = ((recoveryOutcomeRequeued, n, err), s')"
    and "hasAttemptStore env" and "attemptsErr env = None"
    and "map_of (leases s) k = Some r" and "fst k = rID (the_run s)" and "settled r \<or> LeaseExpiresAt r \<noteq> None"
  shows "fst (ClaimAttempt k who dur now (fold exec_op ops (leases s'))) = None"
proof -
  from assms(1) obtain pipe where "leases s' = reclaimed_leases env s" "\<not> owned env s" by (rule recover_requeued) blast
  then obtain r' where "map_of (leases s') k = Some r'" "settled r'" using reclaimed_settled[OF assms(2,3) _ assms(4-6)] by auto
  from sqlite.settled_final(2)[OF exec_ops_calls this] show ?thesis .
qed

theorem requeued_attempt_unclaimable_witness:
  "fst (ClaimAttempt (''r1'', ''n1'', [], 0) ''w2'' 15 200 (CreateExecutionAttemptTx (''r1'', ''n1'', [], 0) ''k''
     (leases (snd (recoverRun demo_env (demo_state demo_attempt 50)))))) = None"
proof -
  have "recoverRun demo_env (demo_state demo_attempt 50) =
      ((recoveryOutcomeRequeued, 1, None), snd (recoverRun demo_env (demo_state demo_attempt 50)))"
    using demo_requeued by (simp add: prod_eq_iff)
  moreover have "hasAttemptStore demo_env" "attemptsErr demo_env = None" by (simp_all add: demo_env_def)
  moreover have "map_of (leases (demo_state demo_attempt 50)) (''r1'', ''n1'', [], 0) =
      Some \<lparr>aStatus = AttemptStatusClaimed, ClaimedBy = ''w1'', LeaseExpiresAt = Some 50, FencingGeneration = 1,
        IdempotencyKey = ''k'', aError = []\<rparr>" by (simp add: demo_lease_def)
  moreover have "rID (runRow demo_attempt) = ''r1''" by code_simp
  ultimately show ?thesis
    using requeued_attempt_unclaimable[of demo_env "demo_state demo_attempt 50" 1 None _ "(''r1'', ''n1'', [], 0)" _ "''w2''" 15 200
        "[Create (''r1'', ''n1'', [], 0) ''k'']"] by simp
qed

text \<open>The job of a run that is put back asks for no capabilities of the worker.\<close>

lemma requeue_job_any_worker: "RequiredCapabilities (requeue_job env s) = []"
  by (simp add: requeue_job_def)

text \<open>
  Attempts are not told apart by execution: when a node had reached attempt 1 before the run was
  put back, and its attempt 0 is in flight in the next execution, the last attempt is still the old one.
\<close>

definition stale_rows :: live where
  "stale_rows =
     (let l1 = startAttempt True ''n1'' 0 ''a'' 20 15 5 [] demo_start;
          l2 = failAttempt (nodeRows l1 ! 0) 1 ''boom'' 21 l1;
          l3 = startAttempt True ''n1'' 1 ''b'' 22 15 5 [] l2;
          l4 = completeAttempt (nodeRows l3 ! 1) 2 0 (Fin 0) None 23 l3;
          l5 = requeued ''put back'' 30 l4;
          l6 = snd (claimRun 40 ''t2'' None l5)
      in startAttempt True ''n1'' 0 ''c'' 41 40 1 [] l6)"

lemma stale_attempt_hides_execution:
  "map nrStatus (nodeRows stale_rows) = [RunStatusFailed, RunStatusSuccess, RunStatusRunning]"
  "fst (recoverRun demo_env ((demo_state stale_rows 50)\<lparr>leases := []\<rparr>)) = (recoveryOutcomeReconciled, 0, None)"
  "rStatus (the_run (snd (recoverRun demo_env ((demo_state stale_rows 50)\<lparr>leases := []\<rparr>)))) = RunStatusSuccess"
  by code_simp+

end
