(* ===== verification/Recovery_Pass.thy ===== *)
theory Recovery_Pass
  imports Run_Recovery
begin

text \<open>
  One pass of recovery over the store: the listing of runs that have not ended, page by page
  (\<^verbatim>\<open>ListNonTerminalRuns\<close> of \<^verbatim>\<open>src/store/sqlite.go\<close>), and the loop \<^verbatim>\<open>RecoverNonTerminalRuns\<close> of
  \<^verbatim>\<open>src/engine/recovery.go\<close>, which recovers each listed run while runs leave the listing behind it.
  The runs are an association list by identifier, the primary key.
\<close>

section \<open>Definitions\<close>

type_synonym runs_table = "(string \<times> rstate) list"

record RecoverySummary =
  RunsScanned :: nat
  RunsReconciled :: nat
  RunsFailed :: nat
  RunsRequeued :: nat
  RunsDeferred :: nat
  AttemptsReclaimed :: nat

definition nonTerminalRunStatusFilter :: "RunStatus \<Rightarrow> bool" where
  "nonTerminalRunStatusFilter st \<longleftrightarrow>
     st \<notin> {RunStatusSuccess, RunStatusFailed, RunStatusCancelled, RunStatusBlocked, RunStatusWaiting}"

definition listed :: "runs_table \<Rightarrow> string \<Rightarrow> bool" where
  "listed db runID = (case map_of db runID of None \<Rightarrow> False | Some s \<Rightarrow> nonTerminalRunStatusFilter (rStatus (the_run s)))"

definition ids_after :: "string \<Rightarrow> runs_table \<Rightarrow> string list" where
  "ids_after afterID db = sorted_list_of_set (set (filter (\<lambda>i. listed db i \<and> (afterID = [] \<or> afterID < i)) (map fst db)))"

definition ListNonTerminalRuns :: "string \<Rightarrow> nat \<Rightarrow> runs_table \<Rightarrow> string list \<times> bool" where
  "ListNonTerminalRuns afterID limit db =
     (let rows = take (limit + 1) (ids_after afterID db); hasNext = length rows > limit
      in (if hasNext then take limit rows else rows, hasNext))"

definition recoveryBatchSize :: nat where "recoveryBatchSize = 50"

definition tally :: "recoveryOutcome \<Rightarrow> nat \<Rightarrow> RecoverySummary \<Rightarrow> RecoverySummary" where
  "tally outcome reclaimed summary =
     (let summary = summary\<lparr>RunsScanned := RunsScanned summary + 1, AttemptsReclaimed := AttemptsReclaimed summary + reclaimed\<rparr> in
      case outcome of
        recoveryOutcomeReconciled \<Rightarrow> summary\<lparr>RunsReconciled := RunsReconciled summary + 1\<rparr>
      | recoveryOutcomeRequeued \<Rightarrow> summary\<lparr>RunsRequeued := RunsRequeued summary + 1\<rparr>
      | recoveryOutcomeFailed \<Rightarrow> summary\<lparr>RunsFailed := RunsFailed summary + 1\<rparr>
      | recoveryOutcomeDeferred \<Rightarrow> summary\<lparr>RunsDeferred := RunsDeferred summary + 1\<rparr>)"

definition recover_one :: "renv \<Rightarrow> string \<Rightarrow> RecoverySummary \<times> runs_table \<Rightarrow> RecoverySummary \<times> runs_table" where
  "recover_one env runID st =
     (case map_of (snd st) runID of
        None \<Rightarrow> st
      | Some s \<Rightarrow> (case recoverRun env s of
          ((outcome, reclaimed, _), s') \<Rightarrow> (tally outcome reclaimed (fst st), mput runID s' (snd st))))"

section \<open>The listing\<close>

lemma ids_after_set: "set (ids_after a db) = {i. listed db i \<and> (a = [] \<or> a < i)}"
proof -
  have "listed db i \<Longrightarrow> i \<in> set (map fst db)" for i
    by (force simp: listed_def dest!: map_of_SomeD split: option.splits)
  then show ?thesis by (auto simp: ids_after_def)
qed

lemma ids_after_sorted: "sorted_wrt (<) (ids_after a db)"
  by (simp add: ids_after_def)

lemma ids_after_unique: "sorted_wrt (<) xs \<Longrightarrow> set xs = {i. listed db i \<and> (a = [] \<or> a < i)} \<Longrightarrow> ids_after a db = xs"
  using ids_after_set[of a db] ids_after_sorted[of a db] strict_sorted_equal[of "ids_after a db" xs] by simp

lemma page: "ListNonTerminalRuns a n db = (take n (ids_after a db), n < length (ids_after a db))"
  by (auto simp: ListNonTerminalRuns_def Let_def min_def not_less)

lemma last_of_page:
  assumes "sorted_wrt (<) (xs :: string list)" "1 < n" "n < length xs"
  shows "hd xs < last (take n xs)"
proof -
  have "xs \<noteq> []" "take n xs \<noteq> []" using assms(2,3) by auto
  then have "hd xs = xs ! 0" "last (take n xs) = xs ! (n - 1)"
    using assms(2,3) by (simp_all add: hd_conv_nth last_conv_nth)
  then show ?thesis using assms sorted_wrt_nth_less[of "(<)" xs 0 "n - 1"] by simp
qed

lemma nil_least [simp]: "[] < (x # xs :: string)" "\<not> (xs < ([] :: string))"
  by simp_all

lemma page_progress:
  assumes "n < length (ids_after a db)" "1 < n"
  shows "a < last (take n (ids_after a db))" "last (take n (ids_after a db)) \<in> set (ids_after a db)"
proof -
  have ne: "ids_after a db \<noteq> []" using assms(1) by auto
  show mem: "last (take n (ids_after a db)) \<in> set (ids_after a db)"
    using assms(1,2) ne by (metis in_set_takeD last_in_set take_eq_Nil not_less_zero)
  have "hd (ids_after a db) < last (take n (ids_after a db))" using last_of_page[OF ids_after_sorted assms(2,1)] .
  moreover have "a = [] \<or> a < hd (ids_after a db)" using ids_after_set[of a db] hd_in_set[OF ne] by auto
  ultimately show "a < last (take n (ids_after a db))"
    by (metis Nil_less_Cons less_trans list.exhaust less_list_code(1))
qed

section \<open>The loop\<close>

function recover_pages ::
  "renv \<Rightarrow> (string \<Rightarrow> string option) \<Rightarrow> string \<Rightarrow> RecoverySummary \<times> runs_table \<Rightarrow> (RecoverySummary \<times> string option) \<times> runs_table" where
  "recover_pages env listErr afterID st =
     (case listErr afterID of
        Some e \<Rightarrow> ((fst st, Some (''list non-terminal runs: '' @ e)), snd st)
      | None \<Rightarrow>
          (case ListNonTerminalRuns afterID recoveryBatchSize (snd st) of
             (runs, hasNext) \<Rightarrow>
               if runs = [] then ((fst st, None), snd st)
               else let st' = fold (recover_one env) runs st
                    in if hasNext then recover_pages env listErr (last runs) st' else ((fst st', None), snd st')))"
  by pat_completeness auto

lemma recover_one_dom: "fst ` set (snd (recover_one env i st)) = fst ` set (snd st)"
proof (cases "map_of (snd st) i")
  case (Some s)
  then have "i \<in> fst ` set (snd st)" by (force dest: map_of_SomeD)
  then show ?thesis using Some by (cases "recoverRun env s") (simp add: recover_one_def insert_absorb split: prod.splits)
qed (simp add: recover_one_def)

lemma recover_fold_dom: "fst ` set (snd (fold (recover_one env) xs st)) = fst ` set (snd st)"
  by (induction xs arbitrary: st) (simp_all add: recover_one_dom)

termination recover_pages
proof (relation "measure (\<lambda>(env, listErr, a, st). card {i \<in> fst ` set (snd st). a < i})", goal_cases)
  case (2 env listErr a st runs hasNext)
  then have p: "runs = take recoveryBatchSize (ids_after a (snd st))" "recoveryBatchSize < length (ids_after a (snd st))"
    by (auto simp: page)
  have l: "a < last runs" "last runs \<in> set (ids_after a (snd st))"
    unfolding p(1) using page_progress[OF p(2)] by (simp_all add: recoveryBatchSize_def)
  have "last runs \<in> fst ` set (snd st)" using l(2) by (auto simp: ids_after_def)
  then have "{i \<in> fst ` set (snd st). last runs < i} \<subset> {i \<in> fst ` set (snd st). a < i}" using l(1) by force
  then have "card {i \<in> fst ` set (snd st). last runs < i} < card {i \<in> fst ` set (snd st). a < i}" by (intro psubset_card_mono) auto
  then show ?case using 2 by (simp add: recover_fold_dom)
qed simp

definition RecoverNonTerminalRuns :: "renv \<Rightarrow> (string \<Rightarrow> string option) \<Rightarrow> runs_table \<Rightarrow> (RecoverySummary \<times> string option) \<times> runs_table" where
  "RecoverNonTerminalRuns env listErr db =
     recover_pages env listErr []
       (\<lparr>RunsScanned = 0, RunsReconciled = 0, RunsFailed = 0, RunsRequeued = 0, RunsDeferred = 0, AttemptsReclaimed = 0\<rparr>, db)"

section \<open>A pass is one visit of every run that has not ended\<close>

lemma recover_one_other: "i \<noteq> j \<Longrightarrow> map_of (snd (recover_one env i st)) j = map_of (snd st) j"
  by (auto simp: recover_one_def split: option.splits prod.splits)

lemma recover_one_self: "map_of (snd (recover_one env i st)) i = map_option (\<lambda>s. snd (recoverRun env s)) (map_of (snd st) i)"
  by (auto simp: recover_one_def split: option.splits prod.splits)

lemma recover_fold:
  "distinct xs \<Longrightarrow> map_of (snd (fold (recover_one env) xs st)) i =
     (if i \<in> set xs then map_option (\<lambda>s. snd (recoverRun env s)) (map_of (snd st) i) else map_of (snd st) i)"
proof (induction xs arbitrary: st)
  case (Cons x xs)
  then show ?case by (cases "i = x") (simp_all add: recover_one_other recover_one_self)
qed simp

lemma recover_fold_notin: "i \<notin> set xs \<Longrightarrow> listed (snd (fold (recover_one env) xs st)) i = listed (snd st) i"
  by (induction xs arbitrary: st) (auto simp: listed_def recover_one_other)

lemma last_greatest: "sorted_wrt (<) xs \<Longrightarrow> y \<in> set xs \<Longrightarrow> y \<le> (last xs :: string)"
  by (induction xs rule: rev_induct) (auto simp: sorted_wrt_append less_imp_le)

lemma next_page:
  assumes "1 < n" "n < length (ids_after a (snd st))"
  defines "runs \<equiv> take n (ids_after a (snd st))"
  shows "ids_after (last runs) (snd (fold (recover_one env) runs st)) = drop n (ids_after a (snd st))"
proof (rule ids_after_unique)
  let ?ids = "ids_after a (snd st)" and ?db = "snd (fold (recover_one env) runs st)"
  have app: "?ids = runs @ drop n ?ids" unfolding runs_def by simp
  have lt: "sorted_wrt (<) (runs @ drop n ?ids)" using ids_after_sorted[of a "snd st"] by (simp flip: app)
  show "sorted_wrt (<) (drop n ?ids)" using lt by (simp add: sorted_wrt_append)
  have ne: "runs \<noteq> []" using assms(1,2) by (auto simp: runs_def)
  have al: "a < last runs" using page_progress(1)[OF assms(2,1)] by (simp add: runs_def)
  have below: "y \<le> last runs" if "y \<in> set runs" for y
    using last_greatest[OF _ that] lt by (simp add: sorted_wrt_append)
  have after: "x \<in> set (drop n ?ids) \<longleftrightarrow> x \<in> set ?ids \<and> last runs < x" for x
  proof
    assume "x \<in> set (drop n ?ids)"
    then show "x \<in> set ?ids \<and> last runs < x" using lt ne by (auto simp: sorted_wrt_append dest: in_set_dropD)
  next
    assume x: "x \<in> set ?ids \<and> last runs < x"
    then show "x \<in> set (drop n ?ids)" using below app by (metis Un_iff leD set_append)
  qed
  have "last runs \<noteq> []" using al by auto
  moreover have "listed ?db x = listed (snd st) x" if "last runs < x" for x
    using that below recover_fold_notin by (metis leD)
  ultimately show "set (drop n ?ids) = {i. listed ?db i \<and> (last runs = [] \<or> last runs < i)}"
    using after ids_after_set[of a "snd st"] less_trans[OF al] by blast
qed

lemma recover_pages_fold:
  "recover_pages env (\<lambda>_. None) a st = (let st' = fold (recover_one env) (ids_after a (snd st)) st in ((fst st', None), snd st'))"
proof (induction env "\<lambda>_ :: string. None :: string option" a st rule: recover_pages.induct)
  case (1 env a st)
  let ?ids = "ids_after a (snd st)" and ?n = recoveryBatchSize
  have n: "1 < ?n" by (simp add: recoveryBatchSize_def)
  show ?case
  proof (cases "?n < length ?ids")
    case True
    then have ne: "take ?n ?ids \<noteq> []" using n by auto
    let ?st = "fold (recover_one env) (take ?n ?ids) st"
    have "recover_pages env (\<lambda>_. None) a st = recover_pages env (\<lambda>_. None) (last (take ?n ?ids)) ?st"
      using True ne by (subst recover_pages.simps) (simp add: page Let_def)
    also have "\<dots> = (let st' = fold (recover_one env) (drop ?n ?ids) ?st in ((fst st', None), snd st'))"
      using 1[OF refl page[symmetric] ne refl True] next_page[OF n True, of env] by simp
    also have "fold (recover_one env) (drop ?n ?ids) ?st = fold (recover_one env) ?ids st"
      by (metis append_take_drop_id fold_append comp_apply)
    finally show ?thesis .
  next
    case False
    then show ?thesis by (subst recover_pages.simps) (auto simp: page Let_def)
  qed
qed

definition outcomes_total :: "RecoverySummary \<Rightarrow> nat" where
  "outcomes_total r = RunsReconciled r + RunsFailed r + RunsRequeued r + RunsDeferred r"

lemma tally_sel: "RunsScanned (tally out n r) = RunsScanned r + 1" "outcomes_total (tally out n r) = outcomes_total r + 1"
  by (cases out; simp add: tally_def Let_def outcomes_total_def)+

lemma recover_one_tally:
  assumes "map_of (snd st) i \<noteq> None"
  shows "RunsScanned (fst (recover_one env i st)) = RunsScanned (fst st) + 1"
    "outcomes_total (fst (recover_one env i st)) = outcomes_total (fst st) + 1"
  using assms by (auto simp: recover_one_def tally_sel split: option.splits prod.splits)

lemma recover_fold_tally:
  assumes "\<forall>i \<in> set xs. map_of (snd st) i \<noteq> None"
  shows "RunsScanned (fst (fold (recover_one env) xs st)) = RunsScanned (fst st) + length xs \<and>
    outcomes_total (fst (fold (recover_one env) xs st)) = outcomes_total (fst st) + length xs"
  using assms
proof (induction xs arbitrary: st)
  case (Cons x xs)
  have "\<forall>i \<in> set xs. map_of (snd (recover_one env x st)) i \<noteq> None"
  proof
    fix i
    assume "i \<in> set xs"
    then show "map_of (snd (recover_one env x st)) i \<noteq> None"
      using Cons.prems by (cases "x = i") (simp_all add: recover_one_other recover_one_self)
  qed
  then show ?case using Cons recover_one_tally[of st x env] by simp
qed simp

lemma listed_status:
  "listed db i \<longleftrightarrow> (\<exists>s. map_of db i = Some s \<and>
     rStatus (the_run s) \<notin> {RunStatusSuccess, RunStatusFailed, RunStatusCancelled, RunStatusBlocked, RunStatusWaiting})"
  by (auto simp: listed_def nonTerminalRunStatusFilter_def split: option.splits)

text \<open>
  C7. When no page of the listing fails to load, a pass of recovery examines every run that is neither in a terminal status
  (success, failed, cancelled, blocked) nor parked (waiting) exactly once, however many pages the listing has and although
  runs leave the listing as the pass settles them; all other runs stay as they are, and the counts of the summary add up to
  the number of runs examined.
\<close>

theorem recovery_pass_complete:
  "\<exists>summary db'. RecoverNonTerminalRuns env (\<lambda>_. None) db = ((summary, None), db') \<and>
     (\<forall>i. map_of db' i = map_option (\<lambda>s.
        if rStatus (the_run s) \<in> {RunStatusSuccess, RunStatusFailed, RunStatusCancelled, RunStatusBlocked, RunStatusWaiting}
        then s else snd (recoverRun env s)) (map_of db i)) \<and>
     RunsScanned summary = card {i. \<exists>s. map_of db i = Some s \<and>
       rStatus (the_run s) \<notin> {RunStatusSuccess, RunStatusFailed, RunStatusCancelled, RunStatusBlocked, RunStatusWaiting}} \<and>
     outcomes_total summary = RunsScanned summary"
proof -
  let ?st = "(\<lparr>RunsScanned = 0, RunsReconciled = 0, RunsFailed = 0, RunsRequeued = 0, RunsDeferred = 0, AttemptsReclaimed = 0\<rparr>, db)"
  let ?r = "fold (recover_one env) (ids_after [] db) ?st"
  have ids: "set (ids_after [] db) = {i. listed db i}" "distinct (ids_after [] db)"
    using ids_after_set[of "[]" db] by simp (simp add: ids_after_def)
  have "\<forall>i \<in> set (ids_after [] db). map_of db i \<noteq> None" unfolding ids(1) by (auto simp: listed_def split: option.splits)
  then have t: "RunsScanned (fst ?r) = length (ids_after [] db)" "outcomes_total (fst ?r) = length (ids_after [] db)"
    using recover_fold_tally[of "ids_after [] db" ?st env] by (auto simp: outcomes_total_def)
  have "length (ids_after [] db) = card {i. listed db i}" using distinct_card[OF ids(2)] ids(1) by simp
  moreover have "RecoverNonTerminalRuns env (\<lambda>_. None) db = ((fst ?r, None), snd ?r)"
    unfolding RecoverNonTerminalRuns_def recover_pages_fold Let_def by simp
  moreover have "map_of (snd ?r) i = map_option (\<lambda>s.
        if rStatus (the_run s) \<in> {RunStatusSuccess, RunStatusFailed, RunStatusCancelled, RunStatusBlocked, RunStatusWaiting}
        then s else snd (recoverRun env s)) (map_of db i)" for i
    using recover_fold[OF ids(2), of env ?st i] ids(1) by (cases "map_of db i") (simp_all add: listed_status)
  ultimately show ?thesis using t unfolding listed_status by (intro exI[of _ "fst ?r"] exI[of _ "snd ?r"]) simp
qed

lemma listing_error_stops:
  "listErr [] = Some e \<Longrightarrow> RecoverNonTerminalRuns env listErr db =
     ((\<lparr>RunsScanned = 0, RunsReconciled = 0, RunsFailed = 0, RunsRequeued = 0, RunsDeferred = 0, AttemptsReclaimed = 0\<rparr>,
       Some (''list non-terminal runs: '' @ e)), db)"
  by (simp add: RecoverNonTerminalRuns_def)

end
