(* ===== verification/Data_Sort.thy ===== *)
theory Data_Sort
  imports Cond_Expr "HOL-Library.Product_Lexorder" "HOL-Library.Multiset"
begin

text \<open>
  The sort of a transform (\<^verbatim>\<open>sortRows\<close> of \<^verbatim>\<open>src/engine/transform.go\<close>): the key of a value, the comparison
  of keys, the exact form of numbers and the stable sort of the rows. The library's readings of
  numbers (\<^verbatim>\<open>strconv.ParseFloat\<close>, \<^verbatim>\<open>FormatFloat\<close> and \<^verbatim>\<open>big.ParseFloat\<close>) and the text of a value are the
  record \<open>num_ops\<close>.
\<close>

section \<open>Keys\<close>

text \<open>A \<^verbatim>\<open>big.Float\<close>: a number or an infinity.\<close>

datatype bigf = BNegInf | BFin rat | BPosInf

fun bigf_code :: "bigf \<Rightarrow> int \<times> rat" where
  "bigf_code BNegInf = (- 1, 0)"
| "bigf_code (BFin r) = (0, r)"
| "bigf_code BPosInf = (1, 0)"

definition cmp_lin :: "'a::linorder \<Rightarrow> 'a \<Rightarrow> int" where
  "cmp_lin a b = (if a < b then - 1 else if b < a then 1 else 0)"

definition Cmp :: "bigf \<Rightarrow> bigf \<Rightarrow> int" where
  "Cmp a b = cmp_lin (bigf_code a) (bigf_code b)"

record num_ops =
  parse_float :: "string \<Rightarrow> f64 option"
  format_float :: "f64 \<Rightarrow> string"
  big_parse :: "string \<Rightarrow> bigf option"
  int_float :: "int \<Rightarrow> f64"
  value_text :: "goval \<Rightarrow> string"

definition sortClassNumber :: nat where "sortClassNumber = 0"
definition sortClassText :: nat where "sortClassText = 1"
definition sortClassNull :: nat where "sortClassNull = 2"

record sortKey =
  class_of :: nat
  key_f :: f64
  key_num :: "bigf option"
  key_text :: string

definition null_key :: sortKey where
  "null_key = \<lparr>class_of = sortClassNull, key_f = Fin 0, key_num = None, key_text = []\<rparr>"

definition float_key :: "f64 \<Rightarrow> sortKey" where
  "float_key f = \<lparr>class_of = sortClassNumber, key_f = f, key_num = None, key_text = []\<rparr>"

definition big_key :: "bigf \<Rightarrow> sortKey" where
  "big_key b = \<lparr>class_of = sortClassNumber, key_f = Fin 0, key_num = Some b, key_text = []\<rparr>"

definition text_key :: "string \<Rightarrow> sortKey" where
  "text_key s = \<lparr>class_of = sortClassText, key_f = Fin 0, key_num = None, key_text = s\<rparr>"

definition drop_sign :: "string \<Rightarrow> string" where
  "drop_sign s = (case s of c # t \<Rightarrow> if c = CHR ''+'' \<or> c = CHR ''-'' then t else s | [] \<Rightarrow> s)"

fun short_scan :: "string \<Rightarrow> nat \<Rightarrow> nat \<Rightarrow> bool \<Rightarrow> bool" where
  "short_scan [] digits significant point = (digits > 0 \<and> significant \<le> 15)"
| "short_scan (c # s) digits significant point =
     (if c = CHR ''.'' \<and> \<not> point then short_scan s digits significant True
      else if is_digit c
      then short_scan s (digits + 1) (if c \<noteq> CHR ''0'' \<or> significant > 0 then significant + 1 else significant) point
      else False)"

definition shortDecimal :: "string \<Rightarrow> bool" where
  "shortDecimal s = short_scan (drop_sign s) 0 0 False"

definition mayBeNumber :: "string \<Rightarrow> bool" where
  "mayBeNumber s = (case drop_sign s of [] \<Rightarrow> False | c # _ \<Rightarrow> is_digit c \<or> c \<in> {CHR ''.'', CHR ''i'', CHR ''I''})"

definition minNormal :: rat where "minNormal = 1 / 2 ^ 1022"
definition maxExactInt :: int where "maxExactInt = 2 ^ 53"

text \<open>\<^verbatim>\<open>strconv.ParseInt(s, 10, 64)\<close>.\<close>

definition parse_int64 :: "string \<Rightarrow> int option" where
  "parse_int64 s =
     (let d = drop_sign s; n = (if s \<noteq> [] \<and> hd s = CHR ''-'' then - int (digits_value d) else int (digits_value d))
      in if d \<noteq> [] \<and> list_all is_digit d \<and> - (2 ^ 63) \<le> n \<and> n < 2 ^ 63 then Some n else None)"

definition normal_float :: "f64 \<Rightarrow> bool" where
  "normal_float f = (case f of Fin r \<Rightarrow> r = 0 \<or> \<bar>r\<bar> \<ge> minNormal | NaN \<Rightarrow> False | _ \<Rightarrow> True)"

definition textSortKey :: "num_ops \<Rightarrow> string \<Rightarrow> sortKey" where
  "textSortKey ops s =
     (let parsed = parse_float ops s in
      if \<not> mayBeNumber s then text_key s
      else if shortDecimal s \<and> (case parsed of Some f \<Rightarrow> normal_float f | None \<Rightarrow> False) then float_key (the parsed)
      else if (case parsed of Some (Fin r) \<Rightarrow> format_float ops (Fin r) = s | _ \<Rightarrow> False) then float_key (the parsed)
      else if (case parse_int64 s of Some i \<Rightarrow> - maxExactInt < i \<and> i < maxExactInt | None \<Rightarrow> False)
      then float_key (int_float ops (the (parse_int64 s)))
      else case big_parse ops s of
        Some b \<Rightarrow> big_key b
      | None \<Rightarrow> text_key s)"

definition small_int :: "goval \<Rightarrow> int option" where
  "small_int v =
     (case v of
        VInt64 n \<Rightarrow> if - maxExactInt < n \<and> n < maxExactInt then Some n else None
      | VInt n \<Rightarrow> if - maxExactInt < n \<and> n < maxExactInt then Some n else None
      | _ \<Rightarrow> None)"

definition sortKeyOf :: "num_ops \<Rightarrow> goval \<Rightarrow> sortKey" where
  "sortKeyOf ops v =
     (case v of
        VNil \<Rightarrow> null_key
      | VStr s \<Rightarrow> textSortKey ops s
      | VFloat (Fin r) \<Rightarrow> float_key (Fin r)
      | _ \<Rightarrow> (case small_int v of
                Some n \<Rightarrow> float_key (int_float ops n)
              | None \<Rightarrow> textSortKey ops (value_text ops v)))"

definition exact :: "num_ops \<Rightarrow> sortKey \<Rightarrow> bigf" where
  "exact ops k =
     (case key_num k of
        Some b \<Rightarrow> b
      | None \<Rightarrow> (case big_parse ops (format_float ops (key_f k)) of Some b \<Rightarrow> b | None \<Rightarrow> BFin 0))"

definition compareSortKeys :: "num_ops \<Rightarrow> sortKey \<Rightarrow> sortKey \<Rightarrow> int" where
  "compareSortKeys ops a b =
     (if class_of a \<noteq> class_of b then (if class_of a < class_of b then - 1 else 1)
      else if class_of a = sortClassNumber then
        (if key_num a \<noteq> None \<or> key_num b \<noteq> None then Cmp (exact ops a) (exact ops b)
         else if f_less (key_f a) (key_f b) then - 1
         else if f_less (key_f b) (key_f a) then 1
         else 0)
      else if class_of a = sortClassText then cmp_lin (key_text a) (key_text b)
      else 0)"

section \<open>The sort\<close>

definition needs_exact :: "sortKey \<Rightarrow> bool" where
  "needs_exact k \<longleftrightarrow> class_of k = sortClassNumber \<and> key_num k \<noteq> None"

definition make_exact :: "num_ops \<Rightarrow> sortKey \<Rightarrow> sortKey" where
  "make_exact ops k = (if class_of k = sortClassNumber \<and> key_num k = None then k\<lparr>key_num := Some (exact ops k)\<rparr> else k)"

definition exactWhereNeeded :: "num_ops \<Rightarrow> nat \<Rightarrow> sortKey list list \<Rightarrow> sortKey list list" where
  "exactWhereNeeded ops c keys =
     (if \<exists>k \<in> set keys. needs_exact (k ! c) then map (\<lambda>k. k[c := make_exact ops (k ! c)]) keys else keys)"

fun keys_less :: "num_ops \<Rightarrow> bool \<Rightarrow> sortKey list \<Rightarrow> sortKey list \<Rightarrow> bool" where
  "keys_less ops asc (a # as) (b # bs) =
     (let cmp = compareSortKeys ops a b in
      if cmp \<noteq> 0 then (if asc then cmp < 0 else cmp > 0) else keys_less ops asc as bs)"
| "keys_less ops asc _ _ = False"

text \<open>
  \<^verbatim>\<open>sort.SliceStable\<close>: for an order the result does not depend on how the library finds it; here it
  is the insertion sort that the library runs on blocks, on the whole slice.
\<close>

fun insert_stable :: "('a \<Rightarrow> 'a \<Rightarrow> bool) \<Rightarrow> 'a \<Rightarrow> 'a list \<Rightarrow> 'a list" where
  "insert_stable lt x [] = [x]"
| "insert_stable lt x (y # ys) = (if lt x y then x # y # ys else y # insert_stable lt x ys)"

definition SliceStable :: "('a \<Rightarrow> 'a \<Rightarrow> bool) \<Rightarrow> 'a list \<Rightarrow> 'a list" where
  "SliceStable lt xs = fold (insert_stable lt) xs []"

definition row_keys :: "num_ops \<Rightarrow> string list \<Rightarrow> DataRow \<Rightarrow> sortKey list" where
  "row_keys ops cols row = map (\<lambda>col. sortKeyOf ops (mget row col)) cols"

definition sortRows :: "num_ops \<Rightarrow> string list \<Rightarrow> bool \<Rightarrow> DataSet \<Rightarrow> DataSet" where
  "sortRows ops cols asc ds =
     (let keys = fold (exactWhereNeeded ops) [0..<length cols] (map (row_keys ops cols) (Rows ds));
          order = SliceStable (\<lambda>a b. keys_less ops asc (keys ! a) (keys ! b)) [0..<length (Rows ds)]
      in ds\<lparr>Rows := map (\<lambda>j. Rows ds ! j) order\<rparr>)"

section \<open>The order of keys\<close>

text \<open>
  What a cell stands for, without the shortcuts of the code: its text, read by the 200 bit
  \<^verbatim>\<open>big.ParseFloat\<close> where that succeeds, as every number was read before the float form was added. Numbers
  come before texts and texts before empty cells.
\<close>

definition cell_text :: "num_ops \<Rightarrow> goval \<Rightarrow> string" where
  "cell_text ops v = (case v of VStr s \<Rightarrow> s | _ \<Rightarrow> value_text ops v)"

definition text_code :: "num_ops \<Rightarrow> string \<Rightarrow> nat \<times> (int \<times> rat) \<times> string" where
  "text_code ops s = (case big_parse ops s of Some b \<Rightarrow> (0, bigf_code b, []) | None \<Rightarrow> (1, (0, 0), s))"

definition cell_code :: "num_ops \<Rightarrow> goval \<Rightarrow> nat \<times> (int \<times> rat) \<times> string" where
  "cell_code ops v = (if v = VNil then (2, (0, 0), []) else text_code ops (cell_text ops v))"

definition row_code :: "num_ops \<Rightarrow> string list \<Rightarrow> DataRow \<Rightarrow> (nat \<times> (int \<times> rat) \<times> string) list" where
  "row_code ops cols row = map (\<lambda>c. cell_code ops (mget row c)) cols"

text \<open>Plain decimals, with their digits, and the number of significant ones.\<close>

definition plain_decimal :: "string \<Rightarrow> string \<Rightarrow> bool" where
  "plain_decimal s ds \<longleftrightarrow>
     (\<exists>sign a b. sign \<in> {[], ''+'', ''-''} \<and> (s = sign @ a \<and> b = [] \<or> s = sign @ a @ CHR ''.'' # b) \<and>
        list_all is_digit (a @ b) \<and> ds = a @ b \<and> ds \<noteq> [])"

definition significant :: "string \<Rightarrow> nat" where
  "significant ds = length (dropWhile (\<lambda>c. c = CHR ''0'') ds)"

text \<open>
  What the library and the format promise, for a set \<open>T\<close> of texts, a set \<open>S\<close> of floats and a set \<open>C\<close> of cells.
  \<^verbatim>\<open>big.ParseFloat\<close> takes no text that does not begin as a number, and reads an integer as itself; the
  conversion of an integer below \<open>2 ^ 53\<close> to a float, and the shortest decimal of that, are the integer;
  the text of an integer or float cell denotes what the cell holds.
\<close>

definition text_law :: "num_ops \<Rightarrow> string set \<Rightarrow> bool" where
  "text_law ops T \<longleftrightarrow>
     (\<forall>s \<in> T. big_parse ops s \<noteq> None \<longrightarrow>
        (\<exists>sign c t. sign \<in> {[], ''+'', ''-''} \<and> s = sign @ c # t \<and> (is_digit c \<or> c \<in> {CHR ''.'', CHR ''i'', CHR ''I''}))) \<and>
     (\<forall>s \<in> T. \<forall>n. parse_int64 s = Some n \<longrightarrow> big_parse ops s = Some (BFin (of_int n)))"

definition integer_law :: "num_ops \<Rightarrow> rat set \<Rightarrow> bool" where
  "integer_law ops S \<longleftrightarrow>
     (\<forall>n. \<bar>n\<bar> < 2 ^ 53 \<and> of_int n \<in> S \<longrightarrow>
        int_float ops n = Fin (of_int n) \<and> big_parse ops (format_float ops (Fin (of_int n))) = Some (BFin (of_int n)))"

definition cell_law :: "num_ops \<Rightarrow> goval set \<Rightarrow> bool" where
  "cell_law ops C \<longleftrightarrow>
     (\<forall>n. VInt n \<in> C \<longrightarrow> big_parse ops (value_text ops (VInt n)) = Some (BFin (of_int n))) \<and>
     (\<forall>n. VInt64 n \<in> C \<longrightarrow> big_parse ops (value_text ops (VInt64 n)) = Some (BFin (of_int n))) \<and>
     (\<forall>r. VFloat (Fin r) \<in> C \<longrightarrow>
        big_parse ops (value_text ops (VFloat (Fin r))) = big_parse ops (format_float ops (Fin r)))"

text \<open>
  The shortest decimal of a float is a number that reads back as the float, and reading is monotone; a
  decimal of at most 15 significant digits, the digits a float64 keeps, is the shortest decimal of the
  float it reads as, unless that is subnormal or zero.
\<close>

definition shortest_law :: "num_ops \<Rightarrow> rat set \<Rightarrow> bool" where
  "shortest_law ops S \<longleftrightarrow>
     (\<forall>r \<in> S. parse_float ops (format_float ops (Fin r)) = Some (Fin r) \<and> big_parse ops (format_float ops (Fin r)) \<noteq> None) \<and>
     (\<forall>s \<in> (\<lambda>r. format_float ops (Fin r)) ` S. \<forall>t \<in> (\<lambda>r. format_float ops (Fin r)) ` S. \<forall>x y p q.
        big_parse ops s = Some x \<and> big_parse ops t = Some y \<and> bigf_code x \<le> bigf_code y \<and>
        parse_float ops s = Some (Fin p) \<and> parse_float ops t = Some (Fin q) \<longrightarrow> p \<le> q)"

definition digits_law :: "num_ops \<Rightarrow> string set \<Rightarrow> bool" where
  "digits_law ops T \<longleftrightarrow>
     (\<forall>s \<in> T. \<forall>ds f. plain_decimal s ds \<and> significant ds \<le> 15 \<and> parse_float ops s = Some f \<longrightarrow>
        (\<exists>r. f = Fin r \<and> (significant ds = 0 \<or> \<bar>r\<bar> \<ge> 1 / 2 ^ 1022 \<longrightarrow>
           big_parse ops (format_float ops f) = big_parse ops s)))"

text \<open>No text of another number than zero is so small that it reads as zero.\<close>

definition no_underflow :: "num_ops \<Rightarrow> string set \<Rightarrow> bool" where
  "no_underflow ops T \<longleftrightarrow>
     (\<forall>s \<in> T. \<forall>ds. plain_decimal s ds \<and> parse_float ops s = Some (Fin 0) \<longrightarrow> significant ds = 0)"

text \<open>The texts and floats of a set of cells.\<close>

definition texts_of :: "num_ops \<Rightarrow> goval set \<Rightarrow> string set" where
  "texts_of ops C = cell_text ops ` (C - {VNil})"

definition floats_of :: "num_ops \<Rightarrow> goval set \<Rightarrow> rat set" where
  "floats_of ops C =
     {r. VFloat (Fin r) \<in> C} \<union> {r. \<exists>s \<in> texts_of ops C. parse_float ops s = Some (Fin r)} \<union>
     of_int ` {n. \<bar>n\<bar> < 2 ^ 53 \<and> (VInt n \<in> C \<or> VInt64 n \<in> C \<or> (\<exists>s \<in> texts_of ops C. parse_int64 s = Some n))}"

definition reading_law :: "num_ops \<Rightarrow> goval set \<Rightarrow> bool" where
  "reading_law ops C \<longleftrightarrow> text_law ops (texts_of ops C) \<and> integer_law ops (floats_of ops C) \<and> cell_law ops C \<and>
     shortest_law ops (floats_of ops C) \<and> digits_law ops (texts_of ops C)"

definition cells_of :: "string list \<Rightarrow> DataRow list \<Rightarrow> goval set" where
  "cells_of cols rows = {mget row c | row c. row \<in> set rows \<and> c \<in> set cols}"

text \<open>Of the floats that occur the shortest decimals, read exactly, are in the order of the floats.\<close>

definition decimal_of :: "num_ops \<Rightarrow> rat \<Rightarrow> bigf option" where
  "decimal_of ops r = big_parse ops (format_float ops (Fin r))"

definition decimals_ordered :: "num_ops \<Rightarrow> rat set \<Rightarrow> bool" where
  "decimals_ordered ops S \<longleftrightarrow>
     (\<forall>a \<in> S. decimal_of ops a \<noteq> None) \<and>
     (\<forall>a \<in> S. \<forall>b \<in> S. a < b \<longrightarrow> bigf_code (the (decimal_of ops a)) < bigf_code (the (decimal_of ops b)))"

lemma shortest_ordered:
  assumes "shortest_law ops S"
  shows "decimals_ordered ops S"
proof -
  have reads: "parse_float ops (format_float ops (Fin r)) = Some (Fin r)" "decimal_of ops r \<noteq> None" if "r \<in> S" for r
    using assms that unfolding shortest_law_def decimal_of_def by blast+
  have "a \<le> b" if "a \<in> S" "b \<in> S" "bigf_code (the (decimal_of ops a)) \<le> bigf_code (the (decimal_of ops b))" for a b
  proof -
    have "decimal_of ops a \<noteq> None" "decimal_of ops b \<noteq> None" using reads(2) that(1,2) by simp_all
    then obtain x y where "decimal_of ops a = Some x" "decimal_of ops b = Some y" by blast
    then show ?thesis
      using assms that(3) reads(1)[OF that(1)] reads(1)[OF that(2)] imageI[OF that(1)] imageI[OF that(2)]
      unfolding shortest_law_def decimal_of_def by (metis option.sel)
  qed
  then show ?thesis using reads(2) unfolding decimals_ordered_def by (metis not_le)
qed

text \<open>The place of a key in the order: its class, then the exact number or the text.\<close>

definition key_code :: "num_ops \<Rightarrow> sortKey \<Rightarrow> nat \<times> (int \<times> rat) \<times> string" where
  "key_code ops k =
     (class_of k, if class_of k = sortClassNumber then bigf_code (exact ops k) else (0, 0),
      if class_of k = sortClassText then key_text k else [])"

definition float_in :: "rat set \<Rightarrow> sortKey \<Rightarrow> bool" where
  "float_in S k \<longleftrightarrow> (class_of k = sortClassNumber \<and> key_num k = None \<longrightarrow> (\<exists>r \<in> S. key_f k = Fin r)) \<and>
     class_of k \<le> sortClassNull"

lemmas class_defs = sortClassNumber_def sortClassText_def sortClassNull_def

lemma cmp_lin_sign [simp]: "cmp_lin a b < 0 \<longleftrightarrow> a < b" "cmp_lin a b > 0 \<longleftrightarrow> b < a" "cmp_lin a b = 0 \<longleftrightarrow> a = b"
  by (auto simp: cmp_lin_def)

lemma decimal_order:
  assumes "decimals_ordered ops S" "a \<in> S" "b \<in> S"
  shows "cmp_lin (bigf_code (the (decimal_of ops a))) (bigf_code (the (decimal_of ops b))) = cmp_lin a b"
proof -
  have mono: "bigf_code (the (decimal_of ops x)) < bigf_code (the (decimal_of ops y))" if "x \<in> S" "y \<in> S" "x < y" for x y
    using assms(1) that unfolding decimals_ordered_def by blast
  consider "a < b" | "a = b" | "b < a" by linarith
  then show ?thesis
  proof cases
    case 1
    then show ?thesis using mono[OF assms(2,3)] by (simp add: cmp_lin_def)
  next
    case 3
    then show ?thesis using mono[OF assms(3,2)] by (auto simp: cmp_lin_def)
  qed (simp add: cmp_lin_def)
qed

lemma cmp_lin_triple: "cmp_lin (c, x, t) (c, y, t) = cmp_lin x y"
  by (simp add: cmp_lin_def)

lemma exact_float: "decimals_ordered ops S \<Longrightarrow> r \<in> S \<Longrightarrow> key_num k = None \<Longrightarrow> key_f k = Fin r \<Longrightarrow> exact ops k = the (decimal_of ops r)"
  unfolding decimals_ordered_def by (auto simp: exact_def decimal_of_def)

text \<open>Numbers compare by their exact decimals, whichever form the two keys hold.\<close>

lemma compareSortKeys_code:
  assumes "decimals_ordered ops S" "float_in S a" "float_in S b"
  shows "compareSortKeys ops a b = cmp_lin (key_code ops a) (key_code ops b)"
proof (cases "class_of a = class_of b")
  case same: True
  consider "class_of a = sortClassNumber" | "class_of a = sortClassText" | "class_of a = sortClassNull"
    using assms(2) unfolding float_in_def class_defs by linarith
  then show ?thesis
  proof cases
    case 1
    show ?thesis
    proof (cases "key_num a \<noteq> None \<or> key_num b \<noteq> None")
      case True
      then show ?thesis using 1 same
        by (auto simp: compareSortKeys_def Cmp_def key_code_def cmp_lin_def class_defs)
    next
      case False
      then obtain r q where f: "r \<in> S" "key_f a = Fin r" "q \<in> S" "key_f b = Fin q"
        using assms(2,3) 1 same by (auto simp: float_in_def)
      then have "exact ops a = the (decimal_of ops r)" "exact ops b = the (decimal_of ops q)"
        using exact_float[OF assms(1)] False by auto
      then have "cmp_lin (key_code ops a) (key_code ops b) = cmp_lin r q"
        using decimal_order[OF assms(1) f(1,3)] 1 same by (simp add: key_code_def cmp_lin_triple class_defs)
      then show ?thesis using f 1 same False by (simp add: compareSortKeys_def cmp_lin_def)
    qed
  qed (use same in \<open>auto simp: compareSortKeys_def key_code_def cmp_lin_def class_defs\<close>)
next
  case False
  then show ?thesis by (auto simp: compareSortKeys_def key_code_def cmp_lin_def)
qed

lemma keys_less_code:
  assumes "decimals_ordered ops S" "length as = length bs" "\<forall>k \<in> set as. float_in S k" "\<forall>k \<in> set bs. float_in S k"
  shows "keys_less ops asc as bs \<longleftrightarrow>
    (if asc then map (key_code ops) as < map (key_code ops) bs else map (key_code ops) bs < map (key_code ops) as)"
  using assms(2-4)
proof (induction as bs rule: list_induct2)
  case (Cons a as b bs)
  then show ?case using compareSortKeys_code[OF assms(1), of a b] by (auto simp: Let_def)
qed simp

text \<open>Giving every number of a column its exact form changes no place in the order.\<close>

lemma make_exact_code [simp]: "key_code ops (make_exact ops k) = key_code ops k" "float_in S k \<Longrightarrow> float_in S (make_exact ops k)"
  by (auto simp: make_exact_def key_code_def exact_def float_in_def)

lemma exactWhereNeeded_code:
  assumes "\<forall>k \<in> set keys. c < length k"
  shows "map (map (key_code ops)) (exactWhereNeeded ops c keys) = map (map (key_code ops)) keys"
proof -
  have "map (key_code ops) (k[c := make_exact ops (k ! c)]) = map (key_code ops) k" for k
    by (metis list_update_id make_exact_code(1) map_update)
  then show ?thesis by (simp add: exactWhereNeeded_def)
qed

lemma exactWhereNeeded_float:
  assumes "\<forall>k \<in> set keys. c < length k \<and> (\<forall>x \<in> set k. float_in S x)"
  shows "\<forall>k \<in> set (exactWhereNeeded ops c keys). \<forall>x \<in> set k. float_in S x"
  using assms by (auto simp: exactWhereNeeded_def dest!: subsetD[OF set_update_subset_insert])

definition uniform :: "nat \<Rightarrow> rat set \<Rightarrow> sortKey list list \<Rightarrow> bool" where
  "uniform n S keys \<longleftrightarrow> (\<forall>k \<in> set keys. length k = n \<and> (\<forall>x \<in> set k. float_in S x))"

lemma exact_columns:
  assumes "uniform n S keys" "set cs \<subseteq> {..<n}"
  shows "uniform n S (fold (exactWhereNeeded ops) cs keys) \<and>
    map (map (key_code ops)) (fold (exactWhereNeeded ops) cs keys) = map (map (key_code ops)) keys"
  using assms
proof (induction cs arbitrary: keys)
  case (Cons c cs)
  have len: "\<forall>k \<in> set keys. c < length k" using Cons.prems by (auto simp: uniform_def)
  have "uniform n S (exactWhereNeeded ops c keys)"
    using Cons.prems exactWhereNeeded_float[of keys c S ops] by (auto simp: uniform_def exactWhereNeeded_def)
  from Cons.IH[OF this] Cons.prems(2) exactWhereNeeded_code[OF len, of ops] show ?case by simp
qed simp

section \<open>The stable sort\<close>

lemma insert_stable_map: "map g (insert_stable (\<lambda>a b. lt (g a) (g b)) x ys) = insert_stable lt (g x) (map g ys)"
  by (induction ys) auto

lemma SliceStable_map: "map g (SliceStable (\<lambda>a b. lt (g a) (g b)) xs) = SliceStable lt (map g xs)"
proof -
  have "map g (fold (insert_stable (\<lambda>a b. lt (g a) (g b))) xs ys) = fold (insert_stable lt) (map g xs) (map g ys)" for ys
    by (induction xs arbitrary: ys) (simp_all add: insert_stable_map)
  from this[of "[]"] show ?thesis by (simp add: SliceStable_def)
qed

lemma insert_stable_cong: "(\<And>y. y \<in> set ys \<Longrightarrow> lt x y = lt' x y) \<Longrightarrow> insert_stable lt x ys = insert_stable lt' x ys"
  by (induction ys) auto

lemma mset_insert_stable [simp]: "mset (insert_stable lt x ys) = add_mset x (mset ys)"
  by (induction ys) auto

lemma set_insert_stable [simp]: "set (insert_stable lt x ys) = insert x (set ys)"
  by (metis mset_insert_stable set_mset_add_mset_insert set_mset_mset)

lemma SliceStable_cong:
  assumes "\<And>x y. x \<in> set xs \<Longrightarrow> y \<in> set xs \<Longrightarrow> lt x y = lt' x y"
  shows "SliceStable lt xs = SliceStable lt' xs"
proof -
  have "fold (insert_stable lt) zs ys = fold (insert_stable lt') zs ys" if "set zs \<subseteq> set xs" "set ys \<subseteq> set xs" for zs ys
    using that
  proof (induction zs arbitrary: ys)
    case (Cons z zs)
    have "insert_stable lt z ys = insert_stable lt' z ys" using assms Cons.prems by (intro insert_stable_cong) auto
    then show ?case using Cons by simp
  qed simp
  then show ?thesis by (simp add: SliceStable_def)
qed

lemma insert_stable_sorted: "sorted (map f ys) \<Longrightarrow> sorted (map f (insert_stable (\<lambda>a b. f a < f b) x ys))"
  by (induction ys) auto

lemma insert_stable_filter:
  assumes "sorted (map f ys)"
  shows "filter (\<lambda>y. k = f y) (insert_stable (\<lambda>a b. f a < f b) x ys) = filter (\<lambda>y. k = f y) (ys @ [x])"
  using assms
proof (induction ys)
  case (Cons a ys)
  show ?case
  proof (cases "f x < f a")
    case True
    then have "filter (\<lambda>y. f x = f y) (a # ys) = []" using Cons.prems by (force simp: filter_empty_conv)
    then show ?thesis using True by auto
  next
    case False
    then show ?thesis using Cons by auto
  qed
qed simp

lemma SliceStable_sort_key: "SliceStable (\<lambda>a b. f a < f b) xs = sort_key f xs"
proof -
  have "mset (fold (insert_stable (\<lambda>a b. f a < f b)) xs []) = mset xs \<and> sorted (map f (fold (insert_stable (\<lambda>a b. f a < f b)) xs [])) \<and>
      (\<forall>k. filter (\<lambda>y. k = f y) (fold (insert_stable (\<lambda>a b. f a < f b)) xs []) = filter (\<lambda>y. k = f y) xs)"
    by (induction xs rule: rev_induct) (auto simp: insert_stable_sorted insert_stable_filter)
  then show ?thesis unfolding SliceStable_def by (intro properties_for_sort_key[symmetric]) auto
qed

lemma insert_stable_rev:
  assumes "sorted (map f ys)"
  shows "rev (insert_stable (\<lambda>a b. f b < f a) x (rev ys)) = insort_key f x ys"
  using assms
proof (induction ys)
  case (Cons a ys)
  have app: "insert_stable lt x (zs @ [a]) = (if \<exists>z \<in> set zs. lt x z then insert_stable lt x zs @ [a]
      else if lt x a then zs @ [x, a] else zs @ [a, x])" for lt and zs :: "'b list"
    by (induction zs) auto
  show ?case
  proof (cases "f x \<le> f a")
    case True
    then have "\<not> (\<exists>z \<in> set (rev ys). f z < f x)" using Cons.prems by force
    moreover have "\<not> f a < f x" using True by simp
    ultimately show ?thesis using True by (auto simp: app)
  next
    case False
    show ?thesis
    proof (cases "\<exists>z \<in> set (rev ys). f z < f x")
      case True
      then show ?thesis using False Cons by (simp add: app)
    next
      case none: False
      then have "insort_key f x ys = x # ys" by (cases ys) auto
      moreover have "f a < f x" using False by simp
      ultimately show ?thesis using False none by (auto simp: app)
    qed
  qed
qed simp

lemma SliceStable_sort_key_desc: "SliceStable (\<lambda>a b. f b < f a) xs = rev (sort_key f (rev xs))"
proof -
  have "rev (fold (insert_stable (\<lambda>a b. f b < f a)) xs []) = sort_key f (rev xs)"
  proof (induction xs rule: rev_induct)
    case (snoc x xs)
    then have "fold (insert_stable (\<lambda>a b. f b < f a)) xs [] = rev (sort_key f (rev xs))" by (metis rev_rev_ident)
    then show ?case by (simp add: insert_stable_rev)
  qed simp
  then show ?thesis by (metis SliceStable_def rev_rev_ident)
qed

section \<open>Sorting a dataset\<close>

text \<open>A short decimal, as the scan finds it, is a plain decimal of at most 15 significant digits.\<close>

lemma short_scan_plain:
  assumes "short_scan s d g pt"
  shows "\<exists>a b. (s = a \<and> b = [] \<or> \<not> pt \<and> s = a @ CHR ''.'' # b) \<and> list_all is_digit (a @ b) \<and> 0 < d + length (a @ b) \<and>
    (if 0 < g then g + length (a @ b) else significant (a @ b)) \<le> 15"
  using assms
proof (induction s d g pt rule: short_scan.induct)
  case (1 d g pt)
  then show ?case by (intro exI[of _ "[]"]) (auto simp: significant_def)
next
  case (2 c s d g pt)
  show ?case
  proof (cases "c = CHR ''.'' \<and> \<not> pt")
    case True
    then have "short_scan s d g True" using "2.prems" by simp
    from "2.IH"(1)[OF True this] have "list_all is_digit s" "0 < d + length s" "(if 0 < g then g + length s else significant s) \<le> 15"
      by (auto split: if_splits)
    then show ?thesis using True by (intro exI[of _ "[]"] exI[of _ s]) auto
  next
    case False
    let ?g = "if c \<noteq> CHR ''0'' \<or> g > 0 then g + 1 else g"
    have dig: "is_digit c" using False "2.prems" by (simp split: if_splits)
    then obtain a b where ab: "s = a \<and> b = [] \<or> \<not> pt \<and> s = a @ CHR ''.'' # b" "list_all is_digit (a @ b)"
        "(if 0 < ?g then ?g + length (a @ b) else significant (a @ b)) \<le> 15"
      using "2.IH"(2)[OF False dig] "2.prems" False by (auto split: if_splits)
    then have "(if 0 < g then g + length ((c # a) @ b) else significant ((c # a) @ b)) \<le> 15"
      by (auto simp: significant_def split: if_splits)
    then show ?thesis using ab dig by (intro exI[of _ "c # a"] exI[of _ b]) auto
  qed
qed

lemma drop_sign_cases: "\<exists>sign. sign \<in> {[], ''+'', ''-''} \<and> s = sign @ drop_sign s"
  by (cases s) (auto simp: drop_sign_def)

lemma shortDecimal_plain:
  assumes "shortDecimal s"
  obtains ds where "plain_decimal s ds" "significant ds \<le> 15"
proof -
  obtain sign where sign: "sign \<in> {[], ''+'', ''-''}" "s = sign @ drop_sign s" using drop_sign_cases by blast
  obtain a b where ab: "drop_sign s = a \<and> b = [] \<or> drop_sign s = a @ CHR ''.'' # b" "list_all is_digit (a @ b)"
      "0 < length (a @ b)" "significant (a @ b) \<le> 15"
    using short_scan_plain[OF assms[unfolded shortDecimal_def]] by auto
  have "s = sign @ a \<and> b = [] \<or> s = sign @ a @ CHR ''.'' # b" using ab(1) sign(2) by metis
  moreover have "a @ b \<noteq> []" using ab(3) by simp
  ultimately have "plain_decimal s (a @ b)" using sign(1) ab(2) unfolding plain_decimal_def by blast
  then show ?thesis using ab(4) that by blast
qed

lemma number_start:
  assumes "text_law ops T" "s \<in> T" "big_parse ops s \<noteq> None"
  shows "mayBeNumber s"
proof -
  obtain sign c t where "sign \<in> {[], ''+'', ''-''}" "s = sign @ c # t" "is_digit c \<or> c \<in> {CHR ''.'', CHR ''i'', CHR ''I''}"
    using assms unfolding text_law_def by blast
  then show ?thesis by (auto simp: mayBeNumber_def drop_sign_def is_digit_def)
qed

text \<open>Each form of the key stands where the exact reading of the text puts it.\<close>

lemmas key_defs = key_code_def exact_def float_in_def null_key_def float_key_def big_key_def text_key_def class_defs

lemma float_key_meaning:
  assumes "decimals_ordered ops S" "r \<in> S" "big_parse ops (format_float ops (Fin r)) = big_parse ops s"
  shows "key_code ops (float_key (Fin r)) = text_code ops s \<and> float_in S (float_key (Fin r))"
proof -
  obtain b where "big_parse ops (format_float ops (Fin r)) = Some b"
    using assms(1,2) unfolding decimals_ordered_def decimal_of_def by blast
  then show ?thesis using assms(2,3) by (simp add: key_defs text_code_def)
qed

lemma short_reading:
  assumes "digits_law ops T" "no_underflow ops T" "s \<in> T" "shortDecimal s" "parse_float ops s = Some f" "normal_float f"
  shows "\<exists>r. f = Fin r \<and> big_parse ops (format_float ops (Fin r)) = big_parse ops s"
proof -
  obtain ds where ds: "plain_decimal s ds" "significant ds \<le> 15" using shortDecimal_plain[OF assms(4)] .
  then obtain r where r: "f = Fin r"
      "significant ds = 0 \<or> \<bar>r\<bar> \<ge> 1 / 2 ^ 1022 \<longrightarrow> big_parse ops (format_float ops f) = big_parse ops s"
    using assms(1,3,5) unfolding digits_law_def by blast
  moreover have "significant ds = 0" if "r = 0"
    using that assms(2,3,5) ds(1) r(1) unfolding no_underflow_def by blast
  ultimately show ?thesis using assms(6) unfolding normal_float_def minNormal_def by auto
qed

lemma textSortKey_cases:
  "\<not> mayBeNumber s \<and> textSortKey ops s = text_key s \<or>
   (\<exists>f. shortDecimal s \<and> parse_float ops s = Some f \<and> normal_float f \<and> textSortKey ops s = float_key f) \<or>
   (\<exists>r. parse_float ops s = Some (Fin r) \<and> format_float ops (Fin r) = s \<and> textSortKey ops s = float_key (Fin r)) \<or>
   (\<exists>n. parse_int64 s = Some n \<and> \<bar>n\<bar> < 2 ^ 53 \<and> textSortKey ops s = float_key (int_float ops n)) \<or>
   (\<exists>b. big_parse ops s = Some b \<and> textSortKey ops s = big_key b) \<or>
   big_parse ops s = None \<and> textSortKey ops s = text_key s"
  unfolding textSortKey_def Let_def maxExactInt_def
  by (auto split: option.splits f64.splits simp: abs_less_iff)

lemma textSortKey_meaning:
  assumes law: "text_law ops T" "integer_law ops S" "decimals_ordered ops S" "digits_law ops T" "no_underflow ops T"
    and s: "s \<in> T" "\<And>r. parse_float ops s = Some (Fin r) \<Longrightarrow> r \<in> S"
      "\<And>n. parse_int64 s = Some n \<Longrightarrow> \<bar>n\<bar> < 2 ^ 53 \<Longrightarrow> of_int n \<in> S"
  shows "key_code ops (textSortKey ops s) = text_code ops s \<and> float_in S (textSortKey ops s)"
proof -
  note float = float_key_meaning[OF law(3)]
  show ?thesis
    using textSortKey_cases[of s ops]
  proof (elim disjE exE conjE, goal_cases)
    case 1
    then have "big_parse ops s = None" using number_start[OF law(1) s(1)] by blast
    then show ?case using 1 by (simp add: key_defs text_code_def)
  next
    case (2 f)
    obtain r where r: "f = Fin r" "big_parse ops (format_float ops (Fin r)) = big_parse ops s"
      using short_reading[OF law(4,5) s(1) 2(1-3)] by blast
    then have "r \<in> S" using s(2) 2(2) by simp
    from float[OF this r(2)] show ?case using 2(4) r(1) by simp
  next
    case (3 r)
    then show ?case using float[OF s(2)] by simp
  next
    case (4 n)
    have n: "of_int n \<in> S" using s(3) 4 by simp
    then have "int_float ops n = Fin (of_int n)" "big_parse ops (format_float ops (Fin (of_int n))) = Some (BFin (of_int n))"
      using law(2) 4(2) unfolding integer_law_def by blast+
    moreover have "big_parse ops s = Some (BFin (of_int n))" using law(1) s(1) 4(1) unfolding text_law_def by blast
    ultimately show ?case using float[OF n, of s] 4(3) by simp
  qed (simp_all add: key_defs text_code_def)
qed

lemma sortKeyOf_meaning:
  assumes law: "reading_law ops C" "no_underflow ops (texts_of ops C)" and v: "v \<in> C"
  shows "key_code ops (sortKeyOf ops v) = cell_code ops v \<and> float_in (floats_of ops C) (sortKeyOf ops v)"
proof -
  let ?S = "floats_of ops C" and ?T = "texts_of ops C"
  have L: "text_law ops ?T" "integer_law ops ?S" "cell_law ops C" "decimals_ordered ops ?S" "digits_law ops ?T"
    using law(1) shortest_ordered unfolding reading_law_def by auto
  have word: "key_code ops (textSortKey ops s) = text_code ops s \<and> float_in ?S (textSortKey ops s)" if "s \<in> ?T" for s
    by (rule textSortKey_meaning[OF L(1,2,4,5) law(2) that]) (use that in \<open>auto simp: floats_of_def\<close>)
  have int: "key_code ops (float_key (int_float ops n)) = text_code ops (value_text ops v) \<and> float_in ?S (float_key (int_float ops n))"
    if "v = VInt n \<or> v = VInt64 n" "\<bar>n\<bar> < 2 ^ 53" for n
  proof -
    have n: "of_int n \<in> ?S" using that v unfolding floats_of_def by blast
    then have "int_float ops n = Fin (of_int n)" "big_parse ops (format_float ops (Fin (of_int n))) = Some (BFin (of_int n))"
      using L(2) that(2) unfolding integer_law_def by blast+
    moreover have "big_parse ops (value_text ops v) = Some (BFin (of_int n))"
      using L(3) that(1) v unfolding cell_law_def by blast
    ultimately show ?thesis using float_key_meaning[OF L(4) n, of "value_text ops v"] by simp
  qed
  have flt: "key_code ops (float_key (Fin r)) = text_code ops (value_text ops v) \<and> float_in ?S (float_key (Fin r))"
    if "v = VFloat (Fin r)" for r
  proof -
    have "r \<in> ?S" using that v by (simp add: floats_of_def)
    moreover have "big_parse ops (format_float ops (Fin r)) = big_parse ops (value_text ops v)"
      using L(3) that v unfolding cell_law_def by metis
    ultimately show ?thesis by (rule float_key_meaning[OF L(4)])
  qed
  have T: "cell_text ops v \<in> ?T" if "v \<noteq> VNil" using that v by (auto simp: texts_of_def)
  show ?thesis
  proof (cases v)
    case VNil
    then show ?thesis by (simp add: sortKeyOf_def cell_code_def key_defs)
  next
    case (VFloat f)
    then show ?thesis using flt word T by (cases f) (auto simp: sortKeyOf_def cell_code_def cell_text_def small_int_def)
  next
    case (VInt n)
    then show ?thesis using int[of n] word T
      by (auto simp: sortKeyOf_def cell_code_def cell_text_def small_int_def maxExactInt_def abs_less_iff)
  next
    case (VInt64 n)
    then show ?thesis using int[of n] word T
      by (auto simp: sortKeyOf_def cell_code_def cell_text_def small_int_def maxExactInt_def abs_less_iff)
  qed (use word T in \<open>auto simp: sortKeyOf_def cell_code_def cell_text_def small_int_def\<close>)
qed

lemma row_keys_meaning:
  assumes "reading_law ops (cells_of cols rows)" "no_underflow ops (texts_of ops (cells_of cols rows))"
  shows "uniform (length cols) (floats_of ops (cells_of cols rows)) (map (row_keys ops cols) rows) \<and>
    map (map (key_code ops) \<circ> row_keys ops cols) rows = map (row_code ops cols) rows"
proof -
  have "key_code ops (sortKeyOf ops (mget row c)) = cell_code ops (mget row c) \<and>
      float_in (floats_of ops (cells_of cols rows)) (sortKeyOf ops (mget row c))" if "row \<in> set rows" "c \<in> set cols" for row c
    by (rule sortKeyOf_meaning[OF assms]) (use that in \<open>auto simp: cells_of_def\<close>)
  then show ?thesis by (auto simp: uniform_def row_keys_def row_code_def)
qed

lemma sortRows_code:
  assumes "reading_law ops (cells_of cols (Rows ds))" "no_underflow ops (texts_of ops (cells_of cols (Rows ds)))"
  shows "Rows (sortRows ops cols asc ds) =
    SliceStable (\<lambda>a b. if asc then row_code ops cols a < row_code ops cols b else row_code ops cols b < row_code ops cols a) (Rows ds)"
proof -
  let ?S = "floats_of ops (cells_of cols (Rows ds))" and ?rows = "Rows ds"
  let ?keys = "fold (exactWhereNeeded ops) [0..<length cols] (map (row_keys ops cols) ?rows)"
  let ?lt = "\<lambda>a b. if asc then row_code ops cols a < row_code ops cols b else row_code ops cols b < row_code ops cols a"
  have u: "uniform (length cols) ?S ?keys" and codes: "map (map (key_code ops)) ?keys = map (row_code ops cols) ?rows"
    using exact_columns[OF conjunct1[OF row_keys_meaning[OF assms]], of "[0..<length cols]" ops] row_keys_meaning[OF assms]
    by (auto simp: lessThan_atLeast0)
  have ord: "decimals_ordered ops ?S" using assms(1) shortest_ordered unfolding reading_law_def by blast
  from codes have len: "length ?keys = length ?rows" by (metis length_map)
  have lt: "keys_less ops asc (?keys ! a) (?keys ! b) = ?lt (?rows ! a) (?rows ! b)" if "a < length ?rows" "b < length ?rows" for a b
  proof -
    have "map (key_code ops) (?keys ! i) = row_code ops cols (?rows ! i)" if "i < length ?rows" for i
      using that len arg_cong[OF codes, of "\<lambda>l. l ! i"] by simp
    moreover have "length (?keys ! a) = length (?keys ! b)" "\<forall>k \<in> set (?keys ! a). float_in ?S k" "\<forall>k \<in> set (?keys ! b). float_in ?S k"
      using u that len nth_mem[of _ ?keys] unfolding uniform_def by (metis)+
    ultimately show ?thesis using keys_less_code[OF ord] that by simp
  qed
  have "SliceStable (\<lambda>a b. keys_less ops asc (?keys ! a) (?keys ! b)) [0..<length ?rows] =
      SliceStable (\<lambda>a b. ?lt (?rows ! a) (?rows ! b)) [0..<length ?rows]"
    by (rule SliceStable_cong) (use lt in \<open>simp only: atLeastLessThan_iff set_upt\<close>)
  then have "Rows (sortRows ops cols asc ds) = map ((!) ?rows) (SliceStable (\<lambda>a b. ?lt (?rows ! a) (?rows ! b)) [0..<length ?rows])"
    by (simp only: sortRows_def Let_def, simp)
  also have "\<dots> = SliceStable ?lt (map ((!) ?rows) [0..<length ?rows])" by (rule SliceStable_map)
  finally show ?thesis by (simp add: map_nth)
qed

text \<open>
  C25. Sorting is the stable sort by the exact values. The rows come out ordered by the columns in
  turn, a cell standing where its text, read by the 200 bit \<^verbatim>\<open>big.ParseFloat\<close>, puts it: numbers before texts
  before empty cells, numbers by that reading, and rows with equal cells keep their order; descending is
  the stable sort of the reverse order. So neither the shortcut through floats nor the exact forms that
  are computed only where a column needs them show. Two conditions: for the cells sorted, the library
  keeps to what it documents (\<open>reading_law\<close>: a float's shortest decimal reads back as the float, reading is
  monotone, decimals of at most 15 significant digits survive a normal float64, integers below \<open>2 ^ 53\<close> are floats);
  and no plain decimal other than zero is so small that it reads as zero (\<open>no_underflow\<close>).
\<close>

theorem sort_is_stable_sort:
  assumes "reading_law ops (cells_of cols (Rows ds))" and "no_underflow ops (texts_of ops (cells_of cols (Rows ds)))"
  shows "sortRows ops cols asc ds =
    ds\<lparr>Rows := (if asc then sort_key (row_code ops cols) (Rows ds) else rev (sort_key (row_code ops cols) (rev (Rows ds))))\<rparr>"
proof -
  have "Rows (sortRows ops cols asc ds) =
      (if asc then sort_key (row_code ops cols) (Rows ds) else rev (sort_key (row_code ops cols) (rev (Rows ds))))"
    by (simp add: sortRows_code[OF assms] SliceStable_sort_key SliceStable_sort_key_desc)
  moreover have "Columns (sortRows ops cols asc ds) = Columns ds" by (simp add: sortRows_def Let_def)
  ultimately show ?thesis by simp
qed

text \<open>The digits of a plain decimal are those of its text.\<close>

lemma plain_digits: "plain_decimal s ds \<Longrightarrow> ds = filter is_digit s"
  by (auto simp: plain_decimal_def is_digit_def list_all_iff filter_id_conv)

definition demo_num_ops :: num_ops where
  "demo_num_ops =
     \<lparr>parse_float = map_of [(''12.5'', Fin (25 / 2)), (''12.50'', Fin (25 / 2)), (''10'', Fin 10),
        (''9007199254740992'', Fin (2 ^ 53)), (''9007199254740993'', Fin (2 ^ 53)), (''9.007199254740992e+15'', Fin (2 ^ 53))],
      format_float = (\<lambda>f. if f = Fin (25 / 2) then ''12.5'' else if f = Fin 10 then ''10''
        else if f = Fin (2 ^ 53) then ''9.007199254740992e+15'' else []),
      big_parse = map_of [(''12.5'', BFin (25 / 2)), (''12.50'', BFin (25 / 2)), (''10'', BFin 10),
        (''9007199254740992'', BFin (2 ^ 53)), (''9007199254740993'', BFin (2 ^ 53 + 1)), (''9.007199254740992e+15'', BFin (2 ^ 53))],
      int_float = (\<lambda>n. Fin (of_int n)),
      value_text = (\<lambda>v. if v = VInt 10 then ''10'' else if v = VFloat (Fin (25 / 2)) then ''12.5'' else [])\<rparr>"

definition demo_cells :: "goval list" where
  "demo_cells = [VStr ''x'', VStr ''9007199254740993'', VStr ''9007199254740992'', VFloat (Fin (25 / 2)), VStr ''12.50'', VInt 10]"

definition demo_sorted :: "goval list" where
  "demo_sorted = [VInt 10, VFloat (Fin (25 / 2)), VStr ''12.50'', VStr ''9007199254740992'', VStr ''9007199254740993'', VStr ''x'']"

definition demo_column :: "goval list \<Rightarrow> DataSet" where
  "demo_column vs = \<lparr>Columns = [''a''], Rows = map (\<lambda>v. [(''a'', v)]) vs\<rparr>"

definition demo_texts :: "string list" where
  "demo_texts = [''x'', ''9007199254740993'', ''9007199254740992'', ''12.5'', ''12.50'', ''10'']"

lemma demo_column_cells: "cells_of [''a''] (Rows (demo_column vs)) = set vs"
  by (force simp: cells_of_def demo_column_def mget_def)

lemma demo_cell_texts: "texts_of demo_num_ops (set demo_cells) = set demo_texts"
proof -
  have "map (cell_text demo_num_ops) demo_cells = demo_texts"
    by (simp add: demo_cells_def demo_texts_def cell_text_def demo_num_ops_def)
  moreover have "VNil \<notin> set demo_cells" by (simp add: demo_cells_def)
  ultimately show ?thesis unfolding texts_of_def by (metis Diff_empty Diff_insert0 list.set_map)
qed

lemma demo_int_texts:
  "parse_int64 ''x'' = None" "parse_int64 ''12.5'' = None" "parse_int64 ''12.50'' = None" "parse_int64 ''10'' = Some 10"
  by code_simp+

lemma demo_big_texts:
  "parse_int64 ''9007199254740993'' = Some 9007199254740993" "parse_int64 ''9007199254740992'' = Some 9007199254740992"
proof -
  have digits: "list_all is_digit ''9007199254740993''" "list_all is_digit ''9007199254740992''" by code_simp+
  have "digits_value ''9007199254740993'' = 9007199254740993" "digits_value ''9007199254740992'' = 9007199254740992"
    by (simp_all add: digits_value_def)
  then show "parse_int64 ''9007199254740993'' = Some 9007199254740993"
      "parse_int64 ''9007199254740992'' = Some 9007199254740992"
    using digits by (simp_all add: parse_int64_def drop_sign_def Let_def)
qed

lemma demo_ints_cases:
  assumes "s \<in> set demo_texts" "parse_int64 s = Some n"
  shows "s = ''9007199254740993'' \<and> n = 9007199254740993 \<or> s = ''9007199254740992'' \<and> n = 9007199254740992 \<or>
    s = ''10'' \<and> n = 10"
proof -
  have "s = ''x'' \<or> s = ''9007199254740993'' \<or> s = ''9007199254740992'' \<or> s = ''12.5'' \<or> s = ''12.50'' \<or> s = ''10''"
    using assms(1) by (simp add: demo_texts_def)
  then show ?thesis using assms(2) by (elim disjE) (simp_all add: demo_int_texts demo_big_texts)
qed

lemma demo_floats: "floats_of demo_num_ops (set demo_cells) \<subseteq> {25 / 2, 10, 2 ^ 53}"
proof -
  have "r \<in> {25 / 2, 10, 2 ^ 53}" if "s \<in> set demo_texts" "parse_float demo_num_ops s = Some (Fin r)" for s r
    using that by (auto simp: demo_texts_def demo_num_ops_def split: if_splits)
  moreover have "n = 10" if "s \<in> set demo_texts" "parse_int64 s = Some n" "\<bar>n\<bar> < 2 ^ 53" for s n
    using demo_ints_cases[OF that(1,2)] that(3) by auto
  ultimately show ?thesis
    unfolding floats_of_def demo_cell_texts by (auto simp: demo_cells_def) fastforce+
qed

lemma demo_texts_law: "text_law demo_num_ops (set demo_texts)"
proof -
  have "\<exists>sign c t. sign \<in> {[], ''+'', ''-''} \<and> s = sign @ c # t \<and> (is_digit c \<or> c \<in> {CHR ''.'', CHR ''i'', CHR ''I''})"
    if "s \<in> set demo_texts" "big_parse demo_num_ops s \<noteq> None" for s
  proof (intro exI conjI)
    show "[] \<in> {[], ''+'', ''-''}" by simp
    show "s = [] @ hd s # tl s" "is_digit (hd s) \<or> hd s \<in> {CHR ''.'', CHR ''i'', CHR ''I''}"
      using that by (auto simp: demo_texts_def demo_num_ops_def is_digit_def)
  qed
  moreover have "big_parse demo_num_ops s = Some (BFin (of_int n))" if "s \<in> set demo_texts" "parse_int64 s = Some n" for s n
    using demo_ints_cases[OF that] by (auto simp: demo_num_ops_def)
  ultimately show ?thesis unfolding text_law_def by blast
qed

lemma demo_reads:
  "parse_float demo_num_ops ''x'' = None" "parse_float demo_num_ops ''12.5'' = Some (Fin (25 / 2))"
  "parse_float demo_num_ops ''12.50'' = Some (Fin (25 / 2))" "parse_float demo_num_ops ''10'' = Some (Fin 10)"
  "big_parse demo_num_ops ''12.5'' = Some (BFin (25 / 2))" "big_parse demo_num_ops ''12.50'' = Some (BFin (25 / 2))"
  "format_float demo_num_ops (Fin (25 / 2)) = ''12.5''" "format_float demo_num_ops (Fin 10) = ''10''"
  by (simp_all add: demo_num_ops_def)

lemma demo_digits_law: "digits_law demo_num_ops (set demo_texts) \<and> no_underflow demo_num_ops (set demo_texts)"
proof -
  have sig: "\<not> significant (filter is_digit ''9007199254740993'') \<le> 15" "\<not> significant (filter is_digit ''9007199254740992'') \<le> 15"
    by code_simp+
  have short: "s \<in> {''x'', ''12.5'', ''12.50'', ''10''}"
    if "s \<in> set demo_texts" "significant (filter is_digit s) \<le> 15" for s
  proof -
    have "s = ''x'' \<or> s = ''9007199254740993'' \<or> s = ''9007199254740992'' \<or> s = ''12.5'' \<or> s = ''12.50'' \<or> s = ''10''"
      using that(1) by (simp add: demo_texts_def)
    moreover have "s \<noteq> ''9007199254740993''" "s \<noteq> ''9007199254740992''" using that(2) sig by metis+
    ultimately show ?thesis by blast
  qed
  have meets: "\<exists>r. f = Fin r \<and> big_parse demo_num_ops (format_float demo_num_ops f) = big_parse demo_num_ops s"
    if "s \<in> {''x'', ''12.5'', ''12.50'', ''10''}" "parse_float demo_num_ops s = Some f" for s f
  proof -
    have "f = Fin (25 / 2) \<or> f = Fin 10" "big_parse demo_num_ops (format_float demo_num_ops f) = big_parse demo_num_ops s"
      using that by (elim insertE emptyE; hypsubst; simp add: demo_reads eq_commute[of _ f])+
    then show ?thesis by blast
  qed
  have "digits_law demo_num_ops (set demo_texts)"
    unfolding digits_law_def
  proof (intro ballI allI impI, elim conjE)
    fix s ds f
    assume a: "s \<in> set demo_texts" "plain_decimal s ds" "significant ds \<le> 15" "parse_float demo_num_ops s = Some f"
    then obtain r where r: "f = Fin r" "big_parse demo_num_ops (format_float demo_num_ops f) = big_parse demo_num_ops s"
      using meets[OF short[OF a(1)] a(4)] plain_digits[OF a(2)] by metis
    show "\<exists>r. f = Fin r \<and> (significant ds = 0 \<or> 1 / 2 ^ 1022 \<le> \<bar>r\<bar> \<longrightarrow>
        big_parse demo_num_ops (format_float demo_num_ops f) = big_parse demo_num_ops s)"
      by (rule exI[of _ r]) (use r in blast)
  qed
  moreover have nz: "parse_float demo_num_ops s \<noteq> Some (Fin 0)" for s
    by (auto simp: demo_num_ops_def split: if_splits)
  then have "no_underflow demo_num_ops (set demo_texts)" unfolding no_underflow_def using nz by metis
  ultimately show ?thesis by blast
qed

lemma demo_shortest_law: "shortest_law demo_num_ops {25 / 2, 10, 2 ^ 53}"
  unfolding shortest_law_def by (auto simp: demo_num_ops_def)

lemma demo_integer_law: "integer_law demo_num_ops {25 / 2, 10, 2 ^ 53}"
proof -
  have "n = 10" if "\<bar>n\<bar> < 2 ^ 53" "of_int n \<in> {25 / 2, 10, 2 ^ 53 :: rat}" for n
  proof -
    have "2 * rat_of_int n \<in> {25, 20, 2 ^ 54}" using that(2) by auto
    then have "rat_of_int (2 * n) \<in> {rat_of_int 25, rat_of_int 20, rat_of_int (2 ^ 54)}" by simp
    then have "2 * n \<in> {25, 20, 2 ^ 54}" by (simp only: insert_iff of_int_eq_iff empty_iff)
    then show ?thesis using that(1) by auto presburger
  qed
  then show ?thesis unfolding integer_law_def by (auto simp: demo_num_ops_def)
qed

lemma demo_reading_law: "reading_law demo_num_ops (set demo_cells)"
proof -
  have "cell_law demo_num_ops (set demo_cells)"
    by (auto simp: cell_law_def demo_cells_def demo_num_ops_def)
  moreover have "integer_law demo_num_ops (floats_of demo_num_ops (set demo_cells))"
    using demo_integer_law demo_floats unfolding integer_law_def by blast
  moreover have "shortest_law demo_num_ops (floats_of demo_num_ops (set demo_cells))"
    using demo_shortest_law demo_floats unfolding shortest_law_def by blast
  ultimately show ?thesis
    using demo_texts_law demo_digits_law by (simp add: reading_law_def demo_cell_texts)
qed

theorem sort_is_stable_sort_witness:
  "sortRows demo_num_ops [''a''] True (demo_column demo_cells) = demo_column demo_sorted"
proof -
  have "sortRows demo_num_ops [''a''] True (demo_column demo_cells) =
      demo_column demo_cells\<lparr>Rows := sort_key (row_code demo_num_ops [''a'']) (Rows (demo_column demo_cells))\<rparr>"
    using sort_is_stable_sort[of demo_num_ops "[''a'']" "demo_column demo_cells" True] demo_reading_law demo_digits_law
    by (simp add: demo_cell_texts demo_column_cells)
  also have "\<dots> = demo_column demo_sorted" by code_simp
  finally show ?thesis .
qed

text \<open>
  The condition on small numbers is needed: \<^verbatim>\<open>strconv.ParseFloat\<close> reads a nonzero decimal below the smallest
  subnormal as 0 without an error, \<^verbatim>\<open>textSortKey\<close> takes a zero for a safe float, and the number ties with
  zero although its exact value, which the comment of \<^verbatim>\<open>shortDecimal\<close> says orders it, is above it.
\<close>

definition tiny_text :: string where "tiny_text = ''0.'' @ replicate 400 (CHR ''0'') @ ''1''"

lemma tiny_ties_with_zero:
  assumes "parse_float ops tiny_text = Some (Fin 0)" "parse_float ops ''0'' = Some (Fin 0)"
  shows "compareSortKeys ops (sortKeyOf ops (VStr tiny_text)) (sortKeyOf ops (VStr ''0'')) = 0"
proof -
  have "mayBeNumber tiny_text \<and> shortDecimal tiny_text" "mayBeNumber ''0'' \<and> shortDecimal ''0''" by code_simp+
  then show ?thesis
    using assms by (simp add: sortKeyOf_def textSortKey_def normal_float_def compareSortKeys_def float_key_def)
qed

end
