(* ===== verification/Data_Expr.thy ===== *)
theory Data_Expr
  imports Data_Join
begin

text \<open>
  The expression language of native project and filter rules (\<^verbatim>\<open>src/engine/expression.go\<close>) and the scan
  that lineage makes of an expression (\<^verbatim>\<open>resolveNativeExpressionColumns\<close> of
  \<^verbatim>\<open>src/engine/column_lineage.go\<close>). An expression is decoded JSON. Float arithmetic and the text of a
  value are the record \<open>expr_ops\<close>; error messages are constructors.
\<close>

section \<open>Evaluation\<close>

record expr_ops =
  xadd :: "f64 \<Rightarrow> f64 \<Rightarrow> f64"
  xsub :: "f64 \<Rightarrow> f64 \<Rightarrow> f64"
  xmul :: "f64 \<Rightarrow> f64 \<Rightarrow> f64"
  xdiv :: "f64 \<Rightarrow> f64 \<Rightarrow> f64"
  xfloat :: "int \<Rightarrow> f64"
  xtext :: "goval \<Rightarrow> string"

datatype expr_error =
    RequiresOp | EmptyPath | BadSegment | NoBranches | BranchNotObject | NoWhen | NoThen | NoArgs string | ArgNotExpression
  | NotNumeric string | DivideByZero | UnsupportedOp string | NoArg string | NoLeft | NoRight

definition expressionFloat :: "expr_ops \<Rightarrow> goval \<Rightarrow> f64 option" where
  "expressionFloat ops v =
     (case v of
        VFloat f \<Rightarrow> Some f
      | VInt i \<Rightarrow> Some (xfloat ops i)
      | VInt64 i \<Rightarrow> Some (xfloat ops i)
      | _ \<Rightarrow> None)"

fun walk_path :: "goval list \<Rightarrow> goval \<Rightarrow> expr_error + goval" where
  "walk_path [] v = Inr v"
| "walk_path (seg # path) v =
     (case as_str seg of
        None \<Rightarrow> Inl BadSegment
      | Some name \<Rightarrow>
          if name = [] then Inl BadSegment
          else (case as_map v of None \<Rightarrow> Inr VNil | Some m \<Rightarrow> walk_path path (mget m name)))"

definition arithmetic :: "expr_ops \<Rightarrow> string \<Rightarrow> goval \<Rightarrow> goval \<Rightarrow> expr_error + goval" where
  "arithmetic ops op l r =
     (if l = VNil \<or> r = VNil then Inr VNil
      else if op = ''concat'' then Inr (VStr (xtext ops l @ xtext ops r))
      else case (expressionFloat ops l, expressionFloat ops r) of
        (Some lf, Some rf) \<Rightarrow>
          if op = ''add'' then Inr (VFloat (xadd ops lf rf))
          else if op = ''subtract'' then Inr (VFloat (xsub ops lf rf))
          else if op = ''multiply'' then Inr (VFloat (xmul ops lf rf))
          else if f_eq rf (Fin 0) then Inl DivideByZero
          else Inr (VFloat (xdiv ops lf rf))
      | _ \<Rightarrow> Inl (NotNumeric op))"

definition compare_floats :: "string \<Rightarrow> f64 \<Rightarrow> f64 \<Rightarrow> bool option" where
  "compare_floats op l r =
     (if op = ''eq'' then Some (f_eq l r) else if op = ''neq'' then Some (\<not> f_eq l r)
      else if op = ''lt'' then Some (f_less l r) else if op = ''lte'' then Some (f_le l r)
      else if op = ''gt'' then Some (f_less r l) else if op = ''gte'' then Some (f_le r l) else None)"

definition compare_texts :: "string \<Rightarrow> string \<Rightarrow> string \<Rightarrow> bool option" where
  "compare_texts op l r =
     (if op = ''eq'' then Some (l = r) else if op = ''neq'' then Some (l \<noteq> r)
      else if op = ''lt'' then Some (l < r) else if op = ''lte'' then Some (l \<le> r)
      else if op = ''gt'' then Some (r < l) else if op = ''gte'' then Some (r \<le> l) else None)"

definition comparison :: "expr_ops \<Rightarrow> string \<Rightarrow> goval \<Rightarrow> goval \<Rightarrow> expr_error + bool" where
  "comparison ops op l r =
     (if l = VNil \<or> r = VNil then Inr False
      else let numeric = (case (expressionFloat ops l, expressionFloat ops r) of
                            (Some lf, Some rf) \<Rightarrow> compare_floats op lf rf | _ \<Rightarrow> None)
           in case numeric of
                Some b \<Rightarrow> Inr b
              | None \<Rightarrow> (case compare_texts op (xtext ops l) (xtext ops r) of
                  Some b \<Rightarrow> Inr b | None \<Rightarrow> Inl (UnsupportedOp op)))"

lemma size_mget_eq: "mget m k = v \<Longrightarrow> size v < size (VMap m)"
  using size_mget[of m k] by simp

function (sequential) evalExpression :: "expr_ops \<Rightarrow> gomap \<Rightarrow> DataRow \<Rightarrow> expr_error + goval"
  and evalPredicate :: "expr_ops \<Rightarrow> gomap \<Rightarrow> DataRow \<Rightarrow> expr_error + bool"
  and eval_branches :: "expr_ops \<Rightarrow> goval list \<Rightarrow> DataRow \<Rightarrow> expr_error + goval option"
  and eval_coalesce :: "expr_ops \<Rightarrow> goval list \<Rightarrow> DataRow \<Rightarrow> expr_error + goval"
  and eval_bool :: "expr_ops \<Rightarrow> bool \<Rightarrow> bool \<Rightarrow> goval list \<Rightarrow> DataRow \<Rightarrow> expr_error + bool"
  and binaryOperands :: "expr_ops \<Rightarrow> gomap \<Rightarrow> DataRow \<Rightarrow> expr_error + (goval \<times> goval)"
where
  "evalExpression ops expr row =
     (case as_str (mget expr ''op'') of
        None \<Rightarrow> Inl RequiresOp
      | Some op \<Rightarrow>
          if blank op then Inl RequiresOp
          else if op = ''column'' then
            (case mget expr ''path'' of
               VList (p # ps) \<Rightarrow> walk_path (p # ps) (VMap row)
             | _ \<Rightarrow> Inl EmptyPath)
          else if op = ''literal'' then Inr (mget expr ''value'')
          else if op = ''case_when'' then
            (case mget expr ''branches'' of
               VList (b # bs) \<Rightarrow>
                 (case eval_branches ops (b # bs) row of
                    Inl e \<Rightarrow> Inl e
                  | Inr (Some v) \<Rightarrow> Inr v
                  | Inr None \<Rightarrow>
                      (case mget expr ''else'' of VMap m \<Rightarrow> evalExpression ops m row | _ \<Rightarrow> Inr VNil))
             | _ \<Rightarrow> Inl NoBranches)
          else if op = ''coalesce'' then
            (case mget expr ''args'' of
               VList (a # as) \<Rightarrow> eval_coalesce ops (a # as) row
             | _ \<Rightarrow> Inl (NoArgs op))
          else if op \<in> {''add'', ''subtract'', ''multiply'', ''divide'', ''concat''} then
            (case binaryOperands ops expr row of
               Inl e \<Rightarrow> Inl e
             | Inr (l, r) \<Rightarrow> arithmetic ops op l r)
          else Inl (UnsupportedOp op))"
| "evalPredicate ops expr row =
     (case as_str (mget expr ''op'') of
        None \<Rightarrow> Inl RequiresOp
      | Some op \<Rightarrow>
          if op = [] then Inl RequiresOp
          else if op = ''and'' \<or> op = ''or'' then
            (case mget expr ''args'' of
               VList (a # as) \<Rightarrow> eval_bool ops (op = ''and'') (op = ''and'') (a # as) row
             | _ \<Rightarrow> Inl (NoArgs op))
          else if op = ''not'' \<or> op = ''is_null'' then
            (case mget expr ''arg'' of
               VMap child \<Rightarrow>
                 if op = ''is_null'' then
                   (case evalExpression ops child row of Inl e \<Rightarrow> Inl e | Inr v \<Rightarrow> Inr (v = VNil))
                 else (case evalPredicate ops child row of Inl e \<Rightarrow> Inl e | Inr b \<Rightarrow> Inr (\<not> b))
             | _ \<Rightarrow> Inl (NoArg op))
          else (case binaryOperands ops expr row of
                  Inl e \<Rightarrow> Inl e
                | Inr (l, r) \<Rightarrow> comparison ops op l r))"
| "eval_branches ops [] row = Inr None"
| "eval_branches ops (raw # rest) row =
     (case raw of
        VMap branch \<Rightarrow>
          (case mget branch ''when'' of
             VMap w \<Rightarrow>
               (case evalPredicate ops w row of
                  Inl e \<Rightarrow> Inl e
                | Inr match \<Rightarrow>
                    if match then
                      (case mget branch ''then'' of
                         VMap t \<Rightarrow> (case evalExpression ops t row of Inl e \<Rightarrow> Inl e | Inr v \<Rightarrow> Inr (Some v))
                       | _ \<Rightarrow> Inl NoThen)
                    else eval_branches ops rest row)
           | _ \<Rightarrow> Inl NoWhen)
      | _ \<Rightarrow> Inl BranchNotObject)"
| "eval_coalesce ops [] row = Inr VNil"
| "eval_coalesce ops (raw # rest) row =
     (case raw of
        VMap child \<Rightarrow>
          (case evalExpression ops child row of
             Inl e \<Rightarrow> Inl e
           | Inr v \<Rightarrow> if v \<noteq> VNil then Inr v else eval_coalesce ops rest row)
      | _ \<Rightarrow> Inl ArgNotExpression)"
| "eval_bool ops isAnd result [] row = Inr result"
| "eval_bool ops isAnd result (raw # rest) row =
     (case raw of
        VMap child \<Rightarrow>
          (case evalPredicate ops child row of
             Inl e \<Rightarrow> Inl e
           | Inr b \<Rightarrow> eval_bool ops isAnd (if isAnd then result \<and> b else result \<or> b) rest row)
      | _ \<Rightarrow> Inl ArgNotExpression)"
| "binaryOperands ops expr row =
     (case mget expr ''left'' of
        VMap l \<Rightarrow>
          (case mget expr ''right'' of
             VMap r \<Rightarrow>
               (case evalExpression ops l row of
                  Inl e \<Rightarrow> Inl e
                | Inr lv \<Rightarrow> (case evalExpression ops r row of Inl e \<Rightarrow> Inl e | Inr rv \<Rightarrow> Inr (lv, rv)))
           | _ \<Rightarrow> Inl NoRight)
      | _ \<Rightarrow> Inl NoLeft)"
  by pat_completeness auto

termination
  apply (relation "measure (\<lambda>x. case x of
      Inl (Inl (_, e, _)) \<Rightarrow> 2 * size (VMap e) + 1
    | Inl (Inr (Inl (_, e, _))) \<Rightarrow> 2 * size (VMap e) + 1
    | Inl (Inr (Inr (_, l, _))) \<Rightarrow> 2 * size (VList l)
    | Inr (Inl (_, l, _)) \<Rightarrow> 2 * size (VList l)
    | Inr (Inr (Inl (_, _, _, l, _))) \<Rightarrow> 2 * size (VList l)
    | Inr (Inr (Inr (_, e, _))) \<Rightarrow> 2 * size (VMap e))")
  by (auto dest!: size_mget_eq)

declare evalExpression.simps [simp del] evalPredicate.simps [simp del] binaryOperands.simps [simp del]

section \<open>The columns an expression names\<close>

text \<open>An upstream column is a node and a column name.\<close>

type_synonym ColumnRef = "string \<times> string"
type_synonym origins = "(string \<times> ColumnRef list) list"

definition origin_of :: "origins \<Rightarrow> string \<Rightarrow> ColumnRef list" where
  "origin_of origin c = (case map_of origin c of None \<Rightarrow> [] | Some refs \<Rightarrow> refs)"

definition own_column :: "gomap \<Rightarrow> string option" where
  "own_column node =
     (if mget node ''op'' = VStr ''column''
      then (case mget node ''path'' of VList (VStr name # _) \<Rightarrow> Some name | _ \<Rightarrow> None)
      else None)"

definition visit_own :: "origins \<Rightarrow> gomap \<Rightarrow> string set \<times> ColumnRef list \<Rightarrow> string set \<times> ColumnRef list" where
  "visit_own origin node st =
     (case own_column node of
        Some name \<Rightarrow> if name \<in> fst st then st else (insert name (fst st), snd st @ origin_of origin name)
      | None \<Rightarrow> st)"

lemma size_visit:
  "Suc (2 * size (mget m k)) < 2 * size (VMap m)" "mget m k = VList l \<Longrightarrow> size (VList l) < size (VMap m)"
  "Suc (2 * size v) < 2 * size (VList (v # vs))" "size (VList vs) < size (VList (v # vs))"
  using size_mget[of m k] by auto

function (sequential) visit_node :: "origins \<Rightarrow> gomap \<Rightarrow> string set \<times> ColumnRef list \<Rightarrow> string set \<times> ColumnRef list"
  and visit_child :: "origins \<Rightarrow> goval \<Rightarrow> string set \<times> ColumnRef list \<Rightarrow> string set \<times> ColumnRef list"
  and visit_args :: "origins \<Rightarrow> goval list \<Rightarrow> string set \<times> ColumnRef list \<Rightarrow> string set \<times> ColumnRef list"
where
  "visit_node origin node st =
     (let st1 = visit_own origin node st;
          st2 = visit_child origin (mget node ''left'') st1;
          st3 = visit_child origin (mget node ''right'') st2
      in case mget node ''args'' of VList as \<Rightarrow> visit_args origin as st3 | _ \<Rightarrow> st3)"
| "visit_child origin (VMap child) st = visit_node origin child st"
| "visit_child origin _ st = st"
| "visit_args origin [] st = st"
| "visit_args origin (raw # rest) st = visit_args origin rest (visit_child origin raw st)"
  by pat_completeness auto

termination
  by (relation "measure (\<lambda>x. case x of
      Inl (_, e, _) \<Rightarrow> 2 * size (VMap e)
    | Inr (Inl (_, v, _)) \<Rightarrow> 2 * size v + 1
    | Inr (Inr (_, l, _)) \<Rightarrow> 2 * size (VList l))")
    (simp_all add: size_visit del: goval.size)

declare visit_node.simps [simp del]

definition resolveNativeExpressionColumns :: "gomap \<Rightarrow> origins \<Rightarrow> ColumnRef list" where
  "resolveNativeExpressionColumns expr origin = snd (visit_node origin expr ({}, []))"

text \<open>The nodes that the scan reaches do not decide between branches.\<close>

function (sequential) unconditional :: "gomap \<Rightarrow> bool" and unconditional_val :: "goval \<Rightarrow> bool"
  and unconditional_args :: "goval list \<Rightarrow> bool"
where
  "unconditional node \<longleftrightarrow>
     mget node ''op'' \<noteq> VStr ''case_when'' \<and> unconditional_val (mget node ''left'') \<and> unconditional_val (mget node ''right'') \<and>
     (case mget node ''args'' of VList as \<Rightarrow> unconditional_args as | _ \<Rightarrow> True)"
| "unconditional_val (VMap child) \<longleftrightarrow> unconditional child"
| "unconditional_val _ \<longleftrightarrow> True"
| "unconditional_args [] \<longleftrightarrow> True"
| "unconditional_args (raw # rest) \<longleftrightarrow> unconditional_val raw \<and> unconditional_args rest"
  by pat_completeness auto

termination
  by (relation "measure (\<lambda>x. case x of
      Inl e \<Rightarrow> 2 * size (VMap e)
    | Inr (Inl v) \<Rightarrow> 2 * size v + 1
    | Inr (Inr l) \<Rightarrow> 2 * size (VList l))")
    (simp_all add: size_visit del: goval.size)

declare unconditional.simps [simp del]

text \<open>The columns the scan meets in a node.\<close>

function (sequential) named_in :: "gomap \<Rightarrow> string set" and named_in_val :: "goval \<Rightarrow> string set"
  and named_in_args :: "goval list \<Rightarrow> string set"
where
  "named_in node =
     set_option (own_column node) \<union> named_in_val (mget node ''left'') \<union> named_in_val (mget node ''right'') \<union>
     (case mget node ''args'' of VList as \<Rightarrow> named_in_args as | _ \<Rightarrow> {})"
| "named_in_val (VMap child) = named_in child"
| "named_in_val _ = {}"
| "named_in_args [] = {}"
| "named_in_args (raw # rest) = named_in_val raw \<union> named_in_args rest"
  by pat_completeness auto

termination
  by (relation "measure (\<lambda>x. case x of
      Inl e \<Rightarrow> 2 * size (VMap e)
    | Inr (Inl v) \<Rightarrow> 2 * size v + 1
    | Inr (Inr l) \<Rightarrow> 2 * size (VList l))")
    (simp_all add: size_visit del: goval.size)

declare named_in.simps [simp del]

text \<open>The scan has seen the columns it met, and each of them brought its origins.\<close>

definition covered :: "origins \<Rightarrow> string set \<times> ColumnRef list \<Rightarrow> bool" where
  "covered origin st \<longleftrightarrow> (\<forall>c \<in> fst st. set (origin_of origin c) \<subseteq> set (snd st))"

lemma visit_own_seen: "fst (visit_own origin node st) = fst st \<union> set_option (own_column node)"
  by (auto simp: visit_own_def split: option.splits)

lemma visit_own_covered: "covered origin st \<Longrightarrow> covered origin (visit_own origin node st)"
  by (auto simp: visit_own_def covered_def split: option.splits)

lemma visit_seen:
  "fst (visit_node origin node st) = fst st \<union> named_in node"
  "fst (visit_child origin v st) = fst st \<union> named_in_val v"
  "fst (visit_args origin vs st) = fst st \<union> named_in_args vs"
proof (induction origin node st and origin v st and origin vs st rule: visit_node_visit_child_visit_args.induct)
  case (1 origin node st)
  note IH = 1(1)[OF refl] 1(2)[OF refl refl] 1(3)[OF refl refl refl]
  show ?case
    by (cases "mget node ''args''")
      (simp_all add: visit_node.simps[of origin node st] named_in.simps[of node] Let_def IH visit_own_seen Un_ac)
qed (simp_all add: Un_ac)

lemma visit_covered:
  "covered origin st \<Longrightarrow> covered origin (visit_node origin node st)"
  "covered origin st \<Longrightarrow> covered origin (visit_child origin v st)"
  "covered origin st \<Longrightarrow> covered origin (visit_args origin vs st)"
proof (induction origin node st and origin v st and origin vs st rule: visit_node_visit_child_visit_args.induct)
  case (1 origin node st)
  note IH = 1(1)[OF refl] 1(2)[OF refl refl] 1(3)[OF refl refl refl]
  show ?case
    by (cases "mget node ''args''")
      (simp_all add: visit_node.simps[of origin node st] Let_def IH visit_own_covered 1(4))
qed simp_all

lemma resolve_covers:
  assumes "c \<in> named_in expr"
  shows "set (origin_of origin c) \<subseteq> set (resolveNativeExpressionColumns expr origin)"
proof -
  have "covered origin (visit_node origin expr ({}, []))"
    by (rule visit_covered(1)) (simp add: covered_def)
  then show ?thesis
    using assms visit_seen(1)[of origin expr "({}, [])"] by (simp add: covered_def resolveNativeExpressionColumns_def)
qed

text \<open>An expression without a branch depends on a row through the columns the scan meets, and through nothing else.\<close>

lemma column_reads:
  assumes "mget expr ''op'' = VStr ''column''" "\<And>c. c \<in> named_in expr \<Longrightarrow> mget row c = mget row' c"
    "mget expr ''path'' = VList (p # ps)"
  shows "walk_path (p # ps) (VMap row) = walk_path (p # ps) (VMap row')"
proof (cases "as_str p")
  case (Some name)
  then have "own_column expr = Some name"
    using assms(1,3) by (cases p) (simp_all add: own_column_def)
  then have "name \<in> named_in expr" by (simp add: named_in.simps[of expr])
  then show ?thesis using Some assms(2) by simp
qed simp

lemma operands_read:
  assumes "\<And>m. mget expr ''left'' = VMap m \<Longrightarrow> evalExpression ops m row = evalExpression ops m row'"
    "\<And>m. mget expr ''right'' = VMap m \<Longrightarrow> evalExpression ops m row = evalExpression ops m row'"
  shows "binaryOperands ops expr row = binaryOperands ops expr row'"
  using assms by (cases "mget expr ''left''"; cases "mget expr ''right''") (simp_all add: binaryOperands.simps split: sum.split)

lemma unconditional_reads:
  "unconditional expr \<Longrightarrow> (\<And>c. c \<in> named_in expr \<Longrightarrow> mget row c = mget row' c) \<Longrightarrow>
     evalExpression ops expr row = evalExpression ops expr row'"
  "unconditional_val v \<Longrightarrow> (\<And>c. c \<in> named_in_val v \<Longrightarrow> mget row c = mget row' c) \<Longrightarrow>
     (\<And>m. v = VMap m \<Longrightarrow> evalExpression ops m row = evalExpression ops m row')"
  "unconditional_args vs \<Longrightarrow> (\<And>c. c \<in> named_in_args vs \<Longrightarrow> mget row c = mget row' c) \<Longrightarrow>
     eval_coalesce ops vs row = eval_coalesce ops vs row'"
proof (induction expr and v and vs rule: named_in_named_in_val_named_in_args.induct)
  case (1 node)
  have unc: "mget node ''op'' \<noteq> VStr ''case_when''" "unconditional_val (mget node ''left'')"
      "unconditional_val (mget node ''right'')" "\<And>as. mget node ''args'' = VList as \<Longrightarrow> unconditional_args as"
    using 1(4) by (simp_all add: unconditional.simps[of node])
  have named: "\<And>c. c \<in> named_in_val (mget node ''left'') \<Longrightarrow> mget row c = mget row' c"
      "\<And>c. c \<in> named_in_val (mget node ''right'') \<Longrightarrow> mget row c = mget row' c"
      "\<And>as c. mget node ''args'' = VList as \<Longrightarrow> c \<in> named_in_args as \<Longrightarrow> mget row c = mget row' c"
    using 1(5) by (simp_all add: named_in.simps[of node])
  have operands: "binaryOperands ops node row = binaryOperands ops node row'"
    using operands_read 1(1)[OF unc(2) named(1)] 1(2)[OF unc(3) named(2)] by blast
  have args: "eval_coalesce ops as row = eval_coalesce ops as row'" if "mget node ''args'' = VList as" for as
    using 1(3)[OF that unc(4)[OF that] named(3)[OF that]] .
  have column: "walk_path (p # ps) (VMap row) = walk_path (p # ps) (VMap row')"
    if "mget node ''op'' = VStr ''column''" "mget node ''path'' = VList (p # ps)" for p ps
    using column_reads[OF that(1) 1(5) that(2)] .
  show ?case
  proof (cases "mget node ''op''")
    case (VStr op)
    then show ?thesis using operands args column unc(1)
      by (simp add: evalExpression.simps[of ops node] del: eval_coalesce.simps walk_path.simps split: goval.split list.split)
  qed (simp_all add: evalExpression.simps[of ops node])
qed (auto split: goval.split sum.split)

definition first_of_a :: gomap where
  "first_of_a = [(''op'', VStr ''coalesce''), (''args'', VList [VMap [(''op'', VStr ''column''), (''path'', VList [VStr ''a''])]])]"

definition ab_origins :: origins where
  "ab_origins = [(''a'', [(''src'', ''a'')]), (''b'', [(''src'', ''b'')])]"

text \<open>
  C26. What a native expression computes is decided by the columns its lineage reports: for an expression without a
  \<^verbatim>\<open>case_when\<close>, two rows that agree on every column whose origins are reported give the same value
  or the same error.
\<close>

theorem lineage_reads:
  assumes "unconditional expr"
    and "\<And>c. set (origin_of origin c) \<subseteq> set (resolveNativeExpressionColumns expr origin) \<Longrightarrow> mget row c = mget row' c"
  shows "evalExpression ops expr row = evalExpression ops expr row'"
  by (rule unconditional_reads(1)[OF assms(1)]) (rule assms(2)[OF resolve_covers])


theorem lineage_reads_witness:
  "\<forall>ops. evalExpression ops first_of_a [(''a'', VInt 1), (''b'', VInt 2)] = evalExpression ops first_of_a [(''a'', VInt 1), (''b'', VInt 3)]"
proof (intro allI lineage_reads)
  show "unconditional first_of_a" by code_simp
next
  fix c
  have refs: "set (resolveNativeExpressionColumns first_of_a ab_origins) = {(''src'', ''a'')}" by code_simp
  assume "set (origin_of ab_origins c) \<subseteq> set (resolveNativeExpressionColumns first_of_a ab_origins)"
  then have "c \<noteq> ''b''" unfolding refs by (auto simp: origin_of_def ab_origins_def)
  then show "mget [(''a'', VInt 1), (''b'', VInt 2)] c = mget [(''a'', VInt 1), (''b'', VInt 3)] c"
    by (simp add: mget_def)
qed

text \<open>
  The scan follows \<^verbatim>\<open>left\<close>, \<^verbatim>\<open>right\<close> and \<^verbatim>\<open>args\<close> only, so the columns inside a \<^verbatim>\<open>case_when\<close>
  are missing from the lineage of the column it computes.
\<close>

definition branching :: gomap where
  "branching =
     [(''op'', VStr ''case_when''),
      (''branches'', VList [VMap
         [(''when'', VMap [(''op'', VStr ''is_null''), (''arg'', VMap [(''op'', VStr ''column''), (''path'', VList [VStr ''a''])])]),
          (''then'', VMap [(''op'', VStr ''literal''), (''value'', VInt 0)])]]),
      (''else'', VMap [(''op'', VStr ''column''), (''path'', VList [VStr ''a''])])]"

lemma lineage_misses_branches:
  "resolveNativeExpressionColumns branching [(''a'', [(''src'', ''a'')])] = [] \<and>
   evalExpression ops branching [(''a'', VInt 1)] = Inr (VInt 1) \<and>
   evalExpression ops branching [(''a'', VNil)] = Inr (VInt 0)"
  by code_simp

end
