(* ===== verification/Data_Transform.thy ===== *)
theory Data_Transform
  imports Data_Sort Data_Expr
begin

text \<open>
  The transform rules: \<^verbatim>\<open>ApplyTransforms\<close>, \<^verbatim>\<open>applyRule\<close> and the handlers of
  \<^verbatim>\<open>src/engine/transform.go\<close>, the table of requirements of \<^verbatim>\<open>src/engine/transform_requirements.go\<close>
  and \<^verbatim>\<open>runTransform\<close> of \<^verbatim>\<open>src/engine/node_handlers.go\<close>. A handler returns the dataset it leaves in
  place. White space is that of ASCII; case conversion of data, float arithmetic and parsing and the texts of values
  are the record \<open>xf_ops\<close>. The order of an association list stands for one iteration order of a Go map.
\<close>

section \<open>Rules\<close>

record ProjectionField =
  pName :: string
  pExpr :: gomap

record XRule = TransformRule +
  rName :: string
  Expression :: string
  rColumn :: string
  Function :: string
  rColumns :: "string list"
  Mapping :: "(string \<times> string) list"
  rCondition :: string
  Ascending :: bool
  Projections :: "ProjectionField list"
  ExpressionVersion :: int
  Predicate :: gomap

record xf_ops =
  xagg :: agg_ops
  xnum :: num_ops
  xexpr :: expr_ops
  xshort :: "f64 \<Rightarrow> string"
  xsyntax :: "goval \<Rightarrow> string"
  canonicalGroupKey :: "goval list \<Rightarrow> string"
  ToLower :: "string \<Rightarrow> string"
  ToUpper :: "string \<Rightarrow> string"
  Title :: "string \<Rightarrow> string"

datatype rule_error =
    UnsupportedType string
  | NeedsMapping | NeedsNameAndExpression | NeedsProjections | NeedsVersion | NeedsCondition | NeedsColumnAndFunction
  | NeedsColumnAndMapping | NeedsDropColumns | NeedsSortColumns | NeedsKeyColumns | NeedsGroupBy | NeedsAggregation | NeedsPredicate
  | ProjectionShape | ProjectionTwice string | ProjectColumn string expr_error | FilterPredicate expr_error
  | BadCondition string | UnsupportedFunction string

section \<open>What a rule needs\<close>

definition requireMapping :: "XRule \<Rightarrow> rule_error option" where
  "requireMapping r = (if Mapping r = [] then Some NeedsMapping else None)"

definition requireNameAndExpression :: "XRule \<Rightarrow> rule_error option" where
  "requireNameAndExpression r = (if rName r = [] \<or> Expression r = [] then Some NeedsNameAndExpression else None)"

definition requireProjections :: "XRule \<Rightarrow> rule_error option" where
  "requireProjections r =
     (if Projections r = [] then Some NeedsProjections
      else if ExpressionVersion r \<noteq> 1 then Some NeedsVersion else None)"

definition requireCondition :: "XRule \<Rightarrow> rule_error option" where
  "requireCondition r = (if rCondition r = [] then Some NeedsCondition else None)"

definition requireColumnAndFunction :: "XRule \<Rightarrow> rule_error option" where
  "requireColumnAndFunction r = (if rColumn r = [] \<or> Function r = [] then Some NeedsColumnAndFunction else None)"

definition requireColumnAndMapping :: "XRule \<Rightarrow> rule_error option" where
  "requireColumnAndMapping r = (if rColumn r = [] \<or> Mapping r = [] then Some NeedsColumnAndMapping else None)"

definition requireDropColumns :: "XRule \<Rightarrow> rule_error option" where
  "requireDropColumns r = (if rColumns r = [] then Some NeedsDropColumns else None)"

definition requireSortColumns :: "XRule \<Rightarrow> rule_error option" where
  "requireSortColumns r = (if rColumns r = [] then Some NeedsSortColumns else None)"

definition requireKeyColumns :: "XRule \<Rightarrow> rule_error option" where
  "requireKeyColumns r = (if rColumns r = [] then Some NeedsKeyColumns else None)"

definition requireAggregation :: "XRule \<Rightarrow> rule_error option" where
  "requireAggregation r =
     (if GroupBy r = [] then Some NeedsGroupBy
      else if AggFields r = [] \<and> Aggregations r = [] then Some NeedsAggregation else None)"

definition requirePredicate :: "XRule \<Rightarrow> rule_error option" where
  "requirePredicate r = (if ExpressionVersion r \<noteq> 1 \<or> Predicate r = [] then Some NeedsPredicate else None)"

definition transformRuleRequirements :: "(string \<times> (XRule \<Rightarrow> rule_error option)) list" where
  "transformRuleRequirements =
     [(''rename_columns'', requireMapping), (''rename'', requireMapping),
      (''add_column'', requireNameAndExpression),
      (''project'', requireProjections), (''projection'', requireProjections),
      (''filter_rows'', requireCondition), (''filter'', requireCondition),
      (''apply_function'', requireColumnAndFunction), (''function'', requireColumnAndFunction),
      (''replace_values'', requireColumnAndMapping), (''replace'', requireColumnAndMapping),
      (''drop_columns'', requireDropColumns), (''drop'', requireDropColumns),
      (''sort'', requireSortColumns),
      (''deduplicate'', requireKeyColumns), (''dedup'', requireKeyColumns),
      (''aggregate'', requireAggregation), (''agg'', requireAggregation),
      (''filter_native'', requirePredicate)]"

definition transformRuleError :: "XRule \<Rightarrow> rule_error option" where
  "transformRuleError r =
     (case map_of transformRuleRequirements (rType r) of
        None \<Rightarrow> Some (UnsupportedType (rType r))
      | Some check \<Rightarrow> check r)"

text \<open>\<open>decode\<close> is the decoding of the rule list (\<^verbatim>\<open>parseNodeTransformRules\<close>: JSON).\<close>

datatype rules_error = RulesUnreadable | RuleNoType nat | RuleBad nat rule_error

fun number_errors :: "nat \<Rightarrow> XRule list \<Rightarrow> rules_error list" where
  "number_errors i [] = []"
| "number_errors i (rule # rules) =
     (if rType rule = [] then [RuleNoType i]
      else case transformRuleError rule of None \<Rightarrow> [] | Some e \<Rightarrow> [RuleBad i e]) @ number_errors (Suc i) rules"

definition transformRuleErrors :: "(goval \<Rightarrow> XRule list option) \<Rightarrow> gomap \<Rightarrow> rules_error list" where
  "transformRuleErrors decode config =
     (if mget config ''rules'' = VNil then []
      else case decode (mget config ''rules'') of
        None \<Rightarrow> [RulesUnreadable]
      | Some rules \<Rightarrow> number_errors 1 rules)"

section \<open>Rows with errors\<close>

text \<open>A loop over rows that stops at the first error.\<close>

fun each_row :: "('a \<Rightarrow> 'e + 'b) \<Rightarrow> 'a list \<Rightarrow> 'e + 'b list" where
  "each_row f [] = Inr []"
| "each_row f (x # xs) =
     (case f x of Inl e \<Rightarrow> Inl e
      | Inr y \<Rightarrow> (case each_row f xs of Inl e \<Rightarrow> Inl e | Inr ys \<Rightarrow> Inr (y # ys)))"

definition filterNative :: "xf_ops \<Rightarrow> XRule \<Rightarrow> DataSet \<Rightarrow> rule_error + DataSet" where
  "filterNative ops r ds =
     (case each_row (\<lambda>row. evalPredicate (xexpr ops) (Predicate r) row) (Rows ds) of
        Inl e \<Rightarrow> Inl (FilterPredicate e)
      | Inr keep \<Rightarrow> Inr (ds\<lparr>Rows := map fst (filter snd (zip (Rows ds) keep))\<rparr>))"

fun project_columns :: "ProjectionField list \<Rightarrow> string list \<Rightarrow> rule_error + string list" where
  "project_columns [] columns = Inr columns"
| "project_columns (p # ps) columns =
     (if blank (pName p) \<or> pExpr p = [] then Inl ProjectionShape
      else if pName p \<in> set columns then Inl (ProjectionTwice (pName p))
      else project_columns ps (columns @ [pName p]))"

fun project_row :: "expr_ops \<Rightarrow> ProjectionField list \<Rightarrow> DataRow \<Rightarrow> DataRow \<Rightarrow> rule_error + DataRow" where
  "project_row ops [] row outRow = Inr outRow"
| "project_row ops (p # ps) row outRow =
     (case evalExpression ops (pExpr p) row of
        Inl e \<Rightarrow> Inl (ProjectColumn (pName p) e)
      | Inr v \<Rightarrow> project_row ops ps row (mput (pName p) v outRow))"

definition project :: "xf_ops \<Rightarrow> XRule \<Rightarrow> DataSet \<Rightarrow> rule_error + DataSet" where
  "project ops r ds =
     (case project_columns (Projections r) [] of
        Inl e \<Rightarrow> Inl e
      | Inr columns \<Rightarrow>
          (case each_row (\<lambda>row. project_row (xexpr ops) (Projections r) row []) (Rows ds) of
             Inl e \<Rightarrow> Inl e
           | Inr out \<Rightarrow> Inr \<lparr>Columns = columns, Rows = out\<rparr>))"

text \<open>One entry of the mapping on one row, in the order the map is iterated.\<close>

definition rename_step :: "string \<times> string \<Rightarrow> DataRow \<Rightarrow> DataRow" where
  "rename_step on row = (case map_of row (fst on) of Some v \<Rightarrow> mdel (fst on) (mput (snd on) v row) | None \<Rightarrow> row)"

definition renamed :: "(string \<times> string) list \<Rightarrow> string \<Rightarrow> string" where
  "renamed mapping c = (case map_of mapping c of Some n \<Rightarrow> n | None \<Rightarrow> c)"

definition renameColumns :: "XRule \<Rightarrow> DataSet \<Rightarrow> DataSet" where
  "renameColumns r ds =
     \<lparr>Columns = map (renamed (Mapping r)) (Columns ds), Rows = map (fold rename_step (Mapping r)) (Rows ds)\<rparr>"

section \<open>Computed columns\<close>

definition quote_char :: "char \<Rightarrow> bool" where
  "quote_char c \<longleftrightarrow> c = CHR 0x27 \<or> c = CHR 0x22"

definition concat_part :: "(f64 \<Rightarrow> string) \<Rightarrow> DataRow \<Rightarrow> string \<Rightarrow> string" where
  "concat_part ff row raw =
     (let part = trim_space raw in
      case map_of row part of
        Some v \<Rightarrow> sprint_v ff v
      | None \<Rightarrow> if 2 \<le> length part \<and> quote_char (hd part) then butlast (tl part) else part)"

definition operand :: "agg_ops \<Rightarrow> DataRow \<Rightarrow> string \<Rightarrow> f64 option" where
  "operand ops row raw =
     (let part = trim_space raw in
      if part = [] then None
      else case map_of row part of Some v \<Rightarrow> toAggFloat ops v | None \<Rightarrow> ParseFloat ops part)"

fun operands :: "agg_ops \<Rightarrow> DataRow \<Rightarrow> string list \<Rightarrow> f64 list option" where
  "operands ops row [] = Some []"
| "operands ops row (p # ps) =
     (case operand ops row p of
        None \<Rightarrow> None
      | Some f \<Rightarrow> map_option (Cons f) (operands ops row ps))"

fun columnRefBroken :: "agg_ops \<Rightarrow> DataRow \<Rightarrow> bool \<Rightarrow> string list \<Rightarrow> bool" where
  "columnRefBroken ops row sawColumn [] \<longleftrightarrow> sawColumn"
| "columnRefBroken ops row sawColumn (p # ps) \<longleftrightarrow>
     (if map_of row (trim_space p) \<noteq> None then columnRefBroken ops row True ps
      else if ParseFloat ops (trim_space p) = None then False
      else columnRefBroken ops row sawColumn ps)"

fun chain_arith :: "expr_ops \<Rightarrow> char \<Rightarrow> f64 \<Rightarrow> f64 list \<Rightarrow> goval" where
  "chain_arith ops op acc [] = VFloat acc"
| "chain_arith ops op acc (f # fs) =
     (if op = CHR ''*'' then chain_arith ops op (xmul ops acc f) fs
      else if op = CHR ''/'' then (if f_eq f (Fin 0) then VNil else chain_arith ops op (xdiv ops acc f) fs)
      else chain_arith ops op (xsub ops acc f) fs)"

definition literal_form :: "string \<Rightarrow> string" where
  "literal_form expr = (if 2 \<le> length expr \<and> quote_char (hd expr) \<and> last expr = hd expr then butlast (tl expr) else expr)"

definition evalAddColumnExpression :: "xf_ops \<Rightarrow> string \<Rightarrow> DataRow \<Rightarrow> goval" where
  "evalAddColumnExpression ops expr row =
     (if CHR ''+'' \<in> set expr then VStr (concat (map (concat_part (xshort ops) row) (split_on (CHR ''+'') expr)))
      else case find (\<lambda>op. op \<in> set expr) ''*/-'' of
        None \<Rightarrow> VStr (literal_form expr)
      | Some op \<Rightarrow>
          (case operands (xagg ops) row (split_on op expr) of
             None \<Rightarrow> if columnRefBroken (xagg ops) row False (split_on op expr) then VNil else VStr (literal_form expr)
           | Some [] \<Rightarrow> VStr (literal_form expr)
           | Some (f # fs) \<Rightarrow> chain_arith (xexpr ops) op f fs))"

definition addColumn :: "xf_ops \<Rightarrow> XRule \<Rightarrow> DataSet \<Rightarrow> DataSet" where
  "addColumn ops r ds =
     \<lparr>Columns = Columns ds @ [rName r],
      Rows = map (\<lambda>row. mput (rName r) (evalAddColumnExpression ops (Expression r) row) row) (Rows ds)\<rparr>"

section \<open>Filter conditions\<close>

fun str_index :: "string \<Rightarrow> string \<Rightarrow> nat option" where
  "str_index [] sub = (if sub = [] then Some 0 else None)"
| "str_index (x # xs) sub = (if has_prefix (x # xs) sub then Some 0 else map_option Suc (str_index xs sub))"

definition trim_set :: "char set \<Rightarrow> string \<Rightarrow> string" where
  "trim_set cs s = rev (dropWhile (\<lambda>c. c \<in> cs) (rev (dropWhile (\<lambda>c. c \<in> cs) s)))"

definition comparisonOps :: "string list" where
  "comparisonOps = [''>='', ''<='', ''!='', ''=='', ''='', ''>'', ''<'']"

record parsedCondition =
  cColumn :: string
  cOp :: string
  cTarget :: string
  cSet :: "string list"

definition better_op :: "string \<Rightarrow> string \<Rightarrow> (nat \<times> string) option \<Rightarrow> (nat \<times> string) option" where
  "better_op cond op best =
     (case str_index cond op of
        None \<Rightarrow> best
      | Some idx \<Rightarrow>
          (case best of
             None \<Rightarrow> Some (idx, op)
           | Some (bestIdx, bestOp) \<Rightarrow>
               if idx < bestIdx \<or> (idx = bestIdx \<and> length bestOp < length op) then Some (idx, op) else best))"

definition parseCondition :: "string \<Rightarrow> rule_error + parsedCondition" where
  "parseCondition cond =
     (case str_index cond '' in '' of
        Some i \<Rightarrow>
          Inr \<lparr>cColumn = trim_space (take i cond), cOp = ''in'', cTarget = [],
               cSet = map (trim_set {CHR '' '', CHR 0x27, CHR 0x22})
                 (split_on (CHR '','') (trim_set {CHR ''['', CHR '']''} (trim_space (drop (i + 4) cond))))\<rparr>
      | None \<Rightarrow>
          (case fold (better_op cond) comparisonOps None of
             None \<Rightarrow> Inl (BadCondition cond)
           | Some (i, op) \<Rightarrow>
               Inr \<lparr>cColumn = trim_space (take i cond), cOp = op,
                    cTarget = trim_set {CHR 0x27, CHR 0x22} (trim_space (drop (i + length op) cond)), cSet = []\<rparr>))"

record conditionMatcher = parsedCondition +
  targetNum :: "f64 option"

definition newConditionMatcher :: "agg_ops \<Rightarrow> string \<Rightarrow> rule_error + conditionMatcher" where
  "newConditionMatcher ops cond =
     (case parseCondition cond of
        Inl e \<Rightarrow> Inl e
      | Inr pc \<Rightarrow> Inr (parsedCondition.extend pc \<lparr>targetNum = ParseFloat ops (cTarget pc)\<rparr>))"

definition cellText :: "(f64 \<Rightarrow> string) \<Rightarrow> goval \<Rightarrow> string" where
  "cellText ff v = (case v of VStr s \<Rightarrow> s | _ \<Rightarrow> sprint_v ff v)"

definition cellNumber :: "xf_ops \<Rightarrow> goval \<Rightarrow> f64 option" where
  "cellNumber ops v =
     (case v of
        VFloat n \<Rightarrow> Some n
      | VInt64 n \<Rightarrow> Some (float_of (xagg ops) n)
      | VInt n \<Rightarrow> Some (float_of (xagg ops) n)
      | _ \<Rightarrow> ParseFloat (xagg ops) (cellText (xshort ops) v))"

definition matchesText :: "conditionMatcher \<Rightarrow> string \<Rightarrow> bool" where
  "matchesText m left =
     (if cOp m = ''in'' then left \<in> set (cSet m)
      else if cOp m = ''='' \<or> cOp m = ''=='' then left = cTarget m
      else left \<noteq> cTarget m)"

definition cell_cmp :: "xf_ops \<Rightarrow> conditionMatcher \<Rightarrow> goval \<Rightarrow> int" where
  "cell_cmp ops m cell =
     (case (targetNum m, cellNumber ops cell) of
        (Some t, Some lf) \<Rightarrow> (if f_less lf t then - 1 else if f_less t lf then 1 else 0)
      | _ \<Rightarrow> cmp_lin (cellText (xshort ops) cell) (cTarget m))"

definition matches :: "xf_ops \<Rightarrow> conditionMatcher \<Rightarrow> DataRow \<Rightarrow> bool" where
  "matches ops m row =
     (let cell = mget row (cColumn m) in
      if cOp m \<in> {''in'', ''='', ''=='', ''!=''} then matchesText m (cellText (xshort ops) cell)
      else let c = cell_cmp ops m cell in
        if cOp m = ''>'' then c > 0 else if cOp m = ''<'' then c < 0 else if cOp m = ''>='' then c \<ge> 0 else c \<le> 0)"

definition filterRows :: "xf_ops \<Rightarrow> XRule \<Rightarrow> DataSet \<Rightarrow> rule_error + DataSet" where
  "filterRows ops r ds =
     (case newConditionMatcher (xagg ops) (rCondition r) of
        Inl e \<Rightarrow> Inl e
      | Inr m \<Rightarrow> Inr (ds\<lparr>Rows := filter (matches ops m) (Rows ds)\<rparr>))"

section \<open>Functions, replacements and columns\<close>

definition apply_named :: "xf_ops \<Rightarrow> string \<Rightarrow> string \<Rightarrow> rule_error + string" where
  "apply_named ops fn s =
     (let f = lower fn in
      if f = ''lower'' then Inr (ToLower ops s)
      else if f = ''upper'' then Inr (ToUpper ops s)
      else if f = ''trim'' then Inr (trim_space s)
      else if f = ''title'' then Inr (Title ops s)
      else Inl (UnsupportedFunction fn))"

definition function_row :: "xf_ops \<Rightarrow> XRule \<Rightarrow> DataRow \<Rightarrow> rule_error + DataRow" where
  "function_row ops r row =
     (case map_of row (rColumn r) of
        None \<Rightarrow> Inr row
      | Some v \<Rightarrow>
          if v = VNil then Inr row
          else (case apply_named ops (Function r) (cellText (xshort ops) v) of
                  Inl e \<Rightarrow> Inl e
                | Inr s \<Rightarrow> Inr (mput (rColumn r) (VStr s) row)))"

definition applyFunction :: "xf_ops \<Rightarrow> XRule \<Rightarrow> DataSet \<Rightarrow> rule_error + DataSet" where
  "applyFunction ops r ds =
     (case each_row (function_row ops r) (Rows ds) of Inl e \<Rightarrow> Inl e | Inr rows \<Rightarrow> Inr (ds\<lparr>Rows := rows\<rparr>))"

definition replace_row :: "xf_ops \<Rightarrow> XRule \<Rightarrow> DataRow \<Rightarrow> DataRow" where
  "replace_row ops r row =
     (case map_of row (rColumn r) of
        None \<Rightarrow> row
      | Some v \<Rightarrow>
          (case map_of (Mapping r) (sprint_v (xshort ops) v) of
             None \<Rightarrow> row
           | Some newVal \<Rightarrow> mput (rColumn r) (VStr newVal) row))"

definition replaceValues :: "xf_ops \<Rightarrow> XRule \<Rightarrow> DataSet \<Rightarrow> DataSet" where
  "replaceValues ops r ds = ds\<lparr>Rows := map (replace_row ops r) (Rows ds)\<rparr>"

definition dropColumns :: "XRule \<Rightarrow> DataSet \<Rightarrow> DataSet" where
  "dropColumns r ds =
     \<lparr>Columns = filter (\<lambda>c. c \<notin> set (rColumns r)) (Columns ds), Rows = map (fold mdel (rColumns r)) (Rows ds)\<rparr>"

section \<open>Application\<close>

definition applyRule :: "xf_ops \<Rightarrow> XRule \<Rightarrow> DataSet \<Rightarrow> rule_error + DataSet" where
  "applyRule ops r ds =
     (case transformRuleError r of
        Some e \<Rightarrow> Inl e
      | None \<Rightarrow>
          let t = rType r in
          if t \<in> {''rename_columns'', ''rename''} then Inr (renameColumns r ds)
          else if t = ''add_column'' then Inr (addColumn ops r ds)
          else if t \<in> {''project'', ''projection''} then project ops r ds
          else if t \<in> {''filter_rows'', ''filter''} then filterRows ops r ds
          else if t \<in> {''apply_function'', ''function''} then applyFunction ops r ds
          else if t \<in> {''replace_values'', ''replace''} then Inr (replaceValues ops r ds)
          else if t \<in> {''drop_columns'', ''drop''} then Inr (dropColumns r ds)
          else if t = ''sort'' then Inr (sortRows (xnum ops) (rColumns r) (Ascending r) ds)
          else if t \<in> {''deduplicate'', ''dedup''} then Inr (deduplicate (xshort ops) (xsyntax ops) (rColumns r) ds)
          else if t \<in> {''aggregate'', ''agg''} then
            Inr (aggregate (xagg ops) (canonicalGroupKey ops) (TransformRule.truncate r) ds)
          else if t = ''filter_native'' then filterNative ops r ds
          else Inl (UnsupportedType t))"

text \<open>The error names the rule by its position, counted from \<open>i\<close>.\<close>

fun apply_from :: "xf_ops \<Rightarrow> nat \<Rightarrow> XRule list \<Rightarrow> DataSet \<Rightarrow> (nat \<times> rule_error) + DataSet" where
  "apply_from ops i [] ds = Inr ds"
| "apply_from ops i (rule # rules) ds =
     (case applyRule ops rule ds of
        Inl e \<Rightarrow> Inl (i, e)
      | Inr ds' \<Rightarrow> apply_from ops (Suc i) rules ds')"

definition ApplyTransforms :: "xf_ops \<Rightarrow> XRule list \<Rightarrow> DataSet \<Rightarrow> (nat \<times> rule_error) + DataSet" where
  "ApplyTransforms ops rules ds = apply_from ops 1 rules ds"

section \<open>Rows stay within their columns\<close>

text \<open>Every cell of a dataset is under a declared column.\<close>

definition fits :: "DataSet \<Rightarrow> bool" where
  "fits ds \<longleftrightarrow> (\<forall>row \<in> set (Rows ds). fst ` set row \<subseteq> set (Columns ds))"

text \<open>No new name of a mapping is itself renamed.\<close>

definition chain_free :: "(string \<times> string) list \<Rightarrow> bool" where
  "chain_free mapping \<longleftrightarrow> distinct (map fst mapping) \<and> fst ` set mapping \<inter> snd ` set mapping = {}"

lemma rename_step_keys:
  "fst ` set (rename_step (o1, n) row) =
     (if o1 \<in> fst ` set row then insert n (fst ` set row) - {o1} else fst ` set row)"
proof (cases "map_of row o1")
  case (Some v)
  then have "o1 \<in> fst ` set row" by (metis map_of_eq_None_iff option.distinct(1))
  then show ?thesis using Some by (simp add: rename_step_def)
next
  case None
  then have "o1 \<notin> fst ` set row" by (simp add: map_of_eq_None_iff)
  then show ?thesis using None by (simp add: rename_step_def)
qed

lemma rename_keys:
  assumes "chain_free mapping"
  shows "fst ` set (fold rename_step mapping row) \<subseteq> renamed mapping ` fst ` set row"
  using assms
proof (induction mapping arbitrary: row)
  case Nil
  then show ?case by (auto simp: renamed_def)
next
  case (Cons on mapping)
  obtain o1 n where on: "on = (o1, n)" by (cases on)
  have free: "chain_free mapping" "n \<notin> fst ` set mapping" "n \<noteq> o1"
    using Cons.prems by (auto simp: chain_free_def on)
  have renamed: "renamed (on # mapping) x = (if x = o1 then n else renamed mapping x)" for x
    by (simp add: renamed_def on)
  have n: "renamed mapping n = n" using free(2) map_of_eq_None_iff[of mapping n] by (simp add: renamed_def)
  have "renamed mapping ` fst ` set (rename_step on row) \<subseteq> renamed (on # mapping) ` fst ` set row"
  proof (intro subsetI, elim imageE)
    fix y p x assume y: "y = renamed mapping p" "p = fst x" "x \<in> set (rename_step on row)"
    then have "p \<in> fst ` set (rename_step on row)" by blast
    then have "p = n \<and> o1 \<in> fst ` set row \<or> p \<noteq> o1 \<and> p \<in> fst ` set row"
      unfolding on rename_step_keys using free(3) by (auto split: if_splits)
    then show "y \<in> renamed (on # mapping) ` fst ` set row"
    proof (elim disjE conjE)
      assume "p = n" "o1 \<in> fst ` set row"
      then show ?thesis using n y(1) renamed[of o1] by (intro image_eqI[of _ _ o1]) simp_all
    next
      assume "p \<noteq> o1" "p \<in> fst ` set row"
      then show ?thesis using y(1) renamed[of p] by (intro image_eqI[of _ _ p]) simp_all
    qed
  qed
  then show ?case using Cons.IH[OF free(1), of "rename_step on row"] by simp
qed

lemma rename_untouched:
  "k \<notin> fst ` set mapping \<Longrightarrow> k \<notin> snd ` set mapping \<Longrightarrow> map_of (fold rename_step mapping row) k = map_of row k"
proof (induction mapping arbitrary: row)
  case (Cons on mapping)
  then have "map_of (rename_step on row) k = map_of row k"
    by (auto simp: rename_step_def split: option.split)
  then show ?case using Cons by simp
qed simp

text \<open>A rename whose new names are fresh loses no cell, whatever order the mapping is iterated in.\<close>

lemma rename_keeps_cell:
  assumes "chain_free mapping" "distinct (map snd mapping)" "map_of row c = Some v" "c \<notin> snd ` set mapping"
  shows "map_of (fold rename_step mapping row) (renamed mapping c) = Some v"
  using assms
proof (induction mapping arbitrary: row)
  case (Cons on mapping)
  obtain o1 n where on: "on = (o1, n)" by (cases on)
  have free: "chain_free mapping" "n \<notin> fst ` set mapping" "n \<noteq> o1" "n \<notin> snd ` set mapping" "distinct (map snd mapping)" "c \<noteq> n"
    using Cons.prems by (auto simp: chain_free_def on)
  show ?case
  proof (cases "c = o1")
    case True
    then have "map_of (rename_step on row) n = Some v" using Cons.prems(3) free(3) by (simp add: rename_step_def on)
    then show ?thesis using rename_untouched[OF free(2,4)] True by (simp add: renamed_def on)
  next
    case False
    then have "map_of (rename_step on row) c = Some v"
      using Cons.prems(3) free(6) by (auto simp: rename_step_def on split: option.split)
    moreover have "renamed (on # mapping) c = renamed mapping c" using False by (simp add: renamed_def on)
    ultimately show ?thesis using Cons.IH[OF free(1,5)] Cons.prems(4) by simp
  qed
qed (simp add: renamed_def)

lemma each_row_all:
  "each_row f xs = Inr ys \<Longrightarrow> list_all2 (\<lambda>x y. f x = Inr y) xs ys"
  by (induction xs arbitrary: ys) (auto split: sum.splits)

lemma each_row_member: "each_row f xs = Inr ys \<Longrightarrow> y \<in> set ys \<Longrightarrow> \<exists>x \<in> set xs. f x = Inr y"
  by (induction xs arbitrary: ys) (auto split: sum.splits)

text \<open>The rows and the columns that each handler leaves.\<close>

lemma set_SliceStable: "set (SliceStable lt xs) = set xs"
proof -
  have "set (insert_stable lt x ys) = insert x (set ys)" for x ys
    by (induction lt x ys rule: insert_stable.induct) auto
  then have "set (fold (insert_stable lt) xs ys) = set xs \<union> set ys" for ys
    by (induction xs arbitrary: ys) auto
  then show ?thesis by (simp add: SliceStable_def)
qed

lemma set_sortRows: "set (Rows (sortRows ops cols asc ds)) = set (Rows ds)"
  using arg_cong[OF map_nth[of "Rows ds"], of set] by (simp add: sortRows_def Let_def set_SliceStable)

lemma set_dedup_rows: "set (dedup_rows key seen rows) \<subseteq> set rows"
  by (induction key seen rows rule: dedup_rows.induct) auto

lemma fits_rows: "fits ds \<Longrightarrow> set rows \<subseteq> set (Rows ds) \<Longrightarrow> fits (ds\<lparr>Rows := rows\<rparr>)"
  unfolding fits_def by auto

lemma project_columns_names:
  "project_columns ps columns = Inr out \<Longrightarrow> out = columns @ map pName ps"
  by (induction ps columns rule: project_columns.induct) (auto split: if_splits)

lemma project_row_keys:
  "project_row ops ps row outRow = Inr out \<Longrightarrow> fst ` set out \<subseteq> fst ` set outRow \<union> pName ` set ps"
  by (induction ops ps row outRow rule: project_row.induct) (auto split: sum.splits)

lemma fold_mput_named: "fst ` set (fold (\<lambda>x. mput (key x) (val x)) xs m) = fst ` set m \<union> key ` set xs"
  by (induction xs arbitrary: m) auto

lemma fold_mdel_keys: "fst ` set (fold mdel cs row) = fst ` set row - set cs"
  by (induction cs arbitrary: row) auto

lemma rule_fields_truncate [simp]:
  "rule_fields (TransformRule.truncate r) = (if AggFields r = [] then Aggregations r else AggFields r)"
  "GroupBy (TransformRule.truncate r) = GroupBy r"
  by (simp_all add: rule_fields_def TransformRule.truncate_def)

lemma agg_row_keys:
  "fst ` set (fold (\<lambda>af. mput (field_name af) (f af)) fs (key_columns cols k)) = set cols \<union> field_name ` set fs"
  unfolding key_columns_def fold_mput_named by simp

lemma aggregate_fits: "fits (aggregate ops gk r ds)"
proof -
  obtain groups order where "fold (group_row (\<lambda>row. gk (map (mget row) (GroupBy r)))) (Rows ds) ([], []) = (groups, order)"
    by fastforce
  then have agg: "aggregate ops gk r ds = \<lparr>Columns = GroupBy r @ map field_name (rule_fields r),
      Rows = map (\<lambda>key. case map_of groups key of None \<Rightarrow> [] | Some (keyRow, rows) \<Rightarrow>
        fold (\<lambda>af. mput (field_name af) (computeAgg ops (aFunction af) (aColumn af) rows)) (rule_fields r)
          (key_columns (GroupBy r) keyRow)) order\<rparr>"
    by (simp only: aggregate_def Let_def prod.case)
  have "fst ` set (case g of None \<Rightarrow> [] | Some (keyRow, rows) \<Rightarrow>
      fold (\<lambda>af. mput (field_name af) (computeAgg ops (aFunction af) (aColumn af) rows)) (rule_fields r)
        (key_columns (GroupBy r) keyRow)) \<subseteq> set (GroupBy r) \<union> field_name ` set (rule_fields r)" for g
    by (cases g) (simp_all add: agg_row_keys case_prod_beta)
  then show ?thesis unfolding agg fits_def by simp
qed

lemma mput_old_keys: "map_of m k = Some x \<Longrightarrow> fst ` set (mput k v m) = fst ` set m"
  by (metis insert_absorb map_of_eq_None_iff option.distinct(1) set_mkeys_mput)

lemma function_row_keys: "function_row ops r row = Inr row' \<Longrightarrow> fst ` set row' = fst ` set row"
proof (cases "map_of row (rColumn r)")
  case (Some v)
  then have "row' = row \<or> (\<exists>s. row' = mput (rColumn r) (VStr s) row)" if "function_row ops r row = Inr row'"
    using that by (auto simp: function_row_def split: if_splits sum.splits)
  then show "function_row ops r row = Inr row' \<Longrightarrow> ?thesis" using mput_old_keys[OF Some] by metis
qed (simp add: function_row_def)

lemma replace_row_keys: "fst ` set (replace_row ops r row) = fst ` set row"
  by (simp add: replace_row_def mput_old_keys del: set_mkeys_mput split: option.split)

lemma applyRule_cases:
  assumes "applyRule ops r ds = Inr ds'"
  obtains (rename) "rType r \<in> {''rename_columns'', ''rename''}" "ds' = renameColumns r ds"
  | (add_column) "rType r = ''add_column''" "ds' = addColumn ops r ds"
  | (project) "rType r \<in> {''project'', ''projection''}" "project ops r ds = Inr ds'"
  | (filter_rows) "rType r \<in> {''filter_rows'', ''filter''}" "filterRows ops r ds = Inr ds'"
  | (func) "rType r \<in> {''apply_function'', ''function''}" "applyFunction ops r ds = Inr ds'"
  | (replace) "rType r \<in> {''replace_values'', ''replace''}" "ds' = replaceValues ops r ds"
  | (drop_cols) "rType r \<in> {''drop_columns'', ''drop''}" "ds' = dropColumns r ds"
  | (sort) "rType r = ''sort''" "ds' = sortRows (xnum ops) (rColumns r) (Ascending r) ds"
  | (dedup) "rType r \<in> {''deduplicate'', ''dedup''}" "ds' = deduplicate (xshort ops) (xsyntax ops) (rColumns r) ds"
  | (aggregate) "rType r \<in> {''aggregate'', ''agg''}"
      "ds' = aggregate (xagg ops) (canonicalGroupKey ops) (TransformRule.truncate r) ds"
  | (native) "rType r = ''filter_native''" "filterNative ops r ds = Inr ds'"
  using assms unfolding applyRule_def Let_def by (simp split: option.splits if_splits)

lemma filterRows_rows:
  "filterRows ops r ds = Inr ds' \<Longrightarrow> \<exists>rows. ds' = ds\<lparr>Rows := rows\<rparr> \<and> set rows \<subseteq> set (Rows ds)"
  by (auto simp: filterRows_def split: sum.splits)

lemma filterNative_rows:
  assumes "filterNative ops r ds = Inr ds'"
  shows "\<exists>rows. ds' = ds\<lparr>Rows := rows\<rparr> \<and> set rows \<subseteq> set (Rows ds)"
proof -
  obtain keep where "ds' = ds\<lparr>Rows := map fst (filter snd (zip (Rows ds) keep))\<rparr>"
    using assms by (auto simp: filterNative_def split: sum.splits)
  moreover have "set (map fst (filter snd (zip (Rows ds) keep))) \<subseteq> set (Rows ds)"
    by (auto dest: set_zip_leftD)
  ultimately show ?thesis by blast
qed

definition chain_free_rule :: "XRule \<Rightarrow> bool" where
  "chain_free_rule r \<longleftrightarrow> (rType r \<in> {''rename_columns'', ''rename''} \<longrightarrow> chain_free (Mapping r))"

lemma applyRule_fits:
  assumes "applyRule ops r ds = Inr ds'" "fits ds" "chain_free_rule r"
  shows "fits ds'"
  using assms(1)
proof (cases rule: applyRule_cases)
  case rename
  then have "chain_free (Mapping r)" using assms(3) by (simp add: chain_free_rule_def)
  then have "fst ` set (fold rename_step (Mapping r) row) \<subseteq> renamed (Mapping r) ` set (Columns ds)" if "row \<in> set (Rows ds)" for row
    using that assms(2) unfolding fits_def by (intro order_trans[OF rename_keys image_mono]) auto
  then show ?thesis unfolding rename(2) fits_def renameColumns_def by simp
next
  case add_column
  then show ?thesis using assms(2) by (auto simp: addColumn_def fits_def)
next
  case project
  then show ?thesis
    by (auto simp: project_def fits_def split: sum.splits dest!: project_columns_names each_row_member project_row_keys)
next
  case filter_rows
  then show ?thesis using filterRows_rows fits_rows[OF assms(2)] by blast
next
  case func
  then obtain rows where rows: "each_row (function_row ops r) (Rows ds) = Inr rows" "ds' = ds\<lparr>Rows := rows\<rparr>"
    by (auto simp: applyFunction_def split: sum.splits)
  have "fst ` set row \<subseteq> set (Columns ds)" if "row \<in> set rows" for row
    using each_row_member[OF rows(1) that] function_row_keys assms(2) unfolding fits_def by metis
  then show ?thesis unfolding rows(2) fits_def by simp
next
  case replace
  then show ?thesis using assms(2) by (simp add: replaceValues_def fits_def replace_row_keys)
next
  case drop_cols
  then show ?thesis using assms(2) by (auto simp: dropColumns_def fits_def fold_mdel_keys)
next
  case sort
  have "Columns ds' = Columns ds" unfolding sort sortRows_def by (simp add: Let_def)
  then show ?thesis using assms(2) set_sortRows unfolding fits_def sort(2) by metis
next
  case dedup
  then show ?thesis using fits_rows[OF assms(2) set_dedup_rows] by (simp add: deduplicate_def)
next
  case aggregate
  then show ?thesis using aggregate_fits by simp
next
  case native
  then show ?thesis using filterNative_rows fits_rows[OF assms(2)] by blast
qed

lemma apply_from_fits:
  "apply_from ops i rules ds = Inr ds' \<Longrightarrow> fits ds \<Longrightarrow> list_all chain_free_rule rules \<Longrightarrow> fits ds'"
  by (induction ops i rules ds rule: apply_from.induct) (auto split: sum.splits intro: applyRule_fits)

text \<open>
  C24. Transform rules keep every cell under a declared column: when each row of a dataset has only columns that the
  dataset names and no rename of the list renames one of its own new names, the dataset that the whole list of
  rules leaves has the same property.
\<close>

theorem transforms_fit:
  assumes "ApplyTransforms ops rules ds = Inr ds'" and "fits ds" and "list_all chain_free_rule rules"
  shows "fits ds'"
  using apply_from_fits assms unfolding ApplyTransforms_def by blast

definition blank_rule :: XRule where
  "blank_rule = \<lparr>rType = [], GroupBy = [], AggFields = [], Aggregations = [], rName = [], Expression = [], rColumn = [],
     Function = [], rColumns = [], Mapping = [], rCondition = [], Ascending = False, Projections = [], ExpressionVersion = 0,
     Predicate = []\<rparr>"

definition rename_rule :: "(string \<times> string) list \<Rightarrow> XRule" where
  "rename_rule mapping = blank_rule\<lparr>rType := ''rename'', Mapping := mapping\<rparr>"

definition drop_rule :: "string \<Rightarrow> XRule" where
  "drop_rule c = blank_rule\<lparr>rType := ''drop'', rColumns := [c]\<rparr>"

lemma rename_then_drop:
  "ApplyTransforms ops [rename_rule [(''a'', ''x'')], drop_rule ''b''] \<lparr>Columns = [''a'', ''b''], Rows = [[(''a'', VInt 1), (''b'', VInt 2)]]\<rparr> =
     Inr \<lparr>Columns = [''x''], Rows = [[(''x'', VInt 1)]]\<rparr>"
  by code_simp

theorem transforms_fit_witness: "fits \<lparr>Columns = [''x''], Rows = [[(''x'', VInt 1)]]\<rparr>"
  by (rule transforms_fit[OF rename_then_drop]) code_simp+

text \<open>
  The result of a rename that exchanges two columns loses one of them, and the result of a chain depends on the order in
  which the mapping is iterated.
\<close>

lemma rename_swap_loses:
  "Rows (renameColumns (rename_rule [(''a'', ''b''), (''b'', ''a'')]) \<lparr>Columns = [''a'', ''b''], Rows = [[(''a'', VInt 1), (''b'', VInt 2)]]\<rparr>) =
     [[(''a'', VInt 1)]]"
  by code_simp

lemma rename_chain_order:
  "Rows (renameColumns (rename_rule [(''a'', ''b''), (''b'', ''c'')]) \<lparr>Columns = [''a'', ''b''], Rows = [[(''a'', VInt 1), (''b'', VInt 2)]]\<rparr>) =
     [[(''c'', VInt 1)]] \<and>
   Rows (renameColumns (rename_rule [(''b'', ''c''), (''a'', ''b'')]) \<lparr>Columns = [''a'', ''b''], Rows = [[(''a'', VInt 1), (''b'', VInt 2)]]\<rparr>) =
     [[(''c'', VInt 2), (''b'', VInt 1)]]"
  by code_simp

end
