(* ===== verification/Data_Schema.thy ===== *)
theory Data_Schema
  imports Data_Transform
begin

text \<open>
  The column types that a run carries beside its rows, for the tables a sink creates: \<^verbatim>\<open>applyRuleToSchema\<close>,
  \<^verbatim>\<open>expressionColumnType\<close>, \<^verbatim>\<open>aggregateSchema\<close> and \<^verbatim>\<open>joinSchema\<close> of \<^verbatim>\<open>src/engine/node_schema.go\<close>, the types of
  \<^verbatim>\<open>src/pkg/dbdialect/columntype.go\<close> and \<^verbatim>\<open>runTransform\<close> of \<^verbatim>\<open>src/engine/node_handlers.go\<close>. The values of a
  transformed dataset have the types that the transformed schema says, for the rules that are named.
\<close>

section \<open>Types and schemas\<close>

datatype TypeClass =
    TypeUnknown | TypeBool | TypeInt | TypeFloat | TypeDecimal | TypeText | TypeBytes | TypeDate | TypeTime | TypeTimestamp
  | TypeTimestampTZ | TypeJSON | TypeUUID

record ColumnType =
  Class :: TypeClass
  Bits :: int
  Precision :: int
  Scale :: int
  ctLength :: int
  ctNullable :: bool

definition column_type :: "TypeClass \<Rightarrow> int \<Rightarrow> bool \<Rightarrow> ColumnType" where
  "column_type c bits nullable =
     \<lparr>Class = c, Bits = bits, Precision = 0, Scale = 0, ctLength = 0, ctNullable = nullable\<rparr>"

abbreviation unknown_type :: ColumnType where
  "unknown_type \<equiv> column_type TypeUnknown 0 True"

text \<open>A nil schema is \<open>None\<close>; reading it finds no column.\<close>

type_synonym columnSchema = "(string \<times> ColumnType) list option"

definition entries :: "columnSchema \<Rightarrow> (string \<times> ColumnType) list" where
  "entries s = (case s of None \<Rightarrow> [] | Some m \<Rightarrow> m)"

definition known :: "columnSchema \<Rightarrow> string \<Rightarrow> ColumnType option" where
  "known s col =
     (case map_of (entries s) col of
        Some ct \<Rightarrow> if Class ct \<noteq> TypeUnknown then Some ct else None
      | None \<Rightarrow> None)"

definition anyKnown :: "columnSchema \<Rightarrow> string list \<Rightarrow> bool" where
  "anyKnown s columns \<longleftrightarrow> list_ex (\<lambda>c. known s c \<noteq> None) columns"

definition countKnown :: "columnSchema \<Rightarrow> string list \<Rightarrow> nat" where
  "countKnown s columns = length (filter (\<lambda>c. known s c \<noteq> None) columns)"

definition orderedKeepsType :: "TypeClass \<Rightarrow> bool" where
  "orderedKeepsType c \<longleftrightarrow> c \<in> {TypeText, TypeDate, TypeTime, TypeTimestamp, TypeTimestampTZ}"

section \<open>Expressions\<close>

definition expressionChild :: "gomap \<Rightarrow> string \<Rightarrow> gomap" where
  "expressionChild expr key = (case mget expr key of VMap child \<Rightarrow> child | _ \<Rightarrow> [])"

definition literal_type :: "goval \<Rightarrow> ColumnType" where
  "literal_type v =
     (case v of
        VBool _ \<Rightarrow> column_type TypeBool 0 True
      | VInt _ \<Rightarrow> column_type TypeInt 64 True
      | VInt64 _ \<Rightarrow> column_type TypeInt 64 True
      | VUint64 _ \<Rightarrow> column_type TypeInt 64 True
      | VFloat _ \<Rightarrow> column_type TypeFloat 64 True
      | VStr _ \<Rightarrow> column_type TypeText 0 True
      | _ \<Rightarrow> unknown_type)"

definition arith_type :: "string \<Rightarrow> ColumnType \<Rightarrow> ColumnType \<Rightarrow> ColumnType" where
  "arith_type op l r =
     (if Class l = TypeDecimal \<and> Class r = TypeDecimal \<and> op \<noteq> ''divide'' then l
      else if Class l = TypeFloat \<or> Class r = TypeFloat \<or> op = ''divide'' then column_type TypeFloat 64 True
      else if Class l = TypeInt \<and> Class r = TypeInt then column_type TypeInt 64 True
      else unknown_type)"

lemma size_child: "mget expr ''op'' \<noteq> VNil \<Longrightarrow> size (VMap (expressionChild expr key)) < size (VMap expr)"
  using size_mget[of expr key] by (cases expr; cases "mget expr key") (auto simp: expressionChild_def mget_def)

lemma size_child_le: "size (VMap (expressionChild expr key)) \<le> size (VMap expr)"
  using size_mget[of expr key] by (cases "mget expr key") (auto simp: expressionChild_def)

lemma size_first: "size (VMap child) < size (VList (VMap child # rest))"
  by simp

lemma size_branch: "size (VMap (expressionChild (case raw of VMap branch \<Rightarrow> branch | _ \<Rightarrow> []) key)) < size (VList (raw # rest))"
proof -
  have "size (VMap (case raw of VMap branch \<Rightarrow> branch | _ \<Rightarrow> [])) < size (VList (raw # rest))" by (cases raw) simp_all
  then show ?thesis using size_child_le by (rule order.strict_trans1[rotated])
qed

text \<open>
  \<open>first_known\<close> is the loop over the arguments of \<^verbatim>\<open>coalesce\<close>; \<open>branch_type\<close> the loop over the branches of
  \<^verbatim>\<open>case_when\<close>, with \<open>None\<close> where it returns unknown.
\<close>

function (sequential) expressionColumnType :: "gomap \<Rightarrow> columnSchema \<Rightarrow> ColumnType"
  and first_known :: "goval list \<Rightarrow> columnSchema \<Rightarrow> ColumnType"
  and branch_type :: "goval list \<Rightarrow> columnSchema \<Rightarrow> ColumnType \<Rightarrow> ColumnType option"
where
  "expressionColumnType expr s =
     (case mget expr ''op'' of
        VStr op \<Rightarrow>
          if op = ''column'' then
            (case mget expr ''path'' of
               VList [p] \<Rightarrow> (case map_of (entries s) (case p of VStr name \<Rightarrow> name | _ \<Rightarrow> []) of Some ct \<Rightarrow> ct | None \<Rightarrow> unknown_type)
             | _ \<Rightarrow> unknown_type)
          else if op = ''literal'' then literal_type (mget expr ''value'')
          else if op = ''concat'' then column_type TypeText 0 True
          else if op \<in> {''eq'', ''neq'', ''lt'', ''lte'', ''gt'', ''gte'', ''and'', ''or'', ''not'', ''is_null''} then
            column_type TypeBool 0 True
          else if op \<in> {''add'', ''subtract'', ''multiply'', ''divide''} then
            arith_type op (expressionColumnType (expressionChild expr ''left'') s) (expressionColumnType (expressionChild expr ''right'') s)
          else if op = ''coalesce'' then
            (case mget expr ''args'' of VList as \<Rightarrow> first_known as s | _ \<Rightarrow> unknown_type)
          else if op = ''case_when'' then
            (case (case mget expr ''branches'' of VList bs \<Rightarrow> branch_type bs s unknown_type | _ \<Rightarrow> Some unknown_type) of
               None \<Rightarrow> unknown_type
             | Some ct \<Rightarrow>
                 if Class ct \<noteq> TypeUnknown \<and> Class ct = Class (expressionColumnType (expressionChild expr ''else'') s) then ct
                 else unknown_type)
          else unknown_type
      | _ \<Rightarrow> unknown_type)"
| "first_known [] s = unknown_type"
| "first_known (VMap child # rest) s =
     (if Class (expressionColumnType child s) \<noteq> TypeUnknown then expressionColumnType child s else first_known rest s)"
| "first_known (_ # rest) s = first_known rest s"
| "branch_type [] s result = Some result"
| "branch_type (raw # rest) s result =
     (let ct = expressionColumnType (expressionChild (case raw of VMap branch \<Rightarrow> branch | _ \<Rightarrow> []) ''then'') s in
      if Class ct = TypeUnknown then None
      else if Class result = TypeUnknown then branch_type rest s ct
      else if Class result \<noteq> Class ct then None
      else branch_type rest s result)"
  by pat_completeness auto
termination
  by (relation "measure (\<lambda>x. case x of
      Inl (e, _) \<Rightarrow> size (VMap e)
    | Inr (Inl (l, _)) \<Rightarrow> size (VList l)
    | Inr (Inr (l, _, _)) \<Rightarrow> size (VList l))")
    (simp_all add: size_child size_visit(2,4) size_first size_branch del: goval.size)

declare expressionColumnType.simps [simp del]

section \<open>Rules\<close>

definition field_type :: "columnSchema \<Rightarrow> AggField \<Rightarrow> ColumnType option" where
  "field_type s af =
     (let f = lower (aFunction af) in
      if f = ''count'' \<or> f = ''count_distinct'' then Some (column_type TypeInt 64 False)
      else if f = ''sum'' \<or> f = ''avg'' then Some (column_type TypeFloat 64 True)
      else if f = ''min'' \<or> f = ''max'' then
        (case map_of (entries s) (aColumn af) of
           None \<Rightarrow> None
         | Some ct \<Rightarrow>
             if orderedKeepsType (Class ct) then Some (ct\<lparr>ctNullable := True\<rparr>)
             else Some (column_type TypeFloat 64 True))
      else None)"

definition aggregate_field :: "columnSchema \<Rightarrow> AggField \<Rightarrow> (string \<times> ColumnType) list \<Rightarrow> (string \<times> ColumnType) list" where
  "aggregate_field s af out = (case field_type s af of None \<Rightarrow> out | Some ct \<Rightarrow> mput (field_name af) ct out)"

definition group_types :: "columnSchema \<Rightarrow> string list \<Rightarrow> (string \<times> ColumnType) list" where
  "group_types s cols =
     fold (\<lambda>c out. case map_of (entries s) c of Some ct \<Rightarrow> mput c ct out | None \<Rightarrow> out) cols []"

definition aggregateSchema :: "('a) TransformRule_scheme \<Rightarrow> columnSchema \<Rightarrow> columnSchema" where
  "aggregateSchema r s =
     (let afs = (if AggFields r = [] then Aggregations r else AggFields r)
      in Some (fold (aggregate_field s) afs (group_types s (GroupBy r))))"

definition moved_types :: "(string \<times> string) list \<Rightarrow> (string \<times> ColumnType) list \<Rightarrow> (string \<times> ColumnType) list" where
  "moved_types mapping m = fold (\<lambda>(col, ct). mput (renamed mapping col) ct) m []"

definition drop_occupied :: "(string \<times> string) list \<Rightarrow> (string \<times> ColumnType) list \<Rightarrow> string \<times> string \<Rightarrow>
    (string \<times> ColumnType) list \<Rightarrow> (string \<times> ColumnType) list" where
  "drop_occupied mapping m ft out =
     (if map_of m (snd ft) = None \<or> snd ft = fst ft then out
      else if map_of mapping (snd ft) = None then mdel (snd ft) out else out)"

definition rename_schema :: "(string \<times> string) list \<Rightarrow> columnSchema \<Rightarrow> columnSchema" where
  "rename_schema mapping s =
     Some (fold (drop_occupied mapping (entries s)) mapping (moved_types mapping (entries s)))"

definition project_schema :: "ProjectionField list \<Rightarrow> columnSchema \<Rightarrow> columnSchema" where
  "project_schema ps s = Some (fold (\<lambda>p. mput (pName p) (expressionColumnType (pExpr p) s)) ps [])"

definition applyRuleToSchema :: "XRule \<Rightarrow> columnSchema \<Rightarrow> columnSchema" where
  "applyRuleToSchema r s =
     (let t = rType r in
      if t \<in> {''filter_rows'', ''filter'', ''deduplicate'', ''dedup'', ''sort''} then s
      else if t \<in> {''drop_columns'', ''drop''} then map_option (fold mdel (rColumns r)) s
      else if t \<in> {''rename_columns'', ''rename''} then rename_schema (Mapping r) s
      else if t = ''add_column'' then map_option (mdel (rName r)) s
      else if t \<in> {''project'', ''projection''} then project_schema (Projections r) s
      else if t = ''filter_native'' then s
      else if t \<in> {''apply_function'', ''function''} then map_option (mdel (rColumn r)) s
      else if t \<in> {''replace_values'', ''replace''} then map_option (mdel (rColumn r)) s
      else if t \<in> {''aggregate'', ''agg''} then aggregateSchema r s
      else None)"

fun applyRulesToSchema :: "XRule list \<Rightarrow> columnSchema \<Rightarrow> columnSchema" where
  "applyRulesToSchema [] s = s"
| "applyRulesToSchema (rule # rules) s =
     (if s = None then None else applyRulesToSchema rules (applyRuleToSchema rule s))"

definition type_or_unknown :: "(string \<times> ColumnType) list \<Rightarrow> string \<Rightarrow> ColumnType" where
  "type_or_unknown m c = (case map_of m c of Some ct \<Rightarrow> ct | None \<Rightarrow> unknown_type)"

definition joinSchema :: "columnSchema \<Rightarrow> columnSchema \<Rightarrow> string list \<Rightarrow> string list \<Rightarrow> string \<Rightarrow> string \<Rightarrow> JoinOptions \<Rightarrow>
    join_error + columnSchema" where
  "joinSchema left right leftColumns rightColumns leftKey rightKey options =
     (case (left, right) of
        (Some l, Some r) \<Rightarrow>
          (case planJoinColumns leftColumns rightColumns leftKey rightKey options of
             Inl e \<Rightarrow> Inl e
           | Inr (outColumns, names) \<Rightarrow>
               Inr (Some (fold (\<lambda>c out. if c = rightKey \<and> leftKey = rightKey then out
                                        else mput (out_name names c) (type_or_unknown r c) out) rightColumns
                      (fold (\<lambda>c. mput c (type_or_unknown l c)) leftColumns []))))
      | _ \<Rightarrow> Inr None)"

text \<open>\<^verbatim>\<open>runTransform\<close> without its log lines: the rules one at a time on a copy, and the schema through all of them.\<close>

datatype node_error = NoInput | BadRules | RuleFailed nat nat rule_error | OperatorFailed nat rule_error

record nodeExecutionResult =
  noutput :: DataSet
  outputSchema :: columnSchema

fun apply_each :: "xf_ops \<Rightarrow> nat \<Rightarrow> XRule list \<Rightarrow> DataSet \<Rightarrow> node_error + DataSet" where
  "apply_each ops i [] ds = Inr ds"
| "apply_each ops i (rule # rules) ds =
     (case ApplyTransforms ops [rule] ds of
        Inl (j, e) \<Rightarrow> Inl (RuleFailed i j e)
      | Inr ds' \<Rightarrow> apply_each ops (Suc i) rules ds')"

definition runTransform :: "xf_ops \<Rightarrow> (goval \<Rightarrow> XRule list option) \<Rightarrow> gomap \<Rightarrow> DataSet option \<Rightarrow> columnSchema \<Rightarrow>
    node_error + nodeExecutionResult" where
  "runTransform ops decode config input inputSchema =
     (case input of
        None \<Rightarrow> Inl NoInput
      | Some ds \<Rightarrow>
          (case decode (mget config ''rules'') of
             None \<Rightarrow> Inl BadRules
           | Some rules \<Rightarrow>
               (case apply_each ops 1 rules ds of
                  Inl e \<Rightarrow> Inl e
                | Inr ds' \<Rightarrow> Inr \<lparr>noutput = ds', outputSchema = applyRulesToSchema rules inputSchema\<rparr>)))"

definition runNativeOperator :: "xf_ops \<Rightarrow> (gomap \<Rightarrow> XRule option) \<Rightarrow> gomap \<Rightarrow> DataSet option \<Rightarrow> columnSchema \<Rightarrow> string \<Rightarrow>
    node_error + nodeExecutionResult" where
  "runNativeOperator ops decode config input inputSchema operator =
     (case input of
        None \<Rightarrow> Inl NoInput
      | Some ds \<Rightarrow>
          (case decode config of
             None \<Rightarrow> Inl BadRules
           | Some r \<Rightarrow>
               let rule = r\<lparr>rType := (if operator = ''filter'' then ''filter_native'' else operator)\<rparr> in
               (case ApplyTransforms ops [rule] ds of
                  Inl (j, e) \<Rightarrow> Inl (OperatorFailed j e)
                | Inr ds' \<Rightarrow> Inr \<lparr>noutput = ds', outputSchema = applyRuleToSchema rule inputSchema\<rparr>)))"

section \<open>Conformance\<close>

text \<open>
  What a column type says of a value: a null only where it is allowed, and otherwise a Go value of the class. The
  classes whose Go form depends on the driver are given by \<open>other\<close>; an unknown class says nothing.
\<close>

fun class_conf :: "(TypeClass \<Rightarrow> goval \<Rightarrow> bool) \<Rightarrow> TypeClass \<Rightarrow> goval \<Rightarrow> bool" where
  "class_conf other TypeBool v \<longleftrightarrow> (\<exists>b. v = VBool b)"
| "class_conf other TypeInt v \<longleftrightarrow> (\<exists>i. v = VInt i \<or> v = VInt64 i)"
| "class_conf other TypeFloat v \<longleftrightarrow> (\<exists>f. v = VFloat f)"
| "class_conf other TypeText v \<longleftrightarrow> (\<exists>s. v = VStr s)"
| "class_conf other c v \<longleftrightarrow> other c v"

definition conf :: "(TypeClass \<Rightarrow> goval \<Rightarrow> bool) \<Rightarrow> ColumnType \<Rightarrow> goval \<Rightarrow> bool" where
  "conf other ct v \<longleftrightarrow> Class ct = TypeUnknown \<or> (if v = VNil then ctNullable ct else class_conf other (Class ct) v)"

text \<open>
  A typed dataset: every row has exactly the declared columns, the schema is a map that types declared columns only,
  and every cell conforms to the type of its column.
\<close>

definition typed :: "(TypeClass \<Rightarrow> goval \<Rightarrow> bool) \<Rightarrow> DataSet \<Rightarrow> columnSchema \<Rightarrow> bool" where
  "typed other ds s \<longleftrightarrow>
     (\<forall>row \<in> set (Rows ds). fst ` set row = set (Columns ds)) \<and>
     fst ` set (entries s) \<subseteq> set (Columns ds) \<and> wf_map (entries s) \<and>
     (\<forall>row \<in> set (Rows ds). \<forall>c ct. map_of (entries s) c = Some ct \<longrightarrow> conf other ct (mget row c))"

lemma typedI:
  assumes "\<And>row. row \<in> set (Rows ds) \<Longrightarrow> fst ` set row = set (Columns ds)"
    and "fst ` set (entries s) \<subseteq> set (Columns ds)"
    and "\<And>row c ct. row \<in> set (Rows ds) \<Longrightarrow> map_of (entries s) c = Some ct \<Longrightarrow> conf other ct (mget row c)"
    and "wf_map (entries s)"
  shows "typed other ds s"
  using assms unfolding typed_def by blast

lemma typedD:
  assumes "typed other ds s"
  shows "row \<in> set (Rows ds) \<Longrightarrow> fst ` set row = set (Columns ds)"
    and "fst ` set (entries s) \<subseteq> set (Columns ds)"
    and "row \<in> set (Rows ds) \<Longrightarrow> map_of (entries s) c = Some ct \<Longrightarrow> conf other ct (mget row c)"
    and "wf_map (entries s)"
  using assms unfolding typed_def by blast+

lemma typed_rows: "typed other ds s \<Longrightarrow> set rows \<subseteq> set (Rows ds) \<Longrightarrow> typed other (ds\<lparr>Rows := rows\<rparr>) s"
  unfolding typed_def by auto

lemma mget_mput: "mget (mput k v m) c = (if c = k then v else mget m c)"
  by (simp add: mget_def)

lemma mget_mdel: "c \<noteq> k \<Longrightarrow> mget (mdel k m) c = mget m c"
  by (simp add: mget_def)

lemma entries_simps [simp]: "entries None = []" "entries (Some m) = m" "entries (map_option f s) = (case s of None \<Rightarrow> [] | Some m \<Rightarrow> f m)"
  by (simp_all add: entries_def split: option.split)

text \<open>A rule that rewrites one column and forgets its type.\<close>

lemma forget_keys: "fst ` set (entries (map_option (mdel c) s)) = fst ` set (entries s) - {c}"
  by (cases s) simp_all

lemma forget_type: "map_of (entries (map_option (mdel k) s)) c = Some ct \<longleftrightarrow> c \<noteq> k \<and> map_of (entries s) c = Some ct"
  by (cases s) simp_all

lemma typed_rewrite:
  assumes "typed other ds s"
    and "\<And>row'. row' \<in> set rows \<Longrightarrow> \<exists>row \<in> set (Rows ds). fst ` set row' = set cols \<and> (\<forall>c. c \<noteq> k \<longrightarrow> mget row' c = mget row c)"
    and "set (Columns ds) \<subseteq> insert k (set cols)"
  shows "typed other \<lparr>Columns = cols, Rows = rows\<rparr> (map_option (mdel k) s)"
proof (rule typedI, goal_cases)
  case (1 row)
  then have "row \<in> set rows" by simp
  from assms(2)[OF this] show ?case by auto
next
  case 2
  then show ?case using typedD(2)[OF assms(1)] assms(3) unfolding forget_keys by auto
next
  case (3 row' c ct)
  then have "row' \<in> set rows" by simp
  from assms(2)[OF this] obtain row where row: "row \<in> set (Rows ds)" "\<forall>c. c \<noteq> k \<longrightarrow> mget row' c = mget row c" by auto
  have "c \<noteq> k" "map_of (entries s) c = Some ct" using 3(2) unfolding forget_type by simp_all
  then show ?case using typedD(3)[OF assms(1) row(1)] row(2) by simp
next
  case 4
  show ?case using typedD(4)[OF assms(1)] by (cases s) simp_all
qed

section \<open>Rules that rewrite or drop columns\<close>

lemma with_rows: "ds\<lparr>Rows := rows\<rparr> = \<lparr>Columns = Columns ds, Rows = rows\<rparr>"
  by (cases ds) simp

lemma typed_addColumn:
  assumes "typed other ds s"
  shows "typed other (addColumn ops r ds) (map_option (mdel (rName r)) s)"
  unfolding addColumn_def
proof (rule typed_rewrite[OF assms])
  fix row' assume "row' \<in> set (map (\<lambda>row. mput (rName r) (evalAddColumnExpression ops (Expression r) row) row) (Rows ds))"
  then obtain row where row: "row \<in> set (Rows ds)" "row' = mput (rName r) (evalAddColumnExpression ops (Expression r) row) row" by auto
  then show "\<exists>row \<in> set (Rows ds). fst ` set row' = set (Columns ds @ [rName r]) \<and> (\<forall>c. c \<noteq> rName r \<longrightarrow> mget row' c = mget row c)"
    using typedD(1)[OF assms] by (intro bexI[of _ row]) (auto simp: mget_mput)
qed auto

lemma function_row_other: "function_row ops r row = Inr row' \<Longrightarrow> c \<noteq> rColumn r \<Longrightarrow> mget row' c = mget row c"
  by (auto simp: function_row_def mget_mput split: option.splits if_splits sum.splits)

lemma replace_row_other: "c \<noteq> rColumn r \<Longrightarrow> mget (replace_row ops r row) c = mget row c"
  by (simp add: replace_row_def mget_mput split: option.split)

lemma typed_applyFunction:
  assumes "typed other ds s" "applyFunction ops r ds = Inr ds'"
  shows "typed other ds' (map_option (mdel (rColumn r)) s)"
proof -
  obtain rows where rows: "each_row (function_row ops r) (Rows ds) = Inr rows" "ds' = ds\<lparr>Rows := rows\<rparr>"
    using assms(2) by (auto simp: applyFunction_def split: sum.splits)
  show ?thesis unfolding rows(2) with_rows
  proof (rule typed_rewrite[OF assms(1)])
    fix row' assume "row' \<in> set rows"
    from each_row_member[OF rows(1) this] obtain row where row: "row \<in> set (Rows ds)" "function_row ops r row = Inr row'" by blast
    then show "\<exists>row \<in> set (Rows ds). fst ` set row' = set (Columns ds) \<and> (\<forall>c. c \<noteq> rColumn r \<longrightarrow> mget row' c = mget row c)"
      using function_row_keys[OF row(2)] function_row_other[OF row(2)] typedD(1)[OF assms(1) row(1)] by (intro bexI[of _ row]) simp_all
  qed auto
qed

lemma typed_replaceValues:
  assumes "typed other ds s"
  shows "typed other (replaceValues ops r ds) (map_option (mdel (rColumn r)) s)"
  unfolding replaceValues_def with_rows
proof (rule typed_rewrite[OF assms])
  fix row' assume "row' \<in> set (map (replace_row ops r) (Rows ds))"
  then obtain row where row: "row \<in> set (Rows ds)" "row' = replace_row ops r row" by auto
  then show "\<exists>row \<in> set (Rows ds). fst ` set row' = set (Columns ds) \<and> (\<forall>c. c \<noteq> rColumn r \<longrightarrow> mget row' c = mget row c)"
    using typedD(1)[OF assms row(1)] by (intro bexI[of _ row]) (simp_all add: replace_row_keys replace_row_other)
qed auto

lemma map_of_fold_mdel: "map_of (fold mdel cs m) c = (if c \<in> set cs then None else map_of m c)"
  by (induction cs arbitrary: m) auto

lemma typed_dropColumns:
  assumes "typed other ds s"
  shows "typed other (dropColumns r ds) (map_option (fold mdel (rColumns r)) s)"
proof (rule typedI, goal_cases)
  case (1 row')
  then obtain row where row: "row \<in> set (Rows ds)" "row' = fold mdel (rColumns r) row" by (auto simp: dropColumns_def)
  show ?case unfolding row(2) fold_mdel_keys typedD(1)[OF assms row(1)] by (auto simp: dropColumns_def)
next
  case 2
  show ?case using typedD(2)[OF assms] by (cases s) (auto simp: dropColumns_def fold_mdel_keys)
next
  case (3 row' c ct)
  then obtain row where row: "row \<in> set (Rows ds)" "row' = fold mdel (rColumns r) row" by (auto simp: dropColumns_def)
  have c: "c \<notin> set (rColumns r)" "map_of (entries s) c = Some ct"
    using 3(2) by (cases s; simp add: map_of_fold_mdel split: if_splits)+
  then have "mget row' c = mget row c" by (simp add: row(2) mget_def map_of_fold_mdel)
  then show ?case using typedD(3)[OF assms row(1) c(2)] by simp
next
  case 4
  have "wf_map (fold mdel cs m)" if "wf_map m" for cs and m :: "(string \<times> ColumnType) list"
    using that by (induction cs arbitrary: m) simp_all
  then show ?case using typedD(4)[OF assms] by (cases s) simp_all
qed

section \<open>Renames\<close>

lemma rename_keeps_other_keys:
  "k \<in> fst ` set row \<Longrightarrow> k \<notin> fst ` set mapping \<Longrightarrow> k \<in> fst ` set (fold rename_step mapping row)"
proof (induction mapping arbitrary: row)
  case (Cons on mapping)
  then have "k \<in> fst ` set (rename_step on row)" by (cases on) (auto simp: rename_step_keys)
  then show ?case using Cons by simp
qed simp

lemma rename_keys_eq:
  assumes "chain_free mapping" "distinct (map snd mapping)"
  shows "fst ` set (fold rename_step mapping row) = renamed mapping ` fst ` set row"
proof (rule equalityI[OF rename_keys[OF assms(1)]], rule subsetI, elim imageE)
  fix y c x assume y: "y = renamed mapping c" "c = fst x" "x \<in> set row"
  show "y \<in> fst ` set (fold rename_step mapping row)"
  proof (cases "c \<in> fst ` set mapping")
    case True
    then have "c \<notin> snd ` set mapping" using assms(1) by (auto simp: chain_free_def)
    moreover obtain v where "map_of row c = Some v" using y by (metis map_of_eq_None_iff image_eqI not_Some_eq)
    ultimately have "map_of (fold rename_step mapping row) y = Some v" using rename_keeps_cell[OF assms] y(1) by simp
    then show ?thesis by (metis map_of_eq_None_iff option.distinct(1))
  next
    case False
    then have "y = c" using y(1) map_of_eq_None_iff[of mapping c] by (simp add: renamed_def)
    then show ?thesis using rename_keeps_other_keys[OF _ False] y by blast
  qed
qed

lemma moved_types_from:
  "map_of (fold (\<lambda>(col, ct). mput (renamed mapping col) ct) m out) k = Some ct \<Longrightarrow>
     map_of out k = Some ct \<or> (\<exists>c. (c, ct) \<in> set m \<and> renamed mapping c = k)"
  by (induction m arbitrary: out) (fastforce split: if_splits)+

lemma moved_types_keys:
  "fst ` set (fold (\<lambda>(col, ct). mput (renamed mapping col) ct) m out) = fst ` set out \<union> renamed mapping ` fst ` set m"
proof (induction m arbitrary: out)
  case (Cons p m)
  then show ?case by (cases p) simp
qed simp

lemma drop_occupied_from:
  "map_of (fold (drop_occupied mapping m) ms out) k = Some ct \<Longrightarrow>
     map_of out k = Some ct \<and> (\<forall>f. (f, k) \<in> set ms \<and> f \<noteq> k \<and> map_of mapping k = None \<longrightarrow> map_of m k = None)"
proof (induction ms arbitrary: out)
  case (Cons ft ms)
  obtain f t where ft: "ft = (f, t)" by (cases ft)
  have ih: "map_of (drop_occupied mapping m ft out) k = Some ct"
      "\<forall>f. (f, k) \<in> set ms \<and> f \<noteq> k \<and> map_of mapping k = None \<longrightarrow> map_of m k = None"
    using Cons.IH[of "drop_occupied mapping m ft out"] Cons.prems by simp_all
  have "map_of out k = Some ct" using ih(1) by (simp add: drop_occupied_def split: if_splits)
  moreover have "map_of m k = None" if "t = k" "f \<noteq> k" "map_of mapping k = None"
    using ih(1) that by (simp add: drop_occupied_def ft split: if_splits)
  ultimately show ?case using ih(2) unfolding ft by auto
qed simp

lemma drop_occupied_keys: "fst ` set (fold (drop_occupied mapping m) ms out) \<subseteq> fst ` set out"
proof (induction ms arbitrary: out)
  case (Cons ft ms)
  have "fst ` set (drop_occupied mapping m ft out) \<subseteq> fst ` set out" by (auto simp: drop_occupied_def)
  then show ?case using Cons[of "drop_occupied mapping m ft out"] by simp
qed simp

lemma wf_rename: "wf_map (fold (drop_occupied mapping m) ms (moved_types mapping n))"
proof -
  have "wf_map (fold (\<lambda>(col, ct). mput (renamed mapping col) ct) n out)" if "wf_map out" for out :: "(string \<times> ColumnType) list"
    using that by (induction n arbitrary: out) auto
  moreover have "wf_map (fold (drop_occupied mapping m) ms out)" if "wf_map out" for out
    using that by (induction ms arbitrary: out) (auto simp: drop_occupied_def)
  ultimately show ?thesis by (simp add: moved_types_def)
qed

lemma typed_renameColumns:
  assumes "typed other ds s" "chain_free (Mapping r)" "distinct (map snd (Mapping r))"
  shows "typed other (renameColumns r ds) (rename_schema (Mapping r) s)"
proof (rule typedI, goal_cases)
  case (1 row')
  then obtain row where row: "row \<in> set (Rows ds)" "row' = fold rename_step (Mapping r) row" by (auto simp: renameColumns_def)
  show ?case unfolding row(2) rename_keys_eq[OF assms(2,3)] typedD(1)[OF assms(1) row(1)] by (simp add: renameColumns_def)
next
  case 2
  have "fst ` set (entries (rename_schema (Mapping r) s)) \<subseteq> renamed (Mapping r) ` fst ` set (entries s)"
    using drop_occupied_keys unfolding rename_schema_def moved_types_def entries_simps
    by (rule order_trans) (simp add: moved_types_keys)
  also have "\<dots> \<subseteq> renamed (Mapping r) ` set (Columns ds)" using typedD(2)[OF assms(1)] by blast
  finally show ?case by (simp add: renameColumns_def)
next
  case (3 row' k ct)
  then obtain row where row: "row \<in> set (Rows ds)" "row' = fold rename_step (Mapping r) row" by (auto simp: renameColumns_def)
  have out: "map_of (moved_types (Mapping r) (entries s)) k = Some ct"
      "\<And>f. (f, k) \<in> set (Mapping r) \<Longrightarrow> f \<noteq> k \<Longrightarrow> map_of (Mapping r) k = None \<Longrightarrow> map_of (entries s) k = None"
    using drop_occupied_from 3(2) unfolding rename_schema_def entries_simps by blast+
  obtain c where c: "(c, ct) \<in> set (entries s)" "renamed (Mapping r) c = k"
    using moved_types_from out(1) unfolding moved_types_def by fastforce
  have ct: "map_of (entries s) c = Some ct" using c(1) typedD(4)[OF assms(1)] by simp
  have "c \<notin> snd ` set (Mapping r)"
  proof
    assume "c \<in> snd ` set (Mapping r)"
    then obtain f where f: "(f, c) \<in> set (Mapping r)" by auto
    then have "c \<notin> fst ` set (Mapping r)" using assms(2) unfolding chain_free_def by force
    then have "map_of (Mapping r) c = None" "f \<noteq> c" using imageI[OF f, of fst] by (auto simp: map_of_eq_None_iff)
    moreover from this c(2) have "k = c" by (simp add: renamed_def)
    ultimately show False using out(2) f ct by auto
  qed
  moreover have "c \<in> fst ` set row" using c(1) typedD(1)[OF assms(1) row(1)] typedD(2)[OF assms(1)] by force
  then obtain v where v: "map_of row c = Some v" by (metis map_of_eq_None_iff not_Some_eq)
  ultimately have "map_of row' k = Some v" using rename_keeps_cell[OF assms(2,3) v] c(2) row(2) by simp
  then show ?case using typedD(3)[OF assms(1) row(1) ct] v by (simp add: mget_def)
next
  case 4
  show ?case by (simp add: rename_schema_def wf_rename)
qed

section \<open>Projections\<close>

text \<open>
  The expressions whose declared type their value has: no \<^verbatim>\<open>coalesce\<close> or \<^verbatim>\<open>case_when\<close>, and no arithmetic that is
  declared exact, since the evaluator always returns a float.
\<close>

definition typed_expr :: "columnSchema \<Rightarrow> gomap \<Rightarrow> bool" where
  "typed_expr s expr \<longleftrightarrow>
     mget expr ''op'' \<notin> {VStr ''coalesce'', VStr ''case_when''} \<and>
     (mget expr ''op'' \<in> {VStr ''add'', VStr ''subtract'', VStr ''multiply''} \<longrightarrow>
        Class (expressionColumnType expr s) \<notin> {TypeInt, TypeDecimal}) \<and>
     (mget expr ''op'' = VStr ''literal'' \<longrightarrow> (\<forall>i. mget expr ''value'' \<noteq> VUint64 i))"

lemma conf_unknown [simp]: "conf other unknown_type v"
  by (simp add: conf_def column_type_def)

lemma conf_literal: "\<forall>i. v \<noteq> VUint64 i \<Longrightarrow> conf other (literal_type v) v"
  by (cases v) (auto simp: conf_def literal_type_def column_type_def)

lemma arith_type_class: "Class (arith_type op l r) \<in> {TypeDecimal, TypeFloat, TypeInt, TypeUnknown}"
  by (simp add: arith_type_def column_type_def)

lemma conf_arith:
  assumes "arithmetic ops op a b = Inr v" "op \<noteq> ''concat''" "Class (arith_type op l r) \<notin> {TypeInt, TypeDecimal}"
  shows "conf other (arith_type op l r) v"
proof -
  have "v = VNil \<or> (\<exists>f. v = VFloat f)"
    using assms(1,2) by (auto simp: arithmetic_def split: if_splits option.splits prod.splits)
  moreover have "Class (arith_type op l r) = TypeUnknown \<or> arith_type op l r = column_type TypeFloat 64 True"
    using assms(3) by (auto simp: arith_type_def column_type_def split: if_splits)
  ultimately show ?thesis by (auto simp: conf_def column_type_def)
qed

lemma walk_path_single: "walk_path [VStr name] (VMap row) = Inr v \<Longrightarrow> v = mget row name"
  by (simp split: if_splits)

lemma conf_column:
  assumes "mget expr ''op'' = VStr ''column''" "evalExpression ops expr row = Inr v"
    and "\<And>c ct. map_of (entries s) c = Some ct \<Longrightarrow> conf other ct (mget row c)"
  shows "conf other (expressionColumnType expr s) v"
proof (cases "\<exists>name. mget expr ''path'' = VList [VStr name]")
  case True
  then obtain name where path: "mget expr ''path'' = VList [VStr name]" ..
  then have v: "v = mget row name" using assms(1,2) walk_path_single[of name row v] by (simp add: evalExpression.simps blank_def)
  show ?thesis
    by (cases "map_of (entries s) name") (simp_all add: expressionColumnType.simps assms(1,3) path v)
next
  case False
  have "\<exists>p ps. mget expr ''path'' = VList (p # ps) \<and> (\<exists>name. p = VStr name)"
    using assms(1,2) by (auto simp: evalExpression.simps blank_def split: goval.splits list.splits option.splits)
  then obtain name q ps where "mget expr ''path'' = VList (VStr name # q # ps)" using False by (metis neq_Nil_conv)
  then show ?thesis by (simp add: expressionColumnType.simps assms(1))
qed

lemma eval_binary:
  assumes "mget expr ''op'' = VStr op" "op \<in> {''concat'', ''add'', ''subtract'', ''multiply'', ''divide''}" "evalExpression ops expr row = Inr v"
  obtains a b where "arithmetic ops op a b = Inr v"
proof -
  have "evalExpression ops expr row = (case binaryOperands ops expr row of Inl e \<Rightarrow> Inl e | Inr (l, r) \<Rightarrow> arithmetic ops op l r)"
    using assms(1,2) by (elim insertE emptyE; hypsubst; simp add: evalExpression.simps[of ops expr row] blank_def)
  then show ?thesis using assms(3) that by (auto split: sum.splits)
qed

lemma conf_expression:
  assumes "typed_expr s expr" "evalExpression ops expr row = Inr v"
    and "\<And>c ct. map_of (entries s) c = Some ct \<Longrightarrow> conf other ct (mget row c)"
  shows "conf other (expressionColumnType expr s) v"
proof -
  obtain op where op: "mget expr ''op'' = VStr op" "\<not> blank op"
    using assms(2) by (auto simp: evalExpression.simps split: option.splits if_splits)
  have kinds: "op \<in> {''column'', ''literal'', ''concat'', ''add'', ''subtract'', ''multiply'', ''divide''}"
    using assms(1,2) op by (auto simp: evalExpression.simps typed_expr_def split: if_splits)
  show ?thesis
  proof (cases "op \<in> {''column'', ''literal''}")
    case True
    then show ?thesis
    proof (elim insertE)
      assume "op = ''column''"
      then show ?thesis using conf_column[OF _ assms(2,3)] op(1) by simp
    next
      assume l: "op = ''literal''"
      then have "v = mget expr ''value''" "\<forall>i. v \<noteq> VUint64 i" using assms(1,2) op by (simp_all add: evalExpression.simps typed_expr_def)
      then show ?thesis using conf_literal l op(1) by (simp add: expressionColumnType.simps)
    qed simp
  next
    case False
    then obtain a b where ab: "arithmetic ops op a b = Inr v"
      using kinds by (elim eval_binary[OF op(1) _ assms(2), rotated]) simp
    show ?thesis
    proof (cases "op = ''concat''")
      case True
      then have "v = VNil \<or> (\<exists>t. v = VStr t)" using ab by (auto simp: arithmetic_def split: if_splits)
      then show ?thesis using True op(1) by (auto simp: expressionColumnType.simps conf_def column_type_def)
    next
      case nc: False
      let ?l = "expressionColumnType (expressionChild expr ''left'') s" and ?r = "expressionColumnType (expressionChild expr ''right'') s"
      have ty: "expressionColumnType expr s = arith_type op ?l ?r"
        using False nc kinds op(1) by (elim insertE emptyE; hypsubst; simp add: expressionColumnType.simps[of expr s])
      have "Class (arith_type op ?l ?r) \<notin> {TypeInt, TypeDecimal}"
      proof (cases "op = ''divide''")
        case True
        then show ?thesis by (simp add: arith_type_def column_type_def)
      next
        case False
        then show ?thesis using assms(1) op(1) kinds nc \<open>op \<notin> {''column'', ''literal''}\<close> unfolding ty[symmetric] typed_expr_def by auto
      qed
      then show ?thesis unfolding ty by (rule conf_arith[OF ab nc])
    qed
  qed
qed

lemma project_row_keys_eq:
  "project_row ops ps row outRow = Inr out \<Longrightarrow> fst ` set out = fst ` set outRow \<union> pName ` set ps"
  by (induction ops ps row outRow rule: project_row.induct) (auto split: sum.splits)

lemma project_row_other:
  "project_row ops ps row outRow = Inr out \<Longrightarrow> k \<notin> pName ` set ps \<Longrightarrow> mget out k = mget outRow k"
  by (induction ops ps row outRow rule: project_row.induct) (auto simp: mget_mput split: sum.splits)

lemma project_row_value:
  "project_row ops ps row outRow = Inr out \<Longrightarrow> distinct (map pName ps) \<Longrightarrow> p \<in> set ps \<Longrightarrow>
     evalExpression ops (pExpr p) row = Inr (mget out (pName p))"
proof (induction ops ps row outRow rule: project_row.induct)
  case (2 ops q ps row outRow)
  then obtain v where v: "evalExpression ops (pExpr q) row = Inr v" "project_row ops ps row (mput (pName q) v outRow) = Inr out"
    by (auto split: sum.splits)
  have q: "pName q \<notin> pName ` set ps" "distinct (map pName ps)" using 2(3) by simp_all
  show ?case
  proof (cases "p = q")
    case True
    then show ?thesis using project_row_other[OF v(2) q(1)] v(1) by (simp add: mget_mput)
  next
    case False
    then show ?thesis using 2(1)[OF v(1,2) q(2)] 2(4) by simp
  qed
qed simp

lemma project_columns_distinct: "project_columns ps columns = Inr out \<Longrightarrow> distinct columns \<Longrightarrow> distinct out"
  by (induction ps columns rule: project_columns.induct) (auto split: if_splits)

lemma fold_mput_from: "map_of (fold (\<lambda>x. mput (key x) (val x)) xs m) k = Some v \<Longrightarrow>
    map_of m k = Some v \<or> (\<exists>x \<in> set xs. key x = k \<and> val x = v)"
  by (induction xs arbitrary: m) (fastforce split: if_splits)+

lemma wf_fold_mput: "wf_map m \<Longrightarrow> wf_map (fold (\<lambda>x. mput (key x) (val x)) xs m)"
  by (induction xs arbitrary: m) simp_all

lemma typed_project:
  assumes "typed other ds s" "project ops r ds = Inr ds'" "\<forall>p \<in> set (Projections r). typed_expr s (pExpr p)"
  shows "typed other ds' (project_schema (Projections r) s)"
proof -
  obtain columns out where p: "project_columns (Projections r) [] = Inr columns" "ds' = \<lparr>Columns = columns, Rows = out\<rparr>"
      "each_row (\<lambda>row. project_row (xexpr ops) (Projections r) row []) (Rows ds) = Inr out"
    using assms(2) by (auto simp: project_def split: sum.splits)
  have cols: "columns = map pName (Projections r)" "distinct columns"
    using project_columns_names[OF p(1)] project_columns_distinct[OF p(1)] by simp_all
  have from_row: "\<exists>row \<in> set (Rows ds). project_row (xexpr ops) (Projections r) row [] = Inr row'" if "row' \<in> set (Rows ds')" for row'
    using each_row_member[OF p(3)] that p(2) by simp
  show ?thesis
  proof (rule typedI, goal_cases)
    case (1 row')
    from from_row[OF this] obtain row where "project_row (xexpr ops) (Projections r) row [] = Inr row'" by blast
    from project_row_keys_eq[OF this] show ?case by (simp add: p(2) cols(1))
  next
    case 2
    show ?case by (simp add: project_schema_def fold_mput_named p(2) cols(1))
  next
    case (3 row' k ct)
    obtain q where q: "q \<in> set (Projections r)" "pName q = k" "expressionColumnType (pExpr q) s = ct"
      using fold_mput_from 3(2) unfolding project_schema_def by fastforce
    obtain row where row: "row \<in> set (Rows ds)" "project_row (xexpr ops) (Projections r) row [] = Inr row'" using from_row 3(1) by blast
    have "evalExpression (xexpr ops) (pExpr q) row = Inr (mget row' k)"
      using project_row_value[OF row(2) _ q(1)] cols q(2) by simp
    then show ?case using conf_expression assms(3) q(1,3) typedD(3)[OF assms(1) row(1)] by blast
  next
    case 4
    show ?case by (simp add: project_schema_def wf_fold_mput)
  qed
qed

section \<open>Aggregates\<close>

text \<open>
  The aggregations whose declared type their value has: the names of the output are distinct, and a minimum or maximum
  is taken of a column of numbers or of one without a type.
\<close>

definition typed_agg :: "columnSchema \<Rightarrow> XRule \<Rightarrow> bool" where
  "typed_agg s r \<longleftrightarrow>
     distinct (GroupBy r @ map field_name (rule_fields (TransformRule.truncate r))) \<and>
     (\<forall>af \<in> set (rule_fields (TransformRule.truncate r)). lower (aFunction af) \<in> {''min'', ''max''} \<longrightarrow>
        (case map_of (entries s) (aColumn af) of None \<Rightarrow> True | Some ct \<Rightarrow> Class ct \<in> {TypeInt, TypeFloat}))"

lemma add_numbers:
  assumes "\<And>row. row \<in> set rows \<Longrightarrow> mget row col = VNil \<or> toAggFloat ops (mget row col) \<noteq> None"
  shows "sawOther (fold (\<lambda>row. add ops (mget row col)) rows a) = sawOther a"
  using assms
proof (induction rows arbitrary: a)
  case (Cons row rows)
  have "sawOther (add ops (mget row col) a) = sawOther a"
    using Cons.prems[of row] by (auto simp: add_def Let_def)
  then show ?case using Cons by simp
qed simp

lemma conf_number: "conf other ct v \<Longrightarrow> Class ct \<in> {TypeInt, TypeFloat} \<Longrightarrow> v = VNil \<or> toAggFloat ops v \<noteq> None"
  by (auto simp: conf_def toAggFloat_def split: if_splits)

lemma conf_computeAgg:
  assumes "field_type s af = Some ct"
    and "lower (aFunction af) \<in> {''min'', ''max''} \<longrightarrow>
      (case map_of (entries s) (aColumn af) of None \<Rightarrow> True | Some ct \<Rightarrow> Class ct \<in> {TypeInt, TypeFloat})"
    and "\<And>row c ct. row \<in> set rows \<Longrightarrow> map_of (entries s) c = Some ct \<Longrightarrow> conf other ct (mget row c)"
  shows "conf other ct (computeAgg ops (aFunction af) (aColumn af) rows)"
proof (cases "lower (aFunction af) \<in> {''min'', ''max''}")
  case True
  then obtain ct0 where ct0: "map_of (entries s) (aColumn af) = Some ct0" "Class ct0 \<in> {TypeInt, TypeFloat}"
      "ct = column_type TypeFloat 64 True"
    using assms(1,2) by (auto simp: field_type_def orderedKeepsType_def split: option.splits)
  have "\<not> sawOther (fold (\<lambda>row. add ops (mget row (aColumn af))) rows zeroAcc)"
    using add_numbers[of rows "aColumn af" ops zeroAcc] conf_number[OF assms(3)[OF _ ct0(1)] ct0(2)] by (simp add: zeroAcc_def)
  then have "\<exists>f. computeAgg ops (aFunction af) (aColumn af) rows = VFloat f"
    using True by (auto simp: computeAgg_def agg_result_def)
  then show ?thesis using ct0(3) by (auto simp: conf_def column_type_def)
next
  case False
  have "lower (aFunction af) \<in> {''count'', ''count_distinct''} \<and> ct = column_type TypeInt 64 False \<or>
      lower (aFunction af) \<in> {''sum'', ''avg''} \<and> ct = column_type TypeFloat 64 True"
    using assms(1) False by (auto simp: field_type_def Let_def split: if_splits)
  then show ?thesis
    by (elim disjE conjE insertE emptyE) (simp_all add: computeAgg_def conf_def column_type_def Let_def split: prod.split)
qed

lemma fold_mput_other: "k \<notin> key ` set xs \<Longrightarrow> map_of (fold (\<lambda>x. mput (key x) (val x)) xs m) k = map_of m k"
  by (induction xs arbitrary: m) simp_all

lemma fold_mput_value:
  "distinct (map key xs) \<Longrightarrow> x \<in> set xs \<Longrightarrow> map_of (fold (\<lambda>x. mput (key x) (val x)) xs m) (key x) = Some (val x)"
  by (induction xs arbitrary: m) (auto simp: fold_mput_other)

lemma mget_key_columns: "distinct cols \<Longrightarrow> c \<in> set cols \<Longrightarrow> mget (key_columns cols row) c = mget row c"
  using fold_mput_value[of "\<lambda>c. c" cols c "mget row" "[]"] by (simp add: key_columns_def mget_def)

lemma group_types_from:
  "map_of (group_types s cols) k = Some ct \<Longrightarrow> k \<in> set cols \<and> map_of (entries s) k = Some ct"
proof -
  have "map_of (fold (\<lambda>c out. case map_of (entries s) c of Some ct \<Rightarrow> mput c ct out | None \<Rightarrow> out) cols out) k = Some ct \<Longrightarrow>
      map_of out k = Some ct \<or> k \<in> set cols \<and> map_of (entries s) k = Some ct" for out
  proof (induction cols arbitrary: out)
    case (Cons c cols)
    then show ?case by (cases "map_of (entries s) c") (fastforce split: if_splits)+
  qed simp
  from this[of "[]"] show "map_of (group_types s cols) k = Some ct \<Longrightarrow> ?thesis" by (simp add: group_types_def)
qed

lemma aggregate_fields_from:
  "map_of (fold (aggregate_field s) afs out) k = Some ct \<Longrightarrow>
     map_of out k = Some ct \<or> (\<exists>af \<in> set afs. field_name af = k \<and> field_type s af = Some ct)"
proof (induction afs arbitrary: out)
  case (Cons af afs)
  have "map_of (aggregate_field s af out) k = Some ct \<or> (\<exists>af \<in> set afs. field_name af = k \<and> field_type s af = Some ct)"
    using Cons by simp
  then show ?case by (cases "field_type s af") (auto simp: aggregate_field_def split: if_splits)
qed simp

text \<open>The groups of an aggregation are made of rows of the dataset.\<close>

definition groups_ok :: "DataRow set \<Rightarrow> (string \<times> group) list \<times> string list \<Rightarrow> bool" where
  "groups_ok R st \<longleftrightarrow> (\<forall>k \<in> set (snd st). map_of (fst st) k \<noteq> None) \<and>
     (\<forall>k keyRow rows. map_of (fst st) k = Some (keyRow, rows) \<longrightarrow> keyRow \<in> R \<and> set rows \<subseteq> R)"

lemma groups_ok_row: "groups_ok R st \<Longrightarrow> row \<in> R \<Longrightarrow> groups_ok R (group_row key row st)"
  by (cases st; cases "map_of (fst st) (key row)") (fastforce simp: groups_ok_def group_row_def split: if_splits)+

lemma groups_ok_fold: "groups_ok R st \<Longrightarrow> set rows \<subseteq> R \<Longrightarrow> groups_ok R (fold (group_row key) rows st)"
  by (induction rows arbitrary: st) (simp_all add: groups_ok_row)

lemma aggregate_rows:
  assumes "row' \<in> set (Rows (aggregate ops gk r ds))"
  obtains keyRow rows where "keyRow \<in> set (Rows ds)" "set rows \<subseteq> set (Rows ds)"
    "row' = fold (\<lambda>af. mput (field_name af) (computeAgg ops (aFunction af) (aColumn af) rows)) (rule_fields r) (key_columns (GroupBy r) keyRow)"
proof -
  obtain groups order where go: "fold (group_row (\<lambda>row. gk (map (mget row) (GroupBy r)))) (Rows ds) ([], []) = (groups, order)"
    by fastforce
  have ok: "groups_ok (set (Rows ds)) (groups, order)"
    unfolding go[symmetric] by (rule groups_ok_fold) (simp_all add: groups_ok_def)
  have "Rows (aggregate ops gk r ds) = map (\<lambda>key. case map_of groups key of None \<Rightarrow> [] | Some (keyRow, rows) \<Rightarrow>
      fold (\<lambda>af. mput (field_name af) (computeAgg ops (aFunction af) (aColumn af) rows)) (rule_fields r) (key_columns (GroupBy r) keyRow)) order"
    by (simp only: aggregate_def Let_def go prod.case DataSet.simps)
  then obtain k where k: "k \<in> set order" "row' = (case map_of groups k of None \<Rightarrow> [] | Some (keyRow, rows) \<Rightarrow>
      fold (\<lambda>af. mput (field_name af) (computeAgg ops (aFunction af) (aColumn af) rows)) (rule_fields r) (key_columns (GroupBy r) keyRow))"
    using assms by auto
  obtain keyRow rows where g: "map_of groups k = Some (keyRow, rows)" using ok k(1) by (auto simp: groups_ok_def)
  moreover have "keyRow \<in> set (Rows ds)" "set rows \<subseteq> set (Rows ds)" using ok g unfolding groups_ok_def by auto
  ultimately show ?thesis using that k(2) by simp
qed

lemma aggregate_Columns: "Columns (aggregate ops gk r ds) = GroupBy r @ map field_name (rule_fields r)"
  by (simp add: aggregate_def Let_def split: prod.split)

lemma typed_aggregate:
  assumes "typed other ds s" "typed_agg s r"
  shows "typed other (aggregate ops gk (TransformRule.truncate r) ds) (aggregateSchema r s)"
proof -
  let ?afs = "rule_fields (TransformRule.truncate r)" and ?agg = "aggregate ops gk (TransformRule.truncate r) ds"
  have dist: "distinct (GroupBy r)" "distinct (map field_name ?afs)" "set (GroupBy r) \<inter> field_name ` set ?afs = {}"
    using assms(2) unfolding typed_agg_def distinct_append by auto
  have schema: "entries (aggregateSchema r s) = fold (aggregate_field s) ?afs (group_types s (GroupBy r))"
    by (simp add: aggregateSchema_def Let_def)
  have types: "k \<in> set (GroupBy r) \<and> map_of (entries s) k = Some ct \<or> (\<exists>af \<in> set ?afs. field_name af = k \<and> field_type s af = Some ct)"
    if "map_of (entries (aggregateSchema r s)) k = Some ct" for k ct
    using aggregate_fields_from[OF that[unfolded schema]] group_types_from by blast
  have cols: "Columns ?agg = GroupBy r @ map field_name ?afs" by (simp only: aggregate_Columns rule_fields_truncate(2))
  show ?thesis
  proof (rule typedI, goal_cases)
    case (1 row')
    then show ?case by (elim aggregate_rows) (simp only: agg_row_keys cols rule_fields_truncate(2) set_append set_map)
  next
    case 2
    show ?case
    proof
      fix k assume "k \<in> fst ` set (entries (aggregateSchema r s))"
      then obtain ct where "map_of (entries (aggregateSchema r s)) k = Some ct" by (metis map_of_eq_None_iff not_Some_eq)
      from types[OF this] show "k \<in> set (Columns ?agg)" unfolding cols by auto
    qed
  next
    case (3 row' k ct)
    obtain keyRow rows where g: "keyRow \<in> set (Rows ds)" "set rows \<subseteq> set (Rows ds)"
        "row' = fold (\<lambda>af. mput (field_name af) (computeAgg ops (aFunction af) (aColumn af) rows)) ?afs (key_columns (GroupBy r) keyRow)"
      using 3(1) by (elim aggregate_rows) (simp only: rule_fields_truncate(2))
    from types[OF 3(2)] show ?case
    proof (elim disjE conjE bexE)
      assume k: "k \<in> set (GroupBy r)" "map_of (entries s) k = Some ct"
      then have "k \<notin> field_name ` set ?afs" using dist(3) by blast
      then have "mget row' k = mget (key_columns (GroupBy r) keyRow) k" unfolding g(3) mget_def by (subst fold_mput_other) simp_all
      then show ?thesis using mget_key_columns[OF dist(1) k(1)] typedD(3)[OF assms(1) g(1) k(2)] by simp
    next
      fix af assume af: "af \<in> set ?afs" "field_name af = k" "field_type s af = Some ct"
      have "mget row' k = computeAgg ops (aFunction af) (aColumn af) rows"
        unfolding g(3) mget_def af(2)[symmetric] fold_mput_value[OF dist(2) af(1)] by simp
      then show ?thesis
        using conf_computeAgg[OF af(3)] assms(2) af(1) typedD(3)[OF assms(1)] g(2) unfolding typed_agg_def by (metis subsetD)
    qed
  next
    case 4
    have groups: "wf_map (fold (\<lambda>c out. case map_of (entries s) c of Some ct \<Rightarrow> mput c ct out | None \<Rightarrow> out) cs out)"
      if "wf_map out" for cs out
      using that by (induction cs arbitrary: out) (simp_all split: option.split)
    have "wf_map (fold (aggregate_field s) afs out)" if "wf_map out" for afs out
      using that by (induction afs arbitrary: out) (simp_all add: aggregate_field_def split: option.split)
    then show ?case unfolding schema by (simp add: group_types_def groups)
  qed
qed

section \<open>A transform node\<close>

text \<open>A rule whose effect on the types is the one declared.\<close>

definition typed_rule :: "columnSchema \<Rightarrow> XRule \<Rightarrow> bool" where
  "typed_rule s r \<longleftrightarrow>
     (rType r \<in> {''rename_columns'', ''rename''} \<longrightarrow> chain_free (Mapping r) \<and> distinct (map snd (Mapping r))) \<and>
     (rType r \<in> {''project'', ''projection''} \<longrightarrow> (\<forall>p \<in> set (Projections r). typed_expr s (pExpr p))) \<and>
     (rType r \<in> {''aggregate'', ''agg''} \<longrightarrow> typed_agg s r)"

fun typed_rules :: "columnSchema \<Rightarrow> XRule list \<Rightarrow> bool" where
  "typed_rules s [] \<longleftrightarrow> True"
| "typed_rules s (r # rs) \<longleftrightarrow> typed_rule s r \<and> typed_rules (if s = None then None else applyRuleToSchema r s) rs"

lemma applyRuleToSchema_simps:
  "rType r \<in> {''filter_rows'', ''filter'', ''deduplicate'', ''dedup'', ''sort'', ''filter_native''} \<Longrightarrow> applyRuleToSchema r s = s"
  "rType r \<in> {''drop_columns'', ''drop''} \<Longrightarrow> applyRuleToSchema r s = map_option (fold mdel (rColumns r)) s"
  "rType r \<in> {''rename_columns'', ''rename''} \<Longrightarrow> applyRuleToSchema r s = rename_schema (Mapping r) s"
  "rType r \<in> {''add_column''} \<Longrightarrow> applyRuleToSchema r s = map_option (mdel (rName r)) s"
  "rType r \<in> {''project'', ''projection''} \<Longrightarrow> applyRuleToSchema r s = project_schema (Projections r) s"
  "rType r \<in> {''apply_function'', ''function'', ''replace_values'', ''replace''} \<Longrightarrow> applyRuleToSchema r s = map_option (mdel (rColumn r)) s"
  "rType r \<in> {''aggregate'', ''agg''} \<Longrightarrow> applyRuleToSchema r s = aggregateSchema r s"
  unfolding applyRuleToSchema_def Let_def by (elim insertE emptyE; simp)+

lemma typed_applyRule:
  assumes "typed other ds s" "applyRule ops r ds = Inr ds'" "typed_rule s r"
  shows "typed other ds' (applyRuleToSchema r s)"
  using assms(2)
proof (cases rule: applyRule_cases)
  case rename
  then show ?thesis using typed_renameColumns[OF assms(1)] assms(3) applyRuleToSchema_simps(3) by (simp add: typed_rule_def)
next
  case add_column
  then show ?thesis using typed_addColumn[OF assms(1)] applyRuleToSchema_simps(4) by simp
next
  case project
  then show ?thesis using typed_project[OF assms(1)] assms(3) applyRuleToSchema_simps(5) by (simp add: typed_rule_def)
next
  case filter_rows
  then have "applyRuleToSchema r s = s" by (intro applyRuleToSchema_simps(1)) auto
  then show ?thesis using filterRows_rows[OF filter_rows(2)] typed_rows[OF assms(1)] by auto
next
  case func
  then have "applyRuleToSchema r s = map_option (mdel (rColumn r)) s" by (intro applyRuleToSchema_simps(6)) auto
  then show ?thesis using typed_applyFunction[OF assms(1) func(2)] by simp
next
  case replace
  then have "applyRuleToSchema r s = map_option (mdel (rColumn r)) s" by (intro applyRuleToSchema_simps(6)) auto
  then show ?thesis using typed_replaceValues[OF assms(1)] replace(2) by simp
next
  case drop_cols
  then show ?thesis using typed_dropColumns[OF assms(1)] applyRuleToSchema_simps(2) by simp
next
  case sort
  then have "applyRuleToSchema r s = s" by (intro applyRuleToSchema_simps(1)) auto
  moreover have "ds' = ds\<lparr>Rows := Rows ds'\<rparr>" unfolding sort(2) sortRows_def by (simp add: Let_def)
  ultimately show ?thesis using typed_rows[OF assms(1), of "Rows ds'"] set_sortRows unfolding sort(2) by (metis subset_refl)
next
  case dedup
  then have "applyRuleToSchema r s = s" by (intro applyRuleToSchema_simps(1)) auto
  then show ?thesis using typed_rows[OF assms(1) set_dedup_rows] dedup(2) by (simp add: deduplicate_def)
next
  case aggregate
  then show ?thesis using typed_aggregate[OF assms(1)] assms(3) applyRuleToSchema_simps(7) by (simp add: typed_rule_def)
next
  case native
  then have "applyRuleToSchema r s = s" by (intro applyRuleToSchema_simps(1)) auto
  then show ?thesis using filterNative_rows[OF native(2)] typed_rows[OF assms(1)] by auto
qed

lemma typed_None: "typed other ds s \<Longrightarrow> typed other ds None"
  unfolding typed_def by simp

lemma typed_apply_each:
  "apply_each ops i rules ds = Inr ds' \<Longrightarrow> typed other ds s \<Longrightarrow> typed_rules s rules \<Longrightarrow> typed other ds' (applyRulesToSchema rules s)"
proof (induction rules arbitrary: i ds s)
  case (Cons r rules)
  then obtain ds1 where ds1: "applyRule ops r ds = Inr ds1" "apply_each ops (Suc i) rules ds1 = Inr ds'"
    by (auto simp: ApplyTransforms_def split: sum.splits)
  have "typed other ds1 (applyRuleToSchema r s)" using typed_applyRule[OF Cons.prems(2) ds1(1)] Cons.prems(3) by simp
  then have "typed other ds1 (if s = None then None else applyRuleToSchema r s)" using typed_None by auto
  from Cons.IH[OF ds1(2) this] show ?case using Cons.prems(3) by (cases s; cases rules) auto
qed simp

text \<open>
  C22. The types that a transform node hands on are right. When the input's rows are complete and conform to its schema,
  and the rules rename without chains or collisions, project expressions whose type is not guessed, give the group columns and
  results of an aggregation different names and take minima and maxima of numbers only (or of columns that the schema
  does not list), every cell of the node's output conforms to the output schema, null only where it allows it.
\<close>

theorem transform_schema_sound:
  assumes "runTransform ops decode config (Some ds) s = Inr res" and "typed other ds s"
    and "\<And>rules. decode (mget config ''rules'') = Some rules \<Longrightarrow> typed_rules s rules"
  shows "typed other (noutput res) (outputSchema res)"
proof -
  obtain rules ds' where "decode (mget config ''rules'') = Some rules" "apply_each ops 1 rules ds = Inr ds'"
      "res = \<lparr>noutput = ds', outputSchema = applyRulesToSchema rules s\<rparr>"
    using assms(1) by (auto simp: runTransform_def split: option.splits sum.splits)
  then show ?thesis using typed_apply_each[OF _ assms(2)] assms(3) by simp
qed

definition int_schema :: columnSchema where
  "int_schema = Some [(''a'', column_type TypeInt 64 False), (''b'', column_type TypeInt 64 False)]"

definition ab_dataset :: DataSet where
  "ab_dataset = \<lparr>Columns = [''a'', ''b''], Rows = [[(''a'', VInt 1), (''b'', VInt 2)]]\<rparr>"

lemma ab_typed: "typed other ab_dataset int_schema"
  by (rule typedI) (auto simp: ab_dataset_def int_schema_def conf_def column_type_def mget_def split: if_splits)

theorem transform_schema_sound_witness:
  "\<forall>ops. \<exists>res. runTransform ops (\<lambda>_. Some [rename_rule [(''a'', ''x'')], drop_rule ''b'']) [] (Some ab_dataset) int_schema = Inr res \<and>
     outputSchema res = Some [(''x'', column_type TypeInt 64 False)] \<and> typed (\<lambda>_ _. False) (noutput res) (outputSchema res)"
proof
  fix ops
  let ?res = "\<lparr>noutput = \<lparr>Columns = [''x''], Rows = [[(''x'', VInt 1)]]\<rparr>, outputSchema = Some [(''x'', column_type TypeInt 64 False)]\<rparr>"
  let ?rules = "[rename_rule [(''a'', ''x'')], drop_rule ''b'']"
  have run: "runTransform ops (\<lambda>_. Some ?rules) [] (Some ab_dataset) int_schema = Inr ?res" by code_simp
  have "typed_rules int_schema ?rules"
    by (simp add: typed_rule_def rename_rule_def drop_rule_def blank_rule_def chain_free_def)
  then have "typed (\<lambda>_ _. False) (noutput ?res) (outputSchema ?res)"
    using transform_schema_sound[OF run ab_typed] by simp
  then show "\<exists>res. runTransform ops (\<lambda>_. Some ?rules) [] (Some ab_dataset) int_schema = Inr res \<and>
     outputSchema res = Some [(''x'', column_type TypeInt 64 False)] \<and> typed (\<lambda>_ _. False) (noutput res) (outputSchema res)"
    using run by (intro exI[of _ ?res]) simp
qed

section \<open>Types that do not hold\<close>

text \<open>Exchanging two columns exchanges their types, but the rows keep one value of the two.\<close>

lemma swapped_types:
  "rename_schema [(''a'', ''b''), (''b'', ''a'')] (Some [(''a'', column_type TypeInt 64 True), (''b'', column_type TypeText 0 True)]) =
     Some [(''b'', column_type TypeInt 64 True), (''a'', column_type TypeText 0 True)] \<and>
   Rows (renameColumns (rename_rule [(''a'', ''b''), (''b'', ''a'')]) \<lparr>Columns = [''a'', ''b''], Rows = [[(''a'', VInt 1), (''b'', VStr ''t'')]]\<rparr>) =
     [[(''a'', VInt 1)]]"
  by code_simp

text \<open>A sum of integer columns is declared an integer column, and its value is a float.\<close>

definition plus_expr :: gomap where
  "plus_expr = [(''op'', VStr ''add''),
     (''left'', VMap [(''op'', VStr ''column''), (''path'', VList [VStr ''a''])]),
     (''right'', VMap [(''op'', VStr ''column''), (''path'', VList [VStr ''b''])])]"

lemma integer_sum_is_float:
  "Class (expressionColumnType plus_expr int_schema) = TypeInt \<and>
   evalExpression ops plus_expr [(''a'', VInt 1), (''b'', VInt 2)] = Inr (VFloat (xadd ops (xfloat ops 1) (xfloat ops 2)))"
  by code_simp

text \<open>
  The minimum over a column of identifiers is one of them, or that of a column of unknown type any value; both are
  declared float columns.
\<close>

lemma minimum_declared_float:
  "aggregateSchema (blank_rule\<lparr>AggFields := [\<lparr>aColumn = ''u'', aFunction = ''min'', aAlias = ''m''\<rparr>]\<rparr>) (Some [(''u'', column_type TypeUUID 0 True)]) =
     Some [(''m'', column_type TypeFloat 64 True)] \<and>
   aggregateSchema (blank_rule\<lparr>AggFields := [\<lparr>aColumn = ''u'', aFunction = ''min'', aAlias = ''m''\<rparr>]\<rparr>) (Some [(''u'', unknown_type)]) =
     Some [(''m'', column_type TypeFloat 64 True)]"
  by code_simp

lemma minimum_of_texts:
  assumes "ParseFloat ops t = None"
  shows "computeAgg ops ''min'' ''u'' [[(''u'', VStr t)]] = VStr t"
proof -
  have "lower ''min'' = ''min''" by code_simp
  then show ?thesis using assms by (simp add: computeAgg_def agg_result_def add_def zeroAcc_def toAggFloat_def mget_def Let_def)
qed

text \<open>
  A result that has the name of a group column overwrites the cell; when its function has no type to declare, the schema
  keeps the type of the group column, here not null, for a column of nulls.
\<close>

lemma alias_keeps_group_type:
  "let r = blank_rule\<lparr>GroupBy := [''a''], AggFields := [\<lparr>aColumn = ''b'', aFunction = ''median'', aAlias = ''a''\<rparr>]\<rparr>
   in aggregateSchema r int_schema = Some [(''a'', column_type TypeInt 64 False)] \<and>
      Rows (aggregate ops gk (TransformRule.truncate r) ab_dataset) = [[(''a'', VNil)]]"
  by code_simp

text \<open>A left join pads the right columns with nulls, and the schema keeps them not null.\<close>

lemma left_join_not_null:
  "joinSchema (Some [(''k'', column_type TypeInt 64 False)]) (Some [(''k'', column_type TypeInt 64 False), (''v'', column_type TypeInt 64 False)])
     [''k''] [''k'', ''v''] ''k'' ''k'' \<lparr>CollisionPolicy = [], RightAlias = []\<rparr> =
     Inr (Some [(''k'', column_type TypeInt 64 False), (''v'', column_type TypeInt 64 False)]) \<and>
   JoinDatasetsWithOptions (\<lambda>_. ''1'') (Some \<lparr>Columns = [''k''], Rows = [[(''k'', VInt 1)]]\<rparr>) (Some \<lparr>Columns = [''k'', ''v''], Rows = []\<rparr>)
     ''k'' ''k'' JoinLeft \<lparr>CollisionPolicy = [], RightAlias = []\<rparr> =
     Inr \<lparr>Columns = [''k'', ''v''], Rows = [[(''k'', VInt 1), (''v'', VNil)]]\<rparr>"
  by code_simp

end
