(* ===== verification/Data_Quality.thy ===== *)
theory Data_Quality
  imports Data_Transform
begin

text \<open>
  Quality checks (\<^verbatim>\<open>src/quality/rules.go\<close>, \<^verbatim>\<open>src/quality/checker.go\<close> and \<^verbatim>\<open>runQualityCheck\<close> of
  \<^verbatim>\<open>src/engine/node_handlers.go\<close>) and the assertions of a pipeline test (\<^verbatim>\<open>src/engine/assertions.go\<close>). Regular
  expressions, the parsing of floats, times and mail addresses and the text of a float are the record \<open>q_ops\<close>;
  messages are constructors with the values they print.
\<close>

section \<open>Checks\<close>

record Check =
  qColumn :: string
  qRule :: string
  qParams :: gomap
  OnFailure :: string

datatype q_msg =
    NullValues nat | DuplicateValues nat | BelowMin nat f64 | AboveMax nat f64 | RangeNeedsBound | OutsideRange nat f64 f64
  | NeedsPattern | InvalidRegex | NoMatch nat string | RowCountIs nat | RowCountBelow nat int | RowCountAbove nat int
  | TypeValid string nat nat | FreshnessIs f64 nat "int option" | NonBlank nat nat | UnknownRule string

record CheckResult =
  crCheck :: Check
  crPassed :: bool
  crMessage :: q_msg
  crValue :: "nat option"

text \<open>
  \<open>qParseTime layout s\<close> is \<^verbatim>\<open>time.Parse\<close>, \<open>qHours now t\<close> is \<^verbatim>\<open>now.Sub(t).Hours()\<close>, \<open>qToInt\<close> the conversion
  of a float to \<^verbatim>\<open>int\<close> and \<open>qCompile\<close> is \<^verbatim>\<open>regexp.Compile\<close>, with the matcher it returns.
\<close>

record q_ops =
  qParseFloat :: "string \<Rightarrow> f64 option"
  qFloat :: "int \<Rightarrow> f64"
  qToInt :: "f64 \<Rightarrow> int"
  qShort :: "f64 \<Rightarrow> string"
  qCompile :: "string \<Rightarrow> (string \<Rightarrow> bool) option"
  qParseTime :: "string \<Rightarrow> string \<Rightarrow> int option"
  qParseAddress :: "string \<Rightarrow> bool"
  qHours :: "int \<Rightarrow> int \<Rightarrow> f64"
  qZeroTime :: int

definition toFloat :: "q_ops \<Rightarrow> goval \<Rightarrow> f64 option" where
  "toFloat q v =
     (case v of
        VFloat f \<Rightarrow> Some f
      | VInt i \<Rightarrow> Some (qFloat q i)
      | VInt64 i \<Rightarrow> Some (qFloat q i)
      | VStr s \<Rightarrow> qParseFloat q s
      | _ \<Rightarrow> None)"

definition getParamFloat :: "q_ops \<Rightarrow> gomap \<Rightarrow> string \<Rightarrow> f64 \<Rightarrow> f64" where
  "getParamFloat q params key d =
     (case map_of params key of
        None \<Rightarrow> d
      | Some v \<Rightarrow> (case toFloat q v of Some f \<Rightarrow> f | None \<Rightarrow> d))"

definition counted :: "Check \<Rightarrow> nat \<Rightarrow> q_msg \<Rightarrow> CheckResult" where
  "counted check n msg = \<lparr>crCheck = check, crPassed = (n = 0), crMessage = msg, crValue = Some n\<rparr>"

definition refused :: "Check \<Rightarrow> q_msg \<Rightarrow> CheckResult" where
  "refused check msg = \<lparr>crCheck = check, crPassed = False, crMessage = msg, crValue = None\<rparr>"

text \<open>The counting loop over rows.\<close>

definition count_rows :: "(DataRow \<Rightarrow> bool) \<Rightarrow> DataSet \<Rightarrow> nat" where
  "count_rows bad ds = fold (\<lambda>row n. if bad row then Suc n else n) (Rows ds) 0"

definition checkNotNull :: "Check \<Rightarrow> DataSet \<Rightarrow> CheckResult" where
  "checkNotNull check ds =
     (let nullCount = count_rows (\<lambda>row. case map_of row (qColumn check) of None \<Rightarrow> True | Some v \<Rightarrow> v = VNil \<or> v = VStr []) ds
      in counted check nullCount (NullValues nullCount))"

definition tally :: "string list \<Rightarrow> (string \<times> nat) list" where
  "tally vs = fold (\<lambda>v seen. mput v (case map_of seen v of None \<Rightarrow> 1 | Some n \<Rightarrow> Suc n) seen) vs []"

definition extra_of :: "(string \<times> nat) list \<Rightarrow> nat" where
  "extra_of seen = sum_list (map (\<lambda>(_, count). if 1 < count then count - 1 else 0) seen)"

definition checkUnique :: "q_ops \<Rightarrow> Check \<Rightarrow> DataSet \<Rightarrow> CheckResult" where
  "checkUnique q check ds =
     (let dupes = extra_of (tally (map (\<lambda>row. sprint_v (qShort q) (mget row (qColumn check))) (Rows ds)))
      in counted check dupes (DuplicateValues dupes))"

definition checkMin :: "q_ops \<Rightarrow> Check \<Rightarrow> DataSet \<Rightarrow> CheckResult" where
  "checkMin q check ds =
     (let minVal = getParamFloat q (qParams check) ''min'' (Fin 0);
          violations = count_rows (\<lambda>row. case toFloat q (mget row (qColumn check)) of Some f \<Rightarrow> f_less f minVal | None \<Rightarrow> False) ds
      in counted check violations (BelowMin violations minVal))"

definition checkMax :: "q_ops \<Rightarrow> Check \<Rightarrow> DataSet \<Rightarrow> CheckResult" where
  "checkMax q check ds =
     (let maxVal = getParamFloat q (qParams check) ''max'' (Fin 0);
          violations = count_rows (\<lambda>row. case toFloat q (mget row (qColumn check)) of Some f \<Rightarrow> f_less maxVal f | None \<Rightarrow> False) ds
      in counted check violations (AboveMax violations maxVal))"

definition checkRange :: "q_ops \<Rightarrow> Check \<Rightarrow> DataSet \<Rightarrow> CheckResult" where
  "checkRange q check ds =
     (if map_of (qParams check) ''min'' = None \<and> map_of (qParams check) ''max'' = None then refused check RangeNeedsBound
      else
        let minVal = getParamFloat q (qParams check) ''min'' NegInf;
            maxVal = getParamFloat q (qParams check) ''max'' PosInf;
            violations = count_rows (\<lambda>row. case toFloat q (mget row (qColumn check)) of
              Some f \<Rightarrow> f_less f minVal \<or> f_less maxVal f | None \<Rightarrow> False) ds
        in counted check violations (OutsideRange violations minVal maxVal))"

definition checkRegex :: "q_ops \<Rightarrow> Check \<Rightarrow> DataSet \<Rightarrow> CheckResult" where
  "checkRegex q check ds =
     (let pattern = mget_str (qParams check) ''pattern'' in
      if pattern = [] then refused check NeedsPattern
      else case qCompile q pattern of
        None \<Rightarrow> refused check InvalidRegex
      | Some match \<Rightarrow>
          let violations = count_rows (\<lambda>row. \<not> match (sprint_v (qShort q) (mget row (qColumn check)))) ds
          in counted check violations (NoMatch violations pattern))"

definition checkRowCount :: "q_ops \<Rightarrow> Check \<Rightarrow> DataSet \<Rightarrow> CheckResult" where
  "checkRowCount q check ds =
     (let count = length (Rows ds);
          minRows = qToInt q (getParamFloat q (qParams check) ''min'' (Fin 0));
          maxRows = qToInt q (getParamFloat q (qParams check) ''max'' (Fin 0));
          below = minRows > 0 \<and> int count < minRows;
          above = maxRows > 0 \<and> int count > maxRows
      in \<lparr>crCheck = check, crPassed = (\<not> below \<and> \<not> above),
          crMessage = (if above then RowCountAbove count maxRows else if below then RowCountBelow count minRows else RowCountIs count),
          crValue = Some count\<rparr>)"

definition valid_as :: "q_ops \<Rightarrow> string \<Rightarrow> string \<Rightarrow> bool" where
  "valid_as q t s =
     (if t \<in> {''int'', ''integer''} then parse_int64 s \<noteq> None
      else if t \<in> {''float'', ''number''} then qParseFloat q s \<noteq> None
      else if t = ''date'' then
        list_ex (\<lambda>layout. qParseTime q layout s \<noteq> None)
          [''2006-01-02T15:04:05Z07:00'', ''2006-01-02'', ''2006-01-02T15:04:05'', ''01/02/2006'', ''02-Jan-2006'']
      else if t = ''email'' then qParseAddress q s
      else True)"

definition checkTypeCheck :: "q_ops \<Rightarrow> Check \<Rightarrow> DataSet \<Rightarrow> CheckResult" where
  "checkTypeCheck q check ds =
     (let given = mget_str (qParams check) ''expected_type'';
          expectedType = (if given = [] then ''int'' else given);
          violations = count_rows (\<lambda>row. let v = mget row (qColumn check); s = sprint_v (qShort q) v in
            v \<noteq> VNil \<and> s \<noteq> [] \<and> \<not> valid_as q expectedType s) ds
      in counted check violations (TypeValid expectedType (length (Rows ds) - violations) (length (Rows ds))))"

definition parse_stamp :: "q_ops \<Rightarrow> string \<Rightarrow> int option" where
  "parse_stamp q s =
     (case find (\<lambda>layout. qParseTime q layout s \<noteq> None)
        [''2006-01-02T15:04:05Z07:00'', ''2006-01-02T15:04:05'', ''2006-01-02'', ''2006-01-02 15:04:05''] of
        None \<Rightarrow> None
      | Some layout \<Rightarrow> qParseTime q layout s)"

definition stamp_of :: "q_ops \<Rightarrow> string \<Rightarrow> DataRow \<Rightarrow> int option" where
  "stamp_of q col row =
     (let v = mget row col in if v = VNil then None else parse_stamp q (sprint_v (qShort q) v))"

definition max_hours :: "q_ops \<Rightarrow> gomap \<Rightarrow> f64" where
  "max_hours q params =
     (case qParseFloat q (mget_str params ''max_hours'') of
        Some h \<Rightarrow> if f_less (Fin 0) h then h else Fin 24
      | None \<Rightarrow> Fin 24)"

definition latest_stamp :: "q_ops \<Rightarrow> string \<Rightarrow> DataSet \<Rightarrow> int option" where
  "latest_stamp q col ds =
     (let latest = fold (\<lambda>row latest. case stamp_of q col row of
            None \<Rightarrow> latest | Some t \<Rightarrow> if t > latest then t else latest) (Rows ds) (qZeroTime q)
      in if latest = qZeroTime q then None else Some latest)"

definition checkFreshness :: "q_ops \<Rightarrow> int \<Rightarrow> Check \<Rightarrow> DataSet \<Rightarrow> CheckResult" where
  "checkFreshness q now check ds =
     (let maxHours = max_hours q (qParams check);
          staleCount = count_rows (\<lambda>row. case stamp_of q (qColumn check) row of
            None \<Rightarrow> False | Some t \<Rightarrow> f_less maxHours (qHours q now t)) ds
      in counted check staleCount (FreshnessIs maxHours staleCount (latest_stamp q (qColumn check) ds)))"

definition checkNoBlank :: "q_ops \<Rightarrow> Check \<Rightarrow> DataSet \<Rightarrow> CheckResult" where
  "checkNoBlank q check ds =
     (let blankCount = count_rows (\<lambda>row. let v = mget row (qColumn check) in
            v = VNil \<or> trim_space (sprint_v (qShort q) v) = []) ds
      in counted check blankCount (NonBlank (length (Rows ds) - blankCount) (length (Rows ds))))"

definition RunCheck :: "q_ops \<Rightarrow> int \<Rightarrow> Check \<Rightarrow> DataSet \<Rightarrow> CheckResult" where
  "RunCheck q now check ds =
     (let r = qRule check in
      if r = ''not_null'' then checkNotNull check ds
      else if r = ''unique'' then checkUnique q check ds
      else if r = ''min'' then checkMin q check ds
      else if r = ''max'' then checkMax q check ds
      else if r = ''range'' then checkRange q check ds
      else if r = ''regex'' then checkRegex q check ds
      else if r = ''row_count'' then checkRowCount q check ds
      else if r = ''type_check'' then checkTypeCheck q check ds
      else if r = ''freshness'' then checkFreshness q now check ds
      else if r = ''no_blank'' then checkNoBlank q check ds
      else refused check (UnknownRule r))"

section \<open>The checker\<close>

record Result =
  rsPassed :: bool
  rsResults :: "CheckResult list"
  rsFailed :: nat

definition run_one :: "q_ops \<Rightarrow> int \<Rightarrow> DataSet \<Rightarrow> Check \<Rightarrow> Result \<Rightarrow> Result" where
  "run_one q now ds check res =
     (let cr = RunCheck q now check ds
      in if crPassed cr then res\<lparr>rsResults := rsResults res @ [cr]\<rparr>
         else res\<lparr>rsPassed := False, rsResults := rsResults res @ [cr], rsFailed := Suc (rsFailed res)\<rparr>)"

definition Run :: "q_ops \<Rightarrow> int \<Rightarrow> Check list \<Rightarrow> DataSet option \<Rightarrow> Result option" where
  "Run q now checks dataset =
     (case dataset of
        None \<Rightarrow> None
      | Some ds \<Rightarrow> Some (fold (run_one q now ds) checks \<lparr>rsPassed = True, rsResults = [], rsFailed = 0\<rparr>))"

definition ShouldBlock :: "Result \<Rightarrow> bool" where
  "ShouldBlock r \<longleftrightarrow> list_ex (\<lambda>cr. \<not> crPassed cr \<and> OnFailure (crCheck cr) = ''block'') (rsResults r)"

text \<open>\<open>decode\<close> is the JSON decoding of the configured list of checks.\<close>

datatype gate_error = GateNoInput | GateBadChecks | QualityFailed nat nat nat

definition default_failure :: "gomap \<Rightarrow> Check \<Rightarrow> Check" where
  "default_failure config check =
     (let d = mget_str config ''on_failure''
      in if OnFailure check = [] then check\<lparr>OnFailure := (if d = [] then ''warn'' else d)\<rparr> else check)"

definition runQualityCheck :: "q_ops \<Rightarrow> int \<Rightarrow> (goval \<Rightarrow> Check list option) \<Rightarrow> gomap \<Rightarrow> DataSet option \<Rightarrow> gate_error + DataSet" where
  "runQualityCheck q now decode config input =
     (case input of
        None \<Rightarrow> Inl GateNoInput
      | Some ds \<Rightarrow>
          let raw = (if mget config ''rules'' = VNil then mget config ''checks'' else mget config ''rules'') in
          (case decode raw of
             None \<Rightarrow> Inl GateBadChecks
           | Some checks \<Rightarrow>
               (case Run q now (map (default_failure config) checks) (Some ds) of
                  None \<Rightarrow> Inl GateNoInput
                | Some res \<Rightarrow>
                    if ShouldBlock res then Inl (QualityFailed (rsFailed res) (length (rsResults res)) (length (Rows ds)))
                    else Inr ds)))"

section \<open>What a passed check means\<close>

text \<open>The meaning of each rule, on the rows and without counting.\<close>

definition number_ok :: "q_ops \<Rightarrow> string \<Rightarrow> (f64 \<Rightarrow> bool) \<Rightarrow> DataRow \<Rightarrow> bool" where
  "number_ok q col good row \<longleftrightarrow> (\<forall>f. toFloat q (mget row col) = Some f \<longrightarrow> good f)"

definition meets :: "q_ops \<Rightarrow> int \<Rightarrow> Check \<Rightarrow> DataSet \<Rightarrow> bool" where
  "meets q now check ds \<longleftrightarrow>
     (let col = qColumn check; cell = (\<lambda>row. mget row col); txt_of = (\<lambda>row. sprint_v (qShort q) (mget row col));
          param = getParamFloat q (qParams check); rows = Rows ds; r = qRule check;
          rowsMin = qToInt q (param ''min'' (Fin 0)); rowsMax = qToInt q (param ''max'' (Fin 0));
          pattern = mget_str (qParams check) ''pattern''; given = mget_str (qParams check) ''expected_type''
      in if r = ''not_null'' then \<forall>row \<in> set rows. cell row \<noteq> VNil \<and> cell row \<noteq> VStr []
         else if r = ''unique'' then distinct (map txt_of rows)
         else if r = ''min'' then \<forall>row \<in> set rows. number_ok q col (\<lambda>f. \<not> f_less f (param ''min'' (Fin 0))) row
         else if r = ''max'' then \<forall>row \<in> set rows. number_ok q col (\<lambda>f. \<not> f_less (param ''max'' (Fin 0)) f) row
         else if r = ''range'' then
           (map_of (qParams check) ''min'' \<noteq> None \<or> map_of (qParams check) ''max'' \<noteq> None) \<and>
           (\<forall>row \<in> set rows. number_ok q col (\<lambda>f. \<not> f_less f (param ''min'' NegInf) \<and> \<not> f_less (param ''max'' PosInf) f) row)
         else if r = ''regex'' then \<exists>match. pattern \<noteq> [] \<and> qCompile q pattern = Some match \<and> (\<forall>row \<in> set rows. match (txt_of row))
         else if r = ''row_count'' then
           (rowsMin > 0 \<longrightarrow> rowsMin \<le> int (length rows)) \<and> (rowsMax > 0 \<longrightarrow> int (length rows) \<le> rowsMax)
         else if r = ''type_check'' then
           \<forall>row \<in> set rows. cell row = VNil \<or> txt_of row = [] \<or> valid_as q (if given = [] then ''int'' else given) (txt_of row)
         else if r = ''freshness'' then
           \<forall>row \<in> set rows. \<forall>t. stamp_of q col row = Some t \<longrightarrow> \<not> f_less (max_hours q (qParams check)) (qHours q now t)
         else if r = ''no_blank'' then \<forall>row \<in> set rows. cell row \<noteq> VNil \<and> trim_space (txt_of row) \<noteq> []
         else False)"

lemma count_rows_filter: "count_rows bad ds = length (filter bad (Rows ds))"
proof -
  have "fold (\<lambda>row n. if bad row then Suc n else n) rows n = n + length (filter bad rows)" for rows n
    by (induction rows arbitrary: n) simp_all
  then show ?thesis by (simp add: count_rows_def)
qed

lemma count_rows_zero: "count_rows bad ds = 0 \<longleftrightarrow> (\<forall>row \<in> set (Rows ds). \<not> bad row)"
  by (simp add: count_rows_filter filter_empty_conv)

text \<open>The duplicates counted from the table of counts: all values but one of each.\<close>

lemma tally_counts: "wf_map (tally vs) \<and> map_of (tally vs) = (\<lambda>v. if v \<in> set vs then Some (count_list vs v) else None)"
proof -
  have "wf_map (fold (\<lambda>v seen. mput v (case map_of seen v of None \<Rightarrow> 1 | Some n \<Rightarrow> Suc n) seen) ws seen) \<and>
      map_of (fold (\<lambda>v seen. mput v (case map_of seen v of None \<Rightarrow> 1 | Some n \<Rightarrow> Suc n) seen) ws seen) =
        (\<lambda>v. if v \<in> set (vs @ ws) then Some (count_list (vs @ ws) v) else None)"
    if "wf_map seen" "map_of seen = (\<lambda>v. if v \<in> set vs then Some (count_list vs v) else None)" for ws vs seen
    using that
  proof (induction ws arbitrary: vs seen)
    case (Cons w ws)
    let ?seen = "mput w (case map_of seen w of None \<Rightarrow> 1 | Some n \<Rightarrow> Suc n) seen"
    have "map_of ?seen = (\<lambda>v. if v \<in> set (vs @ [w]) then Some (count_list (vs @ [w]) v) else None)"
      using Cons.prems(2) by (auto simp: fun_eq_iff count_list_0_iff)
    from Cons.IH[OF wf_map_mput[OF Cons.prems(1)] this] show ?case
      unfolding append_assoc append_Cons append_Nil fold_Cons comp_apply .
  qed (simp cong: if_cong)
  from this[of "[]" "[]" vs] show ?thesis by (simp add: tally_def cong: if_cong)
qed

lemma extra_of_zero: "extra_of (tally vs) = 0 \<longleftrightarrow> distinct vs"
proof -
  have one: "(case p of (_, n) \<Rightarrow> if 1 < n then n - 1 else 0) = 0 \<longleftrightarrow> snd p \<le> 1" for p :: "string \<times> nat"
    by (cases p) auto
  have "extra_of (tally vs) = 0 \<longleftrightarrow> (\<forall>(v, n) \<in> set (tally vs). n \<le> 1)"
    unfolding extra_of_def sum_list_eq_0_iff set_map ball_simps one by (simp add: case_prod_beta)
  also have "\<dots> \<longleftrightarrow> (\<forall>v n. map_of (tally vs) v = Some n \<longrightarrow> n \<le> 1)"
    unfolding map_of_eq_Some_iff[OF conjunct1[OF tally_counts]] by blast
  also have "\<dots> \<longleftrightarrow> (\<forall>v \<in> set vs. count_list vs v \<le> 1)"
    unfolding conjunct2[OF tally_counts[of vs]] by auto
  also have "\<dots> \<longleftrightarrow> distinct vs"
    by (induction vs) (auto simp: count_list_0_iff)
  finally show ?thesis .
qed

lemma not_null_cell:
  "(case map_of row c of None \<Rightarrow> True | Some v \<Rightarrow> v = VNil \<or> v = VStr []) \<longleftrightarrow> mget row c = VNil \<or> mget row c = VStr []"
  by (simp add: mget_def split: option.split)

lemma number_bad: "(case toFloat q (mget row c) of Some f \<Rightarrow> bad f | None \<Rightarrow> False) \<longleftrightarrow> \<not> number_ok q c (\<lambda>f. \<not> bad f) row"
  by (simp add: number_ok_def split: option.split)

lemma stale_row: "(case stamp_of q c row of None \<Rightarrow> False | Some t \<Rightarrow> bad t) \<longleftrightarrow> (\<exists>t. stamp_of q c row = Some t \<and> bad t)"
  by (simp split: option.split)

lemmas check_defs = checkNotNull_def checkUnique_def checkMin_def checkMax_def checkRange_def checkTypeCheck_def
  checkFreshness_def checkNoBlank_def counted_def refused_def Let_def

lemma RunCheck_passes: "crPassed (RunCheck q now check ds) \<longleftrightarrow> meets q now check ds"
proof -
  consider "qRule check = ''not_null''" | "qRule check = ''unique''" | "qRule check = ''min''" | "qRule check = ''max''"
    | "qRule check = ''range''" | "qRule check = ''regex''" | "qRule check = ''row_count''" | "qRule check = ''type_check''"
    | "qRule check = ''freshness''" | "qRule check = ''no_blank''"
    | "qRule check \<notin> {''not_null'', ''unique'', ''min'', ''max'', ''range'', ''regex'', ''row_count'', ''type_check'', ''freshness'', ''no_blank''}"
    by blast
  then show ?thesis
  proof cases
    case 6
    then show ?thesis
      by (simp add: RunCheck_def meets_def checkRegex_def counted_def refused_def Let_def count_rows_zero split: option.split)
  next
    case 7
    then show ?thesis by (auto simp: RunCheck_def meets_def checkRowCount_def Let_def)
  qed (simp_all add: RunCheck_def meets_def check_defs count_rows_zero not_null_cell number_bad stale_row extra_of_zero)
qed

lemma crCheck_RunCheck [simp]: "crCheck (RunCheck q now check ds) = check"
  by (simp add: RunCheck_def check_defs checkRegex_def checkRowCount_def split: option.split)

lemma Run_results:
  "\<exists>res. Run q now checks (Some ds) = Some res \<and> rsResults res = map (\<lambda>c. RunCheck q now c ds) checks \<and>
     rsFailed res = length (filter (\<lambda>c. \<not> meets q now c ds) checks) \<and> rsPassed res = (\<forall>c \<in> set checks. meets q now c ds)"
proof -
  have "rsResults (fold (run_one q now ds) checks res) = rsResults res @ map (\<lambda>c. RunCheck q now c ds) checks \<and>
      rsFailed (fold (run_one q now ds) checks res) = rsFailed res + length (filter (\<lambda>c. \<not> meets q now c ds) checks) \<and>
      rsPassed (fold (run_one q now ds) checks res) = (rsPassed res \<and> (\<forall>c \<in> set checks. meets q now c ds))" for res
    by (induction checks arbitrary: res) (simp_all add: run_one_def Let_def RunCheck_passes)
  then show ?thesis by (simp add: Run_def)
qed

text \<open>
  C23. The quality gate lets data through exactly when it is good: a quality node hands its input on unchanged when every
  check that is to block holds of the rows, by the meaning of its rule, and otherwise fails the node with the number of
  checks that do not hold; a check without a policy takes the one of the node, and without that only warns.
\<close>

theorem quality_gate_exact:
  assumes "decode (if mget config ''rules'' = VNil then mget config ''checks'' else mget config ''rules'') = Some checks"
  shows "runQualityCheck q now decode config (Some ds) =
    (if \<forall>c \<in> set checks. OnFailure (default_failure config c) = ''block'' \<longrightarrow> meets q now c ds then Inr ds
     else Inl (QualityFailed (length (filter (\<lambda>c. \<not> meets q now c ds) checks)) (length checks) (length (Rows ds))))"
proof -
  have same: "meets q now (default_failure config c) ds = meets q now c ds" for c
    by (simp add: meets_def default_failure_def Let_def)
  obtain res where res: "Run q now (map (default_failure config) checks) (Some ds) = Some res"
      "rsResults res = map (\<lambda>c. RunCheck q now (default_failure config c) ds) checks"
      "rsFailed res = length (filter (\<lambda>c. \<not> meets q now c ds) checks)"
    using Run_results[of q now "map (default_failure config) checks" ds] by (auto simp: filter_map comp_def same)
  have "ShouldBlock res \<longleftrightarrow> (\<exists>c \<in> set checks. OnFailure (default_failure config c) = ''block'' \<and> \<not> meets q now c ds)"
    by (auto simp: ShouldBlock_def res(2) list_ex_iff RunCheck_passes same)
  then show ?thesis using assms res by (auto simp: runQualityCheck_def Let_def)
qed

definition demo_check :: Check where
  "demo_check = \<lparr>qColumn = ''a'', qRule = ''unique'', qParams = [], OnFailure = []\<rparr>"

definition demo_q :: q_ops where
  "demo_q = \<lparr>qParseFloat = (\<lambda>_. None), qFloat = (\<lambda>i. Fin (of_int i)), qToInt = f_trunc, qShort = (\<lambda>_. ''0''), qCompile = (\<lambda>_. None),
     qParseTime = (\<lambda>_ _. None), qParseAddress = (\<lambda>_. False), qHours = (\<lambda>_ _. Fin 0), qZeroTime = 0\<rparr>"

theorem quality_gate_exact_witness:
  "runQualityCheck demo_q 0 (\<lambda>_. Some [demo_check]) [(''on_failure'', VStr ''block'')]
     (Some \<lparr>Columns = [''a''], Rows = [[(''a'', VInt 1)], [(''a'', VStr ''1'')]]\<rparr>) = Inl (QualityFailed 1 1 2)"
proof -
  let ?ds = "\<lparr>Columns = [''a''], Rows = [[(''a'', VInt 1)], [(''a'', VStr ''1'')]]\<rparr>" and ?cfg = "[(''on_failure'', VStr ''block'')]"
  have "\<not> meets demo_q 0 demo_check ?ds"
    unfolding RunCheck_passes[symmetric] by code_simp
  moreover have "OnFailure (default_failure ?cfg demo_check) = ''block''" by code_simp
  ultimately show ?thesis using quality_gate_exact[of "\<lambda>_. Some [demo_check]" ?cfg "[demo_check]" demo_q 0 ?ds] by simp
qed

text \<open>A number for \<^verbatim>\<open>max_hours\<close> is not read: the window is 24 hours.\<close>

lemma max_hours_number_ignored: "qParseFloat q [] = None \<Longrightarrow> max_hours q [(''max_hours'', VFloat (Fin 48))] = Fin 24"
  by (simp add: max_hours_def mget_str_def mget_def)

section \<open>Assertions\<close>

record Assertion =
  aName :: string
  aNodeID :: string
  aType :: string
  asColumn :: string
  aOperator :: string
  aValue :: string

datatype as_msg =
    NoOutput | UnknownAssertion string | InvalidValue string | UnknownOperator string | RowCountPassed | RowCountFailed int int
  | ColumnFound | ColumnMissing string | NullsFound nat | TypeMismatches nat | DuplicatesFound nat

record AssertionResult =
  arName :: string
  arPassed :: bool
  arMessage :: as_msg

definition as_result :: "Assertion \<Rightarrow> bool \<Rightarrow> as_msg \<Rightarrow> AssertionResult" where
  "as_result a passed msg = \<lparr>arName = aName a, arPassed = passed, arMessage = msg\<rparr>"

definition row_compare :: "string \<Rightarrow> int \<Rightarrow> int \<Rightarrow> bool option" where
  "row_compare op actual expected =
     (if op = ''=='' then Some (actual = expected) else if op = ''!='' then Some (actual \<noteq> expected)
      else if op = ''>'' then Some (actual > expected) else if op = ''>='' then Some (actual \<ge> expected)
      else if op = ''<'' then Some (actual < expected) else if op = ''<='' then Some (actual \<le> expected) else None)"

definition assertRowCount :: "Assertion \<Rightarrow> DataSet \<Rightarrow> AssertionResult" where
  "assertRowCount a ds =
     (case parse_int64 (aValue a) of
        None \<Rightarrow> as_result a False (InvalidValue (aValue a))
      | Some expected \<Rightarrow>
          let actual = int (length (Rows ds)) in
          (case row_compare (aOperator a) actual expected of
             None \<Rightarrow> as_result a False (UnknownOperator (aOperator a))
           | Some passed \<Rightarrow> as_result a passed (if passed then RowCountPassed else RowCountFailed expected actual)))"

definition assert_bound :: "(int \<Rightarrow> int \<Rightarrow> bool) \<Rightarrow> Assertion \<Rightarrow> DataSet \<Rightarrow> AssertionResult" where
  "assert_bound good a ds =
     (case parse_int64 (aValue a) of
        None \<Rightarrow> as_result a False (InvalidValue (aValue a))
      | Some bound \<Rightarrow>
          let actual = int (length (Rows ds)); passed = good actual bound
          in as_result a passed (if passed then RowCountPassed else RowCountFailed bound actual))"

definition assertMinRows :: "Assertion \<Rightarrow> DataSet \<Rightarrow> AssertionResult" where
  "assertMinRows = assert_bound (\<lambda>actual min. actual \<ge> min)"

definition assertMaxRows :: "Assertion \<Rightarrow> DataSet \<Rightarrow> AssertionResult" where
  "assertMaxRows = assert_bound (\<lambda>actual max. actual \<le> max)"

definition assertColumnExists :: "Assertion \<Rightarrow> DataSet \<Rightarrow> AssertionResult" where
  "assertColumnExists a ds =
     (if asColumn a \<in> set (Columns ds) then as_result a True ColumnFound else as_result a False (ColumnMissing (asColumn a)))"

definition assertNoNulls :: "Assertion \<Rightarrow> DataSet \<Rightarrow> AssertionResult" where
  "assertNoNulls a ds =
     (if asColumn a \<notin> set (Columns ds) then as_result a False (ColumnMissing (asColumn a))
      else let nullCount = count_rows (\<lambda>row. mget row (asColumn a) = VNil) ds
           in as_result a (nullCount = 0) (NullsFound nullCount))"

definition matchesType :: "q_ops \<Rightarrow> goval \<Rightarrow> string \<Rightarrow> bool" where
  "matchesType q v expectedType =
     (if expectedType = ''number'' then
        (case v of VInt _ \<Rightarrow> True | VInt64 _ \<Rightarrow> True | VUint64 _ \<Rightarrow> True | VFloat _ \<Rightarrow> True | VStr s \<Rightarrow> qParseFloat q s \<noteq> None | _ \<Rightarrow> False)
      else if expectedType = ''string'' then (case v of VStr _ \<Rightarrow> True | _ \<Rightarrow> False)
      else if expectedType = ''boolean'' then (case v of VBool _ \<Rightarrow> True | _ \<Rightarrow> False)
      else False)"

definition assertColumnType :: "q_ops \<Rightarrow> Assertion \<Rightarrow> DataSet \<Rightarrow> AssertionResult" where
  "assertColumnType q a ds =
     (if asColumn a \<notin> set (Columns ds) then as_result a False (ColumnMissing (asColumn a))
      else let mismatch = count_rows (\<lambda>row. mget row (asColumn a) \<noteq> VNil \<and> \<not> matchesType q (mget row (asColumn a)) (aValue a)) ds
           in as_result a (mismatch = 0) (TypeMismatches mismatch))"

definition dupe_step :: "q_ops \<Rightarrow> string \<Rightarrow> DataRow \<Rightarrow> string list \<times> nat \<Rightarrow> string list \<times> nat" where
  "dupe_step q col row = (\<lambda>(seen, dupes).
     let v = mget row col; key = sprint_v (qShort q) v
     in if v = VNil then (seen, dupes) else (key # seen, if key \<in> set seen then Suc dupes else dupes))"

definition assertUnique :: "q_ops \<Rightarrow> Assertion \<Rightarrow> DataSet \<Rightarrow> AssertionResult" where
  "assertUnique q a ds =
     (if asColumn a \<notin> set (Columns ds) then as_result a False (ColumnMissing (asColumn a))
      else let dupes = snd (fold (dupe_step q (asColumn a)) (Rows ds) ([], 0))
           in as_result a (dupes = 0) (DuplicatesFound dupes))"

text \<open>\<open>outputs\<close> is a map in one iteration order; without a node the loop ends on the last entry of that order.\<close>

definition assertion_data :: "Assertion \<Rightarrow> (string \<times> DataSet option) list \<Rightarrow> DataSet option" where
  "assertion_data a outputs =
     (if aNodeID a \<noteq> [] then (case map_of outputs (aNodeID a) of None \<Rightarrow> None | Some ds \<Rightarrow> ds)
      else fold (\<lambda>(_, ds) _. ds) outputs None)"

definition evaluateAssertion :: "q_ops \<Rightarrow> Assertion \<Rightarrow> (string \<times> DataSet option) list \<Rightarrow> AssertionResult" where
  "evaluateAssertion q a outputs =
     (case assertion_data a outputs of
        None \<Rightarrow> as_result a False NoOutput
      | Some ds \<Rightarrow>
          let t = aType a in
          if t = ''row_count'' then assertRowCount a ds
          else if t = ''min_rows'' then assertMinRows a ds
          else if t = ''max_rows'' then assertMaxRows a ds
          else if t = ''column_exists'' then assertColumnExists a ds
          else if t = ''no_nulls'' then assertNoNulls a ds
          else if t = ''column_type'' then assertColumnType q a ds
          else if t = ''unique'' then assertUnique q a ds
          else as_result a False (UnknownAssertion t))"

definition RunAssertions :: "q_ops \<Rightarrow> Assertion list \<Rightarrow> (string \<times> DataSet option) list \<Rightarrow> AssertionResult list" where
  "RunAssertions q suite outputs = map (\<lambda>a. evaluateAssertion q a outputs) suite"

text \<open>The loop with a set of seen values finds no duplicate exactly when the values that are not null differ.\<close>

lemma dupe_fold:
  "snd (fold (dupe_step q col) rows (seen, d)) = d \<longleftrightarrow>
     distinct (map (\<lambda>row. sprint_v (qShort q) (mget row col)) (filter (\<lambda>row. mget row col \<noteq> VNil) rows)) \<and>
     set seen \<inter> set (map (\<lambda>row. sprint_v (qShort q) (mget row col)) (filter (\<lambda>row. mget row col \<noteq> VNil) rows)) = {}"
proof (induction rows arbitrary: seen d)
  case (Cons row rows)
  let ?key = "sprint_v (qShort q) (mget row col)"
  have more: "d' \<le> snd (fold (dupe_step q col) rows (s', d'))" for s' d'
    by (induction rows arbitrary: s' d') (auto simp: dupe_step_def Let_def intro: Suc_leD)
  show ?case
  proof (cases "mget row col = VNil")
    case True
    then have "dupe_step q col row (seen, d) = (seen, d)" by (simp add: dupe_step_def)
    then show ?thesis using Cons[of seen d] True by simp
  next
    case nn: False
    show ?thesis
    proof (cases "?key \<in> set seen")
      case True
      then have "snd (fold (dupe_step q col) (row # rows) (seen, d)) \<noteq> d"
        using more[of "Suc d" "?key # seen"] nn by (simp add: dupe_step_def Let_def)
      then show ?thesis using True nn by auto
    next
      case False
      then have "dupe_step q col row (seen, d) = (?key # seen, d)" using nn by (simp add: dupe_step_def Let_def)
      then show ?thesis using Cons[of "?key # seen" d] nn False by auto
    qed
  qed
qed simp

lemma assertUnique_passes:
  "arPassed (assertUnique q a ds) \<longleftrightarrow> asColumn a \<in> set (Columns ds) \<and>
     distinct (map (\<lambda>row. sprint_v (qShort q) (mget row (asColumn a))) (filter (\<lambda>row. mget row (asColumn a) \<noteq> VNil) (Rows ds)))"
  using dupe_fold[of q "asColumn a" "Rows ds" "[]" 0] by (simp add: assertUnique_def as_result_def Let_def)

text \<open>The two notions of uniqueness agree on a column without nulls; the quality check counts nulls as equal values.\<close>

lemma unique_agree:
  assumes "asColumn a = qColumn c" "qRule c = ''unique''" "asColumn a \<in> set (Columns ds)" "\<forall>row \<in> set (Rows ds). mget row (asColumn a) \<noteq> VNil"
  shows "arPassed (assertUnique q a ds) \<longleftrightarrow> crPassed (RunCheck q now c ds)"
proof -
  have "filter (\<lambda>row. mget row (asColumn a) \<noteq> VNil) (Rows ds) = Rows ds" using assms(4) by (simp add: filter_id_conv)
  then show ?thesis using assms(1-3) unfolding assertUnique_passes RunCheck_passes by (simp add: meets_def)
qed

end
