(* ===== verification/Data_Stream.thy ===== *)
theory Data_Stream
  imports Data_Transform
begin

text \<open>
  Transforms over a dataset that is too large to hold: \<^verbatim>\<open>planTransformRules\<close> of \<^verbatim>\<open>src/engine/stream_agg.go\<close> and
  \<^verbatim>\<open>streamTransformToRef\<close> of \<^verbatim>\<open>src/engine/stream_exec.go\<close>, which runs the first rules batch by batch, folds the
  batches into an aggregation and runs the other rules on its result. The storage of the output is left out: the
  result is the dataset that the written batches make. A batch has at least one row, and its column slice is the one of
  the reference it is read from (a reference that names its columns: an empty list is filled in by the reader). A rename
  therefore writes through to the next batches and to the reference. That slice is threaded through the loop;
  \<open>room\<close> is its spare capacity, which decides whether appending a column copies it.
\<close>

section \<open>The plan\<close>

record transformStreamPlan =
  prefix :: "XRule list"
  agg :: "XRule option"
  suffix :: "XRule list"

definition streams :: "XRule \<Rightarrow> bool" where
  "streams r \<longleftrightarrow>
     rType r \<in> {''rename_columns'', ''rename'', ''add_column'', ''filter_rows'', ''filter'', ''filter_native'', ''apply_function'', ''function'',
       ''replace_values'', ''replace'', ''drop_columns'', ''drop''}"

fun planTransformRules :: "XRule list \<Rightarrow> transformStreamPlan option" where
  "planTransformRules [] = Some \<lparr>prefix = [], agg = None, suffix = []\<rparr>"
| "planTransformRules (r # rs) =
     (if streams r then map_option (\<lambda>p. p\<lparr>prefix := r # prefix p\<rparr>) (planTransformRules rs)
      else if rType r \<in> {''aggregate'', ''agg''} then Some \<lparr>prefix = [], agg = Some r, suffix = rs\<rparr>
      else None)"

section \<open>The loop over batches\<close>

text \<open>
  What the rules leave in the array of columns they were given: a rename writes into it, an added column too while there
  is room; the rules after a drop, or after an append with no room left, work on an array of their own. \<open>shares\<close> says
  that the batch keeps the array to the end.
\<close>

abbreviation drops_columns :: "XRule \<Rightarrow> bool" where
  "drops_columns r \<equiv> rType r \<in> {''drop_columns'', ''drop''}"

abbreviation renames_columns :: "XRule \<Rightarrow> bool" where
  "renames_columns r \<equiv> rType r \<in> {''rename_columns'', ''rename''}"

fun shares :: "nat \<Rightarrow> XRule list \<Rightarrow> bool" where
  "shares room [] \<longleftrightarrow> True"
| "shares room (r # rs) \<longleftrightarrow>
     (if drops_columns r then False
      else if rType r = ''add_column'' then room \<noteq> 0 \<and> shares (room - 1) rs
      else shares room rs)"

fun shared_array :: "nat \<Rightarrow> XRule list \<Rightarrow> string list \<Rightarrow> string list" where
  "shared_array room [] cols = cols"
| "shared_array room (r # rs) cols =
     (if drops_columns r then cols
      else if rType r = ''add_column'' then (if room = 0 then cols else shared_array (room - 1) rs (cols @ [rName r]))
      else if renames_columns r then shared_array room rs (map (renamed (Mapping r)) cols)
      else shared_array room rs cols)"

definition shared_after :: "nat \<Rightarrow> XRule list \<Rightarrow> string list \<Rightarrow> string list" where
  "shared_after room rules cols = take (length cols) (shared_array room rules cols)"

fun read_batches ::
  "xf_ops \<Rightarrow> nat \<Rightarrow> XRule list \<Rightarrow> string list \<Rightarrow> DataRow list list \<Rightarrow> (nat \<times> rule_error) + (DataSet list \<times> string list)" where
  "read_batches ops room rules shared [] = Inr ([], shared)"
| "read_batches ops room rules shared (b # bs) =
     (case ApplyTransforms ops rules \<lparr>Columns = shared, Rows = b\<rparr> of
        Inl e \<Rightarrow> Inl e
      | Inr ds \<Rightarrow>
          (case read_batches ops room rules (shared_after room rules shared) bs of
             Inl e \<Rightarrow> Inl e
           | Inr (dss, shared') \<Rightarrow> Inr (ds # dss, shared')))"

datatype stream_error = AggRefused agg_error | PrefixFailed nat rule_error | SuffixFailed nat rule_error

text \<open>
  The columns of the output are the slice of the first batch that has any, read when the loop has ended, or the columns
  of the reference. A first batch that shares its array with the others then reads what the last one wrote. The second part
  of the result is what the reference's columns are then. (A list of no columns is a nil slice wherever it arises, by a drop.)
\<close>

definition out_columns :: "nat \<Rightarrow> XRule list \<Rightarrow> DataSet list \<Rightarrow> string list \<Rightarrow> string list" where
  "out_columns room rules dss shared =
     (case find (\<lambda>ds. Columns ds \<noteq> []) dss of
        None \<Rightarrow> shared
      | Some ds \<Rightarrow> if shares room rules then Columns (last dss) else Columns ds)"

definition streamTransformToRef ::
  "xf_ops \<Rightarrow> (goval \<Rightarrow> string) \<Rightarrow> nat \<Rightarrow> transformStreamPlan \<Rightarrow> string list \<Rightarrow> DataRow list list \<Rightarrow> stream_error + (DataSet \<times> string list)" where
  "streamTransformToRef ops sv room plan cols batches =
     (case agg plan of
        None \<Rightarrow>
          (case read_batches ops room (prefix plan) cols batches of
             Inl (i, e) \<Rightarrow> Inl (PrefixFailed i e)
           | Inr (dss, shared) \<Rightarrow>
               Inr (\<lparr>Columns = out_columns room (prefix plan) dss shared, Rows = concat (map Rows dss)\<rparr>, shared))
      | Some r \<Rightarrow>
          (case newStreamAggState (TransformRule.truncate r) of
             Inl e \<Rightarrow> Inl (AggRefused e)
           | Inr st \<Rightarrow>
               (case read_batches ops room (prefix plan) cols batches of
                  Inl (i, e) \<Rightarrow> Inl (PrefixFailed i e)
                | Inr (dss, shared) \<Rightarrow>
                    (case ApplyTransforms ops (suffix plan) (finalize (xagg ops) (fold (fold_batch (xagg ops) sv) dss st)) of
                       Inl (i, e) \<Rightarrow> Inl (SuffixFailed i e)
                     | Inr final \<Rightarrow> Inr (if Columns final = [] then final\<lparr>Columns := shared\<rparr> else final, shared)))))"

section \<open>Rules that work row by row\<close>

text \<open>
  The contract of a step that streams: it succeeds on a dataset exactly when it succeeds on the parts, its rows are the
  rows of the parts, they do not depend on the columns, and \<open>C\<close> gives its columns.
\<close>

locale row_local =
  fixes F :: "DataSet \<Rightarrow> 'e + DataSet" and C :: "string list \<Rightarrow> string list"
  assumes columns: "F \<lparr>Columns = c, Rows = rows\<rparr> = Inr a \<Longrightarrow> Columns a = C c"
    and any_columns: "F \<lparr>Columns = c, Rows = rows\<rparr> = Inr a \<Longrightarrow> \<exists>b. F \<lparr>Columns = c', Rows = rows\<rparr> = Inr b \<and> Rows b = Rows a"
    and append: "F \<lparr>Columns = c, Rows = r1 @ r2\<rparr> = Inr d \<longleftrightarrow>
      (\<exists>a b. F \<lparr>Columns = c, Rows = r1\<rparr> = Inr a \<and> F \<lparr>Columns = c, Rows = r2\<rparr> = Inr b \<and> d = \<lparr>Columns = C c, Rows = Rows a @ Rows b\<rparr>)"
begin

lemma succeeds_eq:
  "F \<lparr>Columns = c, Rows = rows\<rparr> = Inr a \<Longrightarrow> F \<lparr>Columns = c', Rows = rows\<rparr> = Inr \<lparr>Columns = C c', Rows = Rows a\<rparr>"
  using any_columns[of c rows a c'] columns by (metis DataSet.cases DataSet.select_convs)

lemma whole_of_parts:
  assumes "bs \<noteq> []" "list_all2 (\<lambda>b x. F \<lparr>Columns = c, Rows = b\<rparr> = Inr x) bs xs"
  shows "F \<lparr>Columns = c, Rows = concat bs\<rparr> = Inr \<lparr>Columns = C c, Rows = concat (map Rows xs)\<rparr>"
  using assms
proof (induction bs arbitrary: xs rule: list_nonempty_induct)
  case (single b)
  then obtain x where "xs = [x]" "F \<lparr>Columns = c, Rows = b\<rparr> = Inr x" by (auto simp: list_all2_Cons1)
  then show ?case using succeeds_eq[of c b x c] by simp
next
  case (cons b bs)
  then obtain x xs' where xs: "xs = x # xs'" "F \<lparr>Columns = c, Rows = b\<rparr> = Inr x"
      "list_all2 (\<lambda>b x. F \<lparr>Columns = c, Rows = b\<rparr> = Inr x) bs xs'" by (auto simp: list_all2_Cons1)
  show ?case unfolding concat.simps append using xs(2) cons.IH[OF xs(3)] xs(1) by auto
qed

lemma parts_of_whole:
  "F \<lparr>Columns = c, Rows = concat bs\<rparr> = Inr d \<Longrightarrow> bs \<noteq> [] \<Longrightarrow> \<exists>xs. list_all2 (\<lambda>b x. F \<lparr>Columns = c, Rows = b\<rparr> = Inr x) bs xs"
proof (induction bs arbitrary: d)
  case (Cons b bs)
  obtain a e where ae: "F \<lparr>Columns = c, Rows = b\<rparr> = Inr a" "F \<lparr>Columns = c, Rows = concat bs\<rparr> = Inr e"
    using Cons.prems(1) unfolding concat.simps append by blast
  show ?case
  proof (cases "bs = []")
    case True
    then show ?thesis using ae(1) by auto
  next
    case False
    from Cons.IH[OF ae(2) this] show ?thesis using ae(1) by (auto simp: list_all2_Cons1)
  qed
qed simp

end

text \<open>A loop over the rows that appends to its output and stops at the first error.\<close>

definition per_row :: "('x \<Rightarrow> 'e) \<Rightarrow> (string list \<Rightarrow> string list) \<Rightarrow> (DataRow \<Rightarrow> 'x + DataRow list) \<Rightarrow> DataSet \<Rightarrow> 'e + DataSet" where
  "per_row h C g ds = (case each_row g (Rows ds) of Inl e \<Rightarrow> Inl (h e) | Inr ys \<Rightarrow> Inr \<lparr>Columns = C (Columns ds), Rows = concat ys\<rparr>)"

lemma each_row_append:
  "each_row g (xs @ ys) = (case each_row g xs of Inl e \<Rightarrow> Inl e | Inr a \<Rightarrow>
     (case each_row g ys of Inl e \<Rightarrow> Inl e | Inr b \<Rightarrow> Inr (a @ b)))"
  by (induction xs) (simp_all split: sum.split)

lemma each_row_total: "each_row (\<lambda>x. Inr (f x)) xs = Inr (map f xs)"
  by (induction xs) simp_all

interpretation per_rows: row_local "per_row h C g" C
proof (unfold_locales, goal_cases)
  case (1 c rows a)
  then show ?case by (auto simp: per_row_def split: sum.splits)
next
  case (2 c rows a c')
  then show ?case by (auto simp: per_row_def split: sum.splits)
next
  case (3 c r1 r2 d)
  show ?case by (cases "each_row g r1"; cases "each_row g r2") (auto simp: per_row_def each_row_append)
qed

lemma row_local_eq:
  assumes "\<And>ds. F ds = per_row h C g ds"
  shows "row_local F C"
proof -
  have "F = per_row h C g" using assms by blast
  then show ?thesis using per_rows.row_local_axioms by simp
qed

lemma concat_singles: "concat (map (\<lambda>x. [f x]) xs) = map f xs"
  by (induction xs) simp_all

lemma row_local_map: "(\<And>ds. F ds = Inr \<lparr>Columns = C (Columns ds), Rows = map f (Rows ds)\<rparr>) \<Longrightarrow> row_local F C"
  by (rule row_local_eq[of _ _ _ "\<lambda>row. Inr [f row]"]) (simp add: per_row_def each_row_total concat_singles)

interpretation renames: row_local "\<lambda>ds. Inr (renameColumns r ds)" "map (renamed (Mapping r))"
  by (rule row_local_map[of _ _ "fold rename_step (Mapping r)"]) (simp add: renameColumns_def)

interpretation adds: row_local "\<lambda>ds. Inr (addColumn ops r ds)" "\<lambda>c. c @ [rName r]"
  by (rule row_local_map[of _ _ "\<lambda>row. mput (rName r) (evalAddColumnExpression ops (Expression r) row) row"]) (simp add: addColumn_def)

interpretation replaces: row_local "\<lambda>ds. Inr (replaceValues ops r ds)" "\<lambda>c. c"
  by (rule row_local_map[of _ _ "replace_row ops r"]) (case_tac ds, simp add: replaceValues_def)

interpretation drops: row_local "\<lambda>ds. Inr (dropColumns r ds)" "filter (\<lambda>c. c \<notin> set (rColumns r))"
  by (rule row_local_map[of _ _ "fold mdel (rColumns r)"]) (simp add: dropColumns_def)

lemma row_local_fails: "row_local (\<lambda>_. Inl e) C"
  by unfold_locales simp_all

interpretation filters: row_local "filterRows ops r" "\<lambda>c. c"
proof (cases "newConditionMatcher (xagg ops) (rCondition r)")
  case (Inl e)
  then have "filterRows ops r = (\<lambda>_. Inl e)" by (simp add: filterRows_def fun_eq_iff)
  then show "row_local (filterRows ops r) (\<lambda>c. c)" using row_local_fails by metis
next
  case (Inr m)
  have filter: "concat (map (\<lambda>row. if p row then [row] else []) rows) = filter p rows" for p :: "DataRow \<Rightarrow> bool" and rows
    by (induction rows) simp_all
  show "row_local (filterRows ops r) (\<lambda>c. c)"
    by (rule row_local_eq[of _ "\<lambda>_. undefined" _ "\<lambda>row. Inr (if matches ops m row then [row] else [])"])
      (case_tac ds, simp add: filterRows_def Inr per_row_def each_row_total filter)
qed

interpretation funcs: row_local "applyFunction ops r" "\<lambda>c. c"
proof (rule row_local_eq[of _ "\<lambda>e. e" _ "\<lambda>row. map_sum (\<lambda>e. e) (\<lambda>x. [x]) (function_row ops r row)"])
  have "each_row (\<lambda>row. map_sum (\<lambda>e. e) (\<lambda>x. [x]) (f row)) rows = map_sum (\<lambda>e. e) (map (\<lambda>x. [x])) (each_row f rows)"
    for f :: "DataRow \<Rightarrow> rule_error + DataRow" and rows
    by (induction rows) (simp_all split: sum.split)
  then show "applyFunction ops r ds = per_row (\<lambda>e. e) (\<lambda>c. c) (\<lambda>row. map_sum (\<lambda>e. e) (\<lambda>x. [x]) (function_row ops r row)) ds" for ds
    by (cases ds) (simp add: applyFunction_def per_row_def concat_singles split: sum.split)
qed

interpretation predicates: row_local "filterNative ops r" "\<lambda>c. c"
proof (rule row_local_eq[of _ FilterPredicate _ "\<lambda>row. map_sum (\<lambda>e. e) (\<lambda>b. if b then [row] else []) (evalPredicate (xexpr ops) (Predicate r) row)"])
  have "(case each_row (\<lambda>row. map_sum (\<lambda>e. e) (\<lambda>b. if b then [row] else []) (f row)) rows of Inl e \<Rightarrow> Inl e | Inr ys \<Rightarrow> Inr (concat ys)) =
      (case each_row f rows of Inl e \<Rightarrow> Inl e | Inr keep \<Rightarrow> Inr (map fst (filter snd (zip rows keep))))"
    for f :: "DataRow \<Rightarrow> expr_error + bool" and rows
    by (induction rows) (auto split: sum.splits)
  note loop = this
  show "filterNative ops r ds =
      per_row FilterPredicate (\<lambda>c. c) (\<lambda>row. map_sum (\<lambda>e. e) (\<lambda>b. if b then [row] else []) (evalPredicate (xexpr ops) (Predicate r) row)) ds" for ds
    using loop[of "evalPredicate (xexpr ops) (Predicate r)" "Rows ds"]
    by (cases ds) (auto simp: filterNative_def per_row_def split: sum.splits)
qed

text \<open>Steps in sequence.\<close>

lemma row_local_then:
  assumes "row_local F C" "row_local G D"
  shows "row_local (\<lambda>ds. case F ds of Inl e \<Rightarrow> Inl (h e) | Inr a \<Rightarrow> G a) (\<lambda>c. D (C c))"
proof (unfold_locales, goal_cases)
  case (1 c rows a)
  then obtain b where "F \<lparr>Columns = c, Rows = rows\<rparr> = Inr b" "G b = Inr a" by (auto split: sum.splits)
  then show ?case using row_local.columns[OF assms(1)] row_local.columns[OF assms(2)] by (metis DataSet.cases DataSet.select_convs(1))
next
  case (2 c rows a c')
  then obtain b where b: "F \<lparr>Columns = c, Rows = rows\<rparr> = Inr b" "G \<lparr>Columns = C c, Rows = Rows b\<rparr> = Inr a"
    using row_local.columns[OF assms(1)] by (cases "F \<lparr>Columns = c, Rows = rows\<rparr>") (auto, metis DataSet.cases DataSet.select_convs)
  then show ?case using row_local.succeeds_eq[OF assms(1) b(1), of c'] row_local.succeeds_eq[OF assms(2) b(2), of "C c'"] by simp
next
  case (3 c r1 r2 d)
  show ?case
  proof (cases "\<exists>a b. F \<lparr>Columns = c, Rows = r1\<rparr> = Inr a \<and> F \<lparr>Columns = c, Rows = r2\<rparr> = Inr b")
    case True
    then obtain a b where ab: "F \<lparr>Columns = c, Rows = r1\<rparr> = Inr \<lparr>Columns = C c, Rows = a\<rparr>" "F \<lparr>Columns = c, Rows = r2\<rparr> = Inr \<lparr>Columns = C c, Rows = b\<rparr>"
      using row_local.columns[OF assms(1)] by (metis DataSet.cases DataSet.select_convs(1))
    then have "F \<lparr>Columns = c, Rows = r1 @ r2\<rparr> = Inr \<lparr>Columns = C c, Rows = a @ b\<rparr>" unfolding row_local.append[OF assms(1)] by simp
    then show ?thesis using ab row_local.append[OF assms(2), of "C c" a b d] by simp
  next
    case False
    then have "\<nexists>d. F \<lparr>Columns = c, Rows = r1 @ r2\<rparr> = Inr d" unfolding row_local.append[OF assms(1)] by blast
    then show ?thesis using False by (auto split: sum.splits)
  qed
qed

section \<open>Lists of rules\<close>

definition rule_columns :: "XRule \<Rightarrow> string list \<Rightarrow> string list" where
  "rule_columns r c =
     (if rType r \<in> {''rename_columns'', ''rename''} then map (renamed (Mapping r)) c
      else if rType r = ''add_column'' then c @ [rName r]
      else if rType r \<in> {''drop_columns'', ''drop''} then filter (\<lambda>x. x \<notin> set (rColumns r)) c
      else c)"

fun columns_after :: "XRule list \<Rightarrow> string list \<Rightarrow> string list" where
  "columns_after [] c = c"
| "columns_after (r # rs) c = columns_after rs (rule_columns r c)"

lemma row_local_applyRule:
  assumes "streams r"
  shows "row_local (applyRule ops r) (rule_columns r)"
proof (cases "transformRuleError r")
  case (Some e)
  then have "applyRule ops r = (\<lambda>_. Inl e)" by (simp add: applyRule_def fun_eq_iff)
  then show ?thesis using row_local_fails by metis
next
  case None
  consider "rType r \<in> {''rename_columns'', ''rename''}" | "rType r = ''add_column''" | "rType r \<in> {''filter_rows'', ''filter''}"
    | "rType r = ''filter_native''" | "rType r \<in> {''apply_function'', ''function''}" | "rType r \<in> {''replace_values'', ''replace''}"
    | "rType r \<in> {''drop_columns'', ''drop''}"
    using assms unfolding streams_def by blast
  then show ?thesis
  proof cases
    case 1
    then have "applyRule ops r = (\<lambda>ds. Inr (renameColumns r ds))" "rule_columns r = map (renamed (Mapping r))"
      by (auto simp: applyRule_def None rule_columns_def fun_eq_iff)
    then show ?thesis using renames.row_local_axioms by metis
  next
    case 2
    then have "applyRule ops r = (\<lambda>ds. Inr (addColumn ops r ds))" "rule_columns r = (\<lambda>c. c @ [rName r])"
      by (auto simp: applyRule_def None rule_columns_def fun_eq_iff)
    then show ?thesis using adds.row_local_axioms by metis
  next
    case 3
    then have "applyRule ops r = filterRows ops r" "rule_columns r = (\<lambda>c. c)"
      by (auto simp: applyRule_def None rule_columns_def fun_eq_iff)
    then show ?thesis using filters.row_local_axioms by metis
  next
    case 4
    then have "applyRule ops r = filterNative ops r" "rule_columns r = (\<lambda>c. c)"
      by (auto simp: applyRule_def None rule_columns_def fun_eq_iff)
    then show ?thesis using predicates.row_local_axioms by metis
  next
    case 5
    then have "applyRule ops r = applyFunction ops r" "rule_columns r = (\<lambda>c. c)"
      by (auto simp: applyRule_def None rule_columns_def fun_eq_iff)
    then show ?thesis using funcs.row_local_axioms by metis
  next
    case 6
    then have "applyRule ops r = (\<lambda>ds. Inr (replaceValues ops r ds))" "rule_columns r = (\<lambda>c. c)"
      by (auto simp: applyRule_def None rule_columns_def fun_eq_iff)
    then show ?thesis using replaces.row_local_axioms by metis
  next
    case 7
    then have "applyRule ops r = (\<lambda>ds. Inr (dropColumns r ds))" "rule_columns r = filter (\<lambda>c. c \<notin> set (rColumns r))"
      by (auto simp: applyRule_def None rule_columns_def fun_eq_iff)
    then show ?thesis using drops.row_local_axioms by metis
  qed
qed

lemma row_local_apply_from: "list_all streams rules \<Longrightarrow> row_local (apply_from ops i rules) (columns_after rules)"
proof (induction rules arbitrary: i)
  case Nil
  have "row_local (\<lambda>ds. Inr ds) (\<lambda>c. c)" by (rule row_local_map[of _ _ "\<lambda>x. x"]) simp
  moreover have "apply_from ops i [] = (\<lambda>ds. Inr ds)" "columns_after [] = (\<lambda>c. c)" by auto
  ultimately show ?case by metis
next
  case (Cons r rs)
  have "apply_from ops i (r # rs) = (\<lambda>ds. case applyRule ops r ds of Inl e \<Rightarrow> Inl (i, e) | Inr a \<Rightarrow> apply_from ops (Suc i) rs a)"
      "columns_after (r # rs) = (\<lambda>c. columns_after rs (rule_columns r c))" by auto
  then show ?case using row_local_then[OF row_local_applyRule[of r ops] Cons.IH[of "Suc i"], of "Pair i"] Cons.prems by simp
qed

lemma plan_parts:
  "planTransformRules rules = Some p \<Longrightarrow> list_all streams (prefix p) \<and>
     (case agg p of None \<Rightarrow> rules = prefix p | Some r \<Rightarrow> rules = prefix p @ r # suffix p \<and> rType r \<in> {''aggregate'', ''agg''})"
proof (induction rules arbitrary: p)
  case (Cons r rs)
  then show ?case by (cases "streams r") (auto split: if_splits option.splits)
qed auto

lemma shared_columns: "shares room rules \<Longrightarrow> list_all streams rules \<Longrightarrow> shared_array room rules c = columns_after rules c"
  by (induction rules arbitrary: c room) (auto simp: rule_columns_def split: if_splits)

section \<open>Streaming and batch\<close>

text \<open>The loop succeeds exactly when the rules succeed on every batch, whatever columns it is given, and leaves their rows.\<close>

lemma read_batches_parts:
  assumes "list_all streams rules" "read_batches ops room rules shared bs = Inr (dss, sh)"
  shows "\<exists>xs. list_all2 (\<lambda>b x. ApplyTransforms ops rules \<lparr>Columns = c, Rows = b\<rparr> = Inr x) bs xs \<and> map Rows dss = map Rows xs"
  using assms(2)
proof (induction bs arbitrary: shared dss)
  case (Cons b bs)
  then obtain ds dss' where ds: "ApplyTransforms ops rules \<lparr>Columns = shared, Rows = b\<rparr> = Inr ds"
      "read_batches ops room rules (shared_after room rules shared) bs = Inr (dss', sh)" "dss = ds # dss'"
    by (auto split: sum.splits)
  obtain xs where "list_all2 (\<lambda>b x. ApplyTransforms ops rules \<lparr>Columns = c, Rows = b\<rparr> = Inr x) bs xs" "map Rows dss' = map Rows xs"
    using Cons.IH[OF ds(2)] by blast
  moreover obtain x where "ApplyTransforms ops rules \<lparr>Columns = c, Rows = b\<rparr> = Inr x" "Rows x = Rows ds"
    using row_local.any_columns[OF row_local_apply_from[OF assms(1)]] ds(1) unfolding ApplyTransforms_def by metis
  ultimately show ?case using ds(3) by (intro exI[of _ "x # xs"]) simp
qed simp

lemma read_batches_succeed:
  assumes "list_all streams rules" "list_all2 (\<lambda>b x. ApplyTransforms ops rules \<lparr>Columns = c, Rows = b\<rparr> = Inr x) bs xs"
  shows "\<exists>dss sh. read_batches ops room rules shared bs = Inr (dss, sh) \<and> map Rows dss = map Rows xs"
  using assms(2)
proof (induction bs arbitrary: shared xs)
  case (Cons b bs)
  then obtain x xs' where x: "xs = x # xs'" "ApplyTransforms ops rules \<lparr>Columns = c, Rows = b\<rparr> = Inr x"
      "list_all2 (\<lambda>b x. ApplyTransforms ops rules \<lparr>Columns = c, Rows = b\<rparr> = Inr x) bs xs'" by (auto simp: list_all2_Cons1)
  obtain ds where "ApplyTransforms ops rules \<lparr>Columns = shared, Rows = b\<rparr> = Inr ds" "Rows ds = Rows x"
    using row_local.any_columns[OF row_local_apply_from[OF assms(1)]] x(2) unfolding ApplyTransforms_def by metis
  moreover obtain dss sh where "read_batches ops room rules (shared_after room rules shared) bs = Inr (dss, sh)" "map Rows dss = map Rows xs'"
    using Cons.IH[OF x(3)] by blast
  ultimately show ?case using x(1) by simp
qed simp

lemma read_batches_columns:
  assumes "list_all streams rules" "read_batches ops room rules shared bs = Inr (dss, sh)" "bs \<noteq> []"
  shows "dss \<noteq> [] \<and> Columns (hd dss) = columns_after rules shared \<and>
    Columns (last dss) = columns_after rules ((shared_after room rules ^^ (length bs - 1)) shared)"
  using assms(3,2)
proof (induction bs arbitrary: shared dss rule: list_nonempty_induct)
  case (single b)
  then show ?case using row_local.columns[OF row_local_apply_from[OF assms(1)]] by (auto simp: ApplyTransforms_def split: sum.splits)
next
  case (cons b bs)
  then obtain ds dss' where ds: "ApplyTransforms ops rules \<lparr>Columns = shared, Rows = b\<rparr> = Inr ds" "dss = ds # dss'"
      "read_batches ops room rules (shared_after room rules shared) bs = Inr (dss', sh)"
    by (auto split: sum.splits)
  have "Columns ds = columns_after rules shared"
    using row_local.columns[OF row_local_apply_from[OF assms(1)]] ds(1) unfolding ApplyTransforms_def by auto
  moreover obtain n where "length bs = Suc n" using cons.hyps by (cases bs) auto
  ultimately show ?case using cons.IH[OF ds(3)] ds(2) by (simp add: funpow_Suc_right del: funpow.simps)
qed

lemma apply_from_append:
  "apply_from ops i (xs @ ys) ds = (case apply_from ops i xs ds of Inl e \<Rightarrow> Inl e | Inr d \<Rightarrow> apply_from ops (i + length xs) ys d)"
  by (induction xs arbitrary: i ds) (simp_all split: sum.split)

lemma apply_from_start: "apply_from ops i rules ds = Inr d \<longleftrightarrow> apply_from ops j rules ds = Inr d"
  by (induction rules arbitrary: i j ds) (auto split: sum.splits)

lemma prefix_streams:
  assumes "list_all streams rules" "bs \<noteq> []"
  shows "ApplyTransforms ops rules \<lparr>Columns = cols, Rows = concat bs\<rparr> = Inr d \<longleftrightarrow>
    (\<exists>dss sh. read_batches ops room rules cols bs = Inr (dss, sh) \<and> d = \<lparr>Columns = columns_after rules cols, Rows = concat (map Rows dss)\<rparr>)"
proof
  assume d: "ApplyTransforms ops rules \<lparr>Columns = cols, Rows = concat bs\<rparr> = Inr d"
  obtain xs where xs: "list_all2 (\<lambda>b x. ApplyTransforms ops rules \<lparr>Columns = cols, Rows = b\<rparr> = Inr x) bs xs"
    using row_local.parts_of_whole[OF row_local_apply_from[OF assms(1)]] d assms(2) unfolding ApplyTransforms_def by metis
  then show "\<exists>dss sh. read_batches ops room rules cols bs = Inr (dss, sh) \<and> d = \<lparr>Columns = columns_after rules cols, Rows = concat (map Rows dss)\<rparr>"
    using read_batches_succeed[OF assms(1) xs, of room cols] d
      row_local.whole_of_parts[OF row_local_apply_from[OF assms(1)] assms(2) xs[unfolded ApplyTransforms_def]]
    unfolding ApplyTransforms_def by (metis sum.inject(2))
next
  assume "\<exists>dss sh. read_batches ops room rules cols bs = Inr (dss, sh) \<and> d = \<lparr>Columns = columns_after rules cols, Rows = concat (map Rows dss)\<rparr>"
  then obtain dss sh where r: "read_batches ops room rules cols bs = Inr (dss, sh)" "d = \<lparr>Columns = columns_after rules cols, Rows = concat (map Rows dss)\<rparr>" by blast
  obtain xs where xs: "list_all2 (\<lambda>b x. ApplyTransforms ops rules \<lparr>Columns = cols, Rows = b\<rparr> = Inr x) bs xs" "map Rows dss = map Rows xs"
    using read_batches_parts[OF assms(1) r(1), of cols] by blast
  then show "ApplyTransforms ops rules \<lparr>Columns = cols, Rows = concat bs\<rparr> = Inr d"
    using row_local.whole_of_parts[OF row_local_apply_from[OF assms(1)] assms(2) xs(1)[unfolded ApplyTransforms_def]] r(2)
    unfolding ApplyTransforms_def by metis
qed

text \<open>The columns come out the same when there are any and applying the rules to the columns they renamed changes nothing.\<close>

definition columns_settle :: "XRule list \<Rightarrow> string list \<Rightarrow> bool" where
  "columns_settle rules cols \<longleftrightarrow> list_ex drops_columns rules \<or>
     columns_after rules (take (length cols) (columns_after rules cols)) = columns_after rules cols"

lemma funpow_settles: "f (f x) = f x \<Longrightarrow> n \<noteq> 0 \<Longrightarrow> (f ^^ n) x = f x"
proof (induction n)
  case (Suc n)
  then show ?case by (cases n) simp_all
qed simp

lemma shares_no_drop: "shares room rules \<Longrightarrow> \<not> list_ex drops_columns rules"
  by (induction rules arbitrary: room) (auto split: if_splits)

lemma columns_grow: "shares room rules \<Longrightarrow> length c \<le> length (columns_after rules c)"
proof (induction rules arbitrary: c room)
  case (Cons r rs)
  then have "length c \<le> length (rule_columns r c)" by (auto simp: rule_columns_def split: if_splits)
  moreover obtain room' where "shares room' rs" using Cons.prems by (auto split: if_splits)
  ultimately show ?case using Cons.IH[of room' "rule_columns r c"] by simp
qed simp

lemma out_columns_settled:
  assumes "list_all streams rules" "read_batches ops room rules cols bs = Inr (dss, sh)" "bs \<noteq> []" "columns_settle rules cols"
    and "columns_after rules cols \<noteq> []"
  shows "out_columns room rules dss sh = columns_after rules cols"
proof -
  obtain ds dss' where dss: "dss = ds # dss'" "Columns ds = columns_after rules cols"
      "Columns (last dss) = columns_after rules ((shared_after room rules ^^ (length bs - 1)) cols)"
    using read_batches_columns[OF assms(1-3)] by (cases dss) auto
  have "Columns (last dss) = columns_after rules cols" if shares: "shares room rules"
  proof -
    let ?g = "shared_after room rules"
    have g: "?g c = take (length c) (columns_after rules c)" for c
      using shared_columns[OF shares assms(1)] by (simp add: shared_after_def)
    have settles: "columns_after rules (?g cols) = columns_after rules cols"
      using assms(4) shares_no_drop[OF shares] g by (simp add: columns_settle_def)
    have "length (?g cols) = length cols" using columns_grow[OF shares, of cols] g by simp
    then have "?g (?g cols) = ?g cols" using g[of "?g cols"] g[of cols] settles by simp
    then show ?thesis using dss(3) settles funpow_settles[of ?g cols "length bs - 1"] by (cases "length bs - 1 = 0") auto
  qed
  then show ?thesis using dss(1,2) assms(5) by (auto simp: out_columns_def)
qed

lemma aggregate_step:
  assumes "rType r \<in> {''aggregate'', ''agg''}"
  shows "newStreamAggState (TransformRule.truncate r) = Inr st \<Longrightarrow>
      applyRule ops r m = Inr (aggregate (xagg ops) (canonicalGroupKey ops) (TransformRule.truncate r) m)"
    and "newStreamAggState (TransformRule.truncate r) = Inl e \<Longrightarrow> \<exists>e. applyRule ops r m = Inl e"
proof -
  have "transformRuleError r = requireAggregation r"
    using assms by (auto simp: transformRuleError_def transformRuleRequirements_def)
  then have "applyRule ops r m = (case requireAggregation r of Some e \<Rightarrow> Inl e
      | None \<Rightarrow> Inr (aggregate (xagg ops) (canonicalGroupKey ops) (TransformRule.truncate r) m))"
    using assms unfolding applyRule_def Let_def by (elim insertE emptyE; simp split: option.split)
  then show "newStreamAggState (TransformRule.truncate r) = Inr st \<Longrightarrow>
      applyRule ops r m = Inr (aggregate (xagg ops) (canonicalGroupKey ops) (TransformRule.truncate r) m)"
    and "newStreamAggState (TransformRule.truncate r) = Inl e \<Longrightarrow> \<exists>e. applyRule ops r m = Inl e"
    by (auto simp: requireAggregation_def newStreamAggState_def split: if_splits)
qed

lemma aggregated_batch:
  assumes "rType r \<in> {''aggregate'', ''agg''}"
  shows "ApplyTransforms ops (xs @ r # ys) ds = Inr d \<longleftrightarrow>
    (\<exists>m st. ApplyTransforms ops xs ds = Inr m \<and> newStreamAggState (TransformRule.truncate r) = Inr st \<and>
      ApplyTransforms ops ys (aggregate (xagg ops) (canonicalGroupKey ops) (TransformRule.truncate r) m) = Inr d)"
proof (cases "apply_from ops 1 xs ds")
  case m: (Inr m)
  note start = apply_from_start[of ops "Suc (1 + length xs)" ys _ d 1]
  show ?thesis
  proof (cases "newStreamAggState (TransformRule.truncate r)")
    case (Inl e)
    then obtain e' where "applyRule ops r m = Inl e'" using aggregate_step(2)[OF assms] by blast
    then show ?thesis using m Inl unfolding ApplyTransforms_def apply_from_append by simp
  next
    case (Inr st)
    show ?thesis using m aggregate_step(1)[OF assms Inr, of ops m] Inr start unfolding ApplyTransforms_def apply_from_append by simp
  qed
qed (simp add: ApplyTransforms_def apply_from_append)

text \<open>
  C20. Streaming a transform gives what running it on the whole dataset gives: for a list of rules that has a streaming plan
  and an input cut into any batches, the streamed run succeeds exactly when the batch run does, with the same dataset.
  It holds for at least one batch, when the rules leave some column, when the two group keys of an aggregation tell the same
  rows apart, and, in a plan without aggregation, when applying the rules once more to the columns they have renamed changes
  nothing (no new name is itself renamed) or when a rule drops columns.
\<close>

theorem streamed_equals_batch:
  assumes "planTransformRules rules = Some plan" and "batches \<noteq> []"
    and "\<And>d. ApplyTransforms ops rules \<lparr>Columns = cols, Rows = concat batches\<rparr> = Inr d \<Longrightarrow> Columns d \<noteq> []"
    and "agg plan = None \<Longrightarrow> columns_settle (prefix plan) cols"
    and "\<And>r d. agg plan = Some r \<Longrightarrow> ApplyTransforms ops (prefix plan) \<lparr>Columns = cols, Rows = concat batches\<rparr> = Inr d \<Longrightarrow>
      same_partition (stream_key sv (GroupBy r)) (\<lambda>row. canonicalGroupKey ops (map (mget row) (GroupBy r))) (Rows d)"
  shows "(\<exists>sh. streamTransformToRef ops sv room plan cols batches = Inr (d, sh)) \<longleftrightarrow>
    ApplyTransforms ops rules \<lparr>Columns = cols, Rows = concat batches\<rparr> = Inr d"
proof (cases "agg plan")
  case None
  then have rules: "list_all streams rules" "prefix plan = rules" using plan_parts[OF assms(1)] by auto
  have "out_columns room rules dss sh = columns_after rules cols" if "read_batches ops room rules cols batches = Inr (dss, sh)" for dss sh
    using out_columns_settled[OF rules(1) that assms(2)] prefix_streams[OF rules(1) assms(2), of ops cols _ room] that assms(3,4) None rules(2) by fastforce
  then show ?thesis unfolding prefix_streams[OF rules(1) assms(2), of ops cols d room] streamTransformToRef_def None rules(2)
    by (auto split: sum.splits)
next
  case (Some r)
  then have rules: "list_all streams (prefix plan)" "rules = prefix plan @ r # suffix plan" "rType r \<in> {''aggregate'', ''agg''}"
    using plan_parts[OF assms(1)] by auto
  let ?in = "\<lparr>Columns = cols, Rows = concat batches\<rparr>" and ?t = "TransformRule.truncate r"
  note batch = aggregated_batch[OF rules(3), of ops "prefix plan" "suffix plan" ?in, folded rules(2)]
  have final: "finalize (xagg ops) (fold (fold_batch (xagg ops) sv) dss st) =
      aggregate (xagg ops) (canonicalGroupKey ops) ?t \<lparr>Columns = columns_after (prefix plan) cols, Rows = concat (map Rows dss)\<rparr>"
    if "read_batches ops room (prefix plan) cols batches = Inr (dss, sh)" "newStreamAggState ?t = Inr st" for dss sh st
  proof (rule stream_aggregate_equivalent[OF that(2) refl])
    have "ApplyTransforms ops (prefix plan) ?in = Inr \<lparr>Columns = columns_after (prefix plan) cols, Rows = concat (map Rows dss)\<rparr>"
      using prefix_streams[OF rules(1) assms(2)] that(1) by blast
    from assms(5)[OF Some this] show "same_partition (stream_key sv (GroupBy ?t)) (\<lambda>row. canonicalGroupKey ops (map (mget row) (GroupBy ?t))) (concat (map Rows dss))"
      by simp
  qed
  have columns: "Columns d' \<noteq> []" if "read_batches ops room (prefix plan) cols batches = Inr (dss, sh)" "newStreamAggState ?t = Inr st"
      "ApplyTransforms ops (suffix plan) (finalize (xagg ops) (fold (fold_batch (xagg ops) sv) dss st)) = Inr d'" for dss sh st d'
    using assms(3)[of d'] that final[OF that(1,2)] unfolding batch prefix_streams[OF rules(1) assms(2), of ops cols _ room] by auto
  show ?thesis
    unfolding batch prefix_streams[OF rules(1) assms(2), of ops cols _ room] streamTransformToRef_def Some
    using final columns by (auto split: sum.splits)
qed

definition sum_rule :: XRule where
  "sum_rule = blank_rule\<lparr>rType := ''aggregate'', GroupBy := [''k''], AggFields := [\<lparr>aColumn = ''v'', aFunction = ''sum'', aAlias = []\<rparr>]\<rparr>"

lemma aggregate_columns: "Columns (aggregate ops gk r ds) = GroupBy r @ map field_name (rule_fields r)"
  by (simp add: aggregate_def Let_def split: prod.split)

definition joined_key :: "goval list \<Rightarrow> string" where
  "joined_key vs = concat (map (sprint_v demo_ff) vs)"

lemma demo_plan: "planTransformRules [rename_rule [(''a'', ''k'')], sum_rule] = Some \<lparr>prefix = [rename_rule [(''a'', ''k'')]], agg = Some sum_rule, suffix = []\<rparr>"
  by code_simp

lemma demo_prefix:
  "ApplyTransforms ops [rename_rule [(''a'', ''k'')]] \<lparr>Columns = [''a'', ''v''],
     Rows = concat [[[(''a'', VStr ''x''), (''v'', VInt64 1)]], [[(''a'', VStr ''y''), (''v'', VInt64 2)], [(''a'', VStr ''x''), (''v'', VInt64 3)]]]\<rparr> =
   Inr \<lparr>Columns = [''k'', ''v''], Rows = [[(''v'', VInt64 1), (''k'', VStr ''x'')], [(''v'', VInt64 2), (''k'', VStr ''y'')], [(''v'', VInt64 3), (''k'', VStr ''x'')]]\<rparr>"
  by code_simp

theorem streamed_equals_batch_witness:
  "\<forall>ops room d. (\<exists>sh. streamTransformToRef (ops\<lparr>canonicalGroupKey := joined_key\<rparr>) (sprint_v demo_ff) room
       \<lparr>prefix = [rename_rule [(''a'', ''k'')]], agg = Some sum_rule, suffix = []\<rparr> [''a'', ''v'']
       [[[(''a'', VStr ''x''), (''v'', VInt64 1)]], [[(''a'', VStr ''y''), (''v'', VInt64 2)], [(''a'', VStr ''x''), (''v'', VInt64 3)]]] = Inr (d, sh)) \<longleftrightarrow>
     ApplyTransforms (ops\<lparr>canonicalGroupKey := joined_key\<rparr>) [rename_rule [(''a'', ''k'')], sum_rule] \<lparr>Columns = [''a'', ''v''],
       Rows = concat [[[(''a'', VStr ''x''), (''v'', VInt64 1)]], [[(''a'', VStr ''y''), (''v'', VInt64 2)], [(''a'', VStr ''x''), (''v'', VInt64 3)]]]\<rparr> = Inr d"
proof (intro allI, rule streamed_equals_batch[OF demo_plan], goal_cases)
  case (2 ops room d d')
  then show ?case
    using aggregated_batch[of sum_rule "ops\<lparr>canonicalGroupKey := joined_key\<rparr>" "[rename_rule [(''a'', ''k'')]]" "[]", simplified append_Cons append_Nil]
    by (auto simp: sum_rule_def aggregate_columns ApplyTransforms_def)
next
  case (4 ops room d r m)
  have "same_partition (stream_key (sprint_v demo_ff) [''k'']) (\<lambda>row. joined_key (map (mget row) [''k''])) (Rows m)"
    using 4(2) unfolding transformStreamPlan.simps demo_prefix by (intro text_keys_partition) (auto simp: joined_key_def mget_def)
  then show ?case using 4(1) by (auto simp: sum_rule_def)
qed simp_all

text \<open>
  The side condition on renames is needed. Renaming b to c and then a to b turns the columns a, b into b, c. The second
  batch gets them already renamed, and the streamed output has the column c twice and no b, though its rows have
  a b; the columns of the reference the batches came from, which other nodes read, are overwritten too.
\<close>

lemma streamed_rename_overwrites:
  "streamTransformToRef ops sv room \<lparr>prefix = [rename_rule [(''b'', ''c'')], rename_rule [(''a'', ''b'')]], agg = None, suffix = []\<rparr> [''a'', ''b'']
     [[[(''a'', VInt 1), (''b'', VInt 2)]], [[(''a'', VInt 3), (''b'', VInt 4)]]] =
   Inr (\<lparr>Columns = [''c'', ''c''], Rows = [[(''c'', VInt 2), (''b'', VInt 1)], [(''c'', VInt 4), (''b'', VInt 3)]]\<rparr>, [''c'', ''c''])"
  by code_simp

lemma streamed_rename_once:
  "ApplyTransforms ops [rename_rule [(''b'', ''c'')], rename_rule [(''a'', ''b'')]]
     \<lparr>Columns = [''a'', ''b''], Rows = [[(''a'', VInt 1), (''b'', VInt 2)], [(''a'', VInt 3), (''b'', VInt 4)]]\<rparr> =
   Inr \<lparr>Columns = [''b'', ''c''], Rows = [[(''c'', VInt 2), (''b'', VInt 1)], [(''c'', VInt 4), (''b'', VInt 3)]]\<rparr>"
  by code_simp

text \<open>An input with no batch keeps the columns it had, and so does one whose every column is dropped.\<close>

lemma streamed_nothing_keeps_columns:
  "agg plan = None \<Longrightarrow> streamTransformToRef ops sv room plan cols [] = Inr (\<lparr>Columns = cols, Rows = []\<rparr>, cols)"
  by (simp add: streamTransformToRef_def out_columns_def)

lemma streamed_drop_keeps_columns:
  "streamTransformToRef ops sv room \<lparr>prefix = [drop_rule ''a''], agg = None, suffix = []\<rparr> [''a''] [[[(''a'', VInt 1)]]] =
     Inr (\<lparr>Columns = [''a''], Rows = [[]]\<rparr>, [''a''])"
  by code_simp

end
