(* ===== verification/Spec2Isabelle.thy ===== *)
theory Spec2Isabelle
  imports Sodp_Server Sodp_History Tenancy Task_Sound Dag_Progress Pipe_Cycle Pipe_Validate Retry_Policy
    Cron_Scheduler Recovery_Pass Data_Schema Data_Quality Data_Stream
begin

text \<open>
  Brokoli is a data-pipeline platform written in Go. Users save pipelines, directed graphs of nodes; the engine
  validates them, schedules them, runs their nodes in waves, records what happened in an append-only log, recovers runs
  that a dead process left behind, and pushes the state of runs to browsers over a WebSocket protocol (SODP). This
  development models the parts of it that decide something, each in a theory of its own, and proves the properties
  that make them correct. It is about the sources under \<^verbatim>\<open>src/\<close>; names of definitions are the names of the Go
  functions and types, with lower-case helpers for the loops and blocks inside them.

  \<^bold>\<open>How the parts interact.\<close> A save calls \<^verbatim>\<open>ValidatePipeline\<close> and \<^verbatim>\<open>DetectDependencyCycle\<close>. The cron scheduler
  and the backfill derive the data interval of a tick and start a run once \<^verbatim>\<open>CheckDependencies\<close> passes.
  \<^verbatim>\<open>Runner.Execute\<close> runs the graph wave by wave; \<^verbatim>\<open>executeNode\<close> retries a node, claims a lease for every attempt
  and writes a row and an event for every change. Nodes hand datasets to each other through transforms, joins, unions,
  conditions and quality checks. After a crash the recovery pass reads the log and the leases and settles or re-queues
  each run. The SODP server shows the states; the tenancy scope decides what a request may list, read or change.

  \<^bold>\<open>Conventions.\<close> \<open>Go_Prelude\<close> has Go's dynamic values (\<open>goval\<close>), maps as association lists whose order stands for
  one iteration order of \<^verbatim>\<open>range\<close> (theorems hold for every such order), the parts of \<^verbatim>\<open>strings\<close> and \<^verbatim>\<open>fmt\<close>
  that are used, 64-bit wrap-around (\<open>i64\<close>) and \<^verbatim>\<open>float64\<close> as a rational, an infinity or NaN. Structs are records,
  tagged constants are datatypes, errors are values of sum types with one constructor for each message, and a mutex or a
  single SQL statement is one atomic step.

  \<^bold>\<open>The real-time protocol\<close> (\<^verbatim>\<open>src/pkg/sodp\<close>).
  \<^item> \<open>Sodp_Delta\<close> (\<^verbatim>\<open>delta.go\<close>): replaying \<^verbatim>\<open>Diff\<close> on the old value gives the new one.
  \<^item> \<open>Sodp_State\<close>, \<open>Sodp_History\<close> (\<^verbatim>\<open>state.go\<close>): the ring log implements the locale \<open>bounded_log\<close>; in every
    reachable store a non-empty answer to a resume is the whole history of the key after the client's version, back to
    its last eviction; it brings a client that holds the value of that history to the stored one. A client whose value
    is older than an eviction can be led astray.
  \<^item> \<open>Sodp_Fanout\<close>, \<open>Sodp_Session\<close>, \<open>Sodp_Server\<close> (\<^verbatim>\<open>fanout.go\<close>, \<^verbatim>\<open>session.go\<close>, \<^verbatim>\<open>frame.go\<close>,
    \<^verbatim>\<open>server.go\<close>): every handler of a frame; subscriptions are authorised, clients never write, and broadcasts stay in
    their organization. Message encoding and token verification are parameters.
  \<^item> \<open>Tenancy\<close> (\<^verbatim>\<open>src/pkg/tenancy/scope.go\<close>): a scope isolates organizations and workspaces.

  \<^bold>\<open>Task interfaces\<close> (\<^verbatim>\<open>src/pkg/taskinterface\<close>). \<open>Task_Type\<close>, \<open>Task_Assign\<close> and \<open>Task_Value\<close> have the
  descriptors, the assignability check, the validation of values and the resolution of parameters; \<open>Task_Sound\<close> shows
  that an assignable verdict carries every valid value over. Regular expressions, base64, times and big decimals are
  parameters. Verdicts and checks are both interpretations of the locale \<open>conjunctive\<close>.

  \<^bold>\<open>Pipelines.\<close>
  \<^item> \<open>Dag_Order\<close> (\<^verbatim>\<open>topoSort\<close>, \<^verbatim>\<open>topoWaves\<close>): both implement the locale \<open>topological\<close>.
  \<^item> \<open>Dag_Schedule\<close>, \<open>Dag_Progress\<close> (the wave loop of \<^verbatim>\<open>Execute\<close> in \<^verbatim>\<open>runner.go\<close>): the loop refines a
    specification of which nodes execute (\<open>executes\<close>) and does not depend on the order of completion.
  \<^item> \<open>Pipe_Model\<close>, \<open>Pipe_Validate\<close> (\<^verbatim>\<open>validate.go\<close>, \<^verbatim>\<open>models/pipeline.go\<close>): what an accepted pipeline
    guarantees. The theorems of this theory join it to the scheduler: an accepted pipeline runs to its end.
  \<^item> \<open>Pipe_Deps\<close>, \<open>Pipe_Cycle\<close> (\<^verbatim>\<open>dependency.go\<close>, \<^verbatim>\<open>dependencies.go\<close>): the gate, and a cycle check that finds a
    cycle exactly when there is one and keeps the stored graph acyclic.

  \<^bold>\<open>Schedules and runs.\<close>
  \<^item> \<open>Tick_Interval\<close>, \<open>Cron_Scheduler\<close> (\<^verbatim>\<open>interval.go\<close>, \<^verbatim>\<open>backfill.go\<close>, \<^verbatim>\<open>scheduler.go\<close>): data intervals,
    their enumeration, catch-up of missed ticks, the table of registered pipelines and the agreement of a backfill with
    the runs the scheduler starts, where both work in one time zone. The cron library is a function with the law
    \<open>cron_law\<close>; the location of an instant is an argument where a schedule has no time zone of its own.
  \<^item> \<open>Retry_Policy\<close> (\<^verbatim>\<open>retry.go\<close>, the attempt loop of \<^verbatim>\<open>executeNode\<close>): attempts end, by success, by the
    last error or by a cancellation during a wait, and bounds of the delay.
  \<^item> \<open>Exec_Lease\<close> (\<^verbatim>\<open>ExecutionAttemptStore\<close> as the locale \<open>attempt_store\<close>, interpreted on the SQLite store): no
    attempt has two owners and a fenced worker cannot settle it.
  \<^item> \<open>Run_Events\<close> (\<^verbatim>\<open>run_event.go\<close>, \<^verbatim>\<open>projection.go\<close> and all writers): replaying the log gives the rows of the
    nodes whose attempt was announced; the writers that leave a row without its event are told apart.
  \<^item> \<open>Run_Recovery\<close>, \<open>Recovery_Pass\<close> (\<^verbatim>\<open>recovery.go\<close>, \<^verbatim>\<open>recovery_requeue.go\<close>): recovery leaves live owners
    alone, its verdicts follow the log, re-queueing is bounded, after which a run ends, and never repeats an external
    write, and a pass examines every run that its listing selects once.

  \<^bold>\<open>Data.\<close>
  \<^item> \<open>Data_Key\<close>, \<open>Data_Join\<close>, \<open>Data_Agg\<close> (\<^verbatim>\<open>value_key.go\<close>, \<^verbatim>\<open>join.go\<close>, \<^verbatim>\<open>union.go\<close>, \<^verbatim>\<open>stream_agg.go\<close>): the
    hash join is a nested loop; aggregation by batches equals aggregation at once (both interpret \<open>grouping\<close>).
  \<^item> \<open>Cond_Expr\<close> (\<^verbatim>\<open>condition.go\<close>): condition expressions.
  \<^item> \<open>Data_Sort\<close>, \<open>Data_Transform\<close> (\<^verbatim>\<open>transform.go\<close>, \<^verbatim>\<open>transform_requirements.go\<close>): the sort is the stable sort by
    the numbers that the texts of the cells denote, whichever form the code keeps them in; every rule, and that rows stay within their columns.
  \<^item> \<open>Data_Stream\<close> (\<^verbatim>\<open>planTransformRules\<close>, \<^verbatim>\<open>streamTransformToRef\<close>): a streamed transform gives what the whole
    dataset gives (locale \<open>row_local\<close>, interpreted on each rule that streams), and where the shared columns break that.
  \<^item> \<open>Data_Expr\<close> (\<^verbatim>\<open>expression.go\<close>, \<^verbatim>\<open>column_lineage.go\<close>): expressions, and that lineage reports what they read.
  \<^item> \<open>Data_Schema\<close> (\<^verbatim>\<open>node_schema.go\<close>, \<^verbatim>\<open>runTransform\<close>): the column types that a node hands on are those its
    values have.
  \<^item> \<open>Data_Quality\<close> (\<^verbatim>\<open>src/quality\<close>, \<^verbatim>\<open>assertions.go\<close>, \<^verbatim>\<open>runQualityCheck\<close>): the gate passes data exactly
    when the checks that block hold.

  \<^bold>\<open>Loops, fuel and bounds.\<close> Loops whose end the code guarantees are total functions with a measure: the queue of
  \<^verbatim>\<open>topoSort\<close>, the scan and wave loops of \<^verbatim>\<open>Execute\<close>, the attempt loop, the pages of recovery, the search for a
  fresh column name, and the walks over decoded JSON. \<^verbatim>\<open>walkForCycle\<close> has fuel, two more than the identifiers of the graph counted with repetition,
  and it is proved never to run out. The searches along a schedule (\<open>seek\<close>, \<open>walk\<close>, \<open>count_missed\<close>, \<open>keep_missed\<close>)
  are partial functions, since a schedule without further ticks would end them only by the law of the library; that they
  return is part of the theorems.

  \<^bold>\<open>Parameters.\<close> What is not under \<^verbatim>\<open>src/\<close> or has no model in HOL is an argument, with what is relied on as a named
  hypothesis: float arithmetic and float texts, regular expressions, message packing and tokens, the cron library, time
  zones, JSON decoding of records, queries of the store that belong to another component, and the execution of a node.

  \<^bold>\<open>Not modelled.\<close> SQL text and the PostgreSQL store (the SQLite statements that a modelled component calls are
  modelled with it); the HTTP handlers and the command line, which pass requests on; connectors, file transports,
  language runtimes and the native worker, which are input and output; cryptography and secret stores; goroutines and
  concurrency slots of the engine, whose effects on rows and events are modelled as steps in any order; the storage
  and encodings of streamed datasets; the pushdown of transforms to SQL, whose result depends on a database; the web interface, which is not Go.
\<close>

section \<open>From validation to execution\<close>

text \<open>
  What the scheduler's environment is taken to do: every node succeeds and every condition node
  returns a decision, skips are persisted, a wave completes in some order, and nobody cancels.
\<close>

definition steady :: "env \<Rightarrow> Node list \<Rightarrow> bool" where
  "steady env nodes \<longleftrightarrow>
     (\<forall>n \<in> set nodes. \<exists>d. executeNode env n = Inr d) \<and>
     (\<forall>n \<in> set nodes. nType n = ''condition'' \<longrightarrow> (\<exists>b. executeNode env n = Inr (Some b))) \<and>
     (\<forall>n \<in> set nodes. persistSkippedNode env n = None) \<and>
     (\<forall>xs. mset (completionOrder env xs) = mset xs) \<and>
     (\<forall>w. \<not> ctxErr env w) \<and> (\<forall>w. \<not> ctxErrScan env w) \<and> \<not> ctxErrEnd env"

text \<open>Validation gives the scheduler what it needs of the conditional edges.\<close>

lemma steady_env_ok:
  assumes "ValidatePipeline h p = []" "steady env (plain_nodes p)"
  shows "env_ok env routing (plain_nodes p) (plain_edges p)"
proof -
  have "nType (nodeMap (plain_nodes p) (From e)) = ''condition'' \<and>
      (\<exists>b. executeNode env (nodeMap (plain_nodes p) (From e)) = Inr (Some b))"
    if e: "e \<in> set (plain_edges p)" "Condition e \<noteq> None" for e
  proof -
    have "nType (nodeMap (plain_nodes p) (From e)) = ''condition''" using validated_edge[OF assms(1) e(1)] e(2) by blast
    moreover have "nodeMap (plain_nodes p) (From e) \<in> set (plain_nodes p)"
      using nodeMap_id validated_graph(1)[OF assms(1)] e(1) unfolding well_graph_def by blast
    ultimately show ?thesis using assms(2) unfolding steady_def by blast
  qed
  then show ?thesis using assms(2) unfolding env_ok_def steady_def by blast
qed

text \<open>
  C15. A pipeline that validation accepts and whose version does not route runs to the end: when
  its nodes succeed, the scheduler finishes with every node executed. It neither stalls nor
  reports a cycle, a missing join input or an internal error, whatever the completion order.
\<close>

theorem validated_pipeline_finishes:
  assumes "ValidatePipeline h p = []" and "IRVersion p \<noteq> ''2.1''" and "steady env (plain_nodes p)"
  shows "\<exists>st. Execute env (IRVersion p = ''2.1'') (plain_nodes p) (plain_edges p) = Finished st \<and>
    (\<forall>n \<in> set (plain_nodes p). nodeStates st (nID n) = nodeExecuted)"
  using Execute_all_nodes[OF steady_env_ok[OF assms(1,3)] validated_graph[OF assms(1)]] assms(2) by simp

definition steady_env :: env where
  "steady_env = \<lparr>executeNode = (\<lambda>_. Inr (Some True)), persistSkippedNode = (\<lambda>_. None), completionOrder = rev,
     ctxErr = (\<lambda>_. False), ctxErrScan = (\<lambda>_. False), ctxErrEnd = False\<rparr>"

lemma steady_steady_env: "steady steady_env nodes"
  by (auto simp: steady_def steady_env_def)

theorem validated_pipeline_finishes_witness:
  "\<exists>st. Execute steady_env False (plain_nodes demo_pipeline) (plain_edges demo_pipeline) = Finished st \<and>
     (\<forall>n \<in> set (plain_nodes demo_pipeline). nodeStates st (nID n) = nodeExecuted)"
proof -
  have "IRVersion demo_pipeline \<noteq> ''2.1''" by (simp add: demo_pipeline_def)
  then show ?thesis using validated_pipeline_finishes[OF demo_valid _ steady_steady_env] by simp
qed

text \<open>
  C19. Take a pipeline that validation accepts and whose version routes, and an environment in which every node succeeds, every
  condition node returns a decision, skips are persisted and nobody cancels. Its run ends in one of three ways: with every
  node executed or skipped as the specification of routing says, or, when some branch is not taken, on a join with an
  inactive input or in the stall without unresolved nodes. The errors for a conditional edge that leaves no condition node
  and for the bookkeeping of edges cannot occur, since validation excludes them.
\<close>

theorem validated_pipeline_routes:
  assumes "ValidatePipeline h p = []" and "IRVersion p = ''2.1''" and "steady env (plain_nodes p)"
    and "live = edge_live env True (plain_nodes p) (plain_edges p)"
  shows "(\<exists>st. Execute env True (plain_nodes p) (plain_edges p) = Finished st \<and>
      (\<forall>n \<in> set (plain_nodes p). nodeStates st (nID n) =
        (if executes live (plain_edges p) (nID n) then nodeExecuted else nodeSkipped))) \<or>
    (\<exists>i < length (plain_edges p). \<not> live i) \<and>
      (Execute env True (plain_nodes p) (plain_edges p) = FailedRun (Stalled []) \<or>
       (\<exists>v a k. Execute env True (plain_nodes p) (plain_edges p) = FailedRun (JoinInactive v a k)))"
  using Execute_spec[OF steady_env_ok[OF assms(1,3), of True] validated_graph[OF assms(1)]] unfolding assms(4) by blast

definition routed_pipeline :: VPipeline where
  "routed_pipeline = demo_pipeline\<lparr>IRVersion := ''2.1'',
     Nodes := [\<lparr>nID = ''a'', nType = ''source_file'', nName = ''read'', Config = [], Interface = None, Capabilities = []\<rparr>,
               \<lparr>nID = ''c'', nType = ''condition'', nName = ''any rows'', Config = [(''expression'', VStr ''row_count > 0'')], Interface = None,
                 Capabilities = []\<rparr>,
               \<lparr>nID = ''t'', nType = ''sink_file'', nName = ''write'', Config = [], Interface = None, Capabilities = []\<rparr>,
               \<lparr>nID = ''f'', nType = ''sink_file'', nName = ''report'', Config = [], Interface = None, Capabilities = []\<rparr>],
     Edges := [\<lparr>From = ''a'', To = ''c'', Condition = None, FromPort = [], ToPort = []\<rparr>,
               \<lparr>From = ''c'', To = ''t'', Condition = Some True, FromPort = [], ToPort = []\<rparr>,
               \<lparr>From = ''c'', To = ''f'', Condition = Some False, FromPort = [], ToPort = []\<rparr>]\<rparr>"

lemma routed_run:
  "case Execute steady_env True (plain_nodes routed_pipeline) (plain_edges routed_pipeline) of
     Finished st \<Rightarrow> nodeStates st ''t'' = nodeExecuted \<and> nodeStates st ''f'' = nodeSkipped
   | _ \<Rightarrow> False"
  by code_simp

theorem validated_pipeline_routes_witness:
  "\<exists>st. Execute steady_env True (plain_nodes routed_pipeline) (plain_edges routed_pipeline) = Finished st \<and>
     (\<forall>n \<in> set (plain_nodes routed_pipeline). nodeStates st (nID n) =
        (if executes (edge_live steady_env True (plain_nodes routed_pipeline) (plain_edges routed_pipeline)) (plain_edges routed_pipeline) (nID n)
         then nodeExecuted else nodeSkipped)) \<and> nodeStates st ''f'' = nodeSkipped"
proof -
  have "case ValidatePipeline demo_host routed_pipeline of [] \<Rightarrow> True | _ \<Rightarrow> False" by code_simp
  then have v: "ValidatePipeline demo_host routed_pipeline = []" by (auto split: list.splits)
  have "IRVersion routed_pipeline = ''2.1''" by (simp add: routed_pipeline_def)
  from validated_pipeline_routes[OF v this steady_steady_env refl] routed_run show ?thesis by auto
qed

end
